(* ===== verification/Prelude.thy ===== *)
theory Prelude
  imports Main "HOL-Library.Word"
begin

text \<open>
  The prelude of the development: the machine types of the C sources, the model of a
  NUL-terminated string, the lemma collections the component theories share and the
  generic facts on lists and words that more than one component needs.

  A C \<open>unsigned char\<close> is an 8-bit word and a C \<open>int\<close> a 32-bit word where wrap-around or
  the sign bit matters; where a count is bounded by the size of an object in memory it is a
  \<open>nat\<close>.  A C string is the list of its bytes without the terminator; \<open>zat s i\<close> is the
  byte \<open>z[i]\<close>, with the terminator at index \<open>length s\<close>.
\<close>

type_synonym u8 = "8 word"
type_synonym u32 = "32 word"
type_synonym cstring = "u8 list"

named_theorems byte_simps \<open>evaluation of byte tables and byte tests\<close>
named_theorems wf_intros \<open>introduction rules for the well-formedness invariants\<close>

definition zat :: "cstring \<Rightarrow> nat \<Rightarrow> u8" where
  "zat s i = (if i < length s then s ! i else 0)"

lemma zat_simps [simp]:
  "zat [] i = 0"
  "zat (c # s) 0 = c"
  "zat (c # s) (Suc i) = zat s i"
  by (simp_all add: zat_def)

lemma zat_drop: "i \<le> length s \<Longrightarrow> zat (drop i s) j = zat s (i + j)"
  by (auto simp: zat_def)

text \<open>A string literal of the source, as bytes.\<close>

definition cstr :: "string \<Rightarrow> cstring" where
  "cstr s = map of_char s"

lemma cstr_simps [simp]:
  "cstr [] = []"
  "cstr (c # cs) = of_char c # cstr cs"
  by (simp_all add: cstr_def)

lemma length_cstr [simp]: "length (cstr s) = length s"
  by (simp add: cstr_def)

lemma all_u8_induct: "(\<forall>n < 256. P (of_nat n :: u8)) \<Longrightarrow> P b"
proof -
  assume "\<forall>n < 256. P (of_nat n :: u8)"
  moreover have "unat b < 256" using unsigned_less [of b] by simp
  ultimately have "P (of_nat (unat b))" by blast
  then show ?thesis by simp
qed

lemma unat_u8_less [simp, intro]: "unat (b :: u8) < 256"
  using unsigned_less [of b] by simp

lemma uint_u8_eq [simp]: "uint (a :: u8) = uint b \<longleftrightarrow> a = b"
  by (simp add: word_uint_eq_iff)

lemma uint_u8_eq_0 [simp]: "uint (a :: u8) = 0 \<longleftrightarrow> a = 0"
  by (simp add: word_uint_eq_iff)

lemma uint_u8_less [simp]: "uint (a :: u8) < uint b \<longleftrightarrow> a < b"
  by (simp add: word_less_def)

lemma uint_u8_le [simp]: "uint (a :: u8) \<le> uint b \<longleftrightarrow> a \<le> b"
  by (simp add: word_le_def)

lemma uint_u8_diff [simp]:
  "uint (a :: u8) - uint b < 0 \<longleftrightarrow> a < b"
  "uint (a :: u8) - uint b = 0 \<longleftrightarrow> a = b"
  "0 < uint (a :: u8) - uint b \<longleftrightarrow> b < a"
  by auto

text \<open>The result codes of \<^verbatim>\<open>sqlite.h\<close>.\<close>

definition SQLITE_OK :: int where "SQLITE_OK = 0"
definition SQLITE_ERROR :: int where "SQLITE_ERROR = 1"
definition SQLITE_INTERNAL :: int where "SQLITE_INTERNAL = 2"
definition SQLITE_INTERRUPT :: int where "SQLITE_INTERRUPT = 9"
definition SQLITE_CONSTRAINT :: int where "SQLITE_CONSTRAINT = 19"
definition SQLITE_MISMATCH :: int where "SQLITE_MISMATCH = 20"
definition SQLITE_MISUSE :: int where "SQLITE_MISUSE = 21"
definition SQLITE_DONE :: int where "SQLITE_DONE = 101"

end
