(* ===== verification/Encode.thy ===== *)
theory Encode
  imports Prelude
begin

text \<open>
  \<^verbatim>\<open>ext/sqlite-2.8.17/src/encode.c\<close>: the encoder that turns binary data into a string
  without NUL and quote bytes, and its decoder.  The encoder counts the bytes of the input
  (\<open>encode_cnt\<close>), searches the offset that needs the fewest escapes (\<open>find_offset\<close>) and
  copies the input with the offset subtracted (\<open>encode_copy\<close>).  The variable \<open>e\<close> of the
  source is not initialised before the search; \<open>None\<close> stands for that, and an encoder that
  read it would return \<open>None\<close>.  The decoder runs on the memory from \<open>in\<close> on, up to the end
  of the object it points into: running off that object is \<open>None\<close>.

  The theorems: the encoder always finds an offset, its output has no NUL and no quote, its
  size is the documented one, and the decoder inverts it, in a separate buffer and in place.
\<close>

subsection \<open>The encoder\<close>

definition encode_cnt :: "u8 list \<Rightarrow> nat list" where
  "encode_cnt inp = foldr (\<lambda>b cnt. cnt[unat b := cnt ! unat b + 1]) inp (replicate 256 0)"

definition encode_sum :: "nat list \<Rightarrow> nat \<Rightarrow> nat" where
  "encode_sum cnt i = cnt ! i + cnt ! ((i + 1) mod 256) + cnt ! ((i + 39) mod 256)"

function find_offset :: "nat list \<Rightarrow> nat \<Rightarrow> nat \<Rightarrow> nat option \<Rightarrow> nat \<times> nat option" where
  "find_offset cnt i m e =
     (if i < 256 then
        if i = 39 then find_offset cnt (i + 1) m e
        else let s = encode_sum cnt i in
          if s < m then
            if s = 0 then (s, Some i) else find_offset cnt (i + 1) s (Some i)
          else find_offset cnt (i + 1) m e
      else (m, e))"
  by pat_completeness auto
termination
  by (relation "measure (\<lambda>(cnt, i, m, e). 256 - i)") auto

declare find_offset.simps [simp del]

fun encode_copy :: "u8 \<Rightarrow> u8 list \<Rightarrow> u8 list" where
  "encode_copy e [] = []"
| "encode_copy e (b # bs) =
     (let x = b - e in
      if x = 0 \<or> x = 1 \<or> x = 39 then 1 # (x + 1) # encode_copy e bs
      else x # encode_copy e bs)"

text \<open>
  The result is the return value and the bytes written to \<open>out\<close>; \<open>out = False\<close> is the
  call with a null \<open>out\<close> pointer.
\<close>

definition sqlite_encode_binary :: "u8 list \<Rightarrow> bool \<Rightarrow> (nat \<times> u8 list) option" where
  "sqlite_encode_binary inp out =
     (if inp = [] then Some (1, if out then [120, 0] else [])
      else
        let cnt = encode_cnt inp;
            (m, e) = find_offset cnt 1 (length inp) None
        in if \<not> out then Some (length inp + m + 1, [])
           else case e of
             None \<Rightarrow> None
           | Some e \<Rightarrow>
               let body = of_nat e # encode_copy (of_nat e) inp
               in Some (length body, body @ [0]))"

subsection \<open>The decoder\<close>

fun decode_loop :: "u8 \<Rightarrow> u8 list \<Rightarrow> u8 list option" where
  "decode_loop e [] = None"
| "decode_loop e (c # rest) =
     (if c = 0 then Some []
      else if c = 1 then
        (case rest of
           [] \<Rightarrow> None
         | d # rest' \<Rightarrow> map_option ((#) (d - 1 + e)) (decode_loop e rest'))
      else map_option ((#) (c + e)) (decode_loop e rest))"

definition sqlite_decode_binary :: "u8 list \<Rightarrow> (nat \<times> u8 list) option" where
  "sqlite_decode_binary inp =
     (case inp of
        [] \<Rightarrow> None
      | e # rest \<Rightarrow> map_option (\<lambda>out. (length out, out)) (decode_loop e rest))"

text \<open>The same loop when \<open>in\<close> and \<open>out\<close> are the same buffer \<open>mem\<close>: every write is seen by
  the later reads.\<close>

function decode_inplace_loop :: "u8 \<Rightarrow> u8 list \<Rightarrow> nat \<Rightarrow> nat \<Rightarrow> (nat \<times> u8 list) option" where
  "decode_inplace_loop e mem p i =
     (if p < length mem then
        if mem ! p = 0 then Some (i, mem)
        else if mem ! p = 1 then
          (if p + 1 < length mem
           then decode_inplace_loop e (mem[i := mem ! (p + 1) - 1 + e]) (p + 2) (i + 1)
           else None)
        else decode_inplace_loop e (mem[i := mem ! p + e]) (p + 1) (i + 1)
      else None)"
  by pat_completeness auto
termination
  by (relation "measure (\<lambda>(e, mem, p, i). length mem - p)") auto

declare decode_inplace_loop.simps [simp del]

definition sqlite_decode_binary_inplace :: "u8 list \<Rightarrow> (nat \<times> u8 list) option" where
  "sqlite_decode_binary_inplace mem =
     (if mem = [] then None else decode_inplace_loop (mem ! 0) mem 1 0)"

subsection \<open>Counting\<close>

lemma length_encode_cnt [simp]: "length (encode_cnt inp) = 256"
  by (induction inp) (simp_all add: encode_cnt_def)

lemma encode_cnt_Cons:
  "encode_cnt (b # bs) = (encode_cnt bs)[unat b := encode_cnt bs ! unat b + 1]"
  by (simp add: encode_cnt_def)

lemma encode_cnt_nth: "i < 256 \<Longrightarrow> encode_cnt inp ! i = length (filter (\<lambda>b. unat b = i) inp)"
proof (induction inp)
  case Nil
  then show ?case by (simp add: encode_cnt_def)
next
  case (Cons b bs)
  then show ?case by (simp add: encode_cnt_Cons nth_list_update)
qed

lemma sum_encode_cnt: "(\<Sum>i<256. encode_cnt inp ! i) = length inp"
proof (induction inp)
  case Nil
  then show ?case by (simp add: encode_cnt_def)
next
  case (Cons b bs)
  have "(\<Sum>i<256. encode_cnt (b # bs) ! i)
      = (\<Sum>i<256. encode_cnt bs ! i + (if i = unat b then 1 else 0))"
    by (rule sum.cong) (auto simp: encode_cnt_Cons nth_list_update)
  also have "\<dots> = length bs + 1"
    using unat_u8_less [of b] by (simp add: sum.distrib Cons.IH)
  finally show ?case by simp
qed

lemma sum_encode_cnt_shift:
  assumes "k < 256"
  shows "(\<Sum>i<256. encode_cnt inp ! ((i + k) mod 256)) = length inp"
proof -
  have "bij_betw (\<lambda>i. (i + k) mod 256) {..<256::nat} {..<256}"
  proof (rule bij_betw_byWitness [where f' = "\<lambda>i. (i + (256 - k)) mod 256"])
    show "\<forall>a\<in>{..<256}. ((a + k) mod 256 + (256 - k)) mod 256 = a"
      using assms by (auto simp only: mod_add_left_eq) simp_all
    show "\<forall>a\<in>{..<256}. ((a + (256 - k)) mod 256 + k) mod 256 = a"
      using assms by (auto simp only: mod_add_left_eq) simp_all
  qed auto
  from sum.reindex_bij_betw [OF this, of "\<lambda>i. encode_cnt inp ! i"]
  show ?thesis by (simp add: sum_encode_cnt)
qed

text \<open>The offsets the encoder tries.\<close>

definition offsets :: "nat set" where
  "offsets = {1..<256} - {39}"

lemma card_offsets: "card offsets = 254" and finite_offsets [simp]: "finite offsets"
  and offsets_subset: "offsets \<subseteq> {..<256}"
  by (auto simp: offsets_def)

lemma sum_encode_sum: "(\<Sum>i\<in>offsets. encode_sum (encode_cnt inp) i) \<le> 3 * length inp"
proof -
  have "(\<Sum>i\<in>offsets. encode_sum (encode_cnt inp) i) \<le> (\<Sum>i<256. encode_sum (encode_cnt inp) i)"
    by (rule sum_mono2) (simp_all add: offsets_subset)
  also have "\<dots> = 3 * length inp"
    using sum_encode_cnt_shift [of 1 inp] sum_encode_cnt_shift [of 39 inp]
    by (simp add: encode_sum_def sum.distrib sum_encode_cnt)
  finally show ?thesis .
qed

subsection \<open>The search for the offset\<close>

text \<open>What the search promises for the offsets from \<open>i\<close> on: its \<open>m\<close> is a lower bound of
  their sums, and it is either the start value or the sum of the offset it returns.\<close>

lemma find_offset_bound:
  "find_offset cnt i m e = (m', e') \<Longrightarrow>
     m' \<le> m \<and> (\<forall>j \<in> offsets. i \<le> j \<longrightarrow> m' \<le> encode_sum cnt j)"
proof (induction cnt i m e rule: find_offset.induct)
  case (1 cnt i m e)
  consider "\<not> i < 256" | "i = 39" | "i < 256" "i \<noteq> 39" by linarith
  then show ?case
  proof cases
    case 1
    then show ?thesis using "1.prems" by (auto simp: find_offset.simps [of cnt i] offsets_def)
  next
    case 2
    then have "find_offset cnt (i + 1) m e = (m', e')"
      using "1.prems" by (simp add: find_offset.simps [of cnt 39])
    with "1.IH"(1) [OF _ 2] 2 have
      "m' \<le> m \<and> (\<forall>j \<in> offsets. 40 \<le> j \<longrightarrow> m' \<le> encode_sum cnt j)" by simp
    moreover have "j \<in> offsets \<Longrightarrow> 39 \<le> j \<Longrightarrow> 40 \<le> j" for j by (simp add: offsets_def)
    ultimately show ?thesis using 2 by blast
  next
    case 3
    note step = "1.prems" [unfolded find_offset.simps [of cnt i], simplified Let_def]
    consider "encode_sum cnt i < m" "encode_sum cnt i = 0"
      | "encode_sum cnt i < m" "encode_sum cnt i \<noteq> 0" | "\<not> encode_sum cnt i < m" by blast
    then show ?thesis
    proof cases
      case 1
      with 3 step show ?thesis by auto
    next
      case 2
      with 3 step have "find_offset cnt (i + 1) (encode_sum cnt i) (Some i) = (m', e')"
        by simp
      with "1.IH"(2) [OF 3(1,2) refl 2] 2 show ?thesis
        by (metis Suc_eq_plus1 Suc_leI le_neq_implies_less le_trans less_imp_le)
    next
      case 3
      with \<open>i < 256\<close> \<open>i \<noteq> 39\<close> step have "find_offset cnt (i + 1) m e = (m', e')" by simp
      with "1.IH"(3) [OF \<open>i < 256\<close> \<open>i \<noteq> 39\<close> refl 3] 3 show ?thesis
        by (metis Suc_eq_plus1 Suc_leI le_neq_implies_less le_trans not_less)
    qed
  qed
qed

lemma find_offset_value:
  "find_offset cnt i m e = (m', e') \<Longrightarrow> 1 \<le> i \<Longrightarrow>
     m' = m \<and> e' = e \<or> (\<exists>j \<in> offsets. e' = Some j \<and> m' = encode_sum cnt j)"
proof (induction cnt i m e rule: find_offset.induct)
  case (1 cnt i m e)
  note step = "1.prems"(1) [unfolded find_offset.simps [of cnt i], simplified Let_def]
  have off: "i < 256 \<Longrightarrow> i \<noteq> 39 \<Longrightarrow> i \<in> offsets"
    using "1.prems"(2) by (auto simp: offsets_def)
  show ?case
    using step "1.prems"(2) "1.IH" off by (auto simp: Let_def split: if_splits)
qed

lemma find_offset_finds:
  assumes "inp \<noteq> []" and "find_offset (encode_cnt inp) 1 (length inp) None = (m, e)"
  shows "254 * m \<le> 3 * length inp"
    and "\<exists>j \<in> offsets. e = Some j \<and> m = encode_sum (encode_cnt inp) j"
proof -
  have all: "\<forall>j \<in> offsets. m \<le> encode_sum (encode_cnt inp) j"
    using find_offset_bound [OF assms(2)] by (auto simp: offsets_def)
  have "254 * m = (\<Sum>j\<in>offsets. m)" by (simp add: card_offsets)
  also have "\<dots> \<le> (\<Sum>j\<in>offsets. encode_sum (encode_cnt inp) j)"
    using all by (intro sum_mono) auto
  also have "\<dots> \<le> 3 * length inp" by (rule sum_encode_sum)
  finally show small: "254 * m \<le> 3 * length inp" .
  moreover have "0 < length inp" using assms(1) by simp
  ultimately have "m < length inp" by linarith
  then show "\<exists>j \<in> offsets. e = Some j \<and> m = encode_sum (encode_cnt inp) j"
    using find_offset_value [OF assms(2)] by auto
qed

subsection \<open>The copy loop\<close>

lemma unat_of_nat_u8: "j < 256 \<Longrightarrow> unat (of_nat j :: u8) = j"
  by (simp add: unat_of_nat take_bit_eq_mod)

lemma length_filter_disj3:
  "(\<And>x. \<not> (P x \<and> Q x)) \<Longrightarrow> (\<And>x. \<not> (P x \<and> R x)) \<Longrightarrow> (\<And>x. \<not> (Q x \<and> R x)) \<Longrightarrow>
   length (filter P xs) + length (filter Q xs) + length (filter R xs)
     = length (filter (\<lambda>x. P x \<or> Q x \<or> R x) xs)"
  by (induction xs) auto

text \<open>The bytes that need an escape are those counted for the offset.\<close>

lemma unat_eq_shift: "(unat b = (j + k) mod 256) = (b - of_nat j = (of_nat k :: u8))"
proof -
  have "unat b = (j + k) mod 256 \<longleftrightarrow> b = of_nat (j + k)"
    by (simp add: word_unat_eq_iff unat_of_nat take_bit_eq_mod del: of_nat_add)
  then show ?thesis by (auto simp: algebra_simps)
qed

lemma encode_sum_escapes:
  assumes "j < 256"
  shows "encode_sum (encode_cnt inp) j
     = length (filter (\<lambda>b. b - of_nat j = (0 :: u8) \<or> b - of_nat j = 1 \<or> b - of_nat j = 39) inp)"
  using unat_eq_shift [where j = j and k = 0] unat_eq_shift [where j = j and k = 1]
    unat_eq_shift [where j = j and k = 39] assms
  by (simp add: encode_sum_def encode_cnt_nth length_filter_disj3)

lemma length_encode_copy:
  "length (encode_copy e bs)
     = length bs + length (filter (\<lambda>b. b - e = 0 \<or> b - e = 1 \<or> b - e = 39) bs)"
  by (induction bs) (auto simp: Let_def)

lemma encode_copy_clean: "c \<in> set (encode_copy e bs) \<Longrightarrow> c \<noteq> 0 \<and> c \<noteq> 39"
  by (induction bs) (auto simp: Let_def split: if_splits)

lemma decode_encode_copy: "decode_loop e (encode_copy e bs @ 0 # rest) = Some bs"
  by (induction bs) (auto simp: Let_def)

text \<open>Everything a call with an output buffer does, in one lemma.\<close>

lemma encode_call:
  assumes "inp \<noteq> []"
  obtains e m where
    "sqlite_encode_binary inp True
       = Some (length inp + m + 1, (of_nat e # encode_copy (of_nat e) inp) @ [0])"
    and "sqlite_encode_binary inp False = Some (length inp + m + 1, [])"
    and "e \<in> offsets" and "254 * m \<le> 3 * length inp"
    and "length (encode_copy (of_nat e :: u8) inp) = length inp + m"
proof -
  obtain m eo where fo: "find_offset (encode_cnt inp) 1 (length inp) None = (m, eo)"
    by (cases "find_offset (encode_cnt inp) 1 (length inp) None")
  from find_offset_finds [OF assms fo] obtain e where
    small: "254 * m \<le> 3 * length inp" and e: "e \<in> offsets" "eo = Some e"
    and m: "m = encode_sum (encode_cnt inp) e" by blast
  have len: "length (encode_copy (of_nat e :: u8) inp) = length inp + m"
    using e(1) by (simp add: length_encode_copy m encode_sum_escapes offsets_def)
  show ?thesis
    by (rule that [OF _ _ e(1) small len])
      (simp_all add: sqlite_encode_binary_def assms fo [simplified] e(2) len)
qed

lemma offset_clean: "e \<in> offsets \<Longrightarrow> (of_nat e :: u8) \<noteq> 0 \<and> (of_nat e :: u8) \<noteq> 39"
  using unat_of_nat_u8 [of e] by (auto simp: offsets_def)

subsection \<open>In-place decoding\<close>

lemma decode_inplace_loop_eq:
  "i < p \<Longrightarrow> p \<le> length mem \<Longrightarrow>
   decode_inplace_loop e mem p i =
     map_option (\<lambda>out. (i + length out, take i mem @ out @ drop (i + length out) mem))
       (decode_loop e (drop p mem))"
proof (induction e mem p i rule: decode_inplace_loop.induct)
  case (1 e mem p i)
  show ?case
  proof (cases "p < length mem")
    case False
    with "1.prems" show ?thesis by (simp add: decode_inplace_loop.simps)
  next
    case True
    then have d: "drop p mem = mem ! p # drop (Suc p) mem" by (simp add: Cons_nth_drop_Suc)
    have upd: "take (Suc i) (mem[i := v]) @ out @ drop (Suc i + length out) (mem[i := v])
        = take i mem @ (v # out) @ drop (i + length (v # out)) mem" for v out
      using "1.prems" True by (simp add: take_Suc_conv_app_nth drop_update_cancel)
    consider "mem ! p = 0" | "mem ! p = 1" "p + 1 < length mem"
      | "mem ! p = 1" "\<not> p + 1 < length mem" | "mem ! p \<noteq> 0" "mem ! p \<noteq> 1" by blast
    then show ?thesis
    proof cases
      case 1
      then show ?thesis using True d by (simp add: decode_inplace_loop.simps)
    next
      case 2
      then have d': "drop (Suc p) mem = mem ! (p + 1) # drop (p + 2) mem"
        by (simp add: Cons_nth_drop_Suc)
      from 2 "1.prems" "1.IH"(1) [OF True] show ?thesis
        by (simp add: decode_inplace_loop.simps [of e mem] True d d' option.map_comp o_def
            upd [simplified] drop_update_cancel)
    next
      case 3
      then show ?thesis using True d by (simp add: decode_inplace_loop.simps)
    next
      case 4
      from 4 "1.prems" "1.IH"(2) [OF True] show ?thesis
        by (simp add: decode_inplace_loop.simps [of e mem] True d option.map_comp o_def
            upd [simplified] drop_update_cancel Suc_le_eq)
    qed
  qed
qed

subsection \<open>Properties\<close>

text \<open>
  C10. Round trip.  For every input the encoder finds an offset and returns, and decoding
  its output, whatever follows the terminator in memory, gives back the input and its length.
\<close>

theorem encode_decode_roundtrip:
  "\<exists>n out. sqlite_encode_binary inp True = Some (n, out)
     \<and> sqlite_decode_binary (out @ rest) = Some (length inp, inp)"
proof (cases "inp = []")
  case True
  then show ?thesis
    by (simp add: sqlite_encode_binary_def sqlite_decode_binary_def)
next
  case False
  from encode_call [OF this] obtain e m where
    "sqlite_encode_binary inp True
       = Some (length inp + m + 1, (of_nat e # encode_copy (of_nat e) inp) @ [0])" by metis
  then show ?thesis
    by (auto simp: sqlite_decode_binary_def decode_encode_copy)
qed

text \<open>
  C28. Shape and size of the encoding.  The output is a string without NUL and without the
  quote character, followed by its terminator; the return value is the length of the string
  and is what the call with a null output pointer predicts; and the buffer of
  \<open>2 + (257 * n) / 254\<close> bytes the comment asks for is large enough.
\<close>

theorem encode_output_clean_and_bounded:
  "\<exists>body. sqlite_encode_binary inp True = Some (length body, body @ [0])
     \<and> sqlite_encode_binary inp False = Some (length body, [])
     \<and> 0 \<notin> set body \<and> 39 \<notin> set body
     \<and> length (body @ [0]) \<le> 2 + (257 * length inp) div 254"
proof (cases "inp = []")
  case True
  then show ?thesis
    by (auto simp: sqlite_encode_binary_def intro: exI [of _ "[120]"])
next
  case False
  from encode_call [OF this] obtain e m where
    enc: "sqlite_encode_binary inp True
       = Some (length inp + m + 1, (of_nat e # encode_copy (of_nat e) inp) @ [0])"
       "sqlite_encode_binary inp False = Some (length inp + m + 1, [])"
    and off: "e \<in> offsets" "254 * m \<le> 3 * length inp"
    and len: "length (encode_copy (of_nat e :: u8) inp) = length inp + m" by metis
  let ?body = "of_nat e # encode_copy (of_nat e :: u8) inp"
  have "length inp + m \<le> (257 * length inp) div 254" using off(2) by linarith
  then show ?thesis
    using enc len offset_clean [OF off(1)] encode_copy_clean [of _ "of_nat e" inp]
    by (intro exI [of _ ?body]) auto
qed

text \<open>
  Decoding in place.  When input and output are the same buffer the decoder returns the
  same count and leaves the decoded bytes at the front of the buffer, the rest untouched: the
  write position never overtakes the read position.
\<close>

theorem decode_inplace_correct:
  "sqlite_decode_binary_inplace mem
     = map_option (\<lambda>(n, out). (n, out @ drop n mem)) (sqlite_decode_binary mem)"
  by (cases mem)
    (auto simp: sqlite_decode_binary_inplace_def sqlite_decode_binary_def
      decode_inplace_loop_eq option.map_comp o_def)

text \<open>
  C29. A string that ends in a lone escape byte is not rejected: the decoder takes the
  terminator for the escaped byte and goes on with whatever follows it in memory, where the
  comment promises the return value -1 for an input that is not a well-formed encoding.
\<close>

theorem decode_swallows_terminator:
  assumes "0 \<notin> set bs" and "1 \<notin> set bs"
  shows "sqlite_decode_binary (e # bs @ 1 # 0 # rest)
     = map_option (\<lambda>out. (length bs + 1 + length out, map (\<lambda>c. c + e) bs @ (e - 1) # out))
         (decode_loop e rest)"
proof -
  have "decode_loop e (bs @ 1 # 0 # rest)
      = map_option (\<lambda>out. map (\<lambda>c. c + e) bs @ (e - 1) # out) (decode_loop e rest)"
    using assms
  proof (induction bs)
    case Nil
    show ?case by (simp add: fun_eq_iff algebra_simps cong: option.map_cong)
  next
    case (Cons b bs)
    then show ?case by (auto simp: option.map_comp o_def)
  qed
  then show ?thesis by (simp add: sqlite_decode_binary_def option.map_comp o_def)
qed

theorem decode_swallows_terminator_witness:
  "sqlite_decode_binary [5, 65, 1, 0, 66, 0] = Some (3, [70, 4, 71])"
  using decode_swallows_terminator [of "[65]" 5 "[66, 0]"] by simp

end
