(* ===== verification/Comparator.thy ===== *)
theory Comparator
  imports Prelude
begin

text \<open>
  The contract of the three-way comparison functions of the sources (\<open>strcmp\<close> and
  \<open>memcmp\<close> style: negative, zero, positive), as a locale: on a carrier set the sign is
  antisymmetric and the induced relation is transitive.  Sorting and searching rely on
  exactly this.  The lexicographic combination of comparators, column by column with a
  direction for each column, is a comparator again.
\<close>

locale comparator =
  fixes cmp :: "'a \<Rightarrow> 'a \<Rightarrow> int" and C :: "'a set"
  assumes cmp_swap: "a \<in> C \<Longrightarrow> b \<in> C \<Longrightarrow> cmp a b < 0 \<longleftrightarrow> 0 < cmp b a"
    and cmp_trans: "a \<in> C \<Longrightarrow> b \<in> C \<Longrightarrow> c \<in> C \<Longrightarrow> cmp a b \<le> 0 \<Longrightarrow> cmp b c \<le> 0 \<Longrightarrow> cmp a c \<le> 0"
begin

lemma cmp_refl [simp]: "a \<in> C \<Longrightarrow> cmp a a = 0"
  using cmp_swap [of a a] by linarith

lemma cmp_eq_sym: "a \<in> C \<Longrightarrow> b \<in> C \<Longrightarrow> cmp a b = 0 \<Longrightarrow> cmp b a = 0"
  using cmp_swap [of a b] cmp_swap [of b a] by linarith

lemma cmp_total: "a \<in> C \<Longrightarrow> b \<in> C \<Longrightarrow> cmp a b \<le> 0 \<or> cmp b a \<le> 0"
  using cmp_swap [of a b] cmp_swap [of b a] by linarith

lemma cmp_le_iff: "a \<in> C \<Longrightarrow> b \<in> C \<Longrightarrow> cmp a b \<le> 0 \<longleftrightarrow> 0 \<le> cmp b a"
  using cmp_swap [of a b] cmp_swap [of b a] by linarith

lemma cmp_eq_trans:
  assumes "a \<in> C" "b \<in> C" "c \<in> C" and "cmp a b = 0" "cmp b c = 0"
  shows "cmp a c = 0"
  using cmp_trans [of a b c] cmp_trans [of c b a] assms cmp_eq_sym [of a b] cmp_eq_sym [of b c]
    cmp_le_iff [of c a] by simp

lemma cmp_less_trans:
  assumes "a \<in> C" "b \<in> C" "c \<in> C" and "cmp a b < 0" "cmp b c \<le> 0"
  shows "cmp a c < 0"
proof (rule ccontr)
  assume "\<not> cmp a c < 0"
  then have "cmp c a \<le> 0" using cmp_le_iff [of c a] assms by simp
  with cmp_trans [of b c a] assms have "cmp b a \<le> 0" by simp
  with cmp_swap [of a b] assms show False by simp
qed

lemma cmp_less_trans':
  assumes "a \<in> C" "b \<in> C" "c \<in> C" and "cmp a b \<le> 0" "cmp b c < 0"
  shows "cmp a c < 0"
proof (rule ccontr)
  assume "\<not> cmp a c < 0"
  then have "cmp c a \<le> 0" using cmp_le_iff [of c a] assms by simp
  with cmp_trans [of c a b] assms have "cmp c b \<le> 0" by simp
  with cmp_swap [of b c] assms show False by simp
qed

lemma comparator_reverse: "comparator (\<lambda>a b. - cmp a b) C"
proof unfold_locales
  fix a b c assume "a \<in> C" "b \<in> C"
  then show "- cmp a b < 0 \<longleftrightarrow> 0 < - cmp b a"
    using cmp_swap [of b a] by auto
  assume "c \<in> C" "- cmp a b \<le> 0" "- cmp b c \<le> 0"
  then show "- cmp a c \<le> 0"
    using cmp_trans [of c b a] cmp_le_iff \<open>a \<in> C\<close> \<open>b \<in> C\<close> by simp
qed

end

text \<open>Comparison by a key in a linear order.\<close>

lemma comparator_by_key:
  fixes key :: "'a \<Rightarrow> 'k::linorder"
  assumes "\<And>a b. a \<in> C \<Longrightarrow> b \<in> C \<Longrightarrow>
     (cmp a b < 0 \<longleftrightarrow> key a < key b) \<and> (cmp a b = (0::int) \<longleftrightarrow> key a = key b)"
  shows "comparator cmp C"
proof -
  have le: "cmp a b \<le> 0 \<longleftrightarrow> key a \<le> key b" if "a \<in> C" "b \<in> C" for a b
    using assms [OF that] by (auto simp: order_le_less)
  show ?thesis
    by unfold_locales (metis assms le not_less order_trans)+
qed

text \<open>Comparison of rows of columns; the first column that differs decides.\<close>

fun lex_compare :: "('d \<Rightarrow> 'a \<Rightarrow> 'a \<Rightarrow> int) \<Rightarrow> 'd list \<Rightarrow> 'a list \<Rightarrow> 'a list \<Rightarrow> int" where
  "lex_compare c (d # ds) (x # xs) (y # ys) =
     (if c d x y \<noteq> 0 then c d x y else lex_compare c ds xs ys)"
| "lex_compare c ds xs ys = 0"

lemma comparator_lex:
  assumes c: "\<And>d. d \<in> set ds \<Longrightarrow> comparator (c d) C"
  shows "comparator (lex_compare c ds) {xs. length xs = length ds \<and> set xs \<subseteq> C}"
  using c
proof (induction ds)
  case Nil
  show ?case by unfold_locales simp_all
next
  case (Cons d ds)
  from Cons.prems have cd: "comparator (c d) C" by simp
  from Cons have ih: "comparator (lex_compare c ds) {xs. length xs = length ds \<and> set xs \<subseteq> C}"
    by simp
  show ?case
  proof unfold_locales
    fix a b assume "a \<in> {xs. length xs = length (d # ds) \<and> set xs \<subseteq> C}"
      and "b \<in> {xs. length xs = length (d # ds) \<and> set xs \<subseteq> C}"
    then obtain x a' y b' where ab: "a = x # a'" "b = y # b'" "length a' = length ds"
      "length b' = length ds" "x \<in> C" "y \<in> C" "set a' \<subseteq> C" "set b' \<subseteq> C"
      by (cases a; cases b) auto
    show "lex_compare c (d # ds) a b < 0 \<longleftrightarrow> 0 < lex_compare c (d # ds) b a"
    proof -
      have swap: "c d x y < 0 \<longleftrightarrow> 0 < c d y x" "c d y x < 0 \<longleftrightarrow> 0 < c d x y"
        using comparator.cmp_swap [OF cd] ab by simp_all
      moreover have "lex_compare c ds a' b' < 0 \<longleftrightarrow> 0 < lex_compare c ds b' a'"
        using comparator.cmp_swap [OF ih, of a' b'] ab by simp
      moreover have "c d x y = 0 \<longleftrightarrow> c d y x = 0" using swap by linarith
      ultimately show ?thesis by (simp add: ab)
    qed
  next
    fix a b e assume "a \<in> {xs. length xs = length (d # ds) \<and> set xs \<subseteq> C}"
      and "b \<in> {xs. length xs = length (d # ds) \<and> set xs \<subseteq> C}"
      and "e \<in> {xs. length xs = length (d # ds) \<and> set xs \<subseteq> C}"
      and le: "lex_compare c (d # ds) a b \<le> 0" "lex_compare c (d # ds) b e \<le> 0"
    then obtain x a' y b' z e' where ab: "a = x # a'" "b = y # b'" "e = z # e'"
      "length a' = length ds" "length b' = length ds" "length e' = length ds"
      "x \<in> C" "y \<in> C" "z \<in> C" "set a' \<subseteq> C" "set b' \<subseteq> C" "set e' \<subseteq> C"
      by (cases a; cases b; cases e) auto
    have tail: "lex_compare c ds a' b' \<le> 0 \<Longrightarrow> lex_compare c ds b' e' \<le> 0 \<Longrightarrow>
        lex_compare c ds a' e' \<le> 0"
      using comparator.cmp_trans [OF ih, of a' b' e'] ab by simp
    note tr = comparator.cmp_less_trans [OF cd ab(7-9)]
      comparator.cmp_less_trans' [OF cd ab(7-9)] comparator.cmp_eq_trans [OF cd ab(7-9)]
    consider "c d x y < 0" "c d y z \<le> 0" | "c d x y = 0" "c d y z < 0"
      | "c d x y = 0" "c d y z = 0" using le by (fastforce simp: ab split: if_splits)
    then show "lex_compare c (d # ds) a e \<le> 0"
    proof cases
      case 1
      with tr(1) show ?thesis by (simp add: ab)
    next
      case 2
      with tr(2) show ?thesis by (simp add: ab)
    next
      case 3
      with tr(3) le tail show ?thesis by (simp add: ab)
    qed
  qed
qed

end
