(* ===== verification/Util.thy ===== *)
theory Util
  imports Comparator
begin

text \<open>
  The string routines of \<^verbatim>\<open>ext/sqlite-2.8.17/src/util.c\<close>: the case table, the
  case-insensitive hash and comparisons, the numeric syntax test, the 32-bit test, the
  comparison of values and of sort keys, and the removal of quotes.  Conversions to floating
  point (\<open>sqliteAtoF\<close>) enter the comparisons as a parameter \<open>atof\<close> into a linear order.

  The theorems: the table lowers exactly the upper-case letters; the comparisons decide
  case-insensitive equality and the hash respects it; \<open>sqliteIsNumber\<close> accepts exactly the
  numeric literals of the grammar; \<open>sqliteFitsIn32Bits\<close> decides a numeric bound;
  \<open>sqliteCompare\<close> and \<open>sqliteSortCompare\<close> are consistent with an order; \<open>sqliteDequote\<close>
  undoes quoting.
\<close>

subsection \<open>Case-insensitive strings\<close>

definition UpperToLower_table :: "u8 list" where
  "UpperToLower_table =
    [0, 1, 2, 3, 4, 5, 6, 7, 8, 9, 10, 11, 12, 13, 14, 15, 16, 17,
     18, 19, 20, 21, 22, 23, 24, 25, 26, 27, 28, 29, 30, 31, 32, 33, 34, 35,
     36, 37, 38, 39, 40, 41, 42, 43, 44, 45, 46, 47, 48, 49, 50, 51, 52, 53,
     54, 55, 56, 57, 58, 59, 60, 61, 62, 63, 64, 97, 98, 99, 100, 101, 102, 103,
     104, 105, 106, 107, 108, 109, 110, 111, 112, 113, 114, 115, 116, 117, 118, 119, 120, 121,
     122, 91, 92, 93, 94, 95, 96, 97, 98, 99, 100, 101, 102, 103, 104, 105, 106, 107,
     108, 109, 110, 111, 112, 113, 114, 115, 116, 117, 118, 119, 120, 121, 122, 123, 124, 125,
     126, 127, 128, 129, 130, 131, 132, 133, 134, 135, 136, 137, 138, 139, 140, 141, 142, 143,
     144, 145, 146, 147, 148, 149, 150, 151, 152, 153, 154, 155, 156, 157, 158, 159, 160, 161,
     162, 163, 164, 165, 166, 167, 168, 169, 170, 171, 172, 173, 174, 175, 176, 177, 178, 179,
     180, 181, 182, 183, 184, 185, 186, 187, 188, 189, 190, 191, 192, 193, 194, 195, 196, 197,
     198, 199, 200, 201, 202, 203, 204, 205, 206, 207, 208, 209, 210, 211, 212, 213, 214, 215,
     216, 217, 218, 219, 220, 221, 222, 223, 224, 225, 226, 227, 228, 229, 230, 231, 232, 233,
     234, 235, 236, 237, 238, 239, 240, 241, 242, 243, 244, 245, 246, 247, 248, 249, 250, 251,
     252, 253, 254, 255]"

definition UpperToLower :: "u8 \<Rightarrow> u8" where
  "UpperToLower c = UpperToLower_table ! unat c"

fun hash_no_case_loop :: "u32 \<Rightarrow> u8 list \<Rightarrow> u32" where
  "hash_no_case_loop h [] = h"
| "hash_no_case_loop h (c # z) =
     hash_no_case_loop (xor (xor (push_bit 3 h) h) (ucast (UpperToLower c))) z"

definition strlen :: "u8 list \<Rightarrow> nat" where
  "strlen z = length (takeWhile (\<lambda>c. c \<noteq> 0) z)"

text \<open>The argument \<open>z\<close> is the memory the pointer refers to, at least \<open>n\<close> bytes of it.\<close>

definition sqliteHashNoCase :: "u8 list \<Rightarrow> int \<Rightarrow> u32" where
  "sqliteHashNoCase z n =
     and (hash_no_case_loop 0 (take (if n \<le> 0 then strlen z else nat n) z)) 0x7fffffff"

function sqliteStrICmp :: "cstring \<Rightarrow> cstring \<Rightarrow> int" where
  "sqliteStrICmp a b =
     (if zat a 0 \<noteq> 0 \<and> UpperToLower (zat a 0) = UpperToLower (zat b 0)
      then sqliteStrICmp (tl a) (tl b)
      else uint (UpperToLower (zat a 0)) - uint (UpperToLower (zat b 0)))"
  by pat_completeness auto
termination
  by (relation "measure (\<lambda>(a, b). length a)") (auto simp: zat_def split: if_splits)

declare sqliteStrICmp.simps [simp del]

fun sqliteStrNICmp :: "u8 list \<Rightarrow> u8 list \<Rightarrow> nat \<Rightarrow> int" where
  "sqliteStrNICmp a b 0 = 0"
| "sqliteStrNICmp a b (Suc N) =
     (if zat a 0 \<noteq> 0 \<and> UpperToLower (zat a 0) = UpperToLower (zat b 0)
      then sqliteStrNICmp (tl a) (tl b) N
      else uint (UpperToLower (zat a 0)) - uint (UpperToLower (zat b 0)))"

subsection \<open>Numbers\<close>

text \<open>\<open>isdigit\<close> and \<open>isspace\<close> of the C library, in the C locale.\<close>

definition isdigit :: "u8 \<Rightarrow> bool" where
  "isdigit c \<longleftrightarrow> 48 \<le> c \<and> c \<le> 57"

definition isspace :: "u8 \<Rightarrow> bool" where
  "isspace c \<longleftrightarrow> c = 32 \<or> (9 \<le> c \<and> c \<le> 13)"

text \<open>\<open>if( *z=='-' || *z=='+' ) z++;\<close>\<close>

definition skip_sign :: "cstring \<Rightarrow> cstring" where
  "skip_sign z = (if zat z 0 = 45 \<or> zat z 0 = 43 then tl z else z)"

definition number_exponent :: "cstring \<Rightarrow> bool" where
  "number_exponent z =
     (if zat z 0 = 101 \<or> zat z 0 = 69 then
        let z = skip_sign (tl z)
        in if \<not> isdigit (zat z 0) then False
           else zat (dropWhile isdigit z) 0 = 0
      else zat z 0 = 0)"

definition sqliteIsNumber :: "cstring \<Rightarrow> bool" where
  "sqliteIsNumber z =
     (let z = skip_sign z
      in if \<not> isdigit (zat z 0) then False
         else
           let z = dropWhile isdigit (tl z)
           in if zat z 0 = 46 then
                let z = tl z
                in if \<not> isdigit (zat z 0) then False
                   else number_exponent (dropWhile isdigit z)
              else number_exponent z)"

fun memcmp :: "u8 list \<Rightarrow> u8 list \<Rightarrow> nat \<Rightarrow> int" where
  "memcmp a b 0 = 0"
| "memcmp a b (Suc n) =
     (if zat a 0 = zat b 0 then memcmp (tl a) (tl b) n else uint (zat a 0) - uint (zat b 0))"

definition sqliteFitsIn32Bits :: "cstring \<Rightarrow> bool" where
  "sqliteFitsIn32Bits zNum =
     (let zNum = skip_sign zNum;
          i = length (takeWhile isdigit zNum)
      in i < 10 \<or> (i = 10 \<and> memcmp zNum (cstr ''2147483647'') 10 \<le> 0))"

subsection \<open>Comparison of values and of sort keys\<close>

function strcmp :: "cstring \<Rightarrow> cstring \<Rightarrow> int" where
  "strcmp a b =
     (if zat a 0 \<noteq> 0 \<and> zat a 0 = zat b 0 then strcmp (tl a) (tl b)
      else uint (zat a 0) - uint (zat b 0))"
  by pat_completeness auto
termination
  by (relation "measure (\<lambda>(a, b). length a)") (auto simp: zat_def split: if_splits)

declare strcmp.simps [simp del]

text \<open>A null pointer is \<open>None\<close>.  The parameter \<open>atof\<close> is \<open>sqliteAtoF\<close>.\<close>

definition sqliteCompare :: "(cstring \<Rightarrow> 'r::linorder) \<Rightarrow> cstring option \<Rightarrow> cstring option \<Rightarrow> int" where
  "sqliteCompare atof atext btext =
     (case atext of
        None \<Rightarrow> -1
      | Some a \<Rightarrow>
          (case btext of
             None \<Rightarrow> 1
           | Some b \<Rightarrow>
               if sqliteIsNumber a then
                 if \<not> sqliteIsNumber b then -1
                 else if atof a < atof b then -1
                 else if atof b < atof a then 1
                 else 0
               else if sqliteIsNumber b then 1
               else strcmp a b))"

text \<open>The string that starts at a pointer into a buffer.\<close>

definition str_at :: "u8 list \<Rightarrow> cstring" where
  "str_at z = takeWhile (\<lambda>c. c \<noteq> 0) z"

text \<open>
  The loop of \<open>sqliteSortCompare\<close> on the memory from \<open>a\<close> and \<open>b\<close> on; it returns the values
  of \<open>res\<close> and \<open>dir\<close> after the loop, or \<open>None\<close> when the \<open>assert\<close> fails.
\<close>

function sort_compare_loop ::
    "(cstring \<Rightarrow> 'r::linorder) \<Rightarrow> u8 list \<Rightarrow> u8 list \<Rightarrow> u8 \<Rightarrow> (int \<times> u8) option" where
  "sort_compare_loop atof a b dir =
     (if zat a 0 \<noteq> 0 \<and> zat b 0 \<noteq> 0 then
        if zat a 0 = 78 \<or> zat b 0 = 78 then
          if zat a 0 = zat b 0 then sort_compare_loop atof (drop 2 a) (drop 2 b) dir
          else if zat a 0 = 78 then Some (-1, zat b 0)
          else Some (1, zat a 0)
        else if zat a 0 \<noteq> zat b 0 then None
        else
          let dir = zat a 0; sa = str_at (tl a); sb = str_at (tl b);
              res =
                (if dir = 65 \<or> dir = 68 then strcmp sa sb
                 else if sqliteIsNumber sa then
                   if \<not> sqliteIsNumber sb then -1
                   else if atof sa < atof sb then -1
                   else if atof sb < atof sa then 1 else 0
                 else if sqliteIsNumber sb then 1
                 else strcmp sa sb)
          in if res \<noteq> 0 then Some (res, dir)
             else sort_compare_loop atof (drop (length sa + 2) a) (drop (length sb + 2) b) dir
      else Some (0, dir))"
  by pat_completeness auto
termination
  by (relation "measure (\<lambda>(atof, a, b, dir). length a)")
    (auto simp: zat_def Let_def split: if_splits)

declare sort_compare_loop.simps [simp del]

definition sqliteSortCompare ::
    "(cstring \<Rightarrow> 'r::linorder) \<Rightarrow> u8 list \<Rightarrow> u8 list \<Rightarrow> int option" where
  "sqliteSortCompare atof a b =
     map_option (\<lambda>(res, dir). if dir = 45 \<or> dir = 68 then - res else res)
       (sort_compare_loop atof a b 0)"

subsection \<open>Removing quotes\<close>

function dequote_loop :: "u8 \<Rightarrow> u8 list \<Rightarrow> nat \<Rightarrow> nat \<Rightarrow> u8 list" where
  "dequote_loop quote z i j =
     (if zat z i = 0 then z
      else if zat z i = quote then
        if zat z (i + 1) = quote then dequote_loop quote (z[j := quote]) (i + 2) (j + 1)
        else z[j := 0]
      else dequote_loop quote (z[j := zat z i]) (i + 1) (j + 1))"
  by pat_completeness auto
termination
  by (relation "measure (\<lambda>(quote, z, i, j). length z - i)") (auto simp: zat_def split: if_splits)

declare dequote_loop.simps [simp del]

text \<open>The argument and the result are the buffer that holds the string and its terminator.\<close>

definition sqliteDequote :: "u8 list \<Rightarrow> u8 list" where
  "sqliteDequote z =
     (if zat z 0 = 39 then dequote_loop 39 z 1 0
      else if zat z 0 = 34 then dequote_loop 34 z 1 0
      else if zat z 0 = 91 then dequote_loop 93 z 1 0
      else z)"

subsection \<open>Case-insensitive comparison and hashing\<close>

lemma UpperToLower_eq: "UpperToLower c = (if 65 \<le> c \<and> c \<le> 90 then c + 32 else c)"
proof -
  have "list_all (\<lambda>n. UpperToLower (of_nat n)
      = (if 65 \<le> (of_nat n :: u8) \<and> of_nat n \<le> (90 :: u8) then of_nat n + 32 else of_nat n))
      [0..<256]"
    by code_simp
  then have "\<forall>n < 256. UpperToLower (of_nat n)
      = (if 65 \<le> (of_nat n :: u8) \<and> of_nat n \<le> (90 :: u8) then of_nat n + 32 else of_nat n)"
    by (simp only: list_all_iff) simp
  then show ?thesis by (rule all_u8_induct)
qed


lemma UpperToLower_zero [simp]: "UpperToLower c = 0 \<longleftrightarrow> c = 0" "UpperToLower 0 = 0"
  by (auto simp: UpperToLower_eq word_le_nat_alt unat_eq_zero unat_word_ariths split: if_splits)
     (simp add: word_unat_eq_iff unat_word_ariths)

lemma UpperToLower_idem [simp]: "UpperToLower (UpperToLower c) = UpperToLower c"
  by (auto simp: UpperToLower_eq word_le_nat_alt unat_word_ariths split: if_splits)

text \<open>A buffer of \<open>n\<close> bytes in which only the last byte may be NUL: a key of a string table.\<close>

definition nul_at_end :: "u8 list \<Rightarrow> nat \<Rightarrow> bool" where
  "nul_at_end z n \<longleftrightarrow> n \<le> length z \<and> 0 \<notin> set (take (n - 1) z)"

lemma sqliteStrNICmp_eq_0:
  "nul_at_end a n \<Longrightarrow> nul_at_end b n \<Longrightarrow>
   sqliteStrNICmp a b n = 0 \<longleftrightarrow> map UpperToLower (take n a) = map UpperToLower (take n b)"
proof (induction a b n rule: sqliteStrNICmp.induct)
  case (1 a b)
  then show ?case by simp
next
  case (2 a b N)
  then obtain x a' y b' where ab: "a = x # a'" "b = y # b'"
    by (cases a; cases b) (auto simp: nul_at_end_def)
  show ?case
  proof (cases N)
    case 0
    then show ?thesis by (auto simp: ab)
  next
    case (Suc M)
    with "2.prems" ab have nz: "x \<noteq> 0" "nul_at_end a' N" "nul_at_end b' N"
      by (auto simp: nul_at_end_def)
    with "2.IH" ab show ?thesis by auto
  qed
qed

lemma hash_no_case_loop_cong:
  "map UpperToLower xs = map UpperToLower ys \<Longrightarrow>
   hash_no_case_loop h xs = hash_no_case_loop h ys"
proof (induction xs arbitrary: ys h)
  case (Cons x xs)
  then obtain y ys' where ys: "ys = y # ys'" "UpperToLower x = UpperToLower y"
    and "map UpperToLower xs = map UpperToLower ys'" by (cases ys) auto
  from Cons.IH [OF this(3)] show ?case unfolding ys(1) hash_no_case_loop.simps ys(2) .
qed simp

lemma sqliteHashNoCase_cong:
  "map UpperToLower (take n a) = map UpperToLower (take n b) \<Longrightarrow> 0 < n \<Longrightarrow>
   sqliteHashNoCase a (int n) = sqliteHashNoCase b (int n)"
  unfolding sqliteHashNoCase_def by (simp cong: hash_no_case_loop_cong)

text \<open>On NUL-free strings \<open>sqliteStrICmp\<close> is the lexicographic order of the lowered bytes.\<close>

lemma sqliteStrICmp_Cons [simp]:
  "x \<noteq> 0 \<Longrightarrow> sqliteStrICmp (x # a) (y # b) =
     (if UpperToLower x = UpperToLower y then sqliteStrICmp a b
      else uint (UpperToLower x) - uint (UpperToLower y))"
  by (simp add: sqliteStrICmp.simps [of "x # a"])

lemma sqliteStrICmp_Nil [simp]:
  "sqliteStrICmp [] b = - uint (UpperToLower (zat b 0))"
  "x \<noteq> 0 \<Longrightarrow> sqliteStrICmp (x # a) [] = uint (UpperToLower x)"
  by (simp_all add: sqliteStrICmp.simps [of "[]"] sqliteStrICmp.simps [of "x # a"])

lemma uint_pos_u8 [simp]: "0 < uint (c :: u8) \<longleftrightarrow> c \<noteq> 0"
  by (simp add: order_less_le)

definition byte_less :: "(u8 \<times> u8) set" where
  "byte_less = {(x, y). x < y}"

lemma sqliteStrICmp_lexord:
  "0 \<notin> set a \<Longrightarrow> 0 \<notin> set b \<Longrightarrow>
   (sqliteStrICmp a b < 0 \<longleftrightarrow> (map UpperToLower a, map UpperToLower b) \<in> lexord byte_less) \<and>
   (sqliteStrICmp a b = 0 \<longleftrightarrow> map UpperToLower a = map UpperToLower b)"
proof (induction a arbitrary: b)
  case Nil
  then show ?case by (cases b) auto
next
  case (Cons x a)
  then show ?case by (cases b) (auto simp: byte_less_def)
qed

lemma strcmp_Cons [simp]:
  "x \<noteq> 0 \<Longrightarrow> strcmp (x # a) (y # b) = (if x = y then strcmp a b else uint x - uint y)"
  by (simp add: strcmp.simps [of "x # a"])

lemma strcmp_Nil [simp]:
  "strcmp [] b = - uint (zat b 0)"
  "x \<noteq> 0 \<Longrightarrow> strcmp (x # a) [] = uint x"
  by (simp_all add: strcmp.simps [of "[]"] strcmp.simps [of "x # a"])

lemma strcmp_lexord:
  "0 \<notin> set a \<Longrightarrow> 0 \<notin> set b \<Longrightarrow>
   (strcmp a b < 0 \<longleftrightarrow> (a, b) \<in> lexord byte_less) \<and> (strcmp a b = 0 \<longleftrightarrow> a = b)"
proof (induction a arbitrary: b)
  case Nil
  then show ?case by (cases b) auto
next
  case (Cons x a)
  then show ?case by (cases b) (auto simp: byte_less_def)
qed

lemma lexord_byte_less:
  "(a, b) \<in> lexord byte_less \<Longrightarrow> (b, c) \<in> lexord byte_less \<Longrightarrow> (a, c) \<in> lexord byte_less"
  "(a, a) \<notin> lexord byte_less"
  "(a, b) \<in> lexord byte_less \<or> a = b \<or> (b, a) \<in> lexord byte_less"
proof -
  show "(a, b) \<in> lexord byte_less \<Longrightarrow> (b, c) \<in> lexord byte_less \<Longrightarrow> (a, c) \<in> lexord byte_less"
    by (rule lexord_trans) (auto simp: byte_less_def trans_def)
  show "(a, a) \<notin> lexord byte_less"
    by (rule lexord_irreflexive) (simp add: byte_less_def)
  show "(a, b) \<in> lexord byte_less \<or> a = b \<or> (b, a) \<in> lexord byte_less"
    by (rule lexord_linear) (auto simp: byte_less_def)
qed

lemma strcmp_swap: "0 \<notin> set a \<Longrightarrow> 0 \<notin> set b \<Longrightarrow> strcmp b a = - strcmp a b"
proof (induction a arbitrary: b)
  case Nil
  then show ?case by (cases b) auto
next
  case (Cons x a)
  then show ?case by (cases b) auto
qed

subsection \<open>The syntax of numbers\<close>

text \<open>The grammar of a number: a sign, digits, a fraction and an exponent.\<close>

definition digits :: "cstring \<Rightarrow> bool" where
  "digits d \<longleftrightarrow> d \<noteq> [] \<and> list_all isdigit d"

definition sign_opt :: "cstring \<Rightarrow> bool" where
  "sign_opt s \<longleftrightarrow> s = [] \<or> s = [45] \<or> s = [43]"

definition exponent_opt :: "cstring \<Rightarrow> bool" where
  "exponent_opt e \<longleftrightarrow> e = [] \<or>
     (\<exists>c s d. e = c # s @ d \<and> (c = 101 \<or> c = 69) \<and> sign_opt s \<and> digits d)"

definition numeric_literal :: "cstring \<Rightarrow> bool" where
  "numeric_literal z \<longleftrightarrow>
     (\<exists>s d f e. z = s @ d @ f @ e \<and> sign_opt s \<and> digits d
        \<and> (f = [] \<or> (\<exists>d'. f = 46 # d' \<and> digits d')) \<and> exponent_opt e)"

lemma isdigit_ranges:
  "isdigit c \<Longrightarrow> c \<noteq> 0 \<and> c \<noteq> 45 \<and> c \<noteq> 43 \<and> c \<noteq> 46 \<and> c \<noteq> 101 \<and> c \<noteq> 69"
  by (auto simp: isdigit_def)

lemma not_isdigit [simp]:
  "\<not> isdigit 0" "\<not> isdigit 45" "\<not> isdigit 43" "\<not> isdigit 46" "\<not> isdigit 101" "\<not> isdigit 69"
  by (simp_all add: isdigit_def)

lemma zat_eq_0: "0 \<notin> set z \<Longrightarrow> zat z 0 = 0 \<longleftrightarrow> z = []"
  by (cases z) auto

lemma zat_isdigit: "isdigit (zat z 0) \<longleftrightarrow> (\<exists>c z'. z = c # z' \<and> isdigit c)"
  by (cases z) auto

lemma dropWhile_digits: "digits d \<Longrightarrow> \<not> isdigit (zat r 0) \<Longrightarrow> dropWhile isdigit (d @ r) = r"
  by (cases r) (auto simp: digits_def list_all_iff)

lemma split_digits:
  assumes "isdigit (zat z 0)"
  obtains d where "digits d" and "z = d @ dropWhile isdigit z"
proof
  show "digits (takeWhile isdigit z)"
    using assms by (cases z) (auto simp: digits_def list_all_iff dest: set_takeWhileD)
  show "z = takeWhile isdigit z @ dropWhile isdigit z" by simp
qed

lemma zat_dropWhile: "\<not> isdigit (zat (dropWhile isdigit z) 0)"
  by (induction z) auto

lemma zat_drop_nul: "0 \<notin> set z \<Longrightarrow> zat (dropWhile P z) 0 = 0 \<longleftrightarrow> dropWhile P z = []"
  by (rule zat_eq_0) (auto dest: set_dropWhileD)

lemma skip_sign_split: obtains s where "sign_opt s" and "z = s @ skip_sign z"
proof (cases "zat z 0 = 45 \<or> zat z 0 = 43")
  case True
  then obtain c z' where "z = c # z'" "c = 45 \<or> c = 43" by (cases z) auto
  then show ?thesis by (intro that [of "[c]"]) (auto simp: sign_opt_def skip_sign_def)
next
  case False
  then show ?thesis by (intro that [of "[]"]) (auto simp: sign_opt_def skip_sign_def)
qed

lemma skip_sign_append: "sign_opt s \<Longrightarrow> digits d \<Longrightarrow> skip_sign (s @ d @ r) = d @ r"
  by (cases d) (auto simp: sign_opt_def digits_def skip_sign_def)

lemma set_skip_sign: "c \<in> set (skip_sign z) \<Longrightarrow> c \<in> set z"
  by (cases z) (auto simp: skip_sign_def split: if_splits)

lemma zat_digits: "digits d \<Longrightarrow> isdigit (zat (d @ r) 0)"
  by (cases d) (auto simp: digits_def)

lemma number_exponent_iff:
  assumes "0 \<notin> set z"
  shows "number_exponent z \<longleftrightarrow> exponent_opt z"
proof
  assume num: "number_exponent z"
  show "exponent_opt z"
  proof (cases "zat z 0 = 101 \<or> zat z 0 = 69")
    case False
    with num assms have "z = []" by (simp add: number_exponent_def zat_eq_0)
    then show ?thesis by (simp add: exponent_opt_def)
  next
    case True
    then obtain c z1 where z: "z = c # z1" "c = 101 \<or> c = 69" by (cases z) auto
    let ?z2 = "skip_sign z1"
    obtain s where s: "sign_opt s" and z1: "z1 = s @ ?z2" by (rule skip_sign_split)
    from num True z have dig: "isdigit (zat ?z2 0)" and "zat (dropWhile isdigit ?z2) 0 = 0"
      by (simp_all add: number_exponent_def Let_def split: if_splits)
    moreover have "0 \<notin> set ?z2" using assms z set_skip_sign by fastforce
    ultimately have "dropWhile isdigit ?z2 = []" by (simp add: zat_drop_nul)
    with split_digits [OF dig] have "digits ?z2" by (metis append_Nil2)
    with z s z1 show ?thesis unfolding exponent_opt_def by metis
  qed
next
  assume "exponent_opt z"
  then consider "z = []" | c s d where "z = c # s @ d" "c = 101 \<or> c = 69" "sign_opt s" "digits d"
    by (auto simp: exponent_opt_def)
  then show "number_exponent z"
  proof cases
    case 1
    then show ?thesis by (simp add: number_exponent_def)
  next
    case 2
    have "dropWhile isdigit d = []" using 2(4) by (simp add: digits_def list_all_iff)
    then have "zat (dropWhile isdigit d) 0 = 0" by (simp only: zat_simps)
    then show ?thesis
      using 2(1,2) skip_sign_append [OF 2(3,4), of "[]"] zat_digits [OF 2(4), of "[]"]
      by (auto simp: number_exponent_def Let_def)
  qed
qed

lemma sqliteIsNumber_iff:
  assumes "0 \<notin> set z"
  shows "sqliteIsNumber z \<longleftrightarrow> numeric_literal z"
proof
  assume num: "sqliteIsNumber z"
  let ?z1 = "skip_sign z"
  obtain s where s: "sign_opt s" and z: "z = s @ ?z1" by (rule skip_sign_split)
  have nz: "0 \<notin> set ?z1" using assms set_skip_sign by blast
  from num have dig: "isdigit (zat ?z1 0)"
    by (auto simp: sqliteIsNumber_def Let_def split: if_splits)
  then obtain d where d: "digits d" and z1: "?z1 = d @ dropWhile isdigit ?z1"
    by (rule split_digits)
  let ?r = "dropWhile isdigit ?z1"
  have r: "dropWhile isdigit (tl ?z1) = ?r"
    using dig by (cases ?z1) auto
  have nr: "0 \<notin> set ?r" using nz by (meson set_dropWhileD)
  show "numeric_literal z"
  proof (cases "zat ?r 0 = 46")
    case False
    with num dig r have "number_exponent ?r"
      by (simp add: sqliteIsNumber_def Let_def)
    with number_exponent_iff [OF nr] have "exponent_opt ?r" by simp
    with s d z z1 show ?thesis unfolding numeric_literal_def by (metis append_Nil)
  next
    case True
    then obtain r' where r': "?r = 46 # r'" by (cases ?r) auto
    from num dig r True r' have dig': "isdigit (zat r' 0)"
      and ex: "number_exponent (dropWhile isdigit r')"
      by (auto simp: sqliteIsNumber_def Let_def split: if_splits)
    from dig' obtain d' where d': "digits d'" "r' = d' @ dropWhile isdigit r'"
      by (rule split_digits)
    have "0 \<notin> set (dropWhile isdigit r')"
      using nr r' by (metis list.set_intros(2) set_dropWhileD)
    with ex have "exponent_opt (dropWhile isdigit r')" by (simp add: number_exponent_iff)
    with s d d' z z1 r' show ?thesis unfolding numeric_literal_def
      by (metis append_Cons append_assoc)
  qed
next
  assume "numeric_literal z"
  then obtain s d f e where z: "z = s @ d @ f @ e" and s: "sign_opt s" and d: "digits d"
    and f: "f = [] \<or> (\<exists>d'. f = 46 # d' \<and> digits d')" and e: "exponent_opt e"
    unfolding numeric_literal_def by blast
  have e0: "\<not> isdigit (zat e 0)" "zat e 0 \<noteq> 46" using e by (auto simp: exponent_opt_def)
  have ne: "number_exponent e" using e assms z by (simp add: number_exponent_iff)
  have f0: "\<not> isdigit (zat (f @ e) 0)" using f e0 by auto
  have dw: "dropWhile isdigit (tl (d @ f @ e)) = f @ e"
    using d dropWhile_digits [OF d f0] by (cases d) (auto simp: digits_def)
  show "sqliteIsNumber z"
    using f
  proof
    assume "f = []"
    then show ?thesis
      using skip_sign_append [OF s d, of e] zat_digits [OF d, of e] dw e0 ne
      by (simp add: sqliteIsNumber_def z Let_def)
  next
    assume "\<exists>d'. f = 46 # d' \<and> digits d'"
    then obtain d' where f': "f = 46 # d'" "digits d'" by blast
    then show ?thesis
      using skip_sign_append [OF s d, of "f @ e"] zat_digits [OF d, of "f @ e"] dw ne
        zat_digits [OF f'(2), of e] dropWhile_digits [OF f'(2) e0(1)]
      by (simp add: sqliteIsNumber_def z Let_def)
  qed
qed

subsection \<open>The 32-bit test\<close>

text \<open>The number a string of digits stands for.\<close>

primrec digit_value :: "cstring \<Rightarrow> nat" where
  "digit_value [] = 0"
| "digit_value (c # d) = (unat c - 48) * 10 ^ length d + digit_value d"

lemma isdigit_unat: "isdigit c \<longleftrightarrow> 48 \<le> unat c \<and> unat c \<le> 57"
  by (simp add: isdigit_def word_le_nat_alt)

lemma digit_value_bound: "list_all isdigit d \<Longrightarrow> digit_value d < 10 ^ length d"
proof (induction d)
  case (Cons c d)
  then have "unat c - 48 \<le> 9" "digit_value d < 10 ^ length d"
    by (auto simp: isdigit_unat)
  then have "(unat c - 48) * 10 ^ length d + digit_value d < 9 * 10 ^ length d + 10 ^ length d"
    by (meson add_le_less_mono mult_le_mono1)
  then show ?case by simp
qed simp

lemma lead_digit_less:
  "m < m' \<Longrightarrow> v < 10 ^ n \<Longrightarrow> m * 10 ^ n + v < m' * 10 ^ n + (v' :: nat)"
proof -
  assume "m < m'" and "v < 10 ^ n"
  then have "Suc m * 10 ^ n \<le> m' * 10 ^ n" by (metis Suc_leI mult_le_mono1)
  with \<open>v < 10 ^ n\<close> show ?thesis by simp
qed

lemma memcmp_digits:
  "list_all isdigit a \<Longrightarrow> list_all isdigit b \<Longrightarrow> length a = length b \<Longrightarrow>
   memcmp (a @ r) b (length b) \<le> 0 \<longleftrightarrow> digit_value a \<le> digit_value b"
proof (induction b arbitrary: a)
  case (Cons y b)
  then obtain x a' where a: "a = x # a'" and len: "length a' = length b" by (cases a) auto
  from Cons.prems a have "isdigit x" "isdigit y"
    and d: "list_all isdigit a'" "list_all isdigit b" by auto
  then have dx: "48 \<le> unat x" "48 \<le> unat y" by (simp_all add: isdigit_unat)
  show ?case
  proof (cases "unat x" "unat y" rule: linorder_cases)
    case less
    then have "digit_value a < digit_value (y # b)"
      using dx digit_value_bound [OF d(1)] len
      by (simp add: a lead_digit_less)
    moreover have "x < y" using less by (simp add: word_less_nat_alt)
    ultimately show ?thesis by (auto simp: a)
  next
    case equal
    then have "x = y" by (simp add: word_unat_eq_iff)
    with Cons.IH [OF d len] len show ?thesis by (simp add: a)
  next
    case greater
    then have "digit_value (y # b) < digit_value a"
      using dx digit_value_bound [OF d(2)] len
      by (simp add: a lead_digit_less)
    moreover have "y < x" using greater by (simp add: word_less_nat_alt)
    ultimately show ?thesis by (auto simp: a)
  qed
qed simp

lemma sqliteFitsIn32Bits_iff:
  "sqliteFitsIn32Bits z \<longleftrightarrow>
     (let d = takeWhile isdigit (skip_sign z)
      in length d < 10 \<or> (length d = 10 \<and> digit_value d \<le> 2147483647))"
proof -
  let ?d = "takeWhile isdigit (skip_sign z)"
  define m where "m = cstr ''2147483647''"
  have m: "list_all isdigit m" "length m = 10" "digit_value m = 2147483647"
    by (simp_all add: m_def isdigit_def)
  have "list_all isdigit ?d" by (auto simp: list_all_iff dest: set_takeWhileD)
  then have "length ?d = 10 \<Longrightarrow>
      memcmp (skip_sign z) m 10 \<le> 0 \<longleftrightarrow> digit_value ?d \<le> 2147483647"
    using memcmp_digits [OF _ m(1), of ?d "dropWhile isdigit (skip_sign z)"] m by simp
  then show ?thesis by (auto simp: sqliteFitsIn32Bits_def Let_def m_def simp del: cstr_simps)
qed

subsection \<open>The comparisons are comparators\<close>

definition nul_free :: "cstring set" where
  "nul_free = {s. 0 \<notin> set s}"

interpretation strcmp: comparator strcmp nul_free
proof unfold_locales
  fix a b c assume a: "a \<in> nul_free" and b: "b \<in> nul_free"
  then show "strcmp a b < 0 \<longleftrightarrow> 0 < strcmp b a"
    by (simp add: strcmp_swap [of a b] nul_free_def)
  assume c: "c \<in> nul_free" and le: "strcmp a b \<le> 0" "strcmp b c \<le> 0"
  have "strcmp x y \<le> 0 \<longleftrightarrow> (x, y) \<in> lexord byte_less \<or> x = y"
    if "x \<in> nul_free" "y \<in> nul_free" for x y
    using strcmp_lexord [of x y] that by (auto simp: nul_free_def order_le_less)
  with a b c le lexord_byte_less(1) [of a b c] show "strcmp a c \<le> 0" by auto
qed

text \<open>\<open>sqliteCompare\<close> on two values that are not NULL.\<close>

definition value_compare :: "(cstring \<Rightarrow> 'r::linorder) \<Rightarrow> cstring \<Rightarrow> cstring \<Rightarrow> int" where
  "value_compare atof a b = sqliteCompare atof (Some a) (Some b)"

lemma value_compare_eq:
  "value_compare atof a b =
     (if sqliteIsNumber a then
        if \<not> sqliteIsNumber b then -1
        else if atof a < atof b then -1 else if atof b < atof a then 1 else 0
      else if sqliteIsNumber b then 1 else strcmp a b)"
  by (simp add: value_compare_def sqliteCompare_def)

lemma comparator_value: "comparator (value_compare atof) nul_free"
proof unfold_locales
  fix a b c assume a: "a \<in> nul_free" and b: "b \<in> nul_free"
  then show "value_compare atof a b < 0 \<longleftrightarrow> 0 < value_compare atof b a"
    by (auto simp: value_compare_eq strcmp.cmp_swap)
  assume c: "c \<in> nul_free" and "value_compare atof a b \<le> 0" "value_compare atof b c \<le> 0"
  then show "value_compare atof a c \<le> 0"
    using strcmp.cmp_trans [OF a b c] by (auto simp: value_compare_eq split: if_splits)
qed

text \<open>
  The order of one column of a sort key: NULL first, then by the collation of the column,
  the whole order reversed for a descending column.
\<close>

definition column_ascending ::
    "(cstring \<Rightarrow> 'r::linorder) \<Rightarrow> u8 \<Rightarrow> cstring option \<Rightarrow> cstring option \<Rightarrow> int" where
  "column_ascending atof dir a b =
     (case a of
        None \<Rightarrow> (case b of None \<Rightarrow> 0 | Some _ \<Rightarrow> -1)
      | Some x \<Rightarrow>
          (case b of
             None \<Rightarrow> 1
           | Some y \<Rightarrow> if dir = 65 \<or> dir = 68 then strcmp x y else value_compare atof x y))"

definition sort_column ::
    "(cstring \<Rightarrow> 'r::linorder) \<Rightarrow> u8 \<Rightarrow> cstring option \<Rightarrow> cstring option \<Rightarrow> int" where
  "sort_column atof dir a b =
     (if dir = 45 \<or> dir = 68 then - column_ascending atof dir a b
      else column_ascending atof dir a b)"

definition sql_values :: "cstring option set" where
  "sql_values = {v. \<forall>s. v = Some s \<longrightarrow> s \<in> nul_free}"

lemma comparator_column_ascending: "comparator (column_ascending atof dir) sql_values"
proof -
  let ?c = "\<lambda>x y. if dir = 65 \<or> dir = 68 then strcmp x y else value_compare atof x y"
  have "comparator ?c nul_free"
    using comparator_value [of atof] strcmp.comparator_axioms
    by (cases "dir = 65 \<or> dir = 68") simp_all
  note swap = comparator.cmp_swap [OF this] and trans = comparator.cmp_trans [OF this]
  show ?thesis
  proof unfold_locales
    fix a b c assume a: "a \<in> sql_values" and b: "b \<in> sql_values"
    then show "column_ascending atof dir a b < 0 \<longleftrightarrow> 0 < column_ascending atof dir b a"
      using swap by (auto simp: column_ascending_def sql_values_def split: option.splits)
    assume c: "c \<in> sql_values" and le: "column_ascending atof dir a b \<le> 0"
      "column_ascending atof dir b c \<le> 0"
    show "column_ascending atof dir a c \<le> 0"
    proof (cases a; cases b; cases c)
      fix x y z assume "a = Some x" "b = Some y" "c = Some z"
      then show ?thesis
        using trans [of x y z] a b c le by (simp add: column_ascending_def sql_values_def)
    qed (use le in \<open>auto simp: column_ascending_def\<close>)
  qed
qed

lemma comparator_sort_column: "comparator (sort_column atof dir) sql_values"
  using comparator_column_ascending [of atof dir]
    comparator.comparator_reverse [OF comparator_column_ascending [of atof dir]]
  unfolding sort_column_def by (cases "dir = 45 \<or> dir = 68") simp_all

subsection \<open>Sort keys\<close>

text \<open>The key that the opcode \<open>OP_SortMakeKey\<close> of \<open>vdbe.c\<close> builds for a row of values (\<open>None\<close> is NULL).\<close>

fun sort_key :: "u8 list \<Rightarrow> cstring option list \<Rightarrow> u8 list" where
  "sort_key (d # ds) (None # vs) = 78 # 0 # sort_key ds vs"
| "sort_key (d # ds) (Some s # vs) = d # s @ 0 # sort_key ds vs"
| "sort_key ds vs = [0]"

definition sort_dirs :: "u8 set" where
  "sort_dirs = {43, 45, 65, 68}"

lemma str_at_append [simp]: "s \<in> nul_free \<Longrightarrow> str_at (s @ 0 # r) = s"
  by (auto simp: str_at_def nul_free_def takeWhile_append)

lemma sort_compare_loop_key:
  assumes "set ds \<subseteq> sort_dirs"
    and "length xs = length ds" and "length ys = length ds"
    and "set xs \<subseteq> sql_values" and "set ys \<subseteq> sql_values"
  shows "map_option (\<lambda>(res, dir). if dir = 45 \<or> dir = 68 then - res else res)
           (sort_compare_loop atof (sort_key ds xs) (sort_key ds ys) dir)
         = Some (lex_compare (sort_column atof) ds xs ys)"
  using assms
proof (induction ds arbitrary: xs ys dir)
  case Nil
  then show ?case by (simp add: sort_compare_loop.simps)
next
  case (Cons d ds)
  then obtain x xs' y ys' where xy: "xs = x # xs'" "ys = y # ys'"
    by (cases xs; cases ys) auto
  note ih = Cons.IH [of xs' ys']
  have d: "d \<noteq> 0" "d \<noteq> 78" using Cons.prems by (auto simp: sort_dirs_def)
  show ?case
  proof (cases x; cases y)
    assume "x = None" "y = None"
    then show ?thesis
      using ih Cons.prems xy
      by (simp add: sort_compare_loop.simps [of atof "_ # _"] sort_column_def
          column_ascending_def)
  next
    fix b assume "x = None" "y = Some b"
    then show ?thesis
      using d xy by (simp add: sort_compare_loop.simps [of atof "_ # _"] sort_column_def
          column_ascending_def)
  next
    fix a assume "x = Some a" "y = None"
    then show ?thesis
      using d xy by (simp add: sort_compare_loop.simps [of atof "_ # _"] sort_column_def
          column_ascending_def)
  next
    fix a b assume ab: "x = Some a" "y = Some b"
    then have nf: "a \<in> nul_free" "b \<in> nul_free" using Cons.prems xy by (auto simp: sql_values_def)
    let ?res = "if d = 65 \<or> d = 68 then strcmp a b else value_compare atof a b"
    have "sort_compare_loop atof (sort_key (d # ds) xs) (sort_key (d # ds) ys) dir =
        (if ?res \<noteq> 0 then Some (?res, d)
         else sort_compare_loop atof (sort_key ds xs') (sort_key ds ys') d)"
      using d nf by (simp add: xy ab sort_compare_loop.simps [of atof "_ # _"] Let_def
          value_compare_eq)
    then show ?thesis
      using ih [of d] Cons.prems xy ab
      by (simp add: sort_column_def column_ascending_def)
  qed
qed

subsection \<open>Removing quotes\<close>

text \<open>The inside of a quoted string: every quote character is doubled.\<close>

fun double_quotes :: "u8 \<Rightarrow> cstring \<Rightarrow> cstring" where
  "double_quotes q [] = []"
| "double_quotes q (c # s) = (if c = q then q # q # double_quotes q s else c # double_quotes q s)"

lemma zat_append: "zat (a @ b) i = (if i < length a then a ! i else zat b (i - length a))"
  by (auto simp: zat_def nth_append)

text \<open>
  The loop on a buffer that holds the bytes written so far, some bytes already read (the gap),
  and the rest of the quoted string.
\<close>

lemma dequote_loop_quoted:
  assumes "q \<noteq> 0" and "s \<in> nul_free" and "gap \<noteq> []" and "zat r 0 \<noteq> q"
  shows "\<exists>junk. dequote_loop q (out @ gap @ double_quotes q s @ q # r)
            (length out + length gap) (length out) = out @ s @ 0 # junk"
  using assms(2,3)
proof (induction s arbitrary: out gap)
  case Nil
  let ?z = "out @ gap @ q # r"
  from Nil obtain g gap' where gap: "gap = g # gap'" by (cases gap) auto
  have "zat ?z (length out + length gap) = q" "zat ?z (length out + length gap + 1) = zat r 0"
    by (simp_all add: zat_append)
  then show ?case
    using assms(1,4) by (subst dequote_loop.simps) (simp add: gap)
next
  case (Cons c s)
  from Cons.prems obtain g gap' where gap: "gap = g # gap'" by (cases gap) auto
  from Cons.prems have c: "c \<noteq> 0" "s \<in> nul_free" by (auto simp: nul_free_def)
  let ?z = "out @ gap @ double_quotes q (c # s) @ q # r"
  show ?case
  proof (cases "c = q")
    case True
    have z: "zat ?z (length out + length gap) = q" "zat ?z (length out + length gap + 1) = q"
      using True by (simp_all add: zat_append)
    have "?z[length out := q] = (out @ [q]) @ (gap' @ [q, q]) @ double_quotes q s @ q # r"
      using True by (simp add: gap list_update_append)
    with z Cons.IH [OF c(2), of "gap' @ [q, q]" "out @ [q]"] show ?thesis
      using assms(1) True by (subst dequote_loop.simps) (simp add: gap)
  next
    case False
    have z: "zat ?z (length out + length gap) = c"
      using False by (simp add: zat_append)
    have "?z[length out := c] = (out @ [c]) @ (gap' @ [c]) @ double_quotes q s @ q # r"
      using False by (simp add: gap list_update_append)
    with z Cons.IH [OF c(2), of "gap' @ [c]" "out @ [c]"] show ?thesis
      using c False by (subst dequote_loop.simps) (simp add: gap)
  qed
qed

text \<open>An unterminated string: the bytes move down by one and the last one stays.\<close>

lemma dequote_loop_unterminated:
  assumes "s \<in> nul_free" and "q \<notin> set s" and "q \<noteq> 0"
  shows "dequote_loop q (out @ g # s @ 0 # r) (length out + 1) (length out)
     = out @ s @ last (g # s) # 0 # r"
  using assms(1,2)
proof (induction s arbitrary: out g)
  case Nil
  show ?case by (simp add: dequote_loop.simps zat_append)
next
  case (Cons c s)
  let ?z = "out @ g # (c # s) @ 0 # r"
  from Cons.prems have c: "c \<noteq> 0" "c \<noteq> q" "s \<in> nul_free" "q \<notin> set s"
    by (auto simp: nul_free_def)
  have z: "zat ?z (length out + 1) = c" by (simp add: zat_append)
  have "?z[length out := c] = (out @ [c]) @ c # s @ 0 # r" by (simp add: list_update_append)
  with z Cons.IH [OF c(3,4), of "out @ [c]" c] show ?case
    using c by (subst dequote_loop.simps) auto
qed

subsection \<open>Properties\<close>

text \<open>
  \<open>sqliteStrICmp\<close> is the lexicographic order of the strings with upper-case letters
  lowered, on strings without NUL: it is negative, zero or positive accordingly.
\<close>

lemma sqliteStrICmp_order:
  assumes "0 \<notin> set a" and "0 \<notin> set b"
  shows "(sqliteStrICmp a b < 0
       \<longleftrightarrow> (map UpperToLower a, map UpperToLower b) \<in> lexord {(x, y). x < y})
    \<and> (sqliteStrICmp a b = 0 \<longleftrightarrow> map UpperToLower a = map UpperToLower b)"
  using sqliteStrICmp_lexord [OF assms] by (simp add: byte_less_def)

text \<open>
  C31. \<open>sqliteIsNumber\<close> accepts exactly the strings of the form: optional sign, digits,
  optionally a point and digits, optionally an exponent with an optional sign.
\<close>

theorem sqliteIsNumber_correct:
  assumes "0 \<notin> set z"
  shows "sqliteIsNumber z \<longleftrightarrow>
     (\<exists>s d f e. z = s @ d @ f @ e \<and> sign_opt s \<and> digits d
        \<and> (f = [] \<or> (\<exists>d'. f = 46 # d' \<and> digits d')) \<and> exponent_opt e)"
  using sqliteIsNumber_iff [OF assms] by (simp add: numeric_literal_def)

theorem sqliteIsNumber_correct_witness: "sqliteIsNumber (cstr ''-12.5e+3'')"
proof -
  have nz: "0 \<notin> set (cstr ''-12.5e+3'')" by simp
  have "cstr ''-12.5e+3'' = [45] @ [49, 50] @ [46, 53] @ [101, 43, 51]" by simp
  moreover have "exponent_opt [101, 43, 51]"
    unfolding exponent_opt_def
    by (intro disjI2 exI [of _ 101] exI [of _ "[43]"] exI [of _ "[51]"])
      (simp add: sign_opt_def digits_def isdigit_def)
  moreover have "sign_opt [45]" "digits [49, 50]" "digits [53]"
    by (simp_all add: sign_opt_def digits_def isdigit_def)
  ultimately show ?thesis
    unfolding sqliteIsNumber_correct [OF nz] by blast
qed

text \<open>
  \<open>sqliteFitsIn32Bits\<close> looks at the digits after an optional sign.  It never accepts a
  magnitude above 2147483647, and it accepts every smaller one that is written with at most
  ten digits (so without superfluous leading zeros).
\<close>

theorem sqliteFitsIn32Bits_correct:
  "(sqliteFitsIn32Bits z \<longrightarrow> digit_value (takeWhile isdigit (skip_sign z)) \<le> 2147483647) \<and>
   (length (takeWhile isdigit (skip_sign z)) \<le> 10 \<longrightarrow>
    digit_value (takeWhile isdigit (skip_sign z)) \<le> 2147483647 \<longrightarrow> sqliteFitsIn32Bits z)"
proof -
  let ?d = "takeWhile isdigit (skip_sign z)"
  have "list_all isdigit ?d" by (auto simp: list_all_iff dest: set_takeWhileD)
  from digit_value_bound [OF this] have "digit_value ?d < 10 ^ length ?d" .
  moreover have "length ?d < 10 \<Longrightarrow> (10::nat) ^ length ?d \<le> 10 ^ 9"
    by (rule power_increasing) auto
  ultimately have "length ?d < 10 \<Longrightarrow> digit_value ?d \<le> 2147483647" by simp
  then show ?thesis by (auto simp: sqliteFitsIn32Bits_iff Let_def)
qed

theorem sqliteFitsIn32Bits_correct_witness:
  "sqliteFitsIn32Bits (cstr ''-2147483647'') \<and> \<not> sqliteFitsIn32Bits (cstr ''2147483648'')"
  using sqliteFitsIn32Bits_correct [of "cstr ''-2147483647''"]
    sqliteFitsIn32Bits_correct [of "cstr ''2147483648''"]
  by (simp add: skip_sign_def isdigit_def)

text \<open>
  C23. Sort keys.  On the keys built for two rows of values, with one of the four directions
  per column, \<open>sqliteSortCompare\<close> passes its assertion and returns the lexicographic
  comparison of the columns, and this comparison is a total preorder on rows: the sign is
  antisymmetric and the order is transitive.
\<close>

theorem sqliteSortCompare_correct:
  assumes "set ds \<subseteq> sort_dirs"
  shows "comparator (lex_compare (sort_column atof) ds)
           {xs. length xs = length ds \<and> set xs \<subseteq> sql_values} \<and>
    (\<forall>xs ys. length xs = length ds \<and> set xs \<subseteq> sql_values \<longrightarrow>
      length ys = length ds \<and> set ys \<subseteq> sql_values \<longrightarrow>
      sqliteSortCompare atof (sort_key ds xs) (sort_key ds ys)
        = Some (lex_compare (sort_column atof) ds xs ys))"
proof (intro conjI allI impI)
  show "comparator (lex_compare (sort_column atof) ds)
           {xs. length xs = length ds \<and> set xs \<subseteq> sql_values}"
    by (rule comparator_lex) (rule comparator_sort_column)
  fix xs ys :: "cstring option list"
  assume "length xs = length ds \<and> set xs \<subseteq> sql_values"
    and "length ys = length ds \<and> set ys \<subseteq> sql_values"
  then show "sqliteSortCompare atof (sort_key ds xs) (sort_key ds ys)
      = Some (lex_compare (sort_column atof) ds xs ys)"
    unfolding sqliteSortCompare_def using assms by (intro sort_compare_loop_key) auto
qed

theorem sqliteSortCompare_correct_witness:
  "sqliteSortCompare length (cstr ''Aone'' @ [0] @ cstr ''Dtwo'' @ [0, 0])
     (cstr ''Aone'' @ [0] @ cstr ''Dtzo'' @ [0, 0]) = Some 3"
proof -
  let ?x = "[Some (cstr ''one''), Some (cstr ''two'')]"
  let ?y = "[Some (cstr ''one''), Some (cstr ''tzo'')]"
  have d: "set [65, 68] \<subseteq> sort_dirs" by (simp add: sort_dirs_def)
  have v: "length ?x = length [65 :: u8, 68] \<and> set ?x \<subseteq> sql_values"
    "length ?y = length [65 :: u8, 68] \<and> set ?y \<subseteq> sql_values"
    by (simp_all add: sql_values_def nul_free_def)
  have "sqliteSortCompare length (sort_key [65, 68] ?x) (sort_key [65, 68] ?y)
      = Some (lex_compare (sort_column length) [65, 68] ?x ?y)"
    using conjunct2 [OF sqliteSortCompare_correct [OF d, of length]] v by blast
  then show ?thesis by (simp add: sort_column_def column_ascending_def)
qed

text \<open>
  C32. Quoting.  Removing the quotes from a string that was put between quotes with every inner
  quote doubled gives back the string, for each of the three kinds of quotes and for strings
  without NUL; whatever follows the closing quote is cut off.
\<close>

theorem sqliteDequote_quoted:
  assumes "0 \<notin> set s"
    and "open_close \<in> {(39, 39), (34, 34), (91, 93)}"
    and "rest = [] \<or> hd rest \<noteq> snd open_close"
  shows "str_at (sqliteDequote (fst open_close # double_quotes (snd open_close) s
           @ snd open_close # rest @ [0])) = s"
proof -
  let ?q = "snd open_close"
  have "zat (rest @ [0]) 0 \<noteq> ?q" using assms(2,3) by (cases rest) auto
  then obtain junk where "dequote_loop ?q (fst open_close # double_quotes ?q s @ ?q # rest @ [0]) 1 0
      = s @ 0 # junk"
    using dequote_loop_quoted [of ?q s "[fst open_close]" "rest @ [0]" "[]"] assms(1,2)
    by (auto simp: nul_free_def)
  then show ?thesis
    using assms(1,2) by (auto simp: sqliteDequote_def nul_free_def)
qed

theorem sqliteDequote_quoted_witness:
  "str_at (sqliteDequote (cstr ''[a-b-c]'' @ [0])) = cstr ''a-b-c''"
  using sqliteDequote_quoted [of "cstr ''a-b-c''" "(91, 93)" "[]"] by simp

text \<open>
  C33. A string whose closing quote is missing keeps its length: the opening quote goes, every
  byte moves down and the last byte is doubled, since the loop ends without writing a terminator.
\<close>

theorem sqliteDequote_unterminated:
  assumes "0 \<notin> set s" and "39 \<notin> set s" and "s \<noteq> []"
  shows "str_at (sqliteDequote (39 # s @ [0])) = s @ [last s]"
proof -
  have "sqliteDequote (39 # s @ [0]) = s @ last s # [0]"
    using dequote_loop_unterminated [of s 39 "[]" 39 "[]"] assms
    by (simp add: sqliteDequote_def nul_free_def)
  moreover have "last s \<noteq> 0" using assms(1,3) by (metis last_in_set)
  then have "s @ [last s] \<in> nul_free" using assms(1) by (simp add: nul_free_def)
  ultimately show ?thesis using str_at_append [of "s @ [last s]" "[]"] by simp
qed

theorem sqliteDequote_unterminated_witness:
  "str_at (sqliteDequote (39 # cstr ''abc'' @ [0])) = cstr ''abcc''"
  using sqliteDequote_unterminated [of "cstr ''abc''"] by simp

end
