(* ===== verification/Like.thy ===== *)
theory Like
  imports Util
begin

text \<open>
  The pattern matchers of \<^verbatim>\<open>ext/sqlite-2.8.17/src/util.c\<close>, \<open>sqliteLikeCompare\<close> and
  \<open>sqliteGlobCompare\<close>, in the ISO8859 build that the Makefile of the repository selects
  (\<open>sqliteNextChar\<close> advances one byte and \<open>sqliteCharVal\<close> is the byte).  Patterns and
  strings are NUL-free.  The matchers are proved equivalent to the declarative meaning of the
  wildcards, so the first-character search after a \<open>%\<close> or \<open>*\<close> loses no match.
\<close>

subsection \<open>LIKE\<close>

text \<open>The loop after a \<open>%\<close>: further \<open>%\<close> are skipped and each \<open>_\<close> takes a character.\<close>

fun like_skip :: "cstring \<Rightarrow> cstring \<Rightarrow> (cstring \<times> cstring) option" where
  "like_skip [] s = Some ([], s)"
| "like_skip (c # p) s =
     (if c = 37 then like_skip p s
      else if c = 95 then (case s of [] \<Rightarrow> None | _ # s' \<Rightarrow> like_skip p s')
      else Some (c # p, s))"

lemma dropWhile_Cons_length: "dropWhile P s = x # s' \<Longrightarrow> Suc (length s') \<le> length s"
  by (metis length_Cons length_dropWhile_le)

lemma like_skip_length: "like_skip p s = Some (p', s') \<Longrightarrow> length p' \<le> length p"
  by (induction p s rule: like_skip.induct) (auto split: if_splits list.splits)

function sqliteLikeCompare :: "cstring \<Rightarrow> cstring \<Rightarrow> bool"
  and like_search :: "u8 \<Rightarrow> cstring \<Rightarrow> cstring \<Rightarrow> bool" where
  "sqliteLikeCompare [] s = (zat s 0 = 0)"
| "sqliteLikeCompare (c # p) s =
     (if UpperToLower c = 37 then
        (case like_skip p s of
           None \<Rightarrow> False
         | Some (p', s') \<Rightarrow> if p' = [] then True else like_search (UpperToLower (zat p' 0)) p' s')
      else if UpperToLower c = 95 then
        (case s of [] \<Rightarrow> False | _ # s' \<Rightarrow> sqliteLikeCompare p s')
      else if UpperToLower c \<noteq> UpperToLower (zat s 0) then False
      else sqliteLikeCompare p (tl s))"
| "like_search c p s =
     (case dropWhile (\<lambda>x. UpperToLower x \<noteq> c) s of
        [] \<Rightarrow> False
      | x # s' \<Rightarrow> if sqliteLikeCompare p (x # s') then True else like_search c p s')"
  by pat_completeness auto
termination
  by (relation "measures
        [case_sum (\<lambda>(p, s). length p) (\<lambda>(c, p, s). length p),
         case_sum (\<lambda>(p, s). length s) (\<lambda>(c, p, s). length s),
         case_sum (\<lambda>_. 0) (\<lambda>_. 1)]")
    (auto dest: like_skip_length dropWhile_Cons_length)

declare like_search.simps [simp del]

subsection \<open>GLOB\<close>

fun glob_skip :: "cstring \<Rightarrow> cstring \<Rightarrow> (cstring \<times> cstring) option" where
  "glob_skip [] s = Some ([], s)"
| "glob_skip (c # p) s =
     (if c = 42 then glob_skip p s
      else if c = 63 then (case s of [] \<Rightarrow> None | _ # s' \<Rightarrow> glob_skip p s')
      else Some (c # p, s))"

lemma glob_skip_length: "glob_skip p s = Some (p', s') \<Longrightarrow> length p' \<le> length p"
  by (induction p s rule: glob_skip.induct) (auto split: if_splits list.splits)

text \<open>
  The loop over a character class, from \<open>prior_c\<close> and \<open>seen\<close>: it returns \<open>seen\<close> and the
  pattern after the closing bracket, or \<open>None\<close> when the pattern ends first.
\<close>

function class_loop :: "u8 \<Rightarrow> cstring \<Rightarrow> u8 \<Rightarrow> bool \<Rightarrow> (bool \<times> cstring) option" where
  "class_loop c [] prior_c seen = None"
| "class_loop c (c2 # p) prior_c seen =
     (if c2 = 93 then Some (seen, p)
      else if c2 = 45 \<and> zat p 0 \<noteq> 93 \<and> zat p 0 \<noteq> 0 \<and> prior_c > 0 then
        class_loop c (tl p) 0 (seen \<or> (prior_c \<le> c \<and> c \<le> zat p 0))
      else if c = c2 then class_loop c p c2 True
      else class_loop c p c2 seen)"
  by pat_completeness auto
termination
  by (relation "measure (\<lambda>(c, p, prior_c, seen). length p)") auto

text \<open>The whole bracket for the character \<open>c\<close>; the argument is the pattern after the \<open>[\<close>.\<close>

definition glob_class :: "u8 \<Rightarrow> cstring \<Rightarrow> cstring option" where
  "glob_class c p =
     (let invert = (zat p 0 = 94);
          p = (if invert then tl p else p);
          seen = (zat p 0 = 93 \<and> c = 93);
          p = (if zat p 0 = 93 then tl p else p)
      in case class_loop c p 0 seen of
           None \<Rightarrow> None
         | Some (seen, p') \<Rightarrow> if seen = invert then None else Some p')"

lemma class_loop_length: "class_loop c p prior_c seen = Some (b, p') \<Longrightarrow> length p' < length p"
  by (induction c p prior_c seen rule: class_loop.induct) (auto split: if_splits)

lemma glob_class_length: "glob_class c p = Some p' \<Longrightarrow> length p' < Suc (length p)"
  by (auto simp: glob_class_def Let_def dest!: class_loop_length split: option.splits if_splits)

function sqliteGlobCompare :: "cstring \<Rightarrow> cstring \<Rightarrow> bool"
  and glob_class_search :: "cstring \<Rightarrow> cstring \<Rightarrow> bool"
  and glob_search :: "u8 \<Rightarrow> cstring \<Rightarrow> cstring \<Rightarrow> bool" where
  "sqliteGlobCompare [] s = (zat s 0 = 0)"
| "sqliteGlobCompare (c # p) s =
     (if c = 42 then
        (case glob_skip p s of
           None \<Rightarrow> False
         | Some (p', s') \<Rightarrow>
             if p' = [] then True
             else if zat p' 0 = 91 then glob_class_search p' s'
             else glob_search (zat p' 0) p' s')
      else if c = 63 then (case s of [] \<Rightarrow> False | _ # s' \<Rightarrow> sqliteGlobCompare p s')
      else if c = 91 then
        (case s of
           [] \<Rightarrow> False
         | x # s' \<Rightarrow>
             (case glob_class x p of None \<Rightarrow> False | Some p' \<Rightarrow> sqliteGlobCompare p' s'))
      else if c \<noteq> zat s 0 then False
      else sqliteGlobCompare p (tl s))"
| "glob_class_search p s =
     (case s of
        [] \<Rightarrow> False
      | x # s' \<Rightarrow> if sqliteGlobCompare p (x # s') then True else glob_class_search p s')"
| "glob_search c p s =
     (case dropWhile (\<lambda>x. x \<noteq> c) s of
        [] \<Rightarrow> False
      | x # s' \<Rightarrow> if sqliteGlobCompare p (x # s') then True else glob_search c p s')"
  by pat_completeness auto
termination
  by (relation "measures
        [case_sum (\<lambda>(p, s). length p) (case_sum (\<lambda>(p, s). length p) (\<lambda>(c, p, s). length p)),
         case_sum (\<lambda>(p, s). length s) (case_sum (\<lambda>(p, s). length s) (\<lambda>(c, p, s). length s)),
         case_sum (\<lambda>_. 0) (case_sum (\<lambda>_. 1) (\<lambda>_. 1))]")
    (auto dest: glob_skip_length dropWhile_Cons_length glob_class_length)

declare glob_class_search.simps [simp del] glob_search.simps [simp del]

subsection \<open>The meaning of a LIKE pattern\<close>

inductive like_matches :: "cstring \<Rightarrow> cstring \<Rightarrow> bool" where
  like_end: "like_matches [] []"
| like_any: "like_matches p s \<Longrightarrow> like_matches (37 # p) (t @ s)"
| like_one: "like_matches p s \<Longrightarrow> like_matches (95 # p) (x # s)"
| like_char: "c \<noteq> 37 \<Longrightarrow> c \<noteq> 95 \<Longrightarrow> UpperToLower c = UpperToLower x \<Longrightarrow> like_matches p s \<Longrightarrow>
    like_matches (c # p) (x # s)"

inductive_simps like_matches_Nil: "like_matches [] s"
inductive_simps like_matches_any: "like_matches (37 # p) s"
inductive_simps like_matches_one: "like_matches (95 # p) s"
inductive_simps like_matches_Cons: "like_matches (c # p) s"

lemma UpperToLower_wild: "UpperToLower c = 37 \<longleftrightarrow> c = 37" "UpperToLower c = 95 \<longleftrightarrow> c = 95"
proof -
  have "list_all (\<lambda>n. (UpperToLower (of_nat n) = 37 \<longleftrightarrow> of_nat n = (37 :: u8))
      \<and> (UpperToLower (of_nat n) = 95 \<longleftrightarrow> of_nat n = (95 :: u8))) [0..<256]" by code_simp
  then have "\<forall>n < 256. (UpperToLower (of_nat n) = 37 \<longleftrightarrow> of_nat n = (37 :: u8))
      \<and> (UpperToLower (of_nat n) = 95 \<longleftrightarrow> of_nat n = (95 :: u8))"
    by (simp only: list_all_iff) simp
  then have "(UpperToLower c = 37 \<longleftrightarrow> c = 37) \<and> (UpperToLower c = 95 \<longleftrightarrow> c = 95)"
    by (rule all_u8_induct)
  then show "UpperToLower c = 37 \<longleftrightarrow> c = 37" "UpperToLower c = 95 \<longleftrightarrow> c = 95" by simp_all
qed

text \<open>A \<open>%\<close> in front of a pattern: the pattern matches some suffix.\<close>

definition some_suffix :: "(cstring \<Rightarrow> bool) \<Rightarrow> cstring \<Rightarrow> bool" where
  "some_suffix m s \<longleftrightarrow> (\<exists>t s'. s = t @ s' \<and> m s')"

lemma some_suffix_Nil [simp]: "some_suffix m [] \<longleftrightarrow> m []"
  by (simp add: some_suffix_def)

lemma some_suffix_Cons: "some_suffix m (x # s) \<longleftrightarrow> m (x # s) \<or> some_suffix m s"
  unfolding some_suffix_def by (metis append_Cons append_Nil list.exhaust list.inject)

lemma some_suffix_idem: "some_suffix (some_suffix m) s \<longleftrightarrow> some_suffix m s"
  unfolding some_suffix_def by (metis append.assoc append_Nil)

lemma some_suffix_one:
  "some_suffix (\<lambda>s. \<exists>x s'. s = x # s' \<and> m s') s \<longleftrightarrow> (\<exists>x s'. s = x # s' \<and> some_suffix m s')"
proof
  assume "some_suffix (\<lambda>s. \<exists>x s'. s = x # s' \<and> m s') s"
  then obtain t x s' where "s = t @ x # s'" "m s'" by (auto simp: some_suffix_def)
  then show "\<exists>x s'. s = x # s' \<and> some_suffix m s'"
    unfolding some_suffix_def by (cases t) (auto, metis append.assoc append_Cons append_Nil)
next
  assume "\<exists>x s'. s = x # s' \<and> some_suffix m s'"
  then obtain x t s' where "s = (x # t) @ s'" "m s'" by (auto simp: some_suffix_def)
  moreover have "(x # t) @ s' = butlast (x # t) @ last (x # t) # s'"
    by (metis append.assoc append_Cons append_Nil append_butlast_last_id list.distinct(1))
  ultimately show "some_suffix (\<lambda>s. \<exists>x s'. s = x # s' \<and> m s') s"
    unfolding some_suffix_def by blast
qed

lemma like_matches_any': "like_matches (37 # p) s \<longleftrightarrow> some_suffix (like_matches p) s"
  by (auto simp: like_matches_any some_suffix_def)

lemma like_skip_matches:
  "some_suffix (like_matches p) s \<longleftrightarrow>
     (case like_skip p s of None \<Rightarrow> False | Some (p', s') \<Rightarrow> some_suffix (like_matches p') s')"
proof (induction p s rule: like_skip.induct)
  case (1 s)
  then show ?case by simp
next
  case (2 c p s)
  consider "c = 37" | "c = 95" | "c \<noteq> 37" "c \<noteq> 95" by blast
  then show ?case
  proof cases
    case 1
    then have "like_matches (c # p) = some_suffix (like_matches p)"
      by (simp add: fun_eq_iff like_matches_any')
    with 1 "2.IH" show ?thesis by (simp add: some_suffix_idem)
  next
    case 2
    have "like_matches (95 # p) = (\<lambda>s. \<exists>x s'. s = x # s' \<and> like_matches p s')"
      by (auto simp: fun_eq_iff like_matches_one)
    with 2 "2.IH"(2) show ?thesis by (cases s) (auto simp: some_suffix_one)
  next
    case 3
    then show ?thesis by simp
  qed
qed

lemma like_skip_form:
  "like_skip p s = Some (c # p', s') \<Longrightarrow> c \<noteq> 37 \<and> c \<noteq> 95"
  by (induction p s rule: like_skip.induct) (auto split: if_splits list.splits)

lemma like_skip_set: "like_skip p s = Some (p', s') \<Longrightarrow> set p' \<subseteq> set p \<and> set s' \<subseteq> set s"
  by (induction p s rule: like_skip.induct) (auto split: if_splits list.splits)

lemma some_suffix_dropWhile:
  assumes "\<And>x s. m (x # s) \<Longrightarrow> \<not> P x" and "\<not> m []"
  shows "some_suffix m s \<longleftrightarrow> some_suffix m (dropWhile P s)"
proof (induction s)
  case (Cons x s)
  then show ?case using assms(1) [of x s] by (auto simp: some_suffix_Cons)
qed simp

lemma like_compare_matches:
  "0 \<notin> set p \<Longrightarrow> 0 \<notin> set s \<Longrightarrow> sqliteLikeCompare p s = like_matches p s"
  "0 \<notin> set p \<Longrightarrow> 0 \<notin> set s \<Longrightarrow> p \<noteq> [] \<Longrightarrow> zat p 0 \<noteq> 37 \<Longrightarrow> zat p 0 \<noteq> 95 \<Longrightarrow>
     c = UpperToLower (zat p 0) \<Longrightarrow> like_search c p s = some_suffix (like_matches p) s"
proof (induction p s and c p s rule: sqliteLikeCompare_like_search.induct)
  case (1 s)
  then show ?case by (simp add: zat_eq_0 like_matches_Nil)
next
  case (2 c p s)
  consider "c = 37" | "c = 95" | "c \<noteq> 37" "c \<noteq> 95" by blast
  then show ?case
  proof cases
    case 1
    show ?thesis
    proof (cases "like_skip p s")
      case None
      with 1 show ?thesis by (simp add: UpperToLower_wild like_matches_any' like_skip_matches [of p s])
    next
      case (Some ps)
      obtain p' s' where ps: "ps = (p', s')" by (cases ps)
      show ?thesis
      proof (cases p')
        case Nil
        have "some_suffix (like_matches []) s'"
          by (auto simp: some_suffix_def like_matches_Nil)
        with 1 Some ps Nil show ?thesis
          by (simp add: UpperToLower_wild like_matches_any' like_skip_matches [of p s])
      next
        case (Cons d p'')
        have "like_search (UpperToLower (zat p' 0)) p' s' = some_suffix (like_matches p') s'"
          using "2.IH"(1) [of ps p' s'] 1 Some ps Cons "2.prems" like_skip_set [of p s p' s']
            like_skip_form [of p s d p'' s'] by (auto simp: UpperToLower_wild)
        with 1 Some ps Cons show ?thesis
          by (simp add: UpperToLower_wild like_matches_any' like_skip_matches [of p s])
      qed
    qed
  next
    case 2
    with "2.IH"(2) "2.prems" show ?thesis
      by (cases s) (auto simp: UpperToLower_wild like_matches_one)
  next
    case 3
    with "2.IH"(3) "2.prems" show ?thesis
      by (cases s) (auto simp: UpperToLower_wild like_matches_Cons)
  qed
next
  case (3 c p s)
  let ?d = "dropWhile (\<lambda>x. UpperToLower x \<noteq> c) s"
  from "3.prems" have nm: "\<not> like_matches p []"
    "\<And>x s. like_matches p (x # s) \<Longrightarrow> \<not> UpperToLower x \<noteq> c"
    by (cases p; auto simp: like_matches_Cons)+
  have drop: "some_suffix (like_matches p) s = some_suffix (like_matches p) ?d"
    by (rule some_suffix_dropWhile) (use nm in auto)
  show ?case
  proof (cases ?d)
    case Nil
    then have "like_search c p s = False" by (subst like_search.simps) (simp only: Nil list.case)
    with Nil drop nm(1) show ?thesis by (simp only: some_suffix_Nil)
  next
    case (Cons x s')
    then have "set (x # s') \<subseteq> set s" by (metis set_dropWhileD subsetI)
    then have "0 \<notin> set (x # s')" using "3.prems"(2) by blast
    with "3.IH" Cons "3.prems" have
      "sqliteLikeCompare p (x # s') = like_matches p (x # s')"
      "\<not> like_matches p (x # s') \<Longrightarrow> like_search c p s' = some_suffix (like_matches p) s'" by auto
    with drop Cons show ?thesis
      by (auto simp: like_search.simps [of c p s] some_suffix_Cons)
  qed
qed

subsection \<open>The meaning of a GLOB pattern\<close>

inductive glob_matches :: "cstring \<Rightarrow> cstring \<Rightarrow> bool" where
  glob_end: "glob_matches [] []"
| glob_any: "glob_matches p s \<Longrightarrow> glob_matches (42 # p) (t @ s)"
| glob_one: "glob_matches p s \<Longrightarrow> glob_matches (63 # p) (x # s)"
| glob_set: "glob_class x p = Some p' \<Longrightarrow> glob_matches p' s \<Longrightarrow> glob_matches (91 # p) (x # s)"
| glob_char: "c \<noteq> 42 \<Longrightarrow> c \<noteq> 63 \<Longrightarrow> c \<noteq> 91 \<Longrightarrow> glob_matches p s \<Longrightarrow> glob_matches (c # p) (c # s)"

inductive_simps glob_matches_Nil: "glob_matches [] s"
inductive_simps glob_matches_any: "glob_matches (42 # p) s"
inductive_simps glob_matches_one: "glob_matches (63 # p) s"
inductive_simps glob_matches_set: "glob_matches (91 # p) s"
inductive_simps glob_matches_Cons: "glob_matches (c # p) s"

lemma glob_matches_any': "glob_matches (42 # p) s \<longleftrightarrow> some_suffix (glob_matches p) s"
  by (auto simp: glob_matches_any some_suffix_def)

lemma glob_skip_matches:
  "some_suffix (glob_matches p) s \<longleftrightarrow>
     (case glob_skip p s of None \<Rightarrow> False | Some (p', s') \<Rightarrow> some_suffix (glob_matches p') s')"
proof (induction p s rule: glob_skip.induct)
  case (1 s)
  then show ?case by simp
next
  case (2 c p s)
  consider "c = 42" | "c = 63" | "c \<noteq> 42" "c \<noteq> 63" by blast
  then show ?case
  proof cases
    case 1
    then have "glob_matches (c # p) = some_suffix (glob_matches p)"
      by (simp add: fun_eq_iff glob_matches_any')
    with 1 "2.IH" show ?thesis by (simp add: some_suffix_idem)
  next
    case 2
    have "glob_matches (63 # p) = (\<lambda>s. \<exists>x s'. s = x # s' \<and> glob_matches p s')"
      by (auto simp: fun_eq_iff glob_matches_one)
    with 2 "2.IH"(2) show ?thesis by (cases s) (auto simp: some_suffix_one)
  next
    case 3
    then show ?thesis by simp
  qed
qed

lemma glob_skip_form:
  "glob_skip p s = Some (c # p', s') \<Longrightarrow> c \<noteq> 42 \<and> c \<noteq> 63"
  by (induction p s rule: glob_skip.induct) (auto split: if_splits list.splits)

lemma glob_skip_set: "glob_skip p s = Some (p', s') \<Longrightarrow> set p' \<subseteq> set p \<and> set s' \<subseteq> set s"
  by (induction p s rule: glob_skip.induct) (auto split: if_splits list.splits)

lemma set_tl_subset: "set (tl p) \<subseteq> set p"
  by (cases p) auto

lemma class_loop_set: "class_loop c p prior_c seen = Some (b, p') \<Longrightarrow> set p' \<subseteq> set p"
proof (induction c p prior_c seen rule: class_loop.induct)
  case (2 c c2 p prior_c seen)
  then show ?case using set_tl_subset [of p] by (auto split: if_splits)
qed simp

lemma glob_class_set: "glob_class c p = Some p' \<Longrightarrow> set p' \<subseteq> set p"
proof -
  assume "glob_class c p = Some p'"
  then have "set p' \<subseteq> set p \<or> set p' \<subseteq> set (tl p) \<or> set p' \<subseteq> set (tl (tl p))"
    by (auto simp: glob_class_def Let_def dest!: class_loop_set split: option.splits if_splits)
  then show ?thesis using set_tl_subset [of p] set_tl_subset [of "tl p"] by blast
qed

lemma glob_compare_matches:
  "0 \<notin> set p \<Longrightarrow> 0 \<notin> set s \<Longrightarrow> sqliteGlobCompare p s = glob_matches p s"
  "0 \<notin> set p \<Longrightarrow> 0 \<notin> set s \<Longrightarrow> zat p 0 = 91 \<Longrightarrow>
     glob_class_search p s = some_suffix (glob_matches p) s"
  "0 \<notin> set p \<Longrightarrow> 0 \<notin> set s \<Longrightarrow> p \<noteq> [] \<Longrightarrow> zat p 0 \<notin> {42, 63, 91} \<Longrightarrow> c = zat p 0 \<Longrightarrow>
     glob_search c p s = some_suffix (glob_matches p) s"
proof (induction p s and p s and c p s
    rule: sqliteGlobCompare_glob_class_search_glob_search.induct)
  case (1 s)
  then show ?case by (simp add: zat_eq_0 glob_matches_Nil)
next
  case (2 c p s)
  consider "c = 42" | "c = 63" | "c = 91" | "c \<notin> {42, 63, 91}" by blast
  then show ?case
  proof cases
    case 1
    show ?thesis
    proof (cases "glob_skip p s")
      case None
      with 1 show ?thesis by (simp add: glob_matches_any' glob_skip_matches [of p s])
    next
      case (Some ps)
      obtain p' s' where ps: "ps = (p', s')" by (cases ps)
      have sub: "0 \<notin> set p'" "0 \<notin> set s'" using glob_skip_set [of p s p' s'] Some ps "2.prems" by auto
      show ?thesis
      proof (cases p')
        case Nil
        have "some_suffix (glob_matches []) s'"
          by (auto simp: some_suffix_def glob_matches_Nil)
        with 1 Some ps Nil show ?thesis
          by (simp add: glob_matches_any' glob_skip_matches [of p s])
      next
        case (Cons d p'')
        have d: "d \<noteq> 42" "d \<noteq> 63" using glob_skip_form [of p s d p'' s'] Some ps Cons by auto
        have "(if d = 91 then glob_class_search p' s' else glob_search d p' s')
            = some_suffix (glob_matches p') s'"
          using "2.IH"(1) [of ps p' s'] "2.IH"(2) [of ps p' s'] 1 Some ps Cons sub d by auto
        with 1 Some ps Cons show ?thesis
          by (simp add: glob_matches_any' glob_skip_matches [of p s] split: if_splits)
      qed
    qed
  next
    case 2
    with "2.IH"(3) "2.prems" show ?thesis
      by (cases s) (auto simp: glob_matches_one)
  next
    case 3
    show ?thesis
    proof (cases s)
      case Nil
      with 3 show ?thesis by (simp add: glob_matches_set)
    next
      case (Cons x s')
      show ?thesis
      proof (cases "glob_class x p")
        case None
        with 3 Cons show ?thesis by (simp add: glob_matches_set)
      next
        case (Some p')
        with "2.IH"(4) [of x s' p'] 3 Cons "2.prems" glob_class_set [of x p p'] show ?thesis
          by (auto simp: glob_matches_set)
      qed
    qed
  next
    case 4
    with "2.IH"(5) "2.prems" show ?thesis
      by (cases s) (auto simp: glob_matches_Cons)
  qed
next
  case (3 p s)
  then obtain p' where p: "p = 91 # p'" by (cases p) auto
  show ?case
  proof (cases s)
    case Nil
    then show ?thesis by (simp add: glob_class_search.simps p glob_matches_set)
  next
    case (Cons x s')
    with "3.IH" "3.prems" have "sqliteGlobCompare p (x # s') = glob_matches p (x # s')"
      "\<not> glob_matches p (x # s') \<Longrightarrow> glob_class_search p s' = some_suffix (glob_matches p) s'" by auto
    with Cons show ?thesis
      by (auto simp: glob_class_search.simps [of p "x # s'"] some_suffix_Cons)
  qed
next
  case (4 c p s)
  let ?d = "dropWhile (\<lambda>x. x \<noteq> c) s"
  from "4.prems" have nm: "\<not> glob_matches p []" "\<And>x s. glob_matches p (x # s) \<Longrightarrow> \<not> x \<noteq> c"
    by (cases p; auto simp: glob_matches_Cons)+
  have drop: "some_suffix (glob_matches p) s = some_suffix (glob_matches p) ?d"
    by (rule some_suffix_dropWhile) (use nm in auto)
  show ?case
  proof (cases ?d)
    case Nil
    then have "glob_search c p s = False" by (subst glob_search.simps) (simp only: Nil list.case)
    with Nil drop nm(1) show ?thesis by (simp only: some_suffix_Nil)
  next
    case (Cons x s')
    then have "set (x # s') \<subseteq> set s" by (metis set_dropWhileD subsetI)
    then have "0 \<notin> set (x # s')" using "4.prems"(2) by blast
    with "4.IH" Cons "4.prems" have
      "sqliteGlobCompare p (x # s') = glob_matches p (x # s')"
      "\<not> glob_matches p (x # s') \<Longrightarrow> glob_search c p s' = some_suffix (glob_matches p) s'" by auto
    with drop Cons show ?thesis
      by (auto simp: glob_search.simps [of c p s] some_suffix_Cons)
  qed
qed

subsection \<open>Character classes\<close>

text \<open>A class that is a plain list of characters, without \<open>]\<close> and without \<open>-\<close>.\<close>

lemma class_loop_plain:
  "93 \<notin> set body \<Longrightarrow> 45 \<notin> set body \<Longrightarrow>
   class_loop c (body @ 93 # p) prior_c seen = Some (seen \<or> c \<in> set body, p)"
  by (induction body arbitrary: prior_c seen) auto

lemma glob_class_plain:
  assumes "93 \<notin> set body" "45 \<notin> set body" "body \<noteq> []" "hd body \<noteq> 94"
  shows "glob_class c (body @ 93 # p) = (if c \<in> set body then Some p else None)"
    and "glob_class c (94 # body @ 93 # p) = (if c \<notin> set body then Some p else None)"
proof -
  have z: "zat (body @ r) 0 \<noteq> 94" "zat (body @ r) 0 \<noteq> 93" for r
    using assms by (cases body; simp)+
  show "glob_class c (body @ 93 # p) = (if c \<in> set body then Some p else None)"
    using z class_loop_plain [OF assms(1,2)] by (simp add: glob_class_def Let_def)
  show "glob_class c (94 # body @ 93 # p) = (if c \<notin> set body then Some p else None)"
    using z class_loop_plain [OF assms(1,2)] by (simp add: glob_class_def Let_def)
qed

lemma glob_class_range:
  assumes "a \<notin> {0, 45, 93, 94}" and "b \<notin> {0, 93}"
  shows "glob_class c (a # 45 # b # 93 # p) = (if a \<le> c \<and> c \<le> b \<or> c = a then Some p else None)"
  using assms by (auto simp: glob_class_def Let_def word_neq_0_conv)

subsection \<open>Properties\<close>

text \<open>
  C21. \<open>sqliteLikeCompare\<close> decides the meaning of a LIKE pattern: \<open>%\<close> matches any sequence,
  \<open>_\<close> any one character, and every other character itself up to the case of letters.
\<close>

theorem sqliteLikeCompare_correct:
  assumes "0 \<notin> set p" and "0 \<notin> set s"
  shows "sqliteLikeCompare p s \<longleftrightarrow> like_matches p s"
  by (rule like_compare_matches(1) [OF assms])

theorem sqliteLikeCompare_correct_witness:
  "like_matches (cstr ''a%_C'') (cstr ''Axxbc'')"
  using sqliteLikeCompare_correct [of "cstr ''a%_C''" "cstr ''Axxbc''"]
  by (simp add: UpperToLower_eq like_search.simps)



end
