(* ===== verification/Hash.thy ===== *)
theory Hash
  imports Util
begin

text \<open>
  \<^verbatim>\<open>ext/sqlite-2.8.17/src/hash.c\<close>: the hash table of the engine.  All elements are on one
  doubly-linked list, in which the elements of a bucket are adjacent; a bucket records the
  first of its elements and their number.  The model keeps the pointers: an element lives at
  an address of a store, address 0 is the null pointer, and \<open>next\<close>, \<open>prev\<close>, \<open>first\<close> and
  \<open>chain\<close> hold addresses.  The data stored under a key is a pointer too, 0 meaning none.
  A key is the bytes \<open>pKey\<close> points to and the number \<open>nKey\<close>; keys are stored by value, so
  the copy made for \<open>copyKey\<close> tables and the caller's own copy are not distinguished.

  Calls of \<open>sqliteMalloc\<close> are parameters: the address of the new element (0 on failure) and
  whether the allocations of the key copy and of the bucket arrays succeed.  Loops that walk
  the list are \<open>partial_function\<close>s, and the theorems show that they end.

  The theorems: the operations keep the list and the buckets well-formed, and the table is a
  finite map from keys (up to the comparison of its key class) to data.
\<close>

unbundle bit_operations_syntax

subsection \<open>Keys, elements and tables\<close>

type_synonym addr = nat
type_synonym hkey = "u8 list \<times> int"

record helem =
  enext :: addr
  eprev :: addr
  data :: nat
  key :: hkey

record hash =
  keyClass :: nat
  copyKey :: bool
  count :: int
  first :: addr
  htsize :: nat
  ht :: "(int \<times> addr) list option"
  mem :: "addr \<Rightarrow> helem"

abbreviation "SQLITE_HASH_INT \<equiv> (1::nat)"
abbreviation "SQLITE_HASH_STRING \<equiv> (3::nat)"
abbreviation "SQLITE_HASH_BINARY \<equiv> (4::nat)"

definition sqliteHashInit :: "nat \<Rightarrow> bool \<Rightarrow> (addr \<Rightarrow> helem) \<Rightarrow> hash" where
  "sqliteHashInit kc ck m =
     \<lparr>keyClass = kc, copyKey = ck \<and> (kc = SQLITE_HASH_STRING \<or> kc = SQLITE_HASH_BINARY),
      count = 0, first = 0, htsize = 0, ht = None, mem = m\<rparr>"

text \<open>The walk that frees the elements changes nothing that the table can reach afterwards.\<close>

definition sqliteHashClear :: "hash \<Rightarrow> hash" where
  "sqliteHashClear h = h\<lparr>first := 0, ht := None, htsize := 0, count := 0\<rparr>"

subsection \<open>Hash and comparison functions\<close>

definition intHash :: "hkey \<Rightarrow> u32" where
  "intHash k = (let n = word_of_int (snd k) in n XOR push_bit 8 n XOR signed_drop_bit 8 n)"

definition intCompare :: "hkey \<Rightarrow> hkey \<Rightarrow> int" where
  "intCompare k1 k2 = snd k2 - snd k1"

definition strHash :: "hkey \<Rightarrow> u32" where
  "strHash k = sqliteHashNoCase (fst k) (snd k)"

definition strCompare :: "hkey \<Rightarrow> hkey \<Rightarrow> int" where
  "strCompare k1 k2 =
     (if snd k1 \<noteq> snd k2 then snd k2 - snd k1
      else sqliteStrNICmp (fst k1) (fst k2) (nat (snd k1)))"

text \<open>The bytes of a binary key are read as (signed) \<open>char\<close>.\<close>

fun bin_hash_loop :: "u32 \<Rightarrow> u8 list \<Rightarrow> u32" where
  "bin_hash_loop h [] = h"
| "bin_hash_loop h (c # z) = bin_hash_loop (push_bit 3 h XOR h XOR scast c) z"

definition binHash :: "hkey \<Rightarrow> u32" where
  "binHash k = bin_hash_loop 0 (take (nat (snd k)) (fst k)) AND 0x7fffffff"

definition binCompare :: "hkey \<Rightarrow> hkey \<Rightarrow> int" where
  "binCompare k1 k2 =
     (if snd k1 \<noteq> snd k2 then snd k2 - snd k1 else memcmp (fst k1) (fst k2) (nat (snd k1)))"

text \<open>A null function pointer is \<open>None\<close>.\<close>

definition hashFunction :: "nat \<Rightarrow> (hkey \<Rightarrow> u32) option" where
  "hashFunction kc =
     (if kc = SQLITE_HASH_INT then Some intHash
      else if kc = SQLITE_HASH_STRING then Some strHash
      else if kc = SQLITE_HASH_BINARY then Some binHash
      else None)"

definition compareFunction :: "nat \<Rightarrow> (hkey \<Rightarrow> hkey \<Rightarrow> int) option" where
  "compareFunction kc =
     (if kc = SQLITE_HASH_INT then Some intCompare
      else if kc = SQLITE_HASH_STRING then Some strCompare
      else if kc = SQLITE_HASH_BINARY then Some binCompare
      else None)"

text \<open>\<open>h & (size-1)\<close>, an index into the bucket array.\<close>

definition bucket_of :: "u32 \<Rightarrow> nat \<Rightarrow> nat" where
  "bucket_of h n = unat (h AND word_of_int (int n - 1))"

subsection \<open>Linking an element into its bucket\<close>

definition set_next :: "addr \<Rightarrow> addr \<Rightarrow> (addr \<Rightarrow> helem) \<Rightarrow> (addr \<Rightarrow> helem)" where
  "set_next p v m = m(p := (m p)\<lparr>enext := v\<rparr>)"

definition set_prev :: "addr \<Rightarrow> addr \<Rightarrow> (addr \<Rightarrow> helem) \<Rightarrow> (addr \<Rightarrow> helem)" where
  "set_prev p v m = m(p := (m p)\<lparr>eprev := v\<rparr>)"

text \<open>
  The lines that \<open>rehash\<close> and \<open>sqliteHashInsert\<close> share: insert \<open>elem\<close> before the first
  element \<open>x\<close> of the bucket, or at the head of the list if the bucket is empty.
\<close>

definition link_before :: "addr \<Rightarrow> addr \<Rightarrow> addr \<Rightarrow> (addr \<Rightarrow> helem) \<Rightarrow> addr \<times> (addr \<Rightarrow> helem)" where
  "link_before elem x fst_p m =
     (if x \<noteq> 0 then
        let m = set_next elem x m;
            m = set_prev elem (eprev (m x)) m;
            (fst_p, m) = (if eprev (m x) \<noteq> 0 then (fst_p, set_next (eprev (m x)) elem m) else (elem, m));
            m = set_prev x elem m
        in (fst_p, m)
      else
        let m = set_next elem fst_p m;
            m = (if fst_p \<noteq> 0 then set_prev fst_p elem m else m);
            m = set_prev elem 0 m
        in (elem, m))"

definition bucket_add :: "(int \<times> addr) list \<Rightarrow> nat \<Rightarrow> addr \<Rightarrow> (int \<times> addr) list" where
  "bucket_add t b elem = t[b := (fst (t ! b) + 1, elem)]"

subsection \<open>Resizing\<close>

partial_function (option) rehash_loop ::
    "(hkey \<Rightarrow> u32) \<Rightarrow> nat \<Rightarrow> addr \<Rightarrow> (int \<times> addr) list \<Rightarrow> addr \<Rightarrow> (addr \<Rightarrow> helem)
     \<Rightarrow> ((int \<times> addr) list \<times> addr \<times> (addr \<Rightarrow> helem)) option" where
  "rehash_loop xHash new_size elem new_ht fst_p m =
     (if elem = 0 then Some (new_ht, fst_p, m)
      else
        let b = bucket_of (xHash (key (m elem))) new_size;
            next_elem = enext (m elem);
            (fst_p, m) = link_before elem (snd (new_ht ! b)) fst_p m
        in rehash_loop xHash new_size next_elem (bucket_add new_ht b elem) fst_p m)"

text \<open>\<open>ok\<close>: the allocation of the new array succeeds.\<close>

definition rehash :: "bool \<Rightarrow> nat \<Rightarrow> hash \<Rightarrow> hash option" where
  "rehash ok new_size h =
     (if \<not> ok then Some h
      else case hashFunction (keyClass h) of
        None \<Rightarrow> None
      | Some xHash \<Rightarrow>
          map_option (\<lambda>(t, f, m). h\<lparr>ht := Some t, htsize := new_size, first := f, mem := m\<rparr>)
            (rehash_loop xHash new_size (first h) (replicate new_size (0, 0)) 0 (mem h)))"

subsection \<open>Searching and removing\<close>

partial_function (option) find_loop ::
    "(hkey \<Rightarrow> hkey \<Rightarrow> int) \<Rightarrow> hkey \<Rightarrow> (addr \<Rightarrow> helem) \<Rightarrow> int \<Rightarrow> addr \<Rightarrow> addr option" where
  "find_loop xCompare k m cnt elem =
     (if cnt \<noteq> 0 \<and> elem \<noteq> 0 then
        if xCompare (key (m elem)) k = 0 then Some elem
        else find_loop xCompare k m (cnt - 1) (enext (m elem))
      else Some 0)"

definition findElementGivenHash :: "hash \<Rightarrow> hkey \<Rightarrow> nat \<Rightarrow> addr option" where
  "findElementGivenHash h k b =
     (case ht h of
        None \<Rightarrow> Some 0
      | Some t \<Rightarrow>
          (case compareFunction (keyClass h) of
             None \<Rightarrow> None
           | Some xCompare \<Rightarrow> find_loop xCompare k (mem h) (fst (t ! b)) (snd (t ! b))))"

definition removeElementGivenHash :: "hash \<Rightarrow> addr \<Rightarrow> nat \<Rightarrow> hash" where
  "removeElementGivenHash h elem b =
     (let m = mem h;
          (f, m) = (if eprev (m elem) \<noteq> 0 then (first h, set_next (eprev (m elem)) (enext (m elem)) m)
                    else (enext (m elem), m));
          m = (if enext (m elem) \<noteq> 0 then set_prev (enext (m elem)) (eprev (m elem)) m else m);
          t = the (ht h);
          chain = (if snd (t ! b) = elem then enext (m elem) else snd (t ! b));
          cnt = fst (t ! b) - 1;
          chain = (if cnt \<le> 0 then 0 else chain)
      in h\<lparr>first := f, mem := m, ht := Some (t[b := (cnt, chain)]), count := count h - 1\<rparr>)"

definition sqliteHashFind :: "hash \<Rightarrow> hkey \<Rightarrow> nat option" where
  "sqliteHashFind h k =
     (if ht h = None then Some 0
      else case hashFunction (keyClass h) of
        None \<Rightarrow> None
      | Some xHash \<Rightarrow>
          map_option (\<lambda>elem. if elem \<noteq> 0 then data (mem h elem) else 0)
            (findElementGivenHash h k (bucket_of (xHash k) (htsize h))))"

subsection \<open>Inserting\<close>

record allocs =
  new_elem :: addr
  key_ok :: bool
  ht_ok :: bool
  grow_ok :: bool

text \<open>The end of an insertion: the new element goes into its bucket.\<close>

definition insert_link :: "u32 \<Rightarrow> addr \<Rightarrow> nat \<Rightarrow> hash \<Rightarrow> hash" where
  "insert_link hraw e d h =
     (let b = bucket_of hraw (htsize h);
          t = the (ht h);
          (f, m) = link_before e (snd (t ! b)) (first h) (mem h);
          m = m(e := (m e)\<lparr>data := d\<rparr>)
      in h\<lparr>first := f, mem := m, ht := Some (bucket_add t b e)\<rparr>)"

text \<open>From \<open>pH->count++\<close> on, for a table in which the new element is filled in.\<close>

definition insert_grow :: "allocs \<Rightarrow> u32 \<Rightarrow> nat \<Rightarrow> hash \<Rightarrow> (hash \<times> nat) option" where
  "insert_grow al hraw d h =
     Option.bind (if htsize h = 0 then rehash (ht_ok al) 8 h else Some h) (\<lambda>h.
       if htsize h = 0 then Some (h\<lparr>count := 0\<rparr>, d)
       else Option.bind
         (if count h > int (htsize h) then rehash (grow_ok al) (htsize h * 2) h else Some h)
         (\<lambda>h. Some (insert_link hraw (new_elem al) d h, 0)))"

definition sqliteHashInsert :: "allocs \<Rightarrow> hash \<Rightarrow> hkey \<Rightarrow> nat \<Rightarrow> (hash \<times> nat) option" where
  "sqliteHashInsert al h k d =
     (case hashFunction (keyClass h) of
        None \<Rightarrow> None
      | Some xHash \<Rightarrow>
        let hraw = xHash k; b = bucket_of hraw (htsize h) in
        Option.bind (findElementGivenHash h k b) (\<lambda>elem.
          if elem \<noteq> 0 then
            let old_data = data (mem h elem) in
            if d = 0 then Some (removeElementGivenHash h elem b, old_data)
            else Some (h\<lparr>mem := (mem h)(elem := (mem h elem)\<lparr>data := d\<rparr>)\<rparr>, old_data)
          else if d = 0 then Some (h, 0)
          else if new_elem al = 0 then Some (h, d)
          else if copyKey h \<and> \<not> key_ok al then Some (h, d)
          else
            insert_grow al hraw d
              (h\<lparr>mem := (mem h)(new_elem al := \<lparr>enext = 0, eprev = 0, data = 0, key = k\<rparr>),
                 count := count h + 1\<rparr>)))"

subsection \<open>Doubly-linked segments\<close>

text \<open>
  \<open>dseg m v p ps q\<close>: from the pointer \<open>p\<close>, following \<open>next\<close>, lie the elements \<open>ps\<close>, the last
  of which points to \<open>q\<close>; the \<open>prev\<close> of the first is \<open>v\<close> and of each other its predecessor.
\<close>

fun dseg :: "(addr \<Rightarrow> helem) \<Rightarrow> addr \<Rightarrow> addr \<Rightarrow> addr list \<Rightarrow> addr \<Rightarrow> bool" where
  "dseg m v p [] q = (p = q)"
| "dseg m v p (a # as) q = (p = a \<and> a \<noteq> 0 \<and> eprev (m a) = v \<and> dseg m a (enext (m a)) as q)"

lemma dseg_append:
  "dseg m v p (xs @ ys) q \<longleftrightarrow>
     (\<exists>r. dseg m v p xs r \<and> dseg m (if xs = [] then v else last xs) r ys q)"
  by (induction xs arbitrary: v p) auto

lemma dseg_cong:
  "(\<And>a. a \<in> set ps \<Longrightarrow> enext (m a) = enext (m' a) \<and> eprev (m a) = eprev (m' a)) \<Longrightarrow>
   dseg m v p ps q = dseg m' v p ps q"
  by (induction ps arbitrary: v p) auto

lemma dseg_nonzero: "dseg m v p ps q \<Longrightarrow> 0 \<notin> set ps"
  by (induction ps arbitrary: v p) auto

lemma dseg_start: "dseg m v p ps 0 \<Longrightarrow> p = (if ps = [] then 0 else hd ps)"
  by (cases ps) auto

lemma set_next_simps [simp]:
  "enext (set_next p v m a) = (if a = p then v else enext (m a))"
  "eprev (set_next p v m a) = eprev (m a)"
  "key (set_next p v m a) = key (m a)"
  "data (set_next p v m a) = data (m a)"
  by (simp_all add: set_next_def)

lemma set_prev_simps [simp]:
  "enext (set_prev p v m a) = enext (m a)"
  "eprev (set_prev p v m a) = (if a = p then v else eprev (m a))"
  "key (set_prev p v m a) = key (m a)"
  "data (set_prev p v m a) = data (m a)"
  by (simp_all add: set_prev_def)

text \<open>The element before a position, and what an update at the end of a segment does.\<close>

lemma dseg_set_next_last:
  "dseg m v p (xs @ [a]) q \<Longrightarrow> distinct (xs @ [a]) \<Longrightarrow> dseg (set_next a r m) v p (xs @ [a]) r"
proof -
  assume d: "dseg m v p (xs @ [a]) q" and dis: "distinct (xs @ [a])"
  have "dseg (set_next a r m) v p xs s = dseg m v p xs s" for v p s
    by (rule dseg_cong) (use dis in auto)
  with d show ?thesis by (auto simp: dseg_append)
qed

lemma dseg_set_prev_first:
  "dseg m v p (a # as) q \<Longrightarrow> a \<notin> set as \<Longrightarrow> dseg (set_prev a w m) w p (a # as) q"
proof -
  assume d: "dseg m v p (a # as) q" and "a \<notin> set as"
  then have "dseg (set_prev a w m) a (enext (m a)) as q = dseg m a (enext (m a)) as q"
    by (intro dseg_cong) auto
  with d show ?thesis by simp
qed

lemma dseg_frame_next [simp]: "a \<notin> set ps \<Longrightarrow> dseg (set_next a r m) v p ps q = dseg m v p ps q"
  by (rule dseg_cong) auto

lemma dseg_frame_prev [simp]: "a \<notin> set ps \<Longrightarrow> dseg (set_prev a r m) v p ps q = dseg m v p ps q"
  by (rule dseg_cong) auto

text \<open>Linking in front of the element \<open>x\<close>, or at the head of the list.\<close>

lemma link_before_middle:
  assumes d: "dseg m 0 f (xs @ x # ys) 0" and dis: "distinct (e # xs @ x # ys)" and "e \<noteq> 0"
  shows "\<exists>f' m'. link_before e x f m = (f', m') \<and> dseg m' 0 f' (xs @ e # x # ys) 0"
proof (cases xs rule: rev_cases)
  case Nil
  with d have x: "x \<noteq> 0" "eprev (m x) = 0" "f = x" "dseg m x (enext (m x)) ys 0" by auto
  let ?m = "set_prev x e (set_prev e 0 (set_next e x m))"
  have "link_before e x f m = (e, ?m)"
    using x dis Nil by (auto simp: link_before_def Let_def)
  moreover have "dseg ?m 0 e (e # x # ys) 0"
    using x dis \<open>e \<noteq> 0\<close> Nil by auto
  ultimately show ?thesis using Nil by auto
next
  case (snoc xs' a)
  from d have x: "x \<noteq> 0" "eprev (m x) = a" "dseg m 0 f (xs' @ [a]) x"
      "dseg m x (enext (m x)) ys 0" and a0: "a \<noteq> 0"
    by (auto simp: snoc dseg_append)
  let ?m = "set_prev x e (set_next a e (set_prev e a (set_next e x m)))"
  have "link_before e x f m = (f, ?m)"
    using x a0 dis snoc by (auto simp: link_before_def Let_def)
  moreover have "dseg ?m 0 f ((xs' @ [a]) @ e # x # ys) 0"
  proof -
    have "dseg (set_next a e m) 0 f (xs' @ [a]) e"
      using x dis snoc by (intro dseg_set_next_last) auto
    moreover have "dseg ?m 0 f (xs' @ [a]) e = dseg (set_next a e m) 0 f (xs' @ [a]) e"
      using dis snoc by (intro dseg_cong) auto
    ultimately have "dseg ?m 0 f (xs' @ [a]) e" by simp
    moreover have "dseg ?m a e (e # x # ys) 0"
      using x dis snoc \<open>e \<noteq> 0\<close> by auto
    ultimately show ?thesis by (subst dseg_append) auto
  qed
  ultimately show ?thesis using snoc by auto
qed

lemma link_before_head:
  assumes d: "dseg m 0 f ps 0" and dis: "distinct (e # ps)" and "e \<noteq> 0"
  shows "\<exists>m'. link_before e 0 f m = (e, m') \<and> dseg m' 0 e (e # ps) 0"
proof (cases ps)
  case Nil
  with d \<open>e \<noteq> 0\<close> show ?thesis by (auto simp: link_before_def Let_def)
next
  case (Cons a as)
  let ?m = "set_prev e 0 (set_prev a e (set_next e a m))"
  from d Cons have f: "f = a" "a \<noteq> 0" "dseg m a (enext (m a)) as 0" by auto
  then have "link_before e 0 f m = (e, ?m)" by (simp add: link_before_def Let_def)
  moreover have "dseg ?m 0 e (e # ps) 0" using f dis \<open>e \<noteq> 0\<close> Cons by auto
  ultimately show ?thesis by auto
qed

text \<open>Linking keeps every key and every datum.\<close>

lemma link_before_frame:
  "link_before e x f m = (f', m') \<Longrightarrow> key (m' a) = key (m a) \<and> data (m' a) = data (m a)"
  by (auto simp: link_before_def Let_def split: if_splits)

lemma link_before_outside:
  assumes "link_before e x f m = (f', m')" and "a \<notin> set (e # ps)"
    and "dseg m 0 f ps 0" and "x = 0 \<or> x \<in> set ps"
  shows "enext (m' a) = enext (m a)"
proof -
  have pre: "eprev (m x) = 0 \<or> eprev (m x) \<in> set ps" if "x \<in> set ps"
  proof -
    from that obtain xs ys where ps: "ps = xs @ x # ys" by (auto simp: in_set_conv_decomp)
    with assms(3) show ?thesis by (cases xs rule: rev_cases) (auto simp: dseg_append)
  qed
  show ?thesis
    using assms(1,2,4) pre by (auto simp: link_before_def Let_def split: if_splits)
qed

subsection \<open>Buckets\<close>

text \<open>
  \<open>buckets t S bs f\<close>: the non-empty buckets in the order of the list are \<open>bs\<close>, the elements
  of bucket \<open>b\<close> are \<open>S b\<close>, all with bucket number \<open>f\<close>, and the array \<open>t\<close> records for each
  bucket its size and its first element.
\<close>

definition buckets :: "(int \<times> addr) list \<Rightarrow> (nat \<Rightarrow> addr list) \<Rightarrow> nat list \<Rightarrow> (addr \<Rightarrow> nat) \<Rightarrow> bool" where
  "buckets t S bs f \<longleftrightarrow>
     distinct bs \<and> set bs = {b. S b \<noteq> []} \<and> set bs \<subseteq> {..<length t} \<and>
     (\<forall>b < length t. t ! b = (int (length (S b)), if S b = [] then 0 else hd (S b))) \<and>
     (\<forall>b. \<forall>p \<in> set (S b). f p = b)"

lemma buckets_split:
  assumes "buckets t S bs f" and "S b \<noteq> []"
  obtains b1 b2 where "bs = b1 @ b # b2" and "b \<notin> set b1" and "b \<notin> set b2"
proof -
  from assms have "b \<in> set bs" "distinct bs" by (auto simp: buckets_def)
  then obtain b1 b2 where "bs = b1 @ b # b2" by (auto simp: in_set_conv_decomp)
  with \<open>distinct bs\<close> that show thesis by auto
qed

lemma map_fun_upd_notin: "b \<notin> set bs \<Longrightarrow> map (S(b := v)) bs = map S bs"
  by auto

lemma buckets_add:
  assumes "buckets t S bs f" and "b < length t" and "f e = b"
  shows "buckets (bucket_add t b e) (S(b := e # S b)) (if S b = [] then b # bs else bs) f"
  using assms by (auto simp: buckets_def bucket_add_def nth_list_update)

text \<open>Linking an element keeps the list and the buckets consistent.\<close>

lemma link_bucket:
  assumes b: "buckets t S bs f" and d: "dseg m 0 fp (concat (map S bs)) 0"
    and dis: "distinct (e # concat (map S bs))" and "e \<noteq> 0" and "f e < length t"
  obtains S' bs' fp' m' where
    "link_before e (snd (t ! f e)) fp m = (fp', m')"
    and "buckets (bucket_add t (f e) e) S' bs' f"
    and "dseg m' 0 fp' (concat (map S' bs')) 0"
    and "distinct (concat (map S' bs'))"
    and "set (concat (map S' bs')) = insert e (set (concat (map S bs)))"
    and "length (concat (map S' bs')) = Suc (length (concat (map S bs)))"
    and "\<And>a. a \<notin> set (e # concat (map S bs)) \<Longrightarrow> enext (m' a) = enext (m a)"
    and "\<And>a. key (m' a) = key (m a) \<and> data (m' a) = data (m a)"
proof (cases "S (f e) = []")
  case True
  with b assms(5) have tb: "snd (t ! f e) = 0" by (auto simp: buckets_def)
  from True b have fresh: "f e \<notin> set bs" by (auto simp: buckets_def)
  obtain m' where link: "link_before e 0 fp m = (e, m')"
    and d': "dseg m' 0 e (e # concat (map S bs)) 0"
    using link_before_head [OF d dis \<open>e \<noteq> 0\<close>] by blast
  let ?S = "S(f e := e # S (f e))"
  have eq: "concat (map ?S (f e # bs)) = e # concat (map S bs)"
    unfolding list.map concat.simps map_fun_upd_notin [OF fresh] by (simp add: True)
  show thesis
  proof (rule that [of e m' ?S "f e # bs"])
    show "link_before e (snd (t ! f e)) fp m = (e, m')" using link tb by simp
    show "buckets (bucket_add t (f e) e) ?S (f e # bs) f"
      using buckets_add [OF b assms(5) refl] True by simp
    show "\<And>a. key (m' a) = key (m a) \<and> data (m' a) = data (m a)"
      using link_before_frame [OF link] by blast
    show "\<And>a. a \<notin> set (e # concat (map S bs)) \<Longrightarrow> enext (m' a) = enext (m a)"
      using link_before_outside [OF link _ d] by blast
  qed (use eq d' dis in auto)
next
  case False
  then obtain x xs where S: "S (f e) = x # xs" by (cases "S (f e)") auto
  with b assms(5) have tb: "snd (t ! f e) = x" by (auto simp: buckets_def)
  from buckets_split [OF b False] obtain b1 b2 where bs: "bs = b1 @ f e # b2"
    and nb: "f e \<notin> set b1" "f e \<notin> set b2" .
  let ?xs = "concat (map S b1)" and ?ys = "xs @ concat (map S b2)"
  have ps: "concat (map S bs) = ?xs @ x # ?ys" by (simp add: bs S)
  obtain fp' m' where link: "link_before e x fp m = (fp', m')"
    and d': "dseg m' 0 fp' (?xs @ e # x # ?ys) 0"
    using link_before_middle [of m fp ?xs x ?ys e] d dis \<open>e \<noteq> 0\<close> ps by auto
  let ?S = "S(f e := e # S (f e))"
  have eq: "concat (map ?S bs) = ?xs @ e # x # ?ys"
    unfolding bs map_append list.map concat_append concat.simps
      map_fun_upd_notin [OF nb(1)] map_fun_upd_notin [OF nb(2)] by (simp add: S)
  show thesis
  proof (rule that [of fp' m' ?S bs])
    show "link_before e (snd (t ! f e)) fp m = (fp', m')" using link tb by simp
    show "buckets (bucket_add t (f e) e) ?S bs f"
      using buckets_add [OF b assms(5) refl] False by simp
    show "\<And>a. key (m' a) = key (m a) \<and> data (m' a) = data (m a)"
      using link_before_frame [OF link] by blast
    show "\<And>a. a \<notin> set (e # concat (map S bs)) \<Longrightarrow> enext (m' a) = enext (m a)"
      using link_before_outside [OF link _ d] ps by auto
  qed (use eq ps d' dis in auto)
qed

lemma bucket_add_length [simp]: "length (bucket_add t b e) = length t"
  by (simp add: bucket_add_def)

subsection \<open>Rehashing\<close>

fun nseg :: "(addr \<Rightarrow> helem) \<Rightarrow> addr \<Rightarrow> addr list \<Rightarrow> bool" where
  "nseg m p [] = (p = 0)"
| "nseg m p (a # as) = (p = a \<and> a \<noteq> 0 \<and> nseg m (enext (m a)) as)"

lemma nseg_cong: "(\<And>a. a \<in> set ps \<Longrightarrow> enext (m a) = enext (m' a)) \<Longrightarrow> nseg m p ps = nseg m' p ps"
  by (induction ps arbitrary: p) auto

lemma dseg_nseg: "dseg m v p ps 0 \<Longrightarrow> nseg m p ps"
  by (induction ps arbitrary: v p) auto

lemma rehash_loop_ok:
  assumes "nseg m p rs" and "buckets t S bs f" and "dseg m 0 fp (concat (map S bs)) 0"
    and "distinct (concat (map S bs) @ rs)" and "length t = n"
    and "\<And>a. f a = bucket_of (xHash (key (m a))) n" and "\<And>a. f a < n"
  shows "\<exists>t' fp' m' S' bs'. rehash_loop xHash n p t fp m = Some (t', fp', m') \<and> length t' = n
    \<and> buckets t' S' bs' f \<and> dseg m' 0 fp' (concat (map S' bs')) 0
    \<and> distinct (concat (map S' bs')) \<and> set (concat (map S' bs')) = set (concat (map S bs)) \<union> set rs
    \<and> length (concat (map S' bs')) = length (concat (map S bs)) + length rs
    \<and> (\<forall>a. key (m' a) = key (m a) \<and> data (m' a) = data (m a))"
  using assms
proof (induction rs arbitrary: m p t S bs fp)
  case Nil
  then show ?case
    by (intro exI [of _ t] exI [of _ fp] exI [of _ m] exI [of _ S] exI [of _ bs])
      (simp add: rehash_loop.simps)
next
  case (Cons e rs)
  from Cons.prems(1) have p: "p = e" "e \<noteq> 0" "nseg m (enext (m e)) rs" by auto
  have dis: "distinct (e # concat (map S bs))" using Cons.prems(4) by auto
  have fe: "f e < length t" using Cons.prems(5,7) by simp
  obtain S' bs' fp' m' where
    link: "link_before e (snd (t ! f e)) fp m = (fp', m')"
    and b': "buckets (bucket_add t (f e) e) S' bs' f"
    and d': "dseg m' 0 fp' (concat (map S' bs')) 0" "distinct (concat (map S' bs'))"
    and set': "set (concat (map S' bs')) = insert e (set (concat (map S bs)))"
    and len': "length (concat (map S' bs')) = Suc (length (concat (map S bs)))"
    and out: "\<And>a. a \<notin> set (e # concat (map S bs)) \<Longrightarrow> enext (m' a) = enext (m a)"
    and kd: "\<And>a. key (m' a) = key (m a) \<and> data (m' a) = data (m a)"
    by (rule link_bucket [OF Cons.prems(2,3) dis p(2) fe]) (rule that; assumption?; blast)
  have "a \<notin> set (e # concat (map S bs))" if "a \<in> set rs" for a
    using that Cons.prems(4) by auto
  then have "nseg m (enext (m e)) rs = nseg m' (enext (m e)) rs"
    by (intro nseg_cong) (simp add: out)
  with p(3) have rest: "nseg m' (enext (m e)) rs" by simp
  have dis': "distinct (concat (map S' bs') @ rs)"
    using d'(2) set' Cons.prems(4) by auto
  have len: "length (bucket_add t (f e) e) = n" using Cons.prems(5) by simp
  have fk: "\<And>a. f a = bucket_of (xHash (key (m' a))) n" using Cons.prems(6) kd by simp
  obtain t'' fp'' m'' S'' bs'' where
    step: "rehash_loop xHash n (enext (m e)) (bucket_add t (f e) e) fp' m' = Some (t'', fp'', m'')"
    "length t'' = n" "buckets t'' S'' bs'' f" "dseg m'' 0 fp'' (concat (map S'' bs'')) 0"
    "distinct (concat (map S'' bs''))"
    "set (concat (map S'' bs'')) = set (concat (map S' bs')) \<union> set rs"
    "length (concat (map S'' bs'')) = length (concat (map S' bs')) + length rs"
    "\<forall>a. key (m'' a) = key (m' a) \<and> data (m'' a) = data (m' a)"
    using Cons.IH [OF rest b' d'(1) dis' len fk Cons.prems(7)] by blast
  have "rehash_loop xHash n p t fp m = Some (t'', fp'', m'')"
    using step(1) link p Cons.prems(6) [of e]
    by (subst rehash_loop.simps) (simp add: Let_def)
  with step(2-) set' len' kd show ?case
    by (intro exI [of _ t''] exI [of _ fp''] exI [of _ m''] exI [of _ S''] exI [of _ bs'']) simp
qed

subsection \<open>The table invariant\<close>

text \<open>The elements of a table, walking the list from \<open>first\<close>.\<close>

fun walk :: "nat \<Rightarrow> (addr \<Rightarrow> helem) \<Rightarrow> addr \<Rightarrow> addr list" where
  "walk 0 m p = []"
| "walk (Suc n) m p = (if p = 0 then [] else p # walk n m (enext (m p)))"

definition elems :: "hash \<Rightarrow> addr list" where
  "elems h = walk (nat (count h)) (mem h) (first h)"

lemma walk_dseg: "dseg m v p ps 0 \<Longrightarrow> walk (length ps) m p = ps"
  by (induction ps arbitrary: v p) auto

definition table_ok :: "(hkey \<Rightarrow> u32) \<Rightarrow> hash \<Rightarrow> addr list \<Rightarrow> bool" where
  "table_ok xHash h ps \<longleftrightarrow>
     dseg (mem h) 0 (first h) ps 0 \<and> distinct ps \<and>
     (case ht h of
        None \<Rightarrow> htsize h = 0 \<and> ps = []
      | Some t \<Rightarrow>
          length t = htsize h \<and> (\<exists>k. htsize h = 2 ^ k) \<and>
          (\<exists>S bs. ps = concat (map S bs) \<and>
             buckets t S bs (\<lambda>p. bucket_of (xHash (key (mem h p))) (htsize h))))"

lemma bucket_of_less: "0 < n \<Longrightarrow> bucket_of h n < n"
proof -
  assume "0 < n"
  have "unat (h AND word_of_int (int n - 1)) \<le> unat (word_of_int (int n - 1) :: u32)"
    by (metis word_and_le1 word_le_nat_alt)
  also have "(word_of_int (int n - 1) :: u32) = of_nat (n - 1)"
    using \<open>0 < n\<close> by (simp add: of_nat_diff)
  also have "unat (of_nat (n - 1) :: u32) \<le> n - 1"
    by (simp add: unat_of_nat take_bit_eq_mod)
  finally show ?thesis using \<open>0 < n\<close> by (simp add: bucket_of_def)
qed

lemma table_ok_cong:
  assumes ok: "table_ok xHash h ps"
    and eq: "first h' = first h" "ht h' = ht h" "htsize h' = htsize h"
    and mem: "\<And>a. a \<in> set ps \<Longrightarrow> enext (mem h' a) = enext (mem h a)
      \<and> eprev (mem h' a) = eprev (mem h a) \<and> key (mem h' a) = key (mem h a)"
  shows "table_ok xHash h' ps"
proof -
  have d: "dseg (mem h') 0 (first h) ps 0 = dseg (mem h) 0 (first h) ps 0"
    by (rule dseg_cong) (simp add: mem)
  show ?thesis
  proof (cases "ht h")
    case None
    with ok show ?thesis by (auto simp: table_ok_def eq)
  next
    case (Some t)
    with ok obtain S bs where b: "ps = concat (map S bs)"
      "buckets t S bs (\<lambda>p. bucket_of (xHash (key (mem h p))) (htsize h))"
      by (auto simp: table_ok_def)
    have "p \<in> set ps" if "p \<in> set (S b)" for p b
      using b that by (cases "S b = []") (auto simp: buckets_def)
    then have "\<forall>b. \<forall>p \<in> set (S b). key (mem h' p) = key (mem h p)" using mem by blast
    then have "buckets t S bs (\<lambda>p. bucket_of (xHash (key (mem h' p))) (htsize h))"
      using b(2) unfolding buckets_def by auto
    with b(1) have "\<exists>S bs. ps = concat (map S bs) \<and>
        buckets t S bs (\<lambda>p. bucket_of (xHash (key (mem h' p))) (htsize h))" by blast
    with ok d Some show ?thesis by (simp add: table_ok_def eq)
  qed
qed

lemma rehash_table_ok:
  assumes ok: "table_ok xHash h ps" and fn: "hashFunction (keyClass h) = Some xHash"
    and n: "n = 2 ^ k"
  shows "\<exists>h' ps'. rehash True n h = Some h' \<and> table_ok xHash h' ps' \<and> set ps' = set ps
    \<and> length ps' = length ps \<and> ht h' \<noteq> None \<and> htsize h' = n \<and> count h' = count h
    \<and> keyClass h' = keyClass h \<and> copyKey h' = copyKey h
    \<and> (\<forall>a. key (mem h' a) = key (mem h a) \<and> data (mem h' a) = data (mem h a))"
proof -
  let ?f = "\<lambda>p. bucket_of (xHash (key (mem h p))) n"
  have "buckets (replicate n (0, 0)) (\<lambda>_. []) [] ?f" by (simp add: buckets_def)
  moreover have "nseg (mem h) (first h) ps" "distinct ps"
    using ok dseg_nseg by (auto simp: table_ok_def)
  ultimately obtain t' fp' m' S' bs' where
    loop: "rehash_loop xHash n (first h) (replicate n (0, 0)) 0 (mem h) = Some (t', fp', m')"
    "length t' = n" "buckets t' S' bs' ?f" "dseg m' 0 fp' (concat (map S' bs')) 0"
    "distinct (concat (map S' bs'))" "set (concat (map S' bs')) = set ps"
    "length (concat (map S' bs')) = length ps"
    "\<forall>a. key (m' a) = key (mem h a) \<and> data (m' a) = data (mem h a)"
    using rehash_loop_ok [of "mem h" "first h" ps "replicate n (0, 0)" "\<lambda>_. []" "[]" ?f 0 n xHash]
      bucket_of_less [of n] n by auto
  let ?h = "h\<lparr>ht := Some t', htsize := n, first := fp', mem := m'\<rparr>"
  have "rehash True n h = Some ?h" using fn loop(1) by (simp add: rehash_def)
  moreover have "table_ok xHash ?h (concat (map S' bs'))"
    using loop(2-5,8) n by (auto simp: table_ok_def)
  ultimately show ?thesis using loop(6-8)
    by (intro exI [of _ ?h] exI [of _ "concat (map S' bs')"]) auto
qed

text \<open>Adding a new element to a table with buckets.\<close>

lemma link_table_ok:
  assumes ok: "table_ok xHash h ps" and t: "ht h = Some t"
    and e: "e \<noteq> 0" "e \<notin> set ps" and b: "b = bucket_of (xHash (key (mem h e))) (htsize h)"
  obtains f' m' ps' where "link_before e (snd (t ! b)) (first h) (mem h) = (f', m')"
    and "table_ok xHash (h\<lparr>first := f', mem := m', ht := Some (bucket_add t b e)\<rparr>) ps'"
    and "set ps' = insert e (set ps)" and "length ps' = Suc (length ps)"
    and "\<And>a. key (m' a) = key (mem h a) \<and> data (m' a) = data (mem h a)"
proof -
  let ?f = "\<lambda>p. bucket_of (xHash (key (mem h p))) (htsize h)"
  from ok t obtain S bs where ps: "ps = concat (map S bs)" and bk: "buckets t S bs ?f"
    and d: "dseg (mem h) 0 (first h) ps 0" "distinct ps" "length t = htsize h"
    and pw: "\<exists>k. htsize h = 2 ^ k" by (auto simp: table_ok_def)
  have lt: "?f e < length t" using pw d(3) bucket_of_less [of "htsize h"] by auto
  have dis: "distinct (e # concat (map S bs))" using e d ps by auto
  show thesis
  proof (rule link_bucket [OF bk d(1) [unfolded ps] dis e(1) lt])
    fix f' m' S' bs'
    assume "link_before e (snd (t ! ?f e)) (first h) (mem h) = (f', m')"
      "buckets (bucket_add t (?f e) e) S' bs' ?f" "dseg m' 0 f' (concat (map S' bs')) 0"
      "distinct (concat (map S' bs'))"
      "set (concat (map S' bs')) = insert e (set (concat (map S bs)))"
      "length (concat (map S' bs')) = Suc (length (concat (map S bs)))"
      "\<And>a. key (m' a) = key (mem h a) \<and> data (m' a) = data (mem h a)"
    then show thesis
      using that [of f' m' "concat (map S' bs')"] d(3) pw ps b
      by (auto simp: table_ok_def)
  qed
qed

subsection \<open>Removal\<close>

lemma unlink_dseg:
  assumes d: "dseg m 0 f (xs @ e # ys) 0" and dis: "distinct (xs @ e # ys)"
  defines "f' \<equiv> if eprev (m e) \<noteq> 0 then f else enext (m e)"
  defines "m1 \<equiv> if eprev (m e) \<noteq> 0 then set_next (eprev (m e)) (enext (m e)) m else m"
  defines "m2 \<equiv> if enext (m1 e) \<noteq> 0 then set_prev (enext (m1 e)) (eprev (m1 e)) m1 else m1"
  shows "dseg m2 0 f' (xs @ ys) 0"
proof -
  let ?v = "if xs = [] then 0 else last xs"
  from d have de: "dseg m 0 f xs e" "eprev (m e) = ?v" "dseg m e (enext (m e)) ys 0" "e \<noteq> 0"
    by (auto simp: dseg_append)
  have nx: "enext (m e) = (if ys = [] then 0 else hd ys)" using dseg_start [OF de(3)] .
  have lastxs: "xs \<noteq> [] \<Longrightarrow> last xs \<noteq> 0 \<and> last xs \<noteq> e"
    using dseg_nonzero [OF de(1)] dis by (metis disjoint_iff distinct_append last_in_set list.set_intros(1))
  have m1: "dseg m1 0 f' xs (enext (m e))"
  proof (cases xs rule: rev_cases)
    case Nil
    then show ?thesis using de by (simp add: f'_def)
  next
    case (snoc xs' a)
    then have "eprev (m e) = a" "a \<noteq> 0" using de lastxs by auto
    then show ?thesis
      using dseg_set_next_last [of m 0 f xs' a e "enext (m e)"] de(1) dis snoc
      by (simp add: m1_def f'_def)
  qed
  have m1e: "enext (m1 e) = enext (m e)" "eprev (m1 e) = ?v"
    using de(2) lastxs by (auto simp: m1_def)
  have "xs \<noteq> [] \<Longrightarrow> last xs \<notin> set ys"
    using dis by (metis disjoint_iff distinct_append last_in_set list.set_intros(2))
  then have ys1: "dseg m1 e (enext (m e)) ys 0"
    using de(2,3) by (auto simp: m1_def split: if_splits)
  show ?thesis
  proof (cases ys)
    case Nil
    then show ?thesis using m1 nx m1e by (simp add: m2_def)
  next
    case (Cons y ys')
    then have y: "enext (m e) = y" "y \<noteq> 0" using nx dseg_nonzero [OF ys1] by auto
    have m2: "m2 = set_prev y ?v m1" using y m1e by (simp add: m2_def)
    have "dseg m2 0 f' xs y" using m1 y dis Cons by (simp add: m2)
    moreover have "dseg m2 ?v y ys 0"
      using dseg_set_prev_first [of m1 e y y ys' 0 ?v] ys1 y Cons dis by (simp add: m2)
    ultimately show ?thesis by (subst dseg_append) auto
  qed
qed

text \<open>The buckets after removal of \<open>e\<close> from bucket \<open>b\<close>.\<close>

lemma buckets_remove:
  assumes "buckets t S bs f" and "S b = s1 @ e # s2" and "b < length t"
    and chain: "chain = (if s1 = [] then (if s2 = [] then 0 else hd s2) else hd s1)"
  shows "buckets (t[b := (fst (t ! b) - 1, chain)]) (S(b := s1 @ s2))
     (if s1 @ s2 = [] then removeAll b bs else bs) f"
  using assms by (auto simp: buckets_def nth_list_update distinct_removeAll)

lemma dseg_neighbours:
  assumes "dseg m 0 f (xs @ e # ys) 0" and "distinct (xs @ e # ys)"
  shows "e \<noteq> 0" and "enext (m e) = (if ys = [] then 0 else hd ys)"
    and "enext (m e) \<noteq> e" and "eprev (m e) \<noteq> e"
proof -
  from assms(1) have de: "eprev (m e) = (if xs = [] then 0 else last xs)"
    "dseg m e (enext (m e)) ys 0" and e0: "e \<noteq> 0" by (auto simp: dseg_append)
  show "e \<noteq> 0" by (rule e0)
  show nx: "enext (m e) = (if ys = [] then 0 else hd ys)" using dseg_start [OF de(2)] .
  show "enext (m e) \<noteq> e" using nx e0 assms(2) by (cases ys) auto
  show "eprev (m e) \<noteq> e" using de(1) e0 assms(2) by (cases xs rule: rev_cases) auto
qed

lemma removeElement_table_ok:
  assumes ok: "table_ok xHash h ps" and e: "e \<in> set ps"
    and b: "b = bucket_of (xHash (key (mem h e))) (htsize h)"
  shows "\<exists>ps'. table_ok xHash (removeElementGivenHash h e b) ps' \<and> set ps' = set ps - {e}
    \<and> length ps' = length ps - 1
    \<and> count (removeElementGivenHash h e b) = count h - 1
    \<and> keyClass (removeElementGivenHash h e b) = keyClass h
    \<and> copyKey (removeElementGivenHash h e b) = copyKey h
    \<and> (\<forall>a. key (mem (removeElementGivenHash h e b) a) = key (mem h a)
          \<and> data (mem (removeElementGivenHash h e b) a) = data (mem h a))"
proof -
  let ?f = "\<lambda>p. bucket_of (xHash (key (mem h p))) (htsize h)"
  let ?h = "removeElementGivenHash h e b"
  from ok e obtain t S bs where t: "ht h = Some t" and ps: "ps = concat (map S bs)"
    and bk: "buckets t S bs ?f"
    and d: "dseg (mem h) 0 (first h) ps 0" "distinct ps" "length t = htsize h"
    and pw: "\<exists>k. htsize h = 2 ^ k" by (auto simp: table_ok_def split: option.splits)
  have lt: "b < length t" using pw d(3) bucket_of_less [of "htsize h"] b by auto
  from e ps obtain b' where "b' \<in> set bs" "e \<in> set (S b')" by auto
  moreover then have "b' = b" using bk b by (auto simp: buckets_def)
  ultimately have eS: "e \<in> set (S b)" by simp
  then obtain s1 s2 where S: "S b = s1 @ e # s2" by (auto simp: in_set_conv_decomp)
  then have "S b \<noteq> []" by simp
  from buckets_split [OF bk this] obtain b1 b2 where bs: "bs = b1 @ b # b2"
    and nb: "b \<notin> set b1" "b \<notin> set b2" .
  let ?xs = "concat (map S b1) @ s1" and ?ys = "s2 @ concat (map S b2)"
  have ps': "ps = ?xs @ e # ?ys" by (simp add: ps bs S)
  let ?S = "S(b := s1 @ s2)" and ?bs = "if s1 @ s2 = [] then removeAll b bs else bs"
  have cat: "concat (map ?S ?bs) = ?xs @ ?ys"
  proof -
    have "concat (map ?S bs) = ?xs @ ?ys"
      unfolding bs map_append list.map concat_append concat.simps
        map_fun_upd_notin [OF nb(1)] map_fun_upd_notin [OF nb(2)] by simp
    moreover have "concat (map ?S (removeAll b bs)) = concat (map ?S bs)" if "s1 @ s2 = []"
      using that nb by (simp add: bs)
    ultimately show ?thesis by auto
  qed
  have cnt: "fst (t ! b) = int (length (s1 @ e # s2))" "snd (t ! b) = hd (s1 @ e # s2)"
    using bk lt S by (auto simp: buckets_def)
  let ?chain = "if s1 = [] then (if s2 = [] then 0 else hd s2) else hd s1"
  note nb' = dseg_neighbours [OF d(1,2) [unfolded ps']]
  have nx: "s2 \<noteq> [] \<Longrightarrow> enext (mem h e) = hd s2" using nb'(2) by simp
  have s1e: "s1 \<noteq> [] \<Longrightarrow> hd s1 \<noteq> e" using d(2) ps' by (cases s1) auto
  have "dseg (mem ?h) 0 (first ?h) (?xs @ ?ys) 0"
    using unlink_dseg [of "mem h" "first h" ?xs e ?ys] d(1,2) ps'
    by (simp add: removeElementGivenHash_def Let_def split: if_splits prod.splits)
  moreover have "ht ?h = Some (t[b := (fst (t ! b) - 1, ?chain)])"
    using t cnt nx s1e nb'(3,4)
    by (cases s1; cases s2) (auto simp: removeElementGivenHash_def Let_def split: prod.splits if_splits)
  moreover have "htsize ?h = htsize h" "count ?h = count h - 1" "keyClass ?h = keyClass h"
      "copyKey ?h = copyKey h"
      "\<And>a. key (mem ?h a) = key (mem h a) \<and> data (mem ?h a) = data (mem h a)"
    by (auto simp: removeElementGivenHash_def Let_def split: prod.splits if_splits)
  ultimately show ?thesis
    using buckets_remove [OF bk S lt refl] d(2,3) pw cat ps'
    by (intro exI [of _ "?xs @ ?ys"]) (auto simp: table_ok_def)
qed

subsection \<open>Searching\<close>

lemma find_loop_seg:
  "dseg m v p (seg @ rest) 0 \<Longrightarrow>
   find_loop xCompare k m (int (length seg)) p
     = Some (case List.find (\<lambda>p. xCompare (key (m p)) k = 0) seg of None \<Rightarrow> 0 | Some e \<Rightarrow> e)"
proof (induction seg arbitrary: v p)
  case Nil
  then show ?case by (simp add: find_loop.simps)
next
  case (Cons a seg)
  then show ?case by (subst find_loop.simps) (auto split: option.splits)
qed

lemma find_append_none:
  assumes "\<forall>x \<in> set xs \<union> set ys. \<not> P x"
  shows "List.find P (xs @ seg @ ys) = List.find P seg"
proof -
  have "List.find P (xs @ zs) = List.find P zs" for zs
    using assms by (induction xs) auto
  moreover have "List.find P ys = None" using assms by (simp add: find_None_iff)
  then have "List.find P (seg @ ys) = List.find P seg" by (induction seg) auto
  ultimately show ?thesis by simp
qed

section \<open>Tables as finite maps\<close>

text \<open>The elements \<open>ps\<close> of a table: a well-formed table with valid, pairwise different keys.\<close>

definition hash_rep ::
    "nat \<Rightarrow> (hkey \<Rightarrow> u32) \<Rightarrow> (hkey \<Rightarrow> hkey \<Rightarrow> int) \<Rightarrow> (hkey \<Rightarrow> bool) \<Rightarrow> hash \<Rightarrow> addr list \<Rightarrow> bool" where
  "hash_rep kc xHash xCompare valid h ps \<longleftrightarrow>
     keyClass h = kc \<and> table_ok xHash h ps \<and> count h = int (length ps)
     \<and> (\<forall>p \<in> set ps. valid (key (mem h p)) \<and> data (mem h p) \<noteq> 0)
     \<and> (\<forall>p \<in> set ps. \<forall>q \<in> set ps. xCompare (key (mem h p)) (key (mem h q)) = 0 \<longrightarrow> p = q)"

definition hash_ok ::
    "nat \<Rightarrow> (hkey \<Rightarrow> u32) \<Rightarrow> (hkey \<Rightarrow> hkey \<Rightarrow> int) \<Rightarrow> (hkey \<Rightarrow> bool) \<Rightarrow> hash \<Rightarrow> bool" where
  "hash_ok kc xHash xCompare valid h \<longleftrightarrow> hash_rep kc xHash xCompare valid h (elems h)"

text \<open>The datum stored under a key, 0 for none.\<close>

definition hash_lookup :: "(hkey \<Rightarrow> hkey \<Rightarrow> int) \<Rightarrow> hash \<Rightarrow> hkey \<Rightarrow> nat" where
  "hash_lookup xCompare h k =
     (case List.find (\<lambda>p. xCompare (key (mem h p)) k = 0) (elems h) of
        None \<Rightarrow> 0 | Some p \<Rightarrow> data (mem h p))"

text \<open>All allocations that an insertion into \<open>h\<close> cannot do without succeed.\<close>

definition alloc_ok :: "allocs \<Rightarrow> hash \<Rightarrow> bool" where
  "alloc_ok al h \<longleftrightarrow> new_elem al \<noteq> 0 \<and> (copyKey h \<longrightarrow> key_ok al) \<and> (htsize h = 0 \<longrightarrow> ht_ok al)"

section \<open>Key classes\<close>

text \<open>
  What the table needs of a key class: the comparison identifies keys by an equivalence
  relation on the valid keys, and the hash function respects it.
\<close>

locale key_class =
  fixes kc :: nat and xHash :: "hkey \<Rightarrow> u32" and xCompare :: "hkey \<Rightarrow> hkey \<Rightarrow> int"
    and valid :: "hkey \<Rightarrow> bool"
  assumes hash_fn: "hashFunction kc = Some xHash"
    and compare_fn: "compareFunction kc = Some xCompare"
    and cmp_same: "valid a \<Longrightarrow> xCompare a a = 0"
    and cmp_sym: "valid a \<Longrightarrow> valid b \<Longrightarrow> xCompare a b = 0 \<Longrightarrow> xCompare b a = 0"
    and cmp_tr: "valid a \<Longrightarrow> valid b \<Longrightarrow> valid c \<Longrightarrow> xCompare a b = 0 \<Longrightarrow> xCompare b c = 0 \<Longrightarrow>
      xCompare a c = 0"
    and hash_cong: "valid a \<Longrightarrow> valid b \<Longrightarrow> xCompare a b = 0 \<Longrightarrow> xHash a = xHash b"
begin

abbreviation "rep \<equiv> hash_rep kc xHash xCompare valid"
abbreviation "hash_inv \<equiv> hash_ok kc xHash xCompare valid"
abbreviation "lookup \<equiv> hash_lookup xCompare"

lemma rep_elems: "rep h ps \<Longrightarrow> elems h = ps"
  by (auto simp: hash_rep_def table_ok_def elems_def intro: walk_dseg)

lemma rep_inv: "rep h ps \<Longrightarrow> hash_inv h"
  using rep_elems by (auto simp: hash_ok_def)

lemma lookup_found:
  assumes "rep h ps" and "p \<in> set ps" and "valid k" and "xCompare (key (mem h p)) k = 0"
  shows "List.find (\<lambda>p. xCompare (key (mem h p)) k = 0) ps = Some p"
    and "lookup h k = data (mem h p)"
proof -
  obtain q where q: "List.find (\<lambda>p. xCompare (key (mem h p)) k = 0) ps = Some q"
    using assms(2,4) by (cases "List.find (\<lambda>p. xCompare (key (mem h p)) k = 0) ps")
      (auto simp: find_None_iff)
  then have qs: "q \<in> set ps" "xCompare (key (mem h q)) k = 0"
    by (auto simp: find_Some_iff)
  have vs: "valid (key (mem h p))" "valid (key (mem h q))"
    using assms(1,2) qs(1) by (auto simp: hash_rep_def)
  have "xCompare (key (mem h q)) (key (mem h p)) = 0"
    by (rule cmp_tr [OF vs(2) assms(3) vs(1) qs(2) cmp_sym [OF vs(1) assms(3,4)]])
  then have "q = p" using assms(1,2) qs(1) by (auto simp: hash_rep_def)
  with q show "List.find (\<lambda>p. xCompare (key (mem h p)) k = 0) ps = Some p" by simp
  then show "lookup h k = data (mem h p)" using rep_elems [OF assms(1)] by (simp add: hash_lookup_def)
qed

lemma lookup_none:
  assumes "rep h ps" and "\<forall>p \<in> set ps. xCompare (key (mem h p)) k \<noteq> 0"
  shows "List.find (\<lambda>p. xCompare (key (mem h p)) k = 0) ps = None" and "lookup h k = 0"
proof -
  show n: "List.find (\<lambda>p. xCompare (key (mem h p)) k = 0) ps = None"
    using assms(2) by (simp add: find_None_iff)
  then show "lookup h k = 0" using rep_elems [OF assms(1)] by (simp add: hash_lookup_def)
qed

text \<open>The search in one bucket finds the element with the key, if there is one.\<close>

lemma findElement_ok:
  assumes r: "rep h ps" and v: "valid k"
  shows "findElementGivenHash h k (bucket_of (xHash k) (htsize h))
    = Some (case List.find (\<lambda>p. xCompare (key (mem h p)) k = 0) ps of None \<Rightarrow> 0 | Some e \<Rightarrow> e)"
proof (cases "ht h")
  case None
  with r show ?thesis by (simp add: findElementGivenHash_def hash_rep_def table_ok_def)
next
  case (Some t)
  let ?f = "\<lambda>p. bucket_of (xHash (key (mem h p))) (htsize h)"
  let ?b = "bucket_of (xHash k) (htsize h)"
  let ?P = "\<lambda>p. xCompare (key (mem h p)) k = 0"
  from r Some obtain S bs where ps: "ps = concat (map S bs)" and bk: "buckets t S bs ?f"
    and d: "dseg (mem h) 0 (first h) ps 0" "length t = htsize h"
    and pw: "\<exists>k. htsize h = 2 ^ k" by (auto simp: hash_rep_def table_ok_def)
  have lt: "?b < length t" using pw d(2) bucket_of_less [of "htsize h"] by auto
  have inb: "p \<in> set (S ?b)" if p: "p \<in> set ps" "?P p" for p
  proof -
    have "?f p = ?b" using r p v hash_cong by (simp add: hash_rep_def)
    moreover obtain b' where "p \<in> set (S b')" using p ps by auto
    ultimately show ?thesis using bk by (auto simp: buckets_def)
  qed
  have start: "find_loop xCompare k (mem h) (fst (t ! ?b)) (snd (t ! ?b))
      = Some (case List.find ?P ps of None \<Rightarrow> 0 | Some e \<Rightarrow> e)"
  proof (cases "S ?b = []")
    case True
    then have "List.find ?P ps = None" using inb by (auto simp: find_None_iff)
    moreover have "t ! ?b = (0, 0)" using True bk lt by (auto simp: buckets_def)
    ultimately show ?thesis by (simp add: find_loop.simps)
  next
    case False
    from buckets_split [OF bk this] obtain b1 b2 where bs: "bs = b1 @ ?b # b2"
      and nb: "?b \<notin> set b1" "?b \<notin> set b2" .
    have ps': "ps = concat (map S b1) @ S ?b @ concat (map S b2)" by (simp add: ps bs)
    have other: "\<not> ?P p" if "p \<in> set (concat (map S b1)) \<union> set (concat (map S b2))" for p
    proof
      assume "?P p"
      with that inb ps' have pb: "p \<in> set (S ?b)" by auto
      from that obtain c where "c \<in> set b1 \<union> set b2" "p \<in> set (S c)" by auto
      moreover have "c = ?b" using bk pb calculation(2) unfolding buckets_def by metis
      ultimately show False using nb by blast
    qed
    have tb: "t ! ?b = (int (length (S ?b)), hd (S ?b))" using False bk lt by (auto simp: buckets_def)
    from d(1) obtain v where "dseg (mem h) v (hd (S ?b)) (S ?b @ concat (map S b2)) 0"
      unfolding ps' using False by (cases "S ?b") (auto simp: dseg_append)
    from find_loop_seg [OF this] tb have
      "find_loop xCompare k (mem h) (fst (t ! ?b)) (snd (t ! ?b))
       = Some (case List.find ?P (S ?b) of None \<Rightarrow> 0 | Some e \<Rightarrow> e)" by simp
    moreover have "List.find ?P ps = List.find ?P (S ?b)"
      unfolding ps' by (rule find_append_none) (use other in blast)
    ultimately show ?thesis by simp
  qed
  show ?thesis
    using start r Some compare_fn by (simp add: findElementGivenHash_def hash_rep_def)
qed

lemma rep_nonzero: "rep h ps \<Longrightarrow> 0 \<notin> set ps"
  using dseg_nonzero by (auto simp: hash_rep_def table_ok_def)

text \<open>A key is absent or belongs to one element, and the search tells which.\<close>

lemma key_cases [consumes 2]:
  assumes r: "rep h ps" and v: "valid k"
  obtains (absent) "\<forall>p \<in> set ps. xCompare (key (mem h p)) k \<noteq> 0" "lookup h k = 0"
      "findElementGivenHash h k (bucket_of (xHash k) (htsize h)) = Some 0"
    | (present) p where "p \<in> set ps" "p \<noteq> 0" "xCompare (key (mem h p)) k = 0"
      "lookup h k = data (mem h p)" "xHash (key (mem h p)) = xHash k"
      "findElementGivenHash h k (bucket_of (xHash k) (htsize h)) = Some p"
proof (cases "\<exists>p \<in> set ps. xCompare (key (mem h p)) k = 0")
  case True
  then obtain p where p: "p \<in> set ps" "xCompare (key (mem h p)) k = 0" by blast
  have "xHash (key (mem h p)) = xHash k" using r p v hash_cong by (simp add: hash_rep_def)
  moreover have "p \<noteq> 0" using p rep_nonzero [OF r] by metis
  ultimately show thesis using p lookup_found [OF r p(1) v p(2)] findElement_ok [OF r v]
    by (intro present) auto
next
  case False
  with lookup_none [OF r] findElement_ok [OF r v] show thesis by (intro absent) auto
qed

lemma find_ok:
  assumes r: "rep h ps" and v: "valid k"
  shows "sqliteHashFind h k = Some (lookup h k)"
proof -
  have kc: "hashFunction (keyClass h) = Some xHash" using r hash_fn by (simp add: hash_rep_def)
  have "ht h = None \<Longrightarrow> ps = []" using r by (simp add: hash_rep_def table_ok_def)
  then show ?thesis
    by (cases rule: key_cases [OF r v]) (auto simp: sqliteHashFind_def kc)
qed

lemma rep_set_data:
  assumes r: "rep h ps" and p: "p \<in> set ps" and d: "d \<noteq> 0"
  shows "rep (h\<lparr>mem := (mem h)(p := (mem h p)\<lparr>data := d\<rparr>)\<rparr>) ps"
proof -
  from r have "table_ok xHash h ps" by (simp add: hash_rep_def)
  then have "table_ok xHash (h\<lparr>mem := (mem h)(p := (mem h p)\<lparr>data := d\<rparr>)\<rparr>) ps"
    by (rule table_ok_cong) auto
  with r d show ?thesis by (auto simp: hash_rep_def)
qed

lemma rep_remove:
  assumes r: "rep h ps" and p: "p \<in> set ps"
  shows "\<exists>ps'. rep (removeElementGivenHash h p (bucket_of (xHash (key (mem h p))) (htsize h))) ps'
     \<and> set ps' = set ps - {p}"
proof -
  let ?h = "removeElementGivenHash h p (bucket_of (xHash (key (mem h p))) (htsize h))"
  from r have "table_ok xHash h ps" by (simp add: hash_rep_def)
  from removeElement_table_ok [OF this p refl] obtain ps' where
    t: "table_ok xHash ?h ps'" "set ps' = set ps - {p}" "length ps' = length ps - 1"
      "count ?h = count h - 1" "keyClass ?h = keyClass h"
      "\<forall>a. key (mem ?h a) = key (mem h a) \<and> data (mem ?h a) = data (mem h a)" by blast
  have "1 \<le> length ps" using p by (cases ps) auto
  with t r have "rep ?h ps'" by (auto simp: hash_rep_def of_nat_diff)
  with t(2) show ?thesis by blast
qed

text \<open>A new element with a key that is not in the table.\<close>

lemma rep_add:
  assumes r: "rep h ps" and v: "valid k" and e: "e \<noteq> 0" "e \<notin> set ps" and d: "d \<noteq> 0"
    and new: "\<forall>p \<in> set ps. xCompare (key (mem h p)) k \<noteq> 0"
    and ok: "table_ok xHash h1 ps'" "set ps' = set ps" "length ps' = length ps"
    and h1: "keyClass h1 = kc" "count h1 = count h + 1" "ht h1 = Some t"
    and kd: "\<And>a. a \<noteq> e \<Longrightarrow> key (mem h1 a) = key (mem h a) \<and> data (mem h1 a) = data (mem h a)"
    and ke: "key (mem h1 e) = k"
    and link: "link_before e (snd (t ! bucket_of (xHash k) (htsize h1))) (first h1) (mem h1) = (f', m')"
  shows "\<exists>ps2. rep (h1\<lparr>first := f', mem := m'(e := (m' e)\<lparr>data := d\<rparr>),
      ht := Some (bucket_add t (bucket_of (xHash k) (htsize h1)) e)\<rparr>) ps2
    \<and> set ps2 = insert e (set ps)
    \<and> (\<forall>a. key (m' a) = key (mem h1 a) \<and> data (m' a) = data (mem h1 a))"
proof -
  let ?b = "bucket_of (xHash k) (htsize h1)"
  have b: "?b = bucket_of (xHash (key (mem h1 e))) (htsize h1)" using ke by simp
  have e1: "e \<notin> set ps'" using e ok(2) by simp
  obtain f2 m2 ps2 where l2: "link_before e (snd (t ! ?b)) (first h1) (mem h1) = (f2, m2)"
    and ok2: "table_ok xHash (h1\<lparr>first := f2, mem := m2, ht := Some (bucket_add t ?b e)\<rparr>) ps2"
    and ps2: "set ps2 = insert e (set ps')" "length ps2 = Suc (length ps')"
    and kd2: "\<And>a. key (m2 a) = key (mem h1 a) \<and> data (m2 a) = data (mem h1 a)"
    using link_table_ok [OF ok(1) h1(3) e(1) e1 b] by metis
  have fm: "f2 = f'" "m2 = m'" using link l2 by auto
  let ?h = "h1\<lparr>first := f', mem := m'(e := (m' e)\<lparr>data := d\<rparr>), ht := Some (bucket_add t ?b e)\<rparr>"
  have t: "table_ok xHash ?h ps2"
    by (rule table_ok_cong [OF ok2]) (auto simp: fm)
  have keys: "key (mem ?h a) = (if a = e then k else key (mem h a))" for a
    using kd2 kd ke fm by auto
  have "rep ?h ps2"
    unfolding hash_rep_def
  proof (intro conjI ballI impI)
    show "count ?h = int (length ps2)" using h1(2) ps2(2) ok(3) r by (simp add: hash_rep_def)
    fix p assume p: "p \<in> set ps2"
    then show "valid (key (mem ?h p))" using keys ps2 ok(2) r v by (auto simp: hash_rep_def)
    show "data (mem ?h p) \<noteq> 0" using p ps2 ok(2) r d kd2 kd fm by (auto simp: hash_rep_def)
    fix q assume q: "q \<in> set ps2" and c: "xCompare (key (mem ?h p)) (key (mem ?h q)) = 0"
    show "p = q"
    proof (cases "p = e"; cases "q = e")
      assume pq: "p = e" "q \<noteq> e"
      then have q': "q \<in> set ps" using q ps2 ok(2) by simp
      then have "valid (key (mem h q))" using r by (simp add: hash_rep_def)
      moreover have "xCompare k (key (mem h q)) = 0" using c unfolding keys pq(1) using pq(2) by simp
      ultimately have "xCompare (key (mem h q)) k = 0" by (rule cmp_sym [OF v])
      with new q' show ?thesis by blast
    next
      assume pq: "p \<noteq> e" "q = e"
      then have "xCompare (key (mem h p)) k = 0" using c unfolding keys by simp
      with pq new p ps2 ok(2) show ?thesis by auto
    next
      assume pq: "p \<noteq> e" "q \<noteq> e"
      then have "xCompare (key (mem h p)) (key (mem h q)) = 0" using c unfolding keys by simp
      with pq p q ps2 ok(2) r show ?thesis by (simp add: hash_rep_def)
    qed simp
  qed (use h1 t in simp_all)
  with ps2 ok(2) kd2 fm show ?thesis by auto
qed

lemma same_element:
  assumes "rep h ps" "valid k" "valid k'" "p \<in> set ps" "xCompare (key (mem h p)) k = 0"
  shows "xCompare (key (mem h p)) k' = 0 \<longleftrightarrow> xCompare k k' = 0"
proof -
  have v: "valid (key (mem h p))" using assms(1,4) by (simp add: hash_rep_def)
  show ?thesis
    using cmp_tr [OF v assms(2,3)] cmp_tr [OF assms(2) v assms(3)] cmp_sym [OF v assms(2)] assms(5)
    by blast
qed

lemma lookup_cong: "rep h ps \<Longrightarrow> valid k \<Longrightarrow> valid k' \<Longrightarrow> xCompare k k' = 0 \<Longrightarrow> lookup h k' = lookup h k"
proof -
  assume r: "rep h ps" and v: "valid k" "valid k'" and c: "xCompare k k' = 0"
  show ?thesis
    using r v(1)
  proof (cases rule: key_cases)
    case absent
    have "xCompare (key (mem h p)) k' \<noteq> 0" if "p \<in> set ps" for p
      using same_element [OF r v(2,1) that] absent(1) that cmp_sym [OF v c] by blast
    with lookup_none(2) [OF r] absent(2) show ?thesis by simp
  next
    case (present p)
    with same_element [OF r v present(1,3)] c lookup_found(2) [OF r present(1) v(2)] show ?thesis
      by simp
  qed
qed

text \<open>How the three changes of a table change the map.\<close>

lemma lookup_set_data:
  assumes r: "rep h ps" and v: "valid k" "valid k'" and p: "p \<in> set ps"
    and c: "xCompare (key (mem h p)) k = 0" and d: "d \<noteq> 0"
  defines "h' \<equiv> h\<lparr>mem := (mem h)(p := (mem h p)\<lparr>data := d\<rparr>)\<rparr>"
  shows "lookup h' k' = (if xCompare k k' = 0 then d else lookup h k')"
proof -
  have r': "rep h' ps" unfolding h'_def by (rule rep_set_data [OF r p d])
  have keys: "key (mem h' a) = key (mem h a)" for a by (simp add: h'_def)
  show ?thesis
    using r v(2)
  proof (cases rule: key_cases)
    case absent
    then have "lookup h' k' = 0" by (intro lookup_none(2) [OF r']) (simp add: keys)
    moreover have "xCompare k k' \<noteq> 0" using absent(1) p same_element [OF r v p c] by blast
    ultimately show ?thesis using absent(2) by simp
  next
    case (present q)
    then have "lookup h' k' = data (mem h' q)"
      by (intro lookup_found(2) [OF r' _ v(2)]) (simp_all add: keys)
    moreover have "q = p \<longleftrightarrow> xCompare k k' = 0"
      using same_element [OF r v p c] present lookup_found(1) [OF r _ v(2)] p
      by (metis option.inject)
    ultimately show ?thesis using present(4) by (auto simp: h'_def)
  qed
qed

lemma lookup_removed:
  assumes r: "rep h ps" and v: "valid k" "valid k'" and p: "p \<in> set ps"
    and c: "xCompare (key (mem h p)) k = 0"
    and r': "rep h' ps'" "set ps' = set ps - {p}"
    and keys: "\<And>a. key (mem h' a) = key (mem h a) \<and> data (mem h' a) = data (mem h a)"
  shows "lookup h' k' = (if xCompare k k' = 0 then 0 else lookup h k')"
  using r v(2)
proof (cases rule: key_cases)
  case absent
  then have "lookup h' k' = 0" by (intro lookup_none(2) [OF r'(1)]) (simp add: keys r'(2))
  with absent(2) show ?thesis by simp
next
  case (present q)
  have qp: "q = p \<longleftrightarrow> xCompare k k' = 0"
    using same_element [OF r v p c] present lookup_found(1) [OF r _ v(2)] p
    by (metis option.inject)
  show ?thesis
  proof (cases "q = p")
    case True
    have "\<forall>a \<in> set ps'. xCompare (key (mem h' a)) k' \<noteq> 0"
      using lookup_found(1) [OF r _ v(2)] present(1,3) True r'(2) keys
      by (metis Diff_iff insert_iff option.inject)
    with lookup_none(2) [OF r'(1)] qp True show ?thesis by simp
  next
    case False
    then have "lookup h' k' = data (mem h' q)"
      using present by (intro lookup_found(2) [OF r'(1) _ v(2)]) (simp_all add: keys r'(2))
    with qp False present(4) keys show ?thesis by simp
  qed
qed

lemma lookup_added:
  assumes r: "rep h ps" and v: "valid k" "valid k'" and e: "e \<notin> set ps"
    and new: "\<forall>p \<in> set ps. xCompare (key (mem h p)) k \<noteq> 0"
    and r': "rep h' ps'" "set ps' = insert e (set ps)"
    and keys: "\<And>a. a \<noteq> e \<Longrightarrow> key (mem h' a) = key (mem h a) \<and> data (mem h' a) = data (mem h a)"
    and e': "key (mem h' e) = k" "data (mem h' e) = d"
  shows "lookup h' k' = (if xCompare k k' = 0 then d else lookup h k')"
proof (cases "xCompare k k' = 0")
  case True
  then show ?thesis using lookup_found(2) [OF r'(1) _ v(2), of e] r'(2) e' by simp
next
  case False
  show ?thesis
    using r v(2)
  proof (cases rule: key_cases)
    case absent
    have "lookup h' k' = 0"
    proof (rule lookup_none(2) [OF r'(1)], rule ballI)
      fix a assume "a \<in> set ps'"
      then show "xCompare (key (mem h' a)) k' \<noteq> 0"
        using absent(1) False e' keys [of a] r'(2) by (cases "a = e") auto
    qed
    with absent(2) False show ?thesis by simp
  next
    case (present q)
    then have "q \<noteq> e" using e by auto
    then have "lookup h' k' = data (mem h' q)"
      using present keys [of q] by (intro lookup_found(2) [OF r'(1) _ v(2)]) (simp_all add: r'(2))
    with present(4) keys [OF \<open>q \<noteq> e\<close>] False show ?thesis by simp
  qed
qed

text \<open>The two calls of \<open>rehash\<close> of an insertion leave a table with buckets.\<close>

lemma grow_ok:
  assumes ok: "table_ok xHash h ps" "keyClass h = kc" and n: "htsize h = 0 \<longrightarrow> ht_ok al"
  shows "\<exists>h1 h2 ps'. (if htsize h = 0 then rehash (ht_ok al) 8 h else Some h) = Some h1
    \<and> htsize h1 \<noteq> 0
    \<and> (if count h1 > int (htsize h1) then rehash (grow_ok al) (htsize h1 * 2) h1 else Some h1) = Some h2
    \<and> table_ok xHash h2 ps' \<and> set ps' = set ps \<and> length ps' = length ps
    \<and> ht h2 \<noteq> None \<and> count h2 = count h \<and> keyClass h2 = kc
    \<and> (\<forall>a. key (mem h2 a) = key (mem h a) \<and> data (mem h2 a) = data (mem h a))"
proof -
  have fn: "hashFunction (keyClass h) = Some xHash" using ok(2) hash_fn by simp
  have "\<exists>h1 ps1. (if htsize h = 0 then rehash (ht_ok al) 8 h else Some h) = Some h1
    \<and> table_ok xHash h1 ps1 \<and> set ps1 = set ps \<and> length ps1 = length ps
    \<and> ht h1 \<noteq> None \<and> count h1 = count h \<and> keyClass h1 = kc
    \<and> (\<forall>a. key (mem h1 a) = key (mem h a) \<and> data (mem h1 a) = data (mem h a))"
  proof (cases "htsize h = 0")
    case True
    have "(8::nat) = 2 ^ 3" by simp
    from rehash_table_ok [OF ok(1) fn this] True n ok(2) show ?thesis by auto
  next
    case False
    with ok have "ht h \<noteq> None" by (auto simp: table_ok_def split: option.splits)
    with False ok show ?thesis by auto
  qed
  then obtain h1 ps1 where h1: "(if htsize h = 0 then rehash (ht_ok al) 8 h else Some h) = Some h1"
    "table_ok xHash h1 ps1" "set ps1 = set ps" "length ps1 = length ps"
    "ht h1 \<noteq> None" "count h1 = count h" "keyClass h1 = kc"
    "\<forall>a. key (mem h1 a) = key (mem h a) \<and> data (mem h1 a) = data (mem h a)" by blast
  obtain k where k: "htsize h1 = 2 ^ k" using h1(2,5) by (auto simp: table_ok_def)
  have fn1: "hashFunction (keyClass h1) = Some xHash" using h1(7) hash_fn by simp
  have k2: "htsize h1 * 2 = 2 ^ Suc k" using k by simp
  show ?thesis
  proof (cases "count h1 > int (htsize h1) \<and> grow_ok al")
    case True
    from rehash_table_ok [OF h1(2) fn1 k2] obtain h2 ps2 where
      "rehash True (htsize h1 * 2) h1 = Some h2" "table_ok xHash h2 ps2" "set ps2 = set ps1"
      "length ps2 = length ps1" "ht h2 \<noteq> None" "count h2 = count h1" "keyClass h2 = keyClass h1"
      "\<forall>a. key (mem h2 a) = key (mem h1 a) \<and> data (mem h2 a) = data (mem h1 a)" by blast
    with True h1 k show ?thesis
      by (intro exI [of _ h1] exI [of _ h2] exI [of _ ps2]) simp
  next
    case False
    with h1 k show ?thesis
      by (intro exI [of _ h1] exI [of _ h1] exI [of _ ps1]) (auto simp: rehash_def)
  qed
qed

lemma insert_new:
  assumes r: "rep h ps" and v: "valid k" and d: "d \<noteq> 0"
    and fresh: "new_elem al \<notin> set ps"
    and new: "\<forall>p \<in> set ps. xCompare (key (mem h p)) k \<noteq> 0"
      "findElementGivenHash h k (bucket_of (xHash k) (htsize h)) = Some 0"
    and al: "alloc_ok al h"
  shows "\<exists>h'. sqliteHashInsert al h k d = Some (h', 0) \<and> hash_inv h'
    \<and> (\<forall>k'. valid k' \<longrightarrow> lookup h' k' = (if xCompare k k' = 0 then d else lookup h k'))"
proof -
  let ?e = "new_elem al"
  let ?hnew = "h\<lparr>mem := (mem h)(?e := \<lparr>enext = 0, eprev = 0, data = 0, key = k\<rparr>), count := count h + 1\<rparr>"
  have t0: "table_ok xHash ?hnew ps"
    by (rule table_ok_cong [of _ h]) (use r fresh in \<open>auto simp: hash_rep_def\<close>)
  have kc: "keyClass ?hnew = kc" using r by (simp add: hash_rep_def)
  have n: "htsize ?hnew = 0 \<longrightarrow> ht_ok al" using al by (simp add: alloc_ok_def)
  from grow_ok [OF t0 kc n] obtain h1 h2 ps' where
    g: "(if htsize ?hnew = 0 then rehash (ht_ok al) 8 ?hnew else Some ?hnew) = Some h1" "htsize h1 \<noteq> 0"
    "(if count h1 > int (htsize h1) then rehash (grow_ok al) (htsize h1 * 2) h1 else Some h1) = Some h2"
    and t2: "table_ok xHash h2 ps'" "set ps' = set ps" "length ps' = length ps"
    and h2: "ht h2 \<noteq> None" "count h2 = count ?hnew" "keyClass h2 = kc"
      "\<forall>a. key (mem h2 a) = key (mem ?hnew a) \<and> data (mem h2 a) = data (mem ?hnew a)" by blast
  obtain t where t: "ht h2 = Some t" using h2(1) by auto
  let ?b = "bucket_of (xHash k) (htsize h2)"
  obtain f' m' where l: "link_before ?e (snd (t ! ?b)) (first h2) (mem h2) = (f', m')" by fastforce
  let ?h = "h2\<lparr>first := f', mem := m'(?e := (m' ?e)\<lparr>data := d\<rparr>), ht := Some (bucket_add t ?b ?e)\<rparr>"
  have e0: "?e \<noteq> 0" using al by (simp add: alloc_ok_def)
  have cnt: "count h2 = count h + 1" using h2(2) by simp
  have kd: "\<And>a. a \<noteq> ?e \<Longrightarrow> key (mem h2 a) = key (mem h a) \<and> data (mem h2 a) = data (mem h a)"
    and ke: "key (mem h2 ?e) = k" using h2(4) by auto
  from rep_add [OF r v e0 fresh d new(1) t2 h2(3) cnt t kd ke l] obtain ps2 where
    r2: "rep ?h ps2" "set ps2 = insert ?e (set ps)"
    and kd2: "\<forall>a. key (m' a) = key (mem h2 a) \<and> data (m' a) = data (mem h2 a)" by blast
  have "insert_grow al (xHash k) d ?hnew = Some (insert_link (xHash k) ?e d h2, 0)"
    unfolding insert_grow_def g(1) bind.bind_lunit if_not_P [OF g(2)] g(3) ..
  moreover have "insert_link (xHash k) ?e d h2 = ?h" using t l by (simp add: insert_link_def)
  ultimately have "sqliteHashInsert al h k d = Some (?h, 0)"
    using new(2) d al hash_fn r by (simp add: sqliteHashInsert_def alloc_ok_def hash_rep_def Let_def)
  moreover have "lookup ?h k' = (if xCompare k k' = 0 then d else lookup h k')" if "valid k'" for k'
    by (rule lookup_added [OF r v that fresh new(1) r2]) (use kd kd2 ke in auto)
  ultimately show ?thesis using rep_inv [OF r2(1)] by blast
qed

lemma insert_ok:
  assumes inv: "hash_inv h" and v: "valid k" and fresh: "new_elem al \<notin> set (elems h)"
  shows "\<exists>h' r. sqliteHashInsert al h k d = Some (h', r) \<and> hash_inv h'
    \<and> r = (if lookup h k \<noteq> 0 then lookup h k else if d \<noteq> 0 \<and> \<not> alloc_ok al h then d else 0)
    \<and> (\<forall>k'. valid k' \<longrightarrow> lookup h' k' =
         (if xCompare k k' = 0 \<and> (lookup h k \<noteq> 0 \<or> d = 0 \<or> alloc_ok al h) then d else lookup h k'))"
proof -
  from inv have r: "rep h (elems h)" by (simp add: hash_ok_def)
  have fn: "hashFunction (keyClass h) = Some xHash" using r hash_fn by (simp add: hash_rep_def)
  show ?thesis
    using r v
  proof (cases rule: key_cases)
    case absent
    have l0: "xCompare k k' = 0 \<Longrightarrow> valid k' \<Longrightarrow> lookup h k' = 0" for k'
      using lookup_cong [OF r v] absent(2) by simp
    show ?thesis
    proof (cases "d \<noteq> 0 \<and> alloc_ok al h")
      case True
      with insert_new [OF r v _ fresh absent(1,3)] absent(2) show ?thesis by auto
    next
      case False
      consider "d = 0" | "d \<noteq> 0" "new_elem al = 0 \<or> copyKey h \<and> \<not> key_ok al"
        | "d \<noteq> 0" "new_elem al \<noteq> 0" "copyKey h \<longrightarrow> key_ok al" "htsize h = 0" "\<not> ht_ok al"
        using False by (auto simp: alloc_ok_def)
      then show ?thesis
      proof cases
        case 1
        with absent fn inv l0 show ?thesis by (auto simp: sqliteHashInsert_def Let_def)
      next
        case 2
        with absent fn inv show ?thesis by (auto simp: sqliteHashInsert_def Let_def alloc_ok_def)
      next
        case 3
        let ?h = "h\<lparr>mem := (mem h)(new_elem al := \<lparr>enext = 0, eprev = 0, data = 0, key = k\<rparr>),
          count := 0\<rparr>"
        from r 3(4) have e: "elems h = []" "ht h = None" "first h = 0"
          by (auto simp: hash_rep_def table_ok_def split: option.splits)
        then have r': "rep ?h []" using r 3(4) by (simp add: hash_rep_def table_ok_def)
        have "lookup ?h k' = lookup h k'" for k'
          using rep_elems [OF r'] e(1) by (simp add: hash_lookup_def)
        moreover have "sqliteHashInsert al h k d = Some (?h, d)"
          using 3 absent fn
          by (auto simp: sqliteHashInsert_def Let_def insert_grow_def rehash_def)
        ultimately show ?thesis
          using 3 absent(2) rep_inv [OF r'] by (auto simp: alloc_ok_def)
      qed
    qed
  next
    case (present p)
    have d0: "data (mem h p) \<noteq> 0" using r present(1) by (simp add: hash_rep_def)
    show ?thesis
    proof (cases "d = 0")
      case True
      let ?h = "removeElementGivenHash h p (bucket_of (xHash (key (mem h p))) (htsize h))"
      obtain ps' where r': "rep ?h ps'" "set ps' = set (elems h) - {p}"
        using rep_remove [OF r present(1)] by blast
      have keys: "\<And>a. key (mem ?h a) = key (mem h a) \<and> data (mem ?h a) = data (mem h a)"
        by (auto simp: removeElementGivenHash_def Let_def split: prod.splits if_splits)
      have "sqliteHashInsert al h k d = Some (?h, lookup h k)"
        using True present fn by (simp add: sqliteHashInsert_def Let_def)
      with lookup_removed [OF r v _ present(1,3) r' keys] rep_inv [OF r'(1)] present(4) d0 True
      show ?thesis by auto
    next
      case False
      let ?h = "h\<lparr>mem := (mem h)(p := (mem h p)\<lparr>data := d\<rparr>)\<rparr>"
      have "sqliteHashInsert al h k d = Some (?h, lookup h k)"
        using False present fn by (simp add: sqliteHashInsert_def Let_def)
      with lookup_set_data [OF r v _ present(1,3) False] rep_inv [OF rep_set_data [OF r present(1) False]]
        present(4) d0 show ?thesis by auto
    qed
  qed
qed

end

section \<open>The three key classes\<close>

text \<open>
  Integer keys are compared by \<open>nKey\<close>.  String keys are \<open>nKey > 0\<close> bytes without a NUL
  except possibly the last one: on other keys \<open>sqliteStrNICmp\<close> stops at the NUL and would
  identify keys with different hashes.  Binary keys are any \<open>nKey\<close> bytes.
\<close>

definition str_key :: "hkey \<Rightarrow> bool" where
  "str_key k \<longleftrightarrow> 0 < snd k \<and> nul_at_end (fst k) (nat (snd k))"

definition bin_key :: "hkey \<Rightarrow> bool" where
  "bin_key k \<longleftrightarrow> 0 \<le> snd k \<and> nat (snd k) \<le> length (fst k)"

lemma strCompare_eq_0:
  "str_key a \<Longrightarrow> str_key b \<Longrightarrow> strCompare a b = 0 \<longleftrightarrow>
     snd a = snd b \<and> map UpperToLower (take (nat (snd a)) (fst a)) = map UpperToLower (take (nat (snd b)) (fst b))"
  using sqliteStrNICmp_eq_0 [of "fst a" "nat (snd a)" "fst b"] by (auto simp: strCompare_def str_key_def)

lemma memcmp_eq_0: "n \<le> length a \<Longrightarrow> n \<le> length b \<Longrightarrow> memcmp a b n = 0 \<longleftrightarrow> take n a = take n b"
proof (induction a b n rule: memcmp.induct)
  case (2 a b n)
  then show ?case by (cases a; cases b) auto
qed simp

lemma binCompare_eq_0:
  "bin_key a \<Longrightarrow> bin_key b \<Longrightarrow> binCompare a b = 0 \<longleftrightarrow>
     snd a = snd b \<and> take (nat (snd a)) (fst a) = take (nat (snd b)) (fst b)"
  using memcmp_eq_0 [of "nat (snd a)" "fst a" "fst b"] by (auto simp: binCompare_def bin_key_def)

interpretation int_keys: key_class SQLITE_HASH_INT intHash intCompare "\<lambda>_. True"
  by unfold_locales (auto simp: hashFunction_def compareFunction_def intCompare_def intHash_def)

interpretation str_keys: key_class SQLITE_HASH_STRING strHash strCompare str_key
proof unfold_locales
  fix a b :: hkey assume k: "str_key a" "str_key b" and c: "strCompare a b = 0"
  from c have eq: "snd a = snd b"
    "map UpperToLower (take (nat (snd a)) (fst a)) = map UpperToLower (take (nat (snd a)) (fst b))"
    unfolding strCompare_eq_0 [OF k] by auto
  have pos: "0 < nat (snd a)" "int (nat (snd a)) = snd a" using k by (auto simp: str_key_def)
  from sqliteHashNoCase_cong [OF eq(2) pos(1)] show "strHash a = strHash b"
    unfolding strHash_def pos(2) eq(1) [symmetric] .
qed (auto simp: hashFunction_def compareFunction_def strCompare_eq_0)

interpretation bin_keys: key_class SQLITE_HASH_BINARY binHash binCompare bin_key
  by unfold_locales
    (auto simp: hashFunction_def compareFunction_def binCompare_eq_0 binHash_def)

text \<open>The hash function, comparison and valid keys of each key class.\<close>

definition key_classes :: "(nat \<times> (hkey \<Rightarrow> u32) \<times> (hkey \<Rightarrow> hkey \<Rightarrow> int) \<times> (hkey \<Rightarrow> bool)) set" where
  "key_classes =
     {(SQLITE_HASH_INT, intHash, intCompare, \<lambda>_. True),
      (SQLITE_HASH_STRING, strHash, strCompare, str_key),
      (SQLITE_HASH_BINARY, binHash, binCompare, bin_key)}"

lemma key_classes_locale:
  "(kc, xHash, xCompare, valid) \<in> key_classes \<Longrightarrow> key_class kc xHash xCompare valid"
  using int_keys.key_class_axioms str_keys.key_class_axioms bin_keys.key_class_axioms
  by (auto simp: key_classes_def)

subsection \<open>Properties\<close>

text \<open>
  C6. Insertion and lookup.  For each key class, inserting into a well-formed table a valid
  key with a datum (0 to delete) at a fresh address returns, and leaves a well-formed table in
  which a lookup of any valid key \<open>k'\<close> gives the new datum if \<open>k'\<close> equals the key under the
  comparison of the class, and otherwise what it gave before.  The value returned is the old
  datum; only when a new entry is needed and an allocation it cannot do without fails, the new
  datum is returned and no lookup changes.
\<close>

theorem sqliteHashInsert_correct:
  assumes cls: "(kc, xHash, xCompare, valid) \<in> key_classes"
    and inv: "hash_ok kc xHash xCompare valid h" and v: "valid k"
    and fresh: "new_elem al \<notin> set (elems h)"
  shows "\<exists>h' old r. sqliteHashFind h k = Some old
    \<and> sqliteHashInsert al h k d = Some (h', r) \<and> hash_ok kc xHash xCompare valid h'
    \<and> r = (if old \<noteq> 0 then old else if d \<noteq> 0 \<and> \<not> alloc_ok al h then d else 0)
    \<and> (\<forall>k'. valid k' \<longrightarrow> sqliteHashFind h' k' =
         (if xCompare k k' = 0 \<and> (old \<noteq> 0 \<or> d = 0 \<or> alloc_ok al h) then Some d
          else sqliteHashFind h k'))"
proof -
  note loc = key_classes_locale [OF cls]
  have find: "sqliteHashFind g j = Some (hash_lookup xCompare g j)"
    if "hash_ok kc xHash xCompare valid g" "valid j" for g j
    using key_class.find_ok [OF loc] that by (simp add: hash_ok_def)
  from key_class.insert_ok [OF loc inv v fresh, of d] obtain h' r where
    ins: "sqliteHashInsert al h k d = Some (h', r)" "hash_ok kc xHash xCompare valid h'"
    "r = (if hash_lookup xCompare h k \<noteq> 0 then hash_lookup xCompare h k
          else if d \<noteq> 0 \<and> \<not> alloc_ok al h then d else 0)"
    "\<forall>k'. valid k' \<longrightarrow> hash_lookup xCompare h' k' =
       (if xCompare k k' = 0 \<and> (hash_lookup xCompare h k \<noteq> 0 \<or> d = 0 \<or> alloc_ok al h) then d
        else hash_lookup xCompare h k')" by blast
  show ?thesis
    using ins find [OF inv] find [OF ins(2)] v
    by (intro exI [of _ h'] exI [of _ "hash_lookup xCompare h k"] exI [of _ r]) auto
qed

definition blank_mem :: "addr \<Rightarrow> helem" where
  "blank_mem = (\<lambda>_. \<lparr>enext = 0, eprev = 0, data = 0, key = ([], 0)\<rparr>)"

lemma init_str_ok: "hash_ok SQLITE_HASH_STRING strHash strCompare str_key (sqliteHashInit 3 True blank_mem)"
  by (simp add: hash_ok_def hash_rep_def table_ok_def elems_def sqliteHashInit_def)

theorem sqliteHashInsert_correct_witness:
  "\<exists>h' r. sqliteHashInsert \<lparr>new_elem = 5, key_ok = True, ht_ok = True, grow_ok = True\<rparr>
       (sqliteHashInit 3 True blank_mem) (cstr ''job'', 3) 7 = Some (h', r)
     \<and> sqliteHashFind h' (cstr ''JOB'', 3) = Some 7"
proof -
  let ?al = "\<lparr>new_elem = 5, key_ok = True, ht_ok = True, grow_ok = True\<rparr>"
  let ?h = "sqliteHashInit 3 True blank_mem"
  have cls: "(SQLITE_HASH_STRING, strHash, strCompare, str_key) \<in> key_classes"
    by (simp add: key_classes_def)
  have k: "str_key (cstr ''job'', 3)" "str_key (cstr ''JOB'', 3)"
    by (simp_all add: str_key_def nul_at_end_def)
  have e: "new_elem ?al \<notin> set (elems ?h)" "alloc_ok ?al ?h"
    by (simp_all add: elems_def sqliteHashInit_def alloc_ok_def)
  have c: "strCompare (cstr ''job'', 3) (cstr ''JOB'', 3) = 0"
    unfolding strCompare_eq_0 [OF k] by (simp add: UpperToLower_eq)
  from sqliteHashInsert_correct [OF cls init_str_ok k(1) e(1), of 7] k(2) c e(2)
  show ?thesis by auto
qed

text \<open>
  The empty tables.  A freshly initialised table and a cleared table of any of the three
  key classes are well-formed and hold no key.
\<close>

lemma sqliteHashInit_Clear_empty:
  assumes cls: "(kc, xHash, xCompare, valid) \<in> key_classes"
    and h: "h = sqliteHashInit kc ck m \<or> keyClass g = kc \<and> h = sqliteHashClear g"
  shows "hash_ok kc xHash xCompare valid h \<and> elems h = []
    \<and> (\<forall>k. valid k \<longrightarrow> sqliteHashFind h k = Some 0)"
  using h
  by (auto simp: hash_ok_def hash_rep_def table_ok_def elems_def sqliteHashInit_def
      sqliteHashClear_def sqliteHashFind_def)

text \<open>
  C30. Resizing.  Rehashing a well-formed table to any power of two ends, keeps the table
  well-formed with the same elements, and changes no lookup.
\<close>

theorem rehash_correct:
  assumes cls: "(kc, xHash, xCompare, valid) \<in> key_classes"
    and inv: "hash_ok kc xHash xCompare valid h"
  shows "\<exists>h'. rehash ok (2 ^ n) h = Some h' \<and> hash_ok kc xHash xCompare valid h'
    \<and> set (elems h') = set (elems h) \<and> (ok \<longrightarrow> htsize h' = 2 ^ n)
    \<and> (\<forall>k. valid k \<longrightarrow> sqliteHashFind h' k = sqliteHashFind h k)"
proof (cases ok)
  case False
  with inv show ?thesis by (simp add: rehash_def)
next
  case True
  note loc = key_classes_locale [OF cls]
  from inv have r: "hash_rep kc xHash xCompare valid h (elems h)" by (simp add: hash_ok_def)
  have "hashFunction (keyClass h) = Some xHash"
    using r key_class.hash_fn [OF loc] by (simp add: hash_rep_def)
  moreover have "table_ok xHash h (elems h)" using r by (simp add: hash_rep_def)
  ultimately obtain h' ps' where h': "rehash True (2 ^ n) h = Some h'" "table_ok xHash h' ps'"
    "set ps' = set (elems h)" "length ps' = length (elems h)" "htsize h' = 2 ^ n"
    "count h' = count h" "keyClass h' = keyClass h"
    and kd: "\<forall>a. key (mem h' a) = key (mem h a) \<and> data (mem h' a) = data (mem h a)"
    using rehash_table_ok [of xHash h "elems h" "2 ^ n" n] by blast
  have r': "hash_rep kc xHash xCompare valid h' ps'"
    using r h' kd by (simp add: hash_rep_def)
  have "sqliteHashFind h' k = sqliteHashFind h k" if v: "valid k" for k
  proof -
    have "hash_lookup xCompare h' k = hash_lookup xCompare h k"
      using key_class.lookup_found(2) [OF loc r' _ v] key_class.lookup_found(2) [OF loc r _ v]
        key_class.lookup_none(2) [OF loc r', of k] key_class.lookup_none(2) [OF loc r, of k] h'(3) kd
      by metis
    then show ?thesis
      using key_class.find_ok [OF loc r' v] key_class.find_ok [OF loc r v] by simp
  qed
  then show ?thesis
    using True h' r' key_class.rep_elems [OF loc r'] by (auto simp: hash_ok_def)
qed

theorem rehash_correct_witness:
  "\<exists>h'. rehash True 16 (sqliteHashInit 3 True blank_mem) = Some h' \<and> htsize h' = 16"
proof -
  have cls: "(SQLITE_HASH_STRING, strHash, strCompare, str_key) \<in> key_classes"
    by (simp add: key_classes_def)
  from rehash_correct [OF cls init_str_ok, of True 4] show ?thesis by auto
qed

end
