(* ===== verification/Posix.thy ===== *)
theory Posix
  imports Prelude
begin

text \<open>
  The names of \<^verbatim>\<open>errno.h\<close> and \<^verbatim>\<open>fcntl.h\<close> that the locking code of
  \<^verbatim>\<open>ext/posixlock.c\<close> and \<^verbatim>\<open>os.c\<close> uses.  The system call \<open>fcntl\<close> itself is not under
  \<^verbatim>\<open>src/\<close>: the models take it as an argument of the type \<open>'s fcntl\<close>, a function of the state
  of the operating system that returns the result, the value of \<open>errno\<close>, the lock structure as the
  call leaves it, and the new state.
\<close>

datatype errno =
    EAGAIN
  | EACCES
  | EINTR
  | ERESTART
  | EINVAL
  | EOTHER int

datatype lock_type = F_RDLCK | F_WRLCK | F_UNLCK

datatype whence = SEEK_SET | SEEK_CUR

datatype fcntl_cmd = F_GETLK | F_SETLK | F_SETLKW

record flock =
  l_type :: lock_type
  l_whence :: whence
  l_start :: int
  l_len :: int
  l_pid :: int

type_synonym fd = int

type_synonym 's fcntl = "'s \<Rightarrow> fd \<Rightarrow> fcntl_cmd \<Rightarrow> flock \<Rightarrow> int \<times> errno \<times> flock \<times> 's"

end
