(* ===== verification/Posixlock.thy ===== *)
theory Posixlock
  imports Posix
begin

text \<open>
  The Ruby extension \<^verbatim>\<open>ext/posixlock.c\<close>: the lock constants (lines 37-81), \<open>posixlock\<close>, and
  the methods \<open>File#posixlock\<close> and \<open>File#lockf\<close>.  The build is one in which \<open>EWOULDBLOCK\<close> is
  \<open>EAGAIN\<close> and \<open>ERESTART\<close> is defined (Linux).  What belongs to Ruby is an argument: the safe
  level that \<open>rb_secure (2)\<close> tests, the open file that \<open>GetOpenFile\<close> yields (\<open>None\<close> for a
  closed one) and \<open>fflush\<close>.  The two retry loops may run forever, since nothing bounds the number of
  interrupted calls; they are partial functions into \<open>option\<close>, and the theorems say when they
  return.
\<close>

unbundle bit_operations_syntax

subsection \<open>Constants\<close>

text \<open>
  What the system headers define, if anything: a name they leave undefined gets the value of the
  \<open>#ifndef\<close> block.
\<close>

record lock_header =
  h_F_LOCK :: "int option"
  h_F_TLOCK :: "int option"
  h_F_ULOCK :: "int option"
  h_F_TEST :: "int option"

record lock_consts =
  F_LOCK :: int
  F_TLOCK :: int
  F_ULOCK :: int
  F_TEST :: int
  F_LOCKR :: int
  F_LOCKW :: int
  F_TLOCKR :: int
  F_TLOCKW :: int
  F_TESTR :: int
  F_TESTW :: int

definition ifndef :: "'a option \<Rightarrow> 'a \<Rightarrow> 'a" where
  "ifndef x d = (case x of None \<Rightarrow> d | Some v \<Rightarrow> v)"

definition lock_constants :: "lock_header \<Rightarrow> lock_consts" where
  "lock_constants h =
     (let lock = ifndef (h_F_LOCK h) 1;
          tlock = ifndef (h_F_TLOCK h) 2;
          ulock = ifndef (h_F_ULOCK h) 4;
          test = ifndef (h_F_TEST h) 8
      in \<lparr> F_LOCK = lock, F_TLOCK = tlock, F_ULOCK = ulock, F_TEST = test,
           F_LOCKR = 16, F_LOCKW = lock, F_TLOCKR = 32, F_TLOCKW = tlock,
           F_TESTR = 64, F_TESTW = test \<rparr>)"

definition LOCK_SH :: u32 where "LOCK_SH = 1"
definition LOCK_EX :: u32 where "LOCK_EX = 2"
definition LOCK_NB :: u32 where "LOCK_NB = 4"
definition LOCK_UN :: u32 where "LOCK_UN = 8"

subsection \<open>Ruby values and exceptions\<close>

datatype rb_value = Qfalse | Qnil | INT2FIX int

datatype rb_exn =
    SecurityError
  | ClosedStream
  | SysFail errno string

record rb_io =
  stdio_file :: fd
  mode_writable :: bool
  pathv :: string

subsection \<open>Operations\<close>

definition posixlock :: "'s fcntl \<Rightarrow> 's \<Rightarrow> fd \<Rightarrow> u32 \<Rightarrow> int \<times> errno \<times> 's" where
  "posixlock fcntl s fd operation =
     (let oper = operation AND NOT LOCK_NB;
          type = (if oper = LOCK_SH then Some F_RDLCK
                  else if oper = LOCK_EX then Some F_WRLCK
                  else if oper = LOCK_UN then Some F_UNLCK
                  else None)
      in case type of
           None \<Rightarrow> (-1, EINVAL, s)
         | Some t \<Rightarrow>
             (case fcntl s fd (if operation AND LOCK_NB \<noteq> 0 then F_SETLK else F_SETLKW)
                     \<lparr> l_type = t, l_whence = SEEK_SET, l_start = 0, l_len = 0, l_pid = 0 \<rparr> of
                (ret, err, _, s') \<Rightarrow> (ret, err, s')))"

partial_function (option) posixlock_retry ::
    "'s fcntl \<Rightarrow> rb_io \<Rightarrow> u32 \<Rightarrow> 's \<Rightarrow> ((rb_exn + rb_value) \<times> 's) option" where
  "posixlock_retry fcntl fptr operation s =
     (case posixlock fcntl s (stdio_file fptr) operation of
        (ret, err, s') \<Rightarrow>
          if ret < 0 then
            if err = EAGAIN \<or> err = EACCES then Some (Inr Qfalse, s')
            else if err = EINTR \<or> err = ERESTART then posixlock_retry fcntl fptr operation s'
            else Some (Inl (SysFail err (pathv fptr)), s')
          else Some (Inr (INT2FIX 0), s'))"

definition rb_file_posixlock ::
    "nat \<Rightarrow> ('s \<Rightarrow> rb_io \<Rightarrow> 's) \<Rightarrow> 's fcntl \<Rightarrow> 's \<Rightarrow> rb_io option \<Rightarrow> u32 \<Rightarrow>
     ((rb_exn + rb_value) \<times> 's) option" where
  "rb_file_posixlock safe_level fflush fcntl s obj operation =
     (if 2 \<le> safe_level then Some (Inl SecurityError, s)
      else case obj of
        None \<Rightarrow> Some (Inl ClosedStream, s)
      | Some fptr \<Rightarrow>
          let s1 = (if mode_writable fptr then fflush s fptr else s)
          in posixlock_retry fcntl fptr operation s1)"

text \<open>
  One pass through the body of the retry loop of \<open>rb_file_lockf\<close>: the result \<open>ret\<close>, \<open>errno\<close>, the
  flag \<open>f_test\<close>, the variable \<open>pid\<close> and the message.
\<close>

definition lockf_set ::
    "'s fcntl \<Rightarrow> 's \<Rightarrow> fd \<Rightarrow> fcntl_cmd \<Rightarrow> lock_type \<Rightarrow> int \<Rightarrow> int \<times> errno \<times> 's" where
  "lockf_set fcntl s fd cmd type len =
     (case fcntl s fd cmd
             \<lparr> l_type = type, l_whence = SEEK_CUR, l_start = 0, l_len = len, l_pid = 0 \<rparr> of
        (ret, err, _, s') \<Rightarrow> (ret, err, s'))"

definition lockf_get ::
    "'s fcntl \<Rightarrow> 's \<Rightarrow> fd \<Rightarrow> lock_type \<Rightarrow> int \<Rightarrow> int \<times> errno \<times> int \<times> 's" where
  "lockf_get fcntl s fd type len =
     (case fcntl s fd F_GETLK
             \<lparr> l_type = type, l_whence = SEEK_CUR, l_start = 0, l_len = len, l_pid = 0 \<rparr> of
        (ret, err, lock, s') \<Rightarrow>
          (ret, err, if ret = 0 \<and> l_type lock \<noteq> F_UNLCK then l_pid lock else -1, s'))"

definition invalid_cmd_msg :: "(int \<Rightarrow> string) \<Rightarrow> int \<Rightarrow> string" where
  "invalid_cmd_msg show_int cmd = ''invalid cmd <'' @ show_int cmd @ ''>''"

record 's lockf_pass =
  p_ret :: int
  p_errno :: errno
  p_test :: bool
  p_pid :: int
  p_msg :: string
  p_state :: 's

definition lockf_body ::
    "lock_consts \<Rightarrow> (int \<Rightarrow> string) \<Rightarrow> 's fcntl \<Rightarrow> rb_io \<Rightarrow> int \<Rightarrow> int \<Rightarrow> string \<Rightarrow> 's \<Rightarrow>
     's lockf_pass" where
  "lockf_body k show_int fcntl fptr cmd len msg s =
     (let fd = stdio_file fptr;
          set_lock = (\<lambda>c t. case lockf_set fcntl s fd c t len of
              (ret, err, s') \<Rightarrow>
                \<lparr> p_ret = ret, p_errno = err, p_test = False, p_pid = -1, p_msg = msg,
                  p_state = s' \<rparr>);
          get_lock = (\<lambda>t. case lockf_get fcntl s fd t len of
              (ret, err, pid, s') \<Rightarrow>
                \<lparr> p_ret = ret, p_errno = err, p_test = True, p_pid = pid, p_msg = msg,
                  p_state = s' \<rparr>)
      in if cmd = F_LOCK k then set_lock F_SETLKW F_WRLCK
         else if cmd = F_LOCKR k then set_lock F_SETLKW F_RDLCK
         else if cmd = F_TLOCK k then set_lock F_SETLK F_WRLCK
         else if cmd = F_TLOCKR k then set_lock F_SETLK F_RDLCK
         else if cmd = F_ULOCK k then set_lock F_SETLK F_UNLCK
         else if cmd = F_TEST k then get_lock F_WRLCK
         else if cmd = F_TESTR k then get_lock F_RDLCK
         else \<lparr> p_ret = -1, p_errno = EINVAL, p_test = False, p_pid = -1,
                p_msg = take 1023 (invalid_cmd_msg show_int cmd), p_state = s \<rparr>)"

partial_function (option) lockf_retry ::
    "lock_consts \<Rightarrow> (int \<Rightarrow> string) \<Rightarrow> 's fcntl \<Rightarrow> rb_io \<Rightarrow> int \<Rightarrow> int \<Rightarrow> string \<Rightarrow> 's \<Rightarrow>
     ((rb_exn + rb_value) \<times> 's) option" where
  "lockf_retry k show_int fcntl fptr cmd len msg s =
     (let p = lockf_body k show_int fcntl fptr cmd len msg s
      in if p_ret p < 0 then
           if p_errno p = EAGAIN \<or> p_errno p = EACCES then Some (Inr Qfalse, p_state p)
           else if p_errno p = EINTR \<or> p_errno p = ERESTART
             then lockf_retry k show_int fcntl fptr cmd len (p_msg p) (p_state p)
           else Some (Inl (SysFail (p_errno p) (p_msg p)), p_state p)
         else if p_test p then
           Some (Inr (if p_pid p \<noteq> -1 then INT2FIX (p_pid p) else Qnil), p_state p)
         else Some (Inr (INT2FIX 0), p_state p))"

definition path_msg :: "rb_io \<Rightarrow> string" where
  "path_msg fptr = take 1023 (''path <'' @ pathv fptr @ ''>'')"

definition rb_file_lockf ::
    "lock_consts \<Rightarrow> (int \<Rightarrow> string) \<Rightarrow> nat \<Rightarrow> ('s \<Rightarrow> rb_io \<Rightarrow> 's) \<Rightarrow> 's fcntl \<Rightarrow> 's \<Rightarrow> rb_io option \<Rightarrow>
     int \<Rightarrow> int \<Rightarrow> ((rb_exn + rb_value) \<times> 's) option" where
  "rb_file_lockf k show_int safe_level fflush fcntl s obj cmd len =
     (if 2 \<le> safe_level then Some (Inl SecurityError, s)
      else case obj of
        None \<Rightarrow> Some (Inl ClosedStream, s)
      | Some fptr \<Rightarrow>
          let msg = path_msg fptr;
              s1 = (if mode_writable fptr then fflush s fptr else s)
          in lockf_retry k show_int fcntl fptr cmd len msg s1)"

definition Init_posixlock :: "lock_consts \<Rightarrow> (string \<rightharpoonup> int)" where
  "Init_posixlock k =
     [''F_LOCK'' \<mapsto> F_LOCK k, ''F_LOCKR'' \<mapsto> F_LOCKR k, ''F_LOCKW'' \<mapsto> F_LOCKW k,
      ''F_TLOCK'' \<mapsto> F_TLOCK k, ''F_TLOCKR'' \<mapsto> F_TLOCKR k, ''F_TLOCKW'' \<mapsto> F_TLOCKW k,
      ''F_ULOCK'' \<mapsto> F_ULOCK k, ''F_TEST'' \<mapsto> F_TEST k, ''F_TESTR'' \<mapsto> F_TESTR k,
      ''F_TESTW'' \<mapsto> F_TESTW k]"


subsection \<open>A call retried while it is interrupted\<close>

text \<open>The state before attempt \<open>n\<close> of a call that is repeated.\<close>

primrec resume :: "('s \<Rightarrow> 'b \<times> 's) \<Rightarrow> nat \<Rightarrow> 's \<Rightarrow> 's" where
  "resume call 0 s = s"
| "resume call (Suc n) s = resume call n (snd (call s))"

lemma resume_Pair [simp]: "resume (Pair x) n s = s"
  by (induction n arbitrary: s) simp_all

text \<open>
  The contract of both retry loops: \<open>call\<close> is one attempt, with \<open>None\<close> for an interrupted one;
  the loop repeats it, and it does nothing else (a result comes from finitely many attempts).
\<close>

locale retry_loop =
  fixes call :: "'s \<Rightarrow> 'r option \<times> 's"
    and loop :: "'s \<Rightarrow> ('r \<times> 's) option"
  assumes loop_unfold:
      "loop s = (case call s of (None, s') \<Rightarrow> loop s' | (Some r, s') \<Rightarrow> Some (r, s'))"
    and loop_finite: "loop s = Some y \<Longrightarrow> \<exists>n. fst (call (resume call n s)) \<noteq> None"
begin

lemma loop_interrupted:
  assumes "\<forall>m<n. fst (call (resume call m s)) = None"
  shows "loop s = loop (resume call n s)"
  using assms
proof (induction n arbitrary: s)
  case (Suc n)
  then have "fst (call s) = None"
    by (metis resume.simps(1) zero_less_Suc)
  then have step: "loop s = loop (snd (call s))"
    by (subst loop_unfold) (auto split: prod.splits)
  have "\<forall>m<n. fst (call (resume call m (snd (call s)))) = None"
    using Suc.prems by (metis resume.simps(2) Suc_less_eq)
  then show ?case
    using Suc.IH step by simp
qed simp

lemma loop_returns:
  assumes "\<forall>m<n. fst (call (resume call m s)) = None"
    and "call (resume call n s) = (Some r, s')"
  shows "loop s = Some (r, s')"
  using loop_interrupted [OF assms(1)] assms(2) by (simp add: loop_unfold [of "resume call n s"])

theorem loop_iff:
  "loop s = Some (r, s') \<longleftrightarrow>
     (\<exists>n. (\<forall>m<n. fst (call (resume call m s)) = None) \<and> call (resume call n s) = (Some r, s'))"
    (is "?L \<longleftrightarrow> ?R")
proof
  assume L: ?L
  define n where "n = (LEAST n. fst (call (resume call n s)) \<noteq> None)"
  have nn: "fst (call (resume call n s)) \<noteq> None"
    unfolding n_def by (rule LeastI_ex) (rule loop_finite [OF L])
  have before: "\<forall>m<n. fst (call (resume call m s)) = None"
    unfolding n_def using not_less_Least by blast
  obtain r2 s2 where e: "call (resume call n s) = (Some r2, s2)"
    using nn by (cases "call (resume call n s)") auto
  then have "loop s = Some (r2, s2)"
    by (rule loop_returns [OF before])
  then show ?R
    using L e before by auto
qed (use loop_returns in blast)

end

subsection \<open>What the methods promise\<close>

text \<open>The lock and the command that an argument of \<open>File#posixlock\<close> asks for.\<close>

definition request_of :: "u32 \<Rightarrow> (lock_type \<times> fcntl_cmd) option" where
  "request_of = map_of
     [(LOCK_SH, (F_RDLCK, F_SETLKW)), (LOCK_SH OR LOCK_NB, (F_RDLCK, F_SETLK)),
      (LOCK_EX, (F_WRLCK, F_SETLKW)), (LOCK_EX OR LOCK_NB, (F_WRLCK, F_SETLK)),
      (LOCK_UN, (F_UNLCK, F_SETLKW)), (LOCK_UN OR LOCK_NB, (F_UNLCK, F_SETLK))]"

definition interrupted :: "int \<Rightarrow> errno \<Rightarrow> bool" where
  "interrupted ret err \<longleftrightarrow> ret < 0 \<and> (err = EINTR \<or> err = ERESTART)"

definition lock_result :: "string \<Rightarrow> int \<Rightarrow> errno \<Rightarrow> rb_value \<Rightarrow> rb_exn + rb_value" where
  "lock_result msg ret err v =
     (if 0 \<le> ret then Inr v
      else if err = EAGAIN \<or> err = EACCES then Inr Qfalse
      else Inl (SysFail err msg))"

text \<open>One request to the system: the whole file from its start, or \<open>len\<close> bytes from the position.\<close>

definition attempt ::
    "'s fcntl \<Rightarrow> fd \<Rightarrow> string \<Rightarrow> fcntl_cmd \<Rightarrow> flock \<Rightarrow> (int \<Rightarrow> flock \<Rightarrow> rb_value) \<Rightarrow> 's \<Rightarrow>
     (rb_exn + rb_value) option \<times> 's" where
  "attempt fcntl fd msg cmd lock v s =
     (case fcntl s fd cmd lock of
        (ret, err, lock', s') \<Rightarrow>
          (if interrupted ret err then None else Some (lock_result msg ret err (v ret lock')), s'))"

definition whole_file :: "lock_type \<Rightarrow> flock" where
  "whole_file t = \<lparr> l_type = t, l_whence = SEEK_SET, l_start = 0, l_len = 0, l_pid = 0 \<rparr>"

definition from_here :: "lock_type \<Rightarrow> int \<Rightarrow> flock" where
  "from_here t len = \<lparr> l_type = t, l_whence = SEEK_CUR, l_start = 0, l_len = len, l_pid = 0 \<rparr>"

lemma bit_4: "bit (4::int) n \<longleftrightarrow> n = 2"
proof -
  have "(4::int) = 2 ^ 2" by simp
  then show ?thesis by (simp only: bit_exp_iff) auto
qed

lemma and_4_cases: "(x::u32) AND 4 = 0 \<or> x AND 4 = 4"
  by (cases "bit x 2") (auto intro!: bit_word_eqI simp: bit_simps bit_4)

lemma split_nb: "(x::u32) = (x AND NOT 4) OR (x AND 4)"
  by (rule bit_word_eqI) (auto simp: bit_simps)

lemma posixlock_request:
  "posixlock fcntl s fd op =
     (case request_of op of
        None \<Rightarrow> (-1, EINVAL, s)
      | Some (t, c) \<Rightarrow> (case fcntl s fd c (whole_file t) of (ret, err, _, s') \<Rightarrow> (ret, err, s')))"
proof -
  have "op AND NOT 4 = b \<longleftrightarrow> op = b \<or> op = b OR 4" if "b = 1 \<or> b = 2 \<or> b = 8" for b :: u32
    using that and_4_cases [of op] split_nb [of op] by auto
  then show ?thesis
    by (auto simp: posixlock_def request_of_def whole_file_def LOCK_SH_def LOCK_EX_def LOCK_NB_def
        LOCK_UN_def Let_def)
qed


text \<open>One attempt of each method.\<close>

definition posixlock_attempt ::
    "'s fcntl \<Rightarrow> rb_io \<Rightarrow> u32 \<Rightarrow> 's \<Rightarrow> (rb_exn + rb_value) option \<times> 's" where
  "posixlock_attempt fcntl fptr op s =
     (case request_of op of
        None \<Rightarrow> (Some (Inl (SysFail EINVAL (pathv fptr))), s)
      | Some (t, c) \<Rightarrow>
          attempt fcntl (stdio_file fptr) (pathv fptr) c (whole_file t) (\<lambda>_ _. INT2FIX 0) s)"

lemmas attempt_defs = attempt_def lock_result_def interrupted_def

lemma posixlock_retry_unfold:
  "posixlock_retry fcntl fptr op s =
     (case posixlock_attempt fcntl fptr op s of
        (None, s') \<Rightarrow> posixlock_retry fcntl fptr op s'
      | (Some r, s') \<Rightarrow> Some (r, s'))"
  by (subst posixlock_retry.simps)
     (auto simp: posixlock_request posixlock_attempt_def attempt_defs split: option.split prod.split)

lemma posixlock_retry_finite:
  fixes fcntl :: "'a fcntl"
  assumes "posixlock_retry fcntl fptr op s = Some y"
  shows "\<exists>n. fst (posixlock_attempt fcntl fptr op
                    (resume (posixlock_attempt fcntl fptr op) n s)) \<noteq> None"
proof (rule posixlock_retry.raw_induct
    [where P = "\<lambda>fcntl fptr op s y. \<exists>n. fst (posixlock_attempt fcntl fptr op
                    (resume (posixlock_attempt fcntl fptr op) n s)) \<noteq> None", OF _ assms])
  fix loop :: "'a fcntl \<Rightarrow> rb_io \<Rightarrow> u32 \<Rightarrow> 'a \<Rightarrow> ((rb_exn + rb_value) \<times> 'a) option"
  fix fcntl :: "'a fcntl" and fptr op s y
  let ?call = "posixlock_attempt fcntl fptr op"
  assume IH: "\<And>fcntl fptr op s y. loop fcntl fptr op s = Some y \<Longrightarrow>
      \<exists>n. fst (posixlock_attempt fcntl fptr op
                    (resume (posixlock_attempt fcntl fptr op) n s)) \<noteq> None"
    and r: "(case posixlock fcntl s (stdio_file fptr) op of
        (ret, err, s') \<Rightarrow>
          if ret < 0 then
            if err = EAGAIN \<or> err = EACCES then Some (Inr Qfalse, s')
            else if err = EINTR \<or> err = ERESTART then loop fcntl fptr op s'
            else Some (Inl (SysFail err (pathv fptr)), s')
          else Some (Inr (INT2FIX 0), s')) = Some y"
  show "\<exists>n. fst (?call (resume ?call n s)) \<noteq> None"
  proof (cases "fst (?call s)")
    case None
    then have "loop fcntl fptr op (snd (?call s)) = Some y"
      using r by (auto simp: posixlock_request posixlock_attempt_def attempt_defs
          split: option.splits prod.splits if_splits)
    from IH [OF this] obtain n where "fst (?call (resume ?call (Suc n) s)) \<noteq> None"
      by auto
    then show ?thesis by blast
  next
    case (Some r)
    then have "fst (?call (resume ?call 0 s)) \<noteq> None" by simp
    then show ?thesis by blast
  qed
qed

interpretation flock_call: retry_loop "posixlock_attempt fcntl fptr op" "posixlock_retry fcntl fptr op"
  for fcntl :: "'s fcntl" and fptr op
  by unfold_locales (rule posixlock_retry_unfold, rule posixlock_retry_finite)

text \<open>The requests of \<open>File#lockf\<close>: the command, the kind of lock, and what a success returns.\<close>

definition test_result :: "int \<Rightarrow> flock \<Rightarrow> rb_value" where
  "test_result ret lock =
     (if ret = 0 \<and> l_pid lock \<noteq> -1 \<and> l_type lock \<noteq> F_UNLCK then INT2FIX (l_pid lock) else Qnil)"

definition lockf_table ::
    "lock_consts \<Rightarrow> (int \<times> fcntl_cmd \<times> lock_type \<times> (int \<Rightarrow> flock \<Rightarrow> rb_value)) list" where
  "lockf_table k =
     [(F_LOCK k, F_SETLKW, F_WRLCK, \<lambda>_ _. INT2FIX 0), (F_LOCKR k, F_SETLKW, F_RDLCK, \<lambda>_ _. INT2FIX 0),
      (F_TLOCK k, F_SETLK, F_WRLCK, \<lambda>_ _. INT2FIX 0), (F_TLOCKR k, F_SETLK, F_RDLCK, \<lambda>_ _. INT2FIX 0),
      (F_ULOCK k, F_SETLK, F_UNLCK, \<lambda>_ _. INT2FIX 0), (F_TEST k, F_GETLK, F_WRLCK, test_result),
      (F_TESTR k, F_GETLK, F_RDLCK, test_result)]"


definition lockf_attempt ::
    "lock_consts \<Rightarrow> (int \<Rightarrow> string) \<Rightarrow> 's fcntl \<Rightarrow> rb_io \<Rightarrow> int \<Rightarrow> int \<Rightarrow> string \<Rightarrow> 's \<Rightarrow>
     (rb_exn + rb_value) option \<times> 's" where
  "lockf_attempt k show_int fcntl fptr cmd len msg s =
     (case map_of (lockf_table k) cmd of
        None \<Rightarrow> (Some (Inl (SysFail EINVAL (take 1023 (invalid_cmd_msg show_int cmd)))), s)
      | Some (c, t, v) \<Rightarrow> attempt fcntl (stdio_file fptr) msg c (from_here t len) v s)"

lemmas lockf_defs =
  lockf_body_def lockf_set_def lockf_get_def lockf_attempt_def lockf_table_def from_here_def
  test_result_def attempt_defs

lemma lockf_cases:
  obtains "cmd = F_LOCK k"
  | "cmd \<noteq> F_LOCK k" "cmd = F_LOCKR k"
  | "cmd \<notin> {F_LOCK k, F_LOCKR k}" "cmd = F_TLOCK k"
  | "cmd \<notin> {F_LOCK k, F_LOCKR k, F_TLOCK k}" "cmd = F_TLOCKR k"
  | "cmd \<notin> {F_LOCK k, F_LOCKR k, F_TLOCK k, F_TLOCKR k}" "cmd = F_ULOCK k"
  | "cmd \<notin> {F_LOCK k, F_LOCKR k, F_TLOCK k, F_TLOCKR k, F_ULOCK k}" "cmd = F_TEST k"
  | "cmd \<notin> {F_LOCK k, F_LOCKR k, F_TLOCK k, F_TLOCKR k, F_ULOCK k, F_TEST k}" "cmd = F_TESTR k"
  | "cmd \<notin> {F_LOCK k, F_LOCKR k, F_TLOCK k, F_TLOCKR k, F_ULOCK k, F_TEST k, F_TESTR k}"
  by blast

lemma lockf_body_attempt:
  "lockf_attempt k show_int fcntl fptr cmd len msg s =
     (let p = lockf_body k show_int fcntl fptr cmd len msg s
      in (if interrupted (p_ret p) (p_errno p) then None
          else Some (lock_result (p_msg p) (p_ret p) (p_errno p)
             (if p_test p then if p_pid p \<noteq> -1 then INT2FIX (p_pid p) else Qnil else INT2FIX 0)),
          p_state p))"
  by (cases cmd rule: lockf_cases [of _ k]) (simp_all add: lockf_defs Let_def split: prod.split)

lemma lockf_body_msg:
  "fst (lockf_attempt k show_int fcntl fptr cmd len msg s) = None \<Longrightarrow>
   p_msg (lockf_body k show_int fcntl fptr cmd len msg s) = msg"
  by (cases cmd rule: lockf_cases [of _ k]) (auto simp: lockf_defs Let_def split: prod.splits if_splits)

lemma lockf_retry_unfold:
  "lockf_retry k show_int fcntl fptr cmd len msg s =
     (case lockf_attempt k show_int fcntl fptr cmd len msg s of
        (None, s') \<Rightarrow> lockf_retry k show_int fcntl fptr cmd len msg s'
      | (Some r, s') \<Rightarrow> Some (r, s'))"
proof (cases "fst (lockf_attempt k show_int fcntl fptr cmd len msg s)")
  case None
  note m = lockf_body_msg [OF None]
  show ?thesis
    using None unfolding lockf_retry.simps [of k show_int fcntl fptr cmd len msg s] lockf_body_attempt
    by (auto simp: m Let_def interrupted_def split: if_splits)
next
  case (Some r)
  then show ?thesis
    unfolding lockf_retry.simps [of k show_int fcntl fptr cmd len msg s] lockf_body_attempt
    by (auto simp: Let_def interrupted_def lock_result_def split: if_splits)
qed

lemma lockf_retry_finite:
  fixes fcntl :: "'a fcntl"
  assumes "lockf_retry k show_int fcntl fptr cmd len msg s = Some y"
  shows "\<exists>n. fst (lockf_attempt k show_int fcntl fptr cmd len msg
                    (resume (lockf_attempt k show_int fcntl fptr cmd len msg) n s)) \<noteq> None"
proof (rule lockf_retry.raw_induct
    [where P = "\<lambda>k show_int fcntl fptr cmd len msg s y.
        \<exists>n. fst (lockf_attempt k show_int fcntl fptr cmd len msg
                   (resume (lockf_attempt k show_int fcntl fptr cmd len msg) n s)) \<noteq> None",
      OF _ assms])
  fix loop :: "lock_consts \<Rightarrow> (int \<Rightarrow> string) \<Rightarrow> 'a fcntl \<Rightarrow> rb_io \<Rightarrow> int \<Rightarrow> int \<Rightarrow> string \<Rightarrow> 'a \<Rightarrow>
     ((rb_exn + rb_value) \<times> 'a) option"
  fix k show_int fptr cmd len msg s y and fcntl :: "'a fcntl"
  let ?call = "lockf_attempt k show_int fcntl fptr cmd len msg"
  let ?p = "lockf_body k show_int fcntl fptr cmd len msg s"
  assume IH: "\<And>k show_int fcntl fptr cmd len msg s y.
      loop k show_int fcntl fptr cmd len msg s = Some y \<Longrightarrow>
        \<exists>n. fst (lockf_attempt k show_int fcntl fptr cmd len msg
                   (resume (lockf_attempt k show_int fcntl fptr cmd len msg) n s)) \<noteq> None"
    and r: "(let p = ?p
      in if p_ret p < 0 then
           if p_errno p = EAGAIN \<or> p_errno p = EACCES then Some (Inr Qfalse, p_state p)
           else if p_errno p = EINTR \<or> p_errno p = ERESTART
             then loop k show_int fcntl fptr cmd len (p_msg p) (p_state p)
           else Some (Inl (SysFail (p_errno p) (p_msg p)), p_state p)
         else if p_test p then
           Some (Inr (if p_pid p \<noteq> -1 then INT2FIX (p_pid p) else Qnil), p_state p)
         else Some (Inr (INT2FIX 0), p_state p)) = Some y"
  show "\<exists>n. fst (?call (resume ?call n s)) \<noteq> None"
  proof (cases "fst (?call s)")
    case None
    note msg = lockf_body_msg [OF None]
    then have "loop k show_int fcntl fptr cmd len msg (snd (?call s)) = Some y"
      using r None by (auto simp: lockf_body_attempt Let_def interrupted_def split: if_splits)
    from IH [OF this] obtain n where "fst (?call (resume ?call (Suc n) s)) \<noteq> None"
      by auto
    then show ?thesis by blast
  next
    case (Some r)
    then have "fst (?call (resume ?call 0 s)) \<noteq> None" by simp
    then show ?thesis by blast
  qed
qed

interpretation lockf_call:
  retry_loop "lockf_attempt k show_int fcntl fptr cmd len msg"
    "lockf_retry k show_int fcntl fptr cmd len msg"
  for k show_int fptr cmd len msg and fcntl :: "'s fcntl"
  by unfold_locales (rule lockf_retry_unfold, rule lockf_retry_finite)

subsection \<open>Properties\<close>

definition glibc_header :: lock_header where
  "glibc_header = \<lparr> h_F_LOCK = Some 1, h_F_TLOCK = Some 2, h_F_ULOCK = Some 0, h_F_TEST = Some 3 \<rparr>"

text \<open>
  C11. \<open>File#posixlock\<close> on an open file: it returns exactly when some attempt is not interrupted by a
  signal, and then with the result of the first such attempt in the state that attempt leaves; the
  interrupted attempts before it are all the same request.  The request locks the whole file from
  its start, with the lock kind of \<open>LOCK_SH\<close>, \<open>LOCK_EX\<close> or \<open>LOCK_UN\<close> and without blocking exactly
  when \<open>LOCK_NB\<close> is given; every other operation raises \<open>EINVAL\<close> and makes no system call.
\<close>

theorem rb_file_posixlock_correct:
  assumes "level < 2"
  shows "rb_file_posixlock level fflush fcntl s (Some fptr) op = Some (r, s') \<longleftrightarrow>
    (let s1 = (if mode_writable fptr then fflush s fptr else s)
     in case map_of
          [(1, (F_RDLCK, F_SETLKW)), (1 + 4, (F_RDLCK, F_SETLK)),
           (2, (F_WRLCK, F_SETLKW)), (2 + 4, (F_WRLCK, F_SETLK)),
           (8, (F_UNLCK, F_SETLKW)), (8 + 4, (F_UNLCK, F_SETLK))] op of
         None \<Rightarrow> r = Inl (SysFail EINVAL (pathv fptr)) \<and> s' = s1
       | Some (t, c) \<Rightarrow>
           let call = attempt fcntl (stdio_file fptr) (pathv fptr) c (whole_file t) (\<lambda>_ _. INT2FIX 0)
           in \<exists>n. (\<forall>m<n. fst (call (resume call m s1)) = None) \<and>
                  call (resume call n s1) = (Some r, s'))"
proof -
  let ?s = "if mode_writable fptr then fflush s fptr else s"
  let ?call = "posixlock_attempt fcntl fptr op"
  have req: "map_of
          [(1, (F_RDLCK, F_SETLKW)), (1 + 4, (F_RDLCK, F_SETLK)),
           (2, (F_WRLCK, F_SETLKW)), (2 + 4, (F_WRLCK, F_SETLK)),
           (8, (F_UNLCK, F_SETLKW)), (8 + 4, (F_UNLCK, F_SETLK))] op = request_of op"
    by (simp add: request_of_def LOCK_SH_def LOCK_EX_def LOCK_NB_def LOCK_UN_def)
  have "rb_file_posixlock level fflush fcntl s (Some fptr) op = Some (r, s') \<longleftrightarrow>
    (\<exists>n. (\<forall>m<n. fst (?call (resume ?call m ?s)) = None) \<and> ?call (resume ?call n ?s) = (Some r, s'))"
    using assms unfolding rb_file_posixlock_def Let_def by (simp add: flock_call.loop_iff)
  also have "\<dots> \<longleftrightarrow> (case request_of op of
         None \<Rightarrow> r = Inl (SysFail EINVAL (pathv fptr)) \<and> s' = ?s
       | Some (t, c) \<Rightarrow>
           let call = attempt fcntl (stdio_file fptr) (pathv fptr) c (whole_file t) (\<lambda>_ _. INT2FIX 0)
           in \<exists>n. (\<forall>m<n. fst (call (resume call m ?s)) = None) \<and>
                  call (resume call n ?s) = (Some r, s'))"
  proof (cases "request_of op")
    case None
    then have "?call = (\<lambda>s. (Some (Inl (SysFail EINVAL (pathv fptr))), s))"
      by (intro ext) (simp add: posixlock_attempt_def)
    then show ?thesis using None by auto
  next
    case (Some tc)
    obtain t c where "tc = (t, c)" by (cases tc)
    with Some have "?call =
        attempt fcntl (stdio_file fptr) (pathv fptr) c (whole_file t) (\<lambda>_ _. INT2FIX 0)"
      by (intro ext) (simp add: posixlock_attempt_def)
    then show ?thesis using Some \<open>tc = (t, c)\<close> by (simp add: Let_def)
  qed
  finally show ?thesis by (simp only: req Let_def)
qed


text \<open>A system in which call number \<open>i\<close> is interrupted for \<open>i < 2\<close> and granted from then on.\<close>

definition interrupted_twice :: "nat fcntl" where
  "interrupted_twice s fd cmd lock =
     (if s < 2 then (-1, EINTR, lock, Suc s) else (0, EOTHER 0, lock\<lparr>l_pid := 42\<rparr>, Suc s))"

definition job_queue :: rb_io where
  "job_queue = \<lparr> stdio_file = 7, mode_writable = True, pathv = ''/q/lock'' \<rparr>"

theorem rb_file_posixlock_correct_witness:
  "rb_file_posixlock 0 (\<lambda>s _. s) interrupted_twice 0 (Some job_queue) 6 = Some (Inr (INT2FIX 0), 3)"
proof -
  let ?call = "attempt interrupted_twice 7 ''/q/lock'' F_SETLK (whole_file F_WRLCK) (\<lambda>_ _. INT2FIX 0)"
  have r: "resume ?call m 0 = m" if "m \<le> 2" for m
  proof -
    have "m = 0 \<or> m = 1 \<or> m = 2" using that by arith
    then show ?thesis by (auto simp: attempt_defs interrupted_twice_def numeral_2_eq_2)
  qed
  have "\<forall>m<2. fst (?call (resume ?call m 0)) = None"
    using r by (auto simp: attempt_defs interrupted_twice_def)
  moreover have "?call (resume ?call 2 0) = (Some (Inr (INT2FIX 0)), 3)"
    using r by (simp add: attempt_defs interrupted_twice_def)
  ultimately have "\<exists>n. (\<forall>m<n. fst (?call (resume ?call m 0)) = None) \<and>
      ?call (resume ?call n 0) = (Some (Inr (INT2FIX 0)), 3)"
    by (rule exI [of _ 2, OF conjI])
  then show ?thesis
    by (subst rb_file_posixlock_correct) (simp_all add: job_queue_def Let_def)
qed

text \<open>
  C34. \<open>File#lockf\<close> on an open file.  Each of the seven commands makes the request of its row of
  \<open>lockf_table\<close> for \<open>len\<close> bytes from the current position, repeats it while it is interrupted, and
  returns with the first result that is not: 0 for a lock, the holder's process or \<open>nil\<close> for a test,
  \<open>false\<close> when the lock is taken, an exception otherwise.  The hypothesis says that the constants are
  distinct, without which the \<open>switch\<close> does not compile.  A command that is not in the table raises
  \<open>EINVAL\<close>; a safe level of 2 and a closed file raise their exceptions, all without a system call.
\<close>

theorem rb_file_lockf_correct:
  fixes fcntl :: "'s fcntl"
  assumes distinct_cases: "distinct (map fst (lockf_table k))"
  shows "(let s1 = (if mode_writable fptr then fflush s fptr else s);
            run = rb_file_lockf k show_int level fflush fcntl s
        in (level < 2 \<longrightarrow> (\<forall>(c, req, t, v) \<in> set (lockf_table k). \<forall>r s'.
              run (Some fptr) c len = Some (r, s') \<longleftrightarrow>
              (let call = attempt fcntl (stdio_file fptr) (path_msg fptr)
                            req (from_here t len) v
               in \<exists>n. (\<forall>m<n. fst (call (resume call m s1)) = None) \<and>
                      call (resume call n s1) = (Some r, s'))))
         \<and> (level < 2 \<and> cmd \<notin> fst ` set (lockf_table k) \<longrightarrow>
              run (Some fptr) cmd len =
                Some (Inl (SysFail EINVAL (take 1023 (invalid_cmd_msg show_int cmd))), s1))
         \<and> (level < 2 \<longrightarrow> run None cmd len = Some (Inl ClosedStream, s))
         \<and> (2 \<le> level \<longrightarrow> run obj cmd len = Some (Inl SecurityError, s)))"
proof -
  let ?s = "if mode_writable fptr then fflush s fptr else s"
  let ?m = "path_msg fptr"
  have open_file: "rb_file_lockf k show_int level fflush fcntl s (Some fptr) c len =
      lockf_retry k show_int fcntl fptr c len ?m ?s" if "level < 2" for c
    using that by (simp add: rb_file_lockf_def Let_def)
  have valid: "rb_file_lockf k show_int level fflush fcntl s (Some fptr) c len = Some (r, s') \<longleftrightarrow>
      (\<exists>n. (\<forall>m<n. fst (call (resume call m ?s)) = None) \<and> call (resume call n ?s) = (Some r, s'))"
    if "(c, req, t, v) \<in> set (lockf_table k)" "level < 2"
      and "call = attempt fcntl (stdio_file fptr) ?m req (from_here t len) v"
    for c req t v r s' call
  proof -
    have "map_of (lockf_table k) c = Some (req, t, v)"
      using that(1) distinct_cases by simp
    then have "lockf_attempt k show_int fcntl fptr c len ?m = call"
      using that(3) by (intro ext) (simp add: lockf_attempt_def)
    then show ?thesis
      using lockf_call.loop_iff [of k show_int fcntl fptr c len ?m ?s r s'] open_file [OF that(2)]
      by simp
  qed
  have invalid: "rb_file_lockf k show_int level fflush fcntl s (Some fptr) cmd len =
      Some (Inl (SysFail EINVAL (take 1023 (invalid_cmd_msg show_int cmd))), ?s)"
    if "level < 2" "cmd \<notin> fst ` set (lockf_table k)"
    using that open_file [OF that(1), of cmd] lockf_call.loop_unfold [of k show_int fcntl fptr cmd len ?m ?s]
    by (simp add: lockf_attempt_def map_of_eq_None_iff [symmetric] del: map_of_eq_None_iff)
  show ?thesis
    unfolding Let_def
  proof (intro conjI impI)
    assume "level < 2"
    then show "\<forall>(c, req, t, v)\<in>set (lockf_table k). \<forall>r s'.
        rb_file_lockf k show_int level fflush fcntl s (Some fptr) c len = Some (r, s') \<longleftrightarrow>
        (\<exists>n. (\<forall>m<n. fst (attempt fcntl (stdio_file fptr) ?m req (from_here t len) v
                (resume (attempt fcntl (stdio_file fptr) ?m req (from_here t len) v) m ?s)) = None) \<and>
             attempt fcntl (stdio_file fptr) ?m req (from_here t len) v
                (resume (attempt fcntl (stdio_file fptr) ?m req (from_here t len) v) n ?s) = (Some r, s'))"
      by clarify (rule valid [OF _ _ refl])
  qed (use invalid in \<open>simp_all add: rb_file_lockf_def\<close>)
qed

theorem rb_file_lockf_correct_witness:
  "rb_file_lockf (lock_constants glibc_header) (\<lambda>_. ''9'') 0 (\<lambda>s _. s) interrupted_twice 5
     (Some job_queue) 3 0 = Some (Inr (INT2FIX 42), 6)
   \<and> rb_file_lockf (lock_constants glibc_header) (\<lambda>_. ''9'') 0 (\<lambda>s _. s) interrupted_twice 5
     (Some job_queue) 9 0 = Some (Inl (SysFail EINVAL ''invalid cmd <9>''), 5)"
proof -
  let ?k = "lock_constants glibc_header"
  have d: "distinct (map fst (lockf_table ?k))" and i: "(3, F_GETLK, F_WRLCK, test_result) \<in> set (lockf_table ?k)"
    and o: "9 \<notin> fst ` set (lockf_table ?k)"
    by (simp_all add: lockf_table_def lock_constants_def glibc_header_def ifndef_def Let_def)
  note c = rb_file_lockf_correct [OF d, where s = 5 and fptr = job_queue and level = 0 and cmd = 9
      and fflush = "\<lambda>s _. s" and len = 0 and fcntl = interrupted_twice and show_int = "\<lambda>_. ''9''",
      unfolded Let_def]
  have "attempt interrupted_twice (stdio_file job_queue) (path_msg job_queue)
      F_GETLK (from_here F_WRLCK 0) test_result 5 = (Some (Inr (INT2FIX 42)), 6)"
    by (simp add: attempt_defs interrupted_twice_def test_result_def from_here_def)
  then show ?thesis
    using c i o by (fastforce simp: invalid_cmd_msg_def)
qed

end
