(* ===== verification/Os_Lock.thy ===== *)
theory Os_Lock
  imports Posix "HOL-Library.Monad_Syntax"
begin

text \<open>
  The file locks of \<^verbatim>\<open>os.c\<close> on Unix: the work-around for POSIX advisory locks (lines 209-355),
  opening, closing, locking and unlocking.  POSIX drops the locks of a process on a file as soon as
  the process closes \<^emph>\<open>any\<close> descriptor of that file, so \<open>os.c\<close> counts the handles and the locks per
  inode and defers a close while the inode has a lock.

  The structures \<open>lockInfo\<close> and \<open>openCnt\<close> live in two stores; a dangling pointer, a read beyond
  \<open>aPending\<close> and a failed \<open>assert\<close> make the operation \<open>None\<close>.  The hash tables are finite maps, the
  abstraction that \<^verbatim>\<open>Hash.thy\<close> proves for \<open>hash.c\<close>; whether an allocation succeeds is an argument.
  The system calls are the fields of a record \<open>kernel\<close>; what POSIX says of them is the predicate
  \<open>posix_kernel\<close>, a hypothesis of the theorems.
\<close>

subsection \<open>Data\<close>

type_synonym addr = nat
datatype inode = Inode (dev: int) (ino: int)

text \<open>\<open>struct openKey\<close> is an inode; \<open>struct lockKey\<close> adds the process.\<close>

type_synonym lockKey = "inode \<times> int"

record lockInfo =
  li_key :: lockKey
  cnt :: int
  li_nRef :: int

record openCnt =
  oc_key :: inode
  oc_nRef :: int
  nLock :: int
  nPending :: nat
  aPending :: "fd list"

record OsFile =
  pOpen :: addr
  pLock :: addr
  ofd :: fd
  locked :: bool
  dirfd :: fd

record 's os =
  lockHash :: "lockKey \<rightharpoonup> addr"
  openHash :: "inode \<rightharpoonup> addr"
  lockMem :: "addr \<rightharpoonup> lockInfo"
  openMem :: "addr \<rightharpoonup> openCnt"
  inMutex :: bool
  kern :: 's

datatype rc = SQLITE_OK | SQLITE_BUSY | SQLITE_NOMEM | SQLITE_CANTOPEN | SQLITE_NOLFS

datatype oflags = O_RDWR_CREAT | O_RDONLY | O_RDWR_EXCL

text \<open>The second component of \<open>k_open\<close> says that \<open>errno\<close> is \<open>EISDIR\<close>.\<close>

record 's kernel =
  k_fcntl :: "'s fcntl"
  k_close :: "'s \<Rightarrow> fd \<Rightarrow> 's"
  k_fstat :: "'s \<Rightarrow> fd \<Rightarrow> inode option"
  k_open :: "'s \<Rightarrow> string \<Rightarrow> oflags \<Rightarrow> fd \<times> bool \<times> 's"
  k_access :: "'s \<Rightarrow> string \<Rightarrow> bool"
  k_unlink :: "'s \<Rightarrow> string \<Rightarrow> 's"
  k_getpid :: int

text \<open>The results of the four allocations of \<open>findLockInfo\<close>: two structures and two hash entries.\<close>

record os_alloc =
  a_lock :: "addr option"
  a_lock_hash :: bool
  a_open :: "addr option"
  a_open_hash :: bool

subsection \<open>Operations\<close>

definition sqliteOsEnterMutex :: "'s os \<Rightarrow> 's os option" where
  "sqliteOsEnterMutex s = (if inMutex s then None else Some (s\<lparr>inMutex := True\<rparr>))"

definition sqliteOsLeaveMutex :: "'s os \<Rightarrow> 's os option" where
  "sqliteOsLeaveMutex s = (if inMutex s then Some (s\<lparr>inMutex := False\<rparr>) else None)"

definition releaseLockInfo :: "addr \<Rightarrow> 's os \<Rightarrow> 's os option" where
  "releaseLockInfo p s = do {
     li \<leftarrow> lockMem s p;
     let n = li_nRef li - 1;
     if n = 0
     then Some (s\<lparr>lockHash := (lockHash s)(li_key li := None), lockMem := (lockMem s)(p := None)\<rparr>)
     else Some (s\<lparr>lockMem := (lockMem s)(p \<mapsto> li\<lparr>li_nRef := n\<rparr>)\<rparr>)
   }"

definition releaseOpenCnt :: "addr \<Rightarrow> 's os \<Rightarrow> 's os option" where
  "releaseOpenCnt p s = do {
     oc \<leftarrow> openMem s p;
     let n = oc_nRef oc - 1;
     if n = 0
     then Some (s\<lparr>openHash := (openHash s)(oc_key oc := None), openMem := (openMem s)(p := None)\<rparr>)
     else Some (s\<lparr>openMem := (openMem s)(p \<mapsto> oc\<lparr>oc_nRef := n\<rparr>)\<rparr>)
   }"

text \<open>The two halves of \<open>findLockInfo\<close>: \<open>Inl\<close> is the return value 1.\<close>

definition findLock :: "os_alloc \<Rightarrow> lockKey \<Rightarrow> 's os \<Rightarrow> ((unit + addr) \<times> 's os) option" where
  "findLock al key1 s =
     (case lockHash s key1 of
        None \<Rightarrow>
          (case a_lock al of
             None \<Rightarrow> Some (Inl (), s)
           | Some p \<Rightarrow>
               if a_lock_hash al
               then Some (Inr p, s\<lparr>lockMem := (lockMem s)(p \<mapsto> \<lparr>li_key = key1, cnt = 0, li_nRef = 1\<rparr>),
                                   lockHash := (lockHash s)(key1 \<mapsto> p)\<rparr>)
               else Some (Inl (), s))
      | Some p \<Rightarrow> do {
          li \<leftarrow> lockMem s p;
          Some (Inr p, s\<lparr>lockMem := (lockMem s)(p \<mapsto> li\<lparr>li_nRef := li_nRef li + 1\<rparr>)\<rparr>)
        })"

definition findOpen ::
    "os_alloc \<Rightarrow> inode \<Rightarrow> addr \<Rightarrow> 's os \<Rightarrow> ((unit + addr) \<times> 's os) option" where
  "findOpen al key2 p s =
     (case openHash s key2 of
        None \<Rightarrow>
          (case a_open al of
             None \<Rightarrow> do { s1 \<leftarrow> releaseLockInfo p s; Some (Inl (), s1) }
           | Some q \<Rightarrow>
               if a_open_hash al
               then Some (Inr q, s\<lparr>openMem := (openMem s)(q \<mapsto> \<lparr>oc_key = key2, oc_nRef = 1, nLock = 0,
                                                              nPending = 0, aPending = []\<rparr>),
                                   openHash := (openHash s)(key2 \<mapsto> q)\<rparr>)
               else do { s1 \<leftarrow> releaseLockInfo p s; Some (Inl (), s1) })
      | Some q \<Rightarrow> do {
          oc \<leftarrow> openMem s q;
          Some (Inr q, s\<lparr>openMem := (openMem s)(q \<mapsto> oc\<lparr>oc_nRef := oc_nRef oc + 1\<rparr>)\<rparr>)
        })"

definition findLockInfo ::
    "'s kernel \<Rightarrow> os_alloc \<Rightarrow> fd \<Rightarrow> 's os \<Rightarrow> ((unit + addr \<times> addr) \<times> 's os) option" where
  "findLockInfo K al fd s =
     (case k_fstat K (kern s) fd of
        None \<Rightarrow> Some (Inl (), s)
      | Some i \<Rightarrow> do {
          (r1, s1) \<leftarrow> findLock al (i, k_getpid K) s;
          case r1 of
            Inl _ \<Rightarrow> Some (Inl (), s1)
          | Inr p \<Rightarrow> do {
              (r2, s2) \<leftarrow> findOpen al i p s1;
              case r2 of
                Inl _ \<Rightarrow> Some (Inl (), s2)
              | Inr q \<Rightarrow> Some (Inr (p, q), s2)
            }
        })"

text \<open>
  What the three functions that open a file have in common: \<open>findLockInfo\<close> under the mutex, and on
  its failure the \<open>close\<close>.  The handle that \<open>sqliteOsClose\<close> and the others later receive is the
  \<open>OsFile\<close> of the result.
\<close>

definition open_finish ::
    "'s kernel \<Rightarrow> os_alloc \<Rightarrow> fd \<Rightarrow> 's os \<Rightarrow> ((rc + OsFile) \<times> 's os) option" where
  "open_finish K al fd s = do {
     s1 \<leftarrow> sqliteOsEnterMutex s;
     (r, s2) \<leftarrow> findLockInfo K al fd s1;
     s3 \<leftarrow> sqliteOsLeaveMutex s2;
     (case r of
        Inl _ \<Rightarrow> Some (Inl SQLITE_NOMEM, s3\<lparr>kern := k_close K (kern s3) fd\<rparr>)
      | Inr (p, q) \<Rightarrow>
          Some (Inr \<lparr>pOpen = q, pLock = p, ofd = fd, locked = False, dirfd = -1\<rparr>, s3))
   }"

text \<open>The \<open>bool\<close> of a success is \<open>*pReadonly\<close>.\<close>

definition sqliteOsOpenReadWrite ::
    "'s kernel \<Rightarrow> os_alloc \<Rightarrow> string \<Rightarrow> 's os \<Rightarrow> (bool \<times> (rc + OsFile) \<times> 's os) option" where
  "sqliteOsOpenReadWrite K al zFilename s =
     (case k_open K (kern s) zFilename O_RDWR_CREAT of
        (fd, eisdir, k1) \<Rightarrow>
          if fd < 0 then
            if eisdir then Some (False, Inl SQLITE_CANTOPEN, s\<lparr>kern := k1\<rparr>)
            else (case k_open K k1 zFilename O_RDONLY of
                (fd2, _, k2) \<Rightarrow>
                  if fd2 < 0 then Some (False, Inl SQLITE_CANTOPEN, s\<lparr>kern := k2\<rparr>)
                  else map_option (Pair True) (open_finish K al fd2 (s\<lparr>kern := k2\<rparr>)))
          else map_option (Pair False) (open_finish K al fd (s\<lparr>kern := k1\<rparr>)))"

definition sqliteOsOpenExclusive ::
    "'s kernel \<Rightarrow> os_alloc \<Rightarrow> string \<Rightarrow> bool \<Rightarrow> 's os \<Rightarrow> ((rc + OsFile) \<times> 's os) option" where
  "sqliteOsOpenExclusive K al zFilename delFlag s =
     (if k_access K (kern s) zFilename then Some (Inl SQLITE_CANTOPEN, s)
      else case k_open K (kern s) zFilename O_RDWR_EXCL of
        (fd, _, k1) \<Rightarrow>
          if fd < 0 then Some (Inl SQLITE_CANTOPEN, s\<lparr>kern := k1\<rparr>)
          else do {
            (r, s1) \<leftarrow> open_finish K al fd (s\<lparr>kern := k1\<rparr>);
            Some (r, if (case r of Inl _ \<Rightarrow> True | Inr _ \<Rightarrow> delFlag)
                     then s1\<lparr>kern := k_unlink K (kern s1) zFilename\<rparr> else s1)
          })"

definition sqliteOsOpenReadOnly ::
    "'s kernel \<Rightarrow> os_alloc \<Rightarrow> string \<Rightarrow> 's os \<Rightarrow> ((rc + OsFile) \<times> 's os) option" where
  "sqliteOsOpenReadOnly K al zFilename s =
     (case k_open K (kern s) zFilename O_RDONLY of
        (fd, _, k1) \<Rightarrow>
          if fd < 0 then Some (Inl SQLITE_CANTOPEN, s\<lparr>kern := k1\<rparr>)
          else open_finish K al fd (s\<lparr>kern := k1\<rparr>))"

definition lock_file :: "lock_type \<Rightarrow> flock" where
  "lock_file t = \<lparr> l_type = t, l_whence = SEEK_SET, l_start = 0, l_len = 0, l_pid = 0 \<rparr>"

text \<open>The system call of the three locking functions and the code for its result.\<close>

definition set_file_lock :: "'s kernel \<Rightarrow> fd \<Rightarrow> lock_type \<Rightarrow> 's os \<Rightarrow> rc \<times> 's os" where
  "set_file_lock K fd t s =
     (case k_fcntl K (kern s) fd F_SETLK (lock_file t) of
        (ret, err, _, k') \<Rightarrow>
          (if ret \<noteq> 0 then if err = EINVAL then SQLITE_NOLFS else SQLITE_BUSY else SQLITE_OK,
           s\<lparr>kern := k'\<rparr>))"

definition set_cnt :: "addr \<Rightarrow> lockInfo \<Rightarrow> int \<Rightarrow> 's os \<Rightarrow> 's os" where
  "set_cnt p li c s = s\<lparr>lockMem := (lockMem s)(p \<mapsto> li\<lparr>cnt := c\<rparr>)\<rparr>"

definition set_nLock :: "addr \<Rightarrow> openCnt \<Rightarrow> int \<Rightarrow> 's os \<Rightarrow> 's os" where
  "set_nLock q oc n s = s\<lparr>openMem := (openMem s)(q \<mapsto> oc\<lparr>nLock := n\<rparr>)\<rparr>"

definition sqliteOsReadLock :: "'s kernel \<Rightarrow> OsFile \<Rightarrow> 's os \<Rightarrow> (rc \<times> OsFile \<times> 's os) option" where
  "sqliteOsReadLock K f s = do {
     s1 \<leftarrow> sqliteOsEnterMutex s;
     li \<leftarrow> lockMem s1 (pLock f);
     oc \<leftarrow> openMem s1 (pOpen f);
     let (rc, f', s2) =
       (if cnt li > 0 then
          if \<not> locked f
          then (SQLITE_OK, f\<lparr>locked := True\<rparr>,
                set_nLock (pOpen f) oc (nLock oc + 1) (set_cnt (pLock f) li (cnt li + 1) s1))
          else (SQLITE_OK, f, s1)
        else if locked f \<or> cnt li = 0 then
          (case set_file_lock K (ofd f) F_RDLCK s1 of
             (rc, s2) \<Rightarrow>
               if rc \<noteq> SQLITE_OK then (rc, f, s2)
               else if \<not> locked f
               then (SQLITE_OK, f\<lparr>locked := True\<rparr>,
                     set_cnt (pLock f) li 1 (set_nLock (pOpen f) oc (nLock oc + 1) s2))
               else (SQLITE_OK, f, set_cnt (pLock f) li 1 s2))
        else (SQLITE_BUSY, f, s1));
     s3 \<leftarrow> sqliteOsLeaveMutex s2;
     Some (rc, f', s3)
   }"

definition sqliteOsWriteLock :: "'s kernel \<Rightarrow> OsFile \<Rightarrow> 's os \<Rightarrow> (rc \<times> OsFile \<times> 's os) option" where
  "sqliteOsWriteLock K f s = do {
     s1 \<leftarrow> sqliteOsEnterMutex s;
     li \<leftarrow> lockMem s1 (pLock f);
     oc \<leftarrow> openMem s1 (pOpen f);
     let (rc, f', s2) =
       (if cnt li = 0 \<or> (cnt li = 1 \<and> locked f) then
          (case set_file_lock K (ofd f) F_WRLCK s1 of
             (rc, s2) \<Rightarrow>
               if rc \<noteq> SQLITE_OK then (rc, f, s2)
               else if \<not> locked f
               then (SQLITE_OK, f\<lparr>locked := True\<rparr>,
                     set_cnt (pLock f) li (-1) (set_nLock (pOpen f) oc (nLock oc + 1) s2))
               else (SQLITE_OK, f, set_cnt (pLock f) li (-1) s2))
        else (SQLITE_BUSY, f, s1));
     s3 \<leftarrow> sqliteOsLeaveMutex s2;
     Some (rc, f', s3)
   }"

text \<open>
  \<open>for(i=0; i<pOpen->nPending; i++) close(pOpen->aPending[i]);\<close> with \<open>None\<close> for a read outside the
  array.
\<close>

fun close_pending :: "'s kernel \<Rightarrow> nat \<Rightarrow> fd list \<Rightarrow> 's \<Rightarrow> 's option" where
  "close_pending K 0 a k = Some k"
| "close_pending K (Suc n) [] k = None"
| "close_pending K (Suc n) (fd # a) k = close_pending K n a (k_close K k fd)"

definition unlock_count :: "'s kernel \<Rightarrow> addr \<Rightarrow> 's os \<Rightarrow> 's os option" where
  "unlock_count K q s = do {
     oc \<leftarrow> openMem s q;
     let n = nLock oc - 1;
     if n < 0 then None
     else if n = 0 \<and> nPending oc > 0 then do {
       k' \<leftarrow> close_pending K (nPending oc) (aPending oc) (kern s);
       Some (s\<lparr>openMem := (openMem s)(q \<mapsto> oc\<lparr>nLock := n, nPending := 0, aPending := []\<rparr>), kern := k'\<rparr>)
     }
     else Some (set_nLock q oc n s)
   }"

definition sqliteOsUnlock :: "'s kernel \<Rightarrow> OsFile \<Rightarrow> 's os \<Rightarrow> (rc \<times> OsFile \<times> 's os) option" where
  "sqliteOsUnlock K f s =
     (if \<not> locked f then Some (SQLITE_OK, f, s)
      else do {
        s1 \<leftarrow> sqliteOsEnterMutex s;
        li \<leftarrow> lockMem s1 (pLock f);
        (rc, s2) \<leftarrow>
          (if cnt li = 0 then None
           else if cnt li > 1 then Some (SQLITE_OK, set_cnt (pLock f) li (cnt li - 1) s1)
           else (case set_file_lock K (ofd f) F_UNLCK s1 of
              (rc, s2) \<Rightarrow>
                if rc \<noteq> SQLITE_OK then Some (rc, s2)
                else Some (SQLITE_OK, set_cnt (pLock f) li 0 s2)));
        s3 \<leftarrow> (if rc = SQLITE_OK then unlock_count K (pOpen f) s2 else Some s2);
        s4 \<leftarrow> sqliteOsLeaveMutex s3;
        Some (rc, f\<lparr>locked := False\<rparr>, s4)
      })"

text \<open>The argument \<open>grown\<close> says whether \<open>sqliteRealloc\<close> succeeds.\<close>

definition defer_close :: "bool \<Rightarrow> addr \<Rightarrow> openCnt \<Rightarrow> fd \<Rightarrow> 's os \<Rightarrow> 's os" where
  "defer_close grown q oc fd s =
     s\<lparr>openMem := (openMem s)(q \<mapsto>
         oc\<lparr>nPending := nPending oc + 1,
            aPending := if grown then take (nPending oc) (aPending oc) @ [fd] else aPending oc\<rparr>)\<rparr>"

definition sqliteOsClose :: "'s kernel \<Rightarrow> bool \<Rightarrow> OsFile \<Rightarrow> 's os \<Rightarrow> (rc \<times> 's os) option" where
  "sqliteOsClose K grown f s = do {
     (_, f1, s1) \<leftarrow> sqliteOsUnlock K f s;
     let s2 = (if dirfd f1 \<ge> 0 then s1\<lparr>kern := k_close K (kern s1) (dirfd f1)\<rparr> else s1);
     s3 \<leftarrow> sqliteOsEnterMutex s2;
     oc \<leftarrow> openMem s3 (pOpen f1);
     let s4 = (if nLock oc \<noteq> 0 then defer_close grown (pOpen f1) oc (ofd f1) s3
               else s3\<lparr>kern := k_close K (kern s3) (ofd f1)\<rparr>);
     s5 \<leftarrow> releaseLockInfo (pLock f1) s4;
     s6 \<leftarrow> releaseOpenCnt (pOpen f1) s5;
     s7 \<leftarrow> sqliteOsLeaveMutex s6;
     Some (SQLITE_OK, s7)
   }"


subsection \<open>The open handles\<close>

text \<open>
  The program's handles, each with the inode its descriptor refers to.  \<open>nh P F\<close> counts the handles
  with a property.
\<close>

type_synonym handles = "nat \<rightharpoonup> OsFile \<times> inode"

definition nh :: "('a \<Rightarrow> bool) \<Rightarrow> ('h \<rightharpoonup> 'a) \<Rightarrow> int" where
  "nh P F = int (card {h. \<exists>x. F h = Some x \<and> P x})"

lemma nh_finite: "finite (dom F) \<Longrightarrow> finite {h. \<exists>x. F h = Some x \<and> P x}"
  by (rule finite_subset [of _ "dom F"]) auto

lemma nh_del:
  assumes "finite (dom F)" "F h = Some y"
  shows "nh P (F(h := None)) = nh P F - of_bool (P y)"
proof -
  let ?A = "{g. \<exists>x. F g = Some x \<and> P x}"
  have "{g. \<exists>x. (F(h := None)) g = Some x \<and> P x} = ?A - {h}" by auto
  moreover have "int (card (?A - {h})) = int (card ?A) - of_bool (h \<in> ?A)"
    using card_Suc_Diff1 [OF nh_finite [OF assms(1), of P], of h] by (cases "h \<in> ?A") auto
  ultimately show ?thesis
    using assms(2) by (simp add: nh_def)
qed

lemma nh_new:
  assumes "finite (dom F)" "F h = None"
  shows "nh P (F(h \<mapsto> x)) = nh P F + of_bool (P x)"
proof -
  let ?A = "{g. \<exists>x. F g = Some x \<and> P x}"
  have "{g. \<exists>y. (F(h \<mapsto> x)) g = Some y \<and> P y} = (if P x then insert h ?A else ?A)"
    using assms(2) by auto
  moreover have "h \<notin> ?A" using assms(2) by simp
  ultimately show ?thesis
    using nh_finite [OF assms(1), of P] by (simp add: nh_def)
qed

lemma nh_upd:
  assumes "finite (dom F)" "F h = Some y"
  shows "nh P (F(h \<mapsto> x)) = nh P F - of_bool (P y) + of_bool (P x)"
  using nh_new [of "F(h := None)" h P x] nh_del [OF assms] assms(1) by simp

lemma nh_nonneg [simp]: "0 \<le> nh P F"
  by (simp add: nh_def)

lemma nh_ge_1: "finite (dom F) \<Longrightarrow> F h = Some x \<Longrightarrow> P x \<Longrightarrow> 1 \<le> nh P F"
  using nh_finite [of F P] by (auto simp: nh_def card_gt_0_iff Suc_le_eq)

lemma nh_eq_0: "finite (dom F) \<Longrightarrow> nh P F = 0 \<longleftrightarrow> (\<forall>h x. F h = Some x \<longrightarrow> \<not> P x)"
  using nh_finite [of F P] by (auto simp: nh_def)

lemma nh_mono:
  "finite (dom F) \<Longrightarrow> (\<And>x. P x \<Longrightarrow> Q x) \<Longrightarrow> nh P F \<le> nh Q F"
  unfolding nh_def by (simp, rule card_mono) (auto intro: nh_finite)

definition on :: "inode \<Rightarrow> OsFile \<times> inode \<Rightarrow> bool" where
  "on i = (\<lambda>(f, j). j = i)"

definition locked_on :: "inode \<Rightarrow> OsFile \<times> inode \<Rightarrow> bool" where
  "locked_on i = (\<lambda>(f, j). j = i \<and> locked f)"

lemmas on_defs = on_def locked_on_def

lemma nh_locked_0: "finite (dom F) \<Longrightarrow> nh (on i) F = 0 \<Longrightarrow> nh (locked_on i) F = 0"
  by (auto simp: nh_eq_0 on_defs)

subsection \<open>What POSIX says of the system calls\<close>

text \<open>
  \<open>klock k i\<close> is the lock that this process holds on the inode \<open>i\<close>.  A granted request replaces it
  and a refused one leaves it (a request to unlock is granted); closing any descriptor of the inode
  removes it; a new descriptor is one that is not in use.
\<close>

definition posix_kernel :: "'s kernel \<Rightarrow> ('s \<Rightarrow> inode \<Rightarrow> lock_type) \<Rightarrow> bool" where
  "posix_kernel K klock \<longleftrightarrow>
     (\<forall>k fd i t ret err l k'. k_fstat K k fd = Some i \<longrightarrow>
        k_fcntl K k fd F_SETLK (lock_file t) = (ret, err, l, k') \<longrightarrow>
        k_fstat K k' = k_fstat K k \<and>
        (if ret = 0 then klock k' = (klock k)(i := t) else klock k' = klock k \<and> t \<noteq> F_UNLCK)) \<and>
     (\<forall>k fd i. k_fstat K k fd = Some i \<longrightarrow>
        k_fstat K (k_close K k fd) = (k_fstat K k)(fd := None) \<and>
        klock (k_close K k fd) = (klock k)(i := F_UNLCK)) \<and>
     (\<forall>k name flags fd e k'. k_open K k name flags = (fd, e, k') \<longrightarrow>
        klock k' = klock k \<and>
        (if fd < 0 then k_fstat K k' = k_fstat K k
         else k_fstat K k fd = None \<and> (\<exists>i. k_fstat K k' = (k_fstat K k)(fd \<mapsto> i)))) \<and>
     (\<forall>k name. k_fstat K (k_unlink K k name) = k_fstat K k \<and> klock (k_unlink K k name) = klock k)"

subsection \<open>The invariant\<close>

definition lock_mode :: "int \<Rightarrow> lock_type" where
  "lock_mode c = (if c = 0 then F_UNLCK else if 0 < c then F_RDLCK else F_WRLCK)"

text \<open>The bookkeeping of one inode that has handles: the two counters agree with the handles.\<close>

definition entry_ok ::
    "'s kernel \<Rightarrow> ('s \<Rightarrow> inode \<Rightarrow> lock_type) \<Rightarrow> handles \<Rightarrow> 's \<Rightarrow> inode \<Rightarrow> lockInfo \<Rightarrow> openCnt \<Rightarrow> bool"
where
  "entry_ok K klock F k i li oc \<longleftrightarrow>
     li_key li = (i, k_getpid K) \<and> oc_key oc = i \<and>
     li_nRef li = nh (on i) F \<and> oc_nRef oc = nh (on i) F \<and> 0 < nh (on i) F \<and>
     nLock oc = nh (locked_on i) F \<and>
     (cnt li = nLock oc \<or> cnt li = -1 \<and> nLock oc = 1) \<and>
     nPending oc = length (aPending oc) \<and> (aPending oc \<noteq> [] \<longrightarrow> 0 < nLock oc) \<and>
     distinct (aPending oc) \<and>
     (\<forall>fd\<in>set (aPending oc). k_fstat K k fd = Some i \<and> (\<forall>h f j. F h = Some (f, j) \<longrightarrow> ofd f \<noteq> fd)) \<and>
     klock k i = lock_mode (cnt li)"

definition inode_ok ::
    "'s kernel \<Rightarrow> ('s \<Rightarrow> inode \<Rightarrow> lock_type) \<Rightarrow> handles \<Rightarrow> 's os \<Rightarrow> inode \<Rightarrow> bool" where
  "inode_ok K klock F s i \<longleftrightarrow>
     (case (lockHash s (i, k_getpid K), openHash s i) of
        (None, None) \<Rightarrow> nh (on i) F = 0 \<and> klock (kern s) i = F_UNLCK
      | (Some a, Some b) \<Rightarrow>
          (\<exists>li oc. lockMem s a = Some li \<and> openMem s b = Some oc \<and> entry_ok K klock F (kern s) i li oc)
      | _ \<Rightarrow> False)"

definition os_inv :: "'s kernel \<Rightarrow> ('s \<Rightarrow> inode \<Rightarrow> lock_type) \<Rightarrow> handles \<Rightarrow> 's os \<Rightarrow> bool" where
  "os_inv K klock F s \<longleftrightarrow>
     finite (dom F) \<and> \<not> inMutex s \<and>
     (\<forall>h f i. F h = Some (f, i) \<longrightarrow>
        k_fstat K (kern s) (ofd f) = Some i \<and> lockHash s (i, k_getpid K) = Some (pLock f) \<and>
        openHash s i = Some (pOpen f) \<and> dirfd f = -1) \<and>
     (\<forall>h f i h' f' i'. F h = Some (f, i) \<longrightarrow> F h' = Some (f', i') \<longrightarrow> ofd f = ofd f' \<longrightarrow> h = h') \<and>
     (\<forall>i. inode_ok K klock F s i)"


lemma os_invD:
  assumes "os_inv K klock F s" "F h = Some (f, i)"
  obtains li oc where
    "lockMem s (pLock f) = Some li" "openMem s (pOpen f) = Some oc"
    "entry_ok K klock F (kern s) i li oc"
    "k_fstat K (kern s) (ofd f) = Some i" "lockHash s (i, k_getpid K) = Some (pLock f)"
    "openHash s i = Some (pOpen f)" "dirfd f = -1" "finite (dom F)" "\<not> inMutex s"
proof -
  have h: "k_fstat K (kern s) (ofd f) = Some i" "lockHash s (i, k_getpid K) = Some (pLock f)"
      "openHash s i = Some (pOpen f)" "dirfd f = -1" "inode_ok K klock F s i" "finite (dom F)" "\<not> inMutex s"
    using assms unfolding os_inv_def by blast+
  then obtain li oc where "lockMem s (pLock f) = Some li" "openMem s (pOpen f) = Some oc"
      "entry_ok K klock F (kern s) i li oc"
    by (auto simp: inode_ok_def)
  then show ?thesis using that h by blast
qed

text \<open>Two inodes never share a structure.\<close>

lemma inode_ok_distinct:
  assumes "inode_ok K klock F s i" "inode_ok K klock F s j" "i \<noteq> j"
  shows "lockHash s (i, k_getpid K) = Some a \<Longrightarrow> lockHash s (j, k_getpid K) \<noteq> Some a"
    and "openHash s i = Some b \<Longrightarrow> openHash s j \<noteq> Some b"
  using assms by (auto simp: inode_ok_def entry_ok_def split: option.splits)

text \<open>An operation that leaves an inode's structures, descriptors and handles alone keeps it.\<close>

lemma inode_ok_frame:
  assumes "inode_ok K klock F s i"
    and "lockHash s' (i, k_getpid K) = lockHash s (i, k_getpid K)" "openHash s' i = openHash s i"
    and "\<And>a. lockHash s (i, k_getpid K) = Some a \<Longrightarrow> lockMem s' a = lockMem s a"
    and "\<And>b. openHash s i = Some b \<Longrightarrow> openMem s' b = openMem s b"
    and "klock (kern s') i = klock (kern s) i"
    and "\<And>fd. k_fstat K (kern s) fd = Some i \<Longrightarrow> \<forall>h f j. F h = Some (f, j) \<longrightarrow> ofd f \<noteq> fd \<Longrightarrow>
          k_fstat K (kern s') fd = Some i \<and> (\<forall>h f j. F' h = Some (f, j) \<longrightarrow> ofd f \<noteq> fd)"
    and "nh (on i) F' = nh (on i) F" "nh (locked_on i) F' = nh (locked_on i) F"
  shows "inode_ok K klock F' s' i"
proof (cases "lockHash s (i, k_getpid K)"; cases "openHash s i")
  fix a b
  assume ab: "lockHash s (i, k_getpid K) = Some a" "openHash s i = Some b"
  then obtain li oc where e: "lockMem s a = Some li" "openMem s b = Some oc" "entry_ok K klock F (kern s) i li oc"
    using assms(1) by (auto simp: inode_ok_def)
  have "entry_ok K klock F' (kern s') i li oc"
    using e(3) assms(7) unfolding entry_ok_def assms(6,8,9) by blast
  then show ?thesis
    using ab e assms(2-5) by (simp add: inode_ok_def)
qed (use assms(1-3,6,8) in \<open>auto simp: inode_ok_def\<close>)

lemma os_invI:
  assumes "finite (dom F)" "\<not> inMutex s"
    and "\<And>h f i. F h = Some (f, i) \<Longrightarrow>
        k_fstat K (kern s) (ofd f) = Some i \<and> lockHash s (i, k_getpid K) = Some (pLock f) \<and>
        openHash s i = Some (pOpen f) \<and> dirfd f = -1"
    and "\<And>h f i h' f' i'. F h = Some (f, i) \<Longrightarrow> F h' = Some (f', i') \<Longrightarrow> ofd f = ofd f' \<Longrightarrow> h = h'"
    and "\<And>i. inode_ok K klock F s i"
  shows "os_inv K klock F s"
  using assms unfolding os_inv_def by blast

text \<open>
  The step that the three locking functions share: one handle's flag, its inode's counters and the
  kernel's lock change together, and possibly the deferred closes of the inode are carried out.
\<close>

lemma os_inv_lock_step:
  assumes inv: "os_inv K klock F s" and h: "F h = Some (f, i)"
    and li: "lockMem s (pLock f) = Some li" and oc: "openMem s (pOpen f) = Some oc"
    and hash: "lockHash s' = lockHash s" "openHash s' = openHash s" "\<not> inMutex s'"
    and mem: "lockMem s' = (lockMem s)(pLock f \<mapsto> li\<lparr>cnt := c\<rparr>)"
      "openMem s' = (openMem s)(pOpen f \<mapsto> oc\<lparr>nLock := n, nPending := length P, aPending := P\<rparr>)"
    and n: "n = nLock oc - of_bool (locked f) + of_bool l" and c: "c = n \<or> c = -1 \<and> n = 1"
    and klock: "klock (kern s') = (klock (kern s))(i := lock_mode c)"
    and P: "P = aPending oc \<and> (P \<noteq> [] \<longrightarrow> 0 < n) \<and> k_fstat K (kern s') = k_fstat K (kern s) \<or>
      P = [] \<and> k_fstat K (kern s') = (\<lambda>fd. if fd \<in> set (aPending oc) then None else k_fstat K (kern s) fd)"
  shows "os_inv K klock (F(h \<mapsto> (f\<lparr>locked := l\<rparr>, i))) s'"
proof (rule os_invI)
  let ?F = "F(h \<mapsto> (f\<lparr>locked := l\<rparr>, i))"
  from os_invD [OF inv h] li oc have e: "entry_ok K klock F (kern s) i li oc"
    and f: "k_fstat K (kern s) (ofd f) = Some i" "lockHash s (i, k_getpid K) = Some (pLock f)"
      "openHash s i = Some (pOpen f)" "dirfd f = -1" and fin: "finite (dom F)"
    by (metis option.sel)+
  show "finite (dom ?F)" using fin by simp
  show "\<not> inMutex s'" by fact
  have fst_F: "k_fstat K (kern s') (ofd g) = k_fstat K (kern s) (ofd g)" if "F h' = Some (g, j)" for h' g j
  proof -
    have "ofd g \<notin> set (aPending oc)" using e that unfolding entry_ok_def by blast
    then show ?thesis using P by auto
  qed
  show "k_fstat K (kern s') (ofd g) = Some j \<and> lockHash s' (j, k_getpid K) = Some (pLock g) \<and>
        openHash s' j = Some (pOpen g) \<and> dirfd g = -1" if "?F h' = Some (g, j)" for h' g j
    using that inv f h fst_F hash unfolding os_inv_def by (auto split: if_splits)
  show "h1 = h2" if "?F h1 = Some (g1, j1)" "?F h2 = Some (g2, j2)" "ofd g1 = ofd g2" for h1 h2 g1 g2 j1 j2
    using that inv h unfolding os_inv_def by (auto split: if_splits)
  have nh_on: "nh (on j) ?F = nh (on j) F" for j
    using nh_upd [OF fin h, of "on j"] by (simp add: on_defs)
  have nh_lock: "nh (locked_on j) ?F = nh (locked_on j) F + (if j = i then of_bool l - of_bool (locked f) else 0)" for j
    using nh_upd [OF fin h, of "locked_on j"] by (simp add: on_defs)
  show "inode_ok K klock ?F s' j" for j
  proof (cases "j = i")
    case True
    have "entry_ok K klock ?F (kern s') i (li\<lparr>cnt := c\<rparr>) (oc\<lparr>nLock := n, nPending := length P, aPending := P\<rparr>)"
      using e n c P nh_on [of i] nh_lock [of i] klock h unfolding entry_ok_def by auto
    then show ?thesis
      using True f by (simp add: inode_ok_def hash mem)
  next
    case False
    have ji: "inode_ok K klock F s j" "inode_ok K klock F s i" using inv unfolding os_inv_def by blast+
    note d = inode_ok_distinct [OF ji False]
    show ?thesis
    proof (rule inode_ok_frame [OF ji(1)])
      show "lockMem s' a = lockMem s a" if "lockHash s (j, k_getpid K) = Some a" for a
        using d(1) [OF that] f mem by auto
      show "openMem s' b = openMem s b" if "openHash s j = Some b" for b
        using d(2) [OF that] f mem by auto
      show "k_fstat K (kern s') fd = Some j \<and> (\<forall>h f j. ?F h = Some (f, j) \<longrightarrow> ofd f \<noteq> fd)"
        if "k_fstat K (kern s) fd = Some j" "\<forall>h f j. F h = Some (f, j) \<longrightarrow> ofd f \<noteq> fd" for fd
        using that P e False h unfolding entry_ok_def by (auto split: if_splits)
    qed (use False hash klock nh_on nh_lock in \<open>simp_all\<close>)
  qed
qed


lemma os_inv_same:
  assumes "os_inv K klock F s" "lockHash s' = lockHash s" "openHash s' = openHash s"
    and "lockMem s' = lockMem s" "openMem s' = openMem s" "\<not> inMutex s'"
    and "klock (kern s') = klock (kern s)" "k_fstat K (kern s') = k_fstat K (kern s)"
  shows "os_inv K klock F s'"
  using assms(1,6) unfolding os_inv_def inode_ok_def entry_ok_def assms(2-5,7,8) by blast

lemma set_file_lock_cases:
  assumes "posix_kernel K klock" "k_fstat K (kern s) fd = Some i"
  obtains rc k' where "set_file_lock K fd t s = (rc, s\<lparr>kern := k'\<rparr>)"
    "k_fstat K k' = k_fstat K (kern s)"
    "rc = SQLITE_OK \<longrightarrow> klock k' = (klock (kern s))(i := t)"
    "rc \<noteq> SQLITE_OK \<longrightarrow> klock k' = klock (kern s) \<and> t \<noteq> F_UNLCK"
proof -
  obtain ret err l k' where c: "k_fcntl K (kern s) fd F_SETLK (lock_file t) = (ret, err, l, k')"
    by (cases "k_fcntl K (kern s) fd F_SETLK (lock_file t)") auto
  have "k_fstat K k' = k_fstat K (kern s) \<and> (if ret = 0 then klock k' = (klock (kern s))(i := t)
      else klock k' = klock (kern s) \<and> t \<noteq> F_UNLCK)"
    using assms c unfolding posix_kernel_def by blast
  then show ?thesis
    by (intro that [where k' = k']) (auto simp: set_file_lock_def c split: if_splits)
qed

lemmas os_step_simps =
  sqliteOsEnterMutex_def sqliteOsLeaveMutex_def set_cnt_def set_nLock_def Let_def

lemma OsFile_locked_id [simp]: "f\<lparr>locked := locked f\<rparr> = f"
  by simp

text \<open>What the invariant says of a handle.\<close>

lemma handle_facts:
  assumes inv: "os_inv K klock F s" and h: "F h = Some (f, i)"
  obtains li oc where
    "lockMem s (pLock f) = Some li" "openMem s (pOpen f) = Some oc"
    "k_fstat K (kern s) (ofd f) = Some i" "\<not> inMutex s" "dirfd f = -1"
    "aPending oc \<noteq> [] \<longrightarrow> 0 < nLock oc" "nPending oc = length (aPending oc)" "0 \<le> nLock oc"
    "klock (kern s) i = lock_mode (cnt li)" "cnt li = nLock oc \<or> cnt li = -1 \<and> nLock oc = 1"
    "locked f \<longrightarrow> 1 \<le> nLock oc"
    "\<forall>fd\<in>set (aPending oc). k_fstat K (kern s) fd = Some i" "distinct (aPending oc)"
proof -
  from os_invD [OF inv h] obtain li oc where
    li: "lockMem s (pLock f) = Some li" "openMem s (pOpen f) = Some oc"
    and e: "entry_ok K klock F (kern s) i li oc"
    and r: "k_fstat K (kern s) (ofd f) = Some i" "dirfd f = -1" "finite (dom F)" "\<not> inMutex s" .
  show thesis
    by (rule that [OF li r(1,4,2)])
      (use e nh_ge_1 [OF r(3) h, of "locked_on i"] in \<open>auto simp: entry_ok_def on_defs\<close>)
qed

text \<open>A request for a lock by a handle that may make it.\<close>

lemma os_inv_request:
  assumes K: "posix_kernel K klock" and inv: "os_inv K klock F s" and h: "F h = Some (f, i)"
    and li: "lockMem s (pLock f) = Some li" and oc: "openMem s (pOpen f) = Some oc"
    and may: "cnt li = 0 \<or> locked f \<and> cnt li \<le> 1"
    and t: "t = F_RDLCK \<and> c = 1 \<or> t = F_WRLCK \<and> c = -1"
  obtains rc k' where
    "set_file_lock K (ofd f) t (s\<lparr>inMutex := True\<rparr>) = (rc, s\<lparr>inMutex := True, kern := k'\<rparr>)"
    "rc = SQLITE_OK \<Longrightarrow> os_inv K klock (F(h \<mapsto> (f\<lparr>locked := True\<rparr>, i)))
       (set_cnt (pLock f) li c (set_nLock (pOpen f) oc (nLock oc + of_bool (\<not> locked f)) (s\<lparr>kern := k'\<rparr>)))"
    "rc \<noteq> SQLITE_OK \<Longrightarrow> os_inv K klock F (s\<lparr>kern := k'\<rparr>)"
proof -
  from handle_facts [OF inv h] li oc have st: "k_fstat K (kern s) (ofd f) = Some i"
    and m: "\<not> inMutex s" and np: "aPending oc \<noteq> [] \<longrightarrow> 0 < nLock oc" "nPending oc = length (aPending oc)" "0 \<le> nLock oc"
    and cn: "cnt li = nLock oc \<or> cnt li = -1 \<and> nLock oc = 1" and lf: "locked f \<longrightarrow> 1 \<le> nLock oc"
    by (metis option.sel)+
  have st2: "k_fstat K (kern (s\<lparr>inMutex := True\<rparr>)) (ofd f) = Some i" using st by simp
  from set_file_lock_cases [OF K st2, of t] obtain rc k' where
    fc: "set_file_lock K (ofd f) t (s\<lparr>inMutex := True\<rparr>) = (rc, s\<lparr>inMutex := True, kern := k'\<rparr>)"
      "k_fstat K k' = k_fstat K (kern (s\<lparr>inMutex := True\<rparr>))"
      "rc = SQLITE_OK \<longrightarrow> klock k' = (klock (kern (s\<lparr>inMutex := True\<rparr>)))(i := t)"
      "rc \<noteq> SQLITE_OK \<longrightarrow> klock k' = klock (kern (s\<lparr>inMutex := True\<rparr>)) \<and> t \<noteq> F_UNLCK" .
  have 1: "nLock oc + of_bool (\<not> locked f) = 1"
    using may cn lf np by auto
  show thesis
  proof (rule that [OF fc(1)])
    assume "rc = SQLITE_OK"
    then show "os_inv K klock (F(h \<mapsto> (f\<lparr>locked := True\<rparr>, i)))
        (set_cnt (pLock f) li c (set_nLock (pOpen f) oc (nLock oc + of_bool (\<not> locked f)) (s\<lparr>kern := k'\<rparr>)))"
      by (intro os_inv_lock_step [OF inv h li oc, where P = "aPending oc" and c = c and n = 1])
        (use 1 t np m fc in \<open>auto simp: os_step_simps lock_mode_def\<close>)
  next
    assume "rc \<noteq> SQLITE_OK"
    then show "os_inv K klock F (s\<lparr>kern := k'\<rparr>)"
      by (intro os_inv_same [OF inv]) (use m fc in auto)
  qed
qed

lemma sqliteOsReadLock_inv:
  assumes K: "posix_kernel K klock" and inv: "os_inv K klock F s" and h: "F h = Some (f, i)"
  obtains rc l s' where "sqliteOsReadLock K f s = Some (rc, f\<lparr>locked := l\<rparr>, s')"
    "os_inv K klock (F(h \<mapsto> (f\<lparr>locked := l\<rparr>, i))) s'" "l = (locked f \<or> rc = SQLITE_OK)"
proof -
  from handle_facts [OF inv h] obtain li oc where
    li: "lockMem s (pLock f) = Some li" and oc: "openMem s (pOpen f) = Some oc" and m: "\<not> inMutex s"
    and np: "aPending oc \<noteq> [] \<longrightarrow> 0 < nLock oc" "nPending oc = length (aPending oc)" "0 \<le> nLock oc"
    and kl: "klock (kern s) i = lock_mode (cnt li)" and cn: "cnt li = nLock oc \<or> cnt li = -1 \<and> nLock oc = 1" .
  consider (old) "0 < cnt li" | (call) "cnt li \<le> 0" "cnt li = 0 \<or> locked f \<and> cnt li \<le> 1"
    | (busy) "cnt li < 0" "\<not> locked f"
    by linarith
  then show thesis
  proof cases
    case old
    let ?s = "(set_nLock (pOpen f) oc (nLock oc + of_bool (\<not> locked f))
        (set_cnt (pLock f) li (cnt li + of_bool (\<not> locked f)) s))"
    have "os_inv K klock (F(h \<mapsto> (f\<lparr>locked := True\<rparr>, i))) ?s"
      by (rule os_inv_lock_step [OF inv h li oc, where P = "aPending oc" and
            c = "cnt li + of_bool (\<not> locked f)" and n = "nLock oc + of_bool (\<not> locked f)"])
        (use old np kl cn m in \<open>auto simp: os_step_simps lock_mode_def\<close>)
    moreover have "sqliteOsReadLock K f s = Some (SQLITE_OK, f\<lparr>locked := True\<rparr>, ?s)"
      using old li oc m by (auto simp: sqliteOsReadLock_def os_step_simps fun_upd_idem)
    ultimately show ?thesis using that by blast
  next
    case call
    from os_inv_request [OF K inv h li oc call(2), of F_RDLCK 1] obtain rc k' where
      fc: "set_file_lock K (ofd f) F_RDLCK (s\<lparr>inMutex := True\<rparr>) = (rc, s\<lparr>inMutex := True, kern := k'\<rparr>)"
      and ok: "rc = SQLITE_OK \<Longrightarrow> os_inv K klock (F(h \<mapsto> (f\<lparr>locked := True\<rparr>, i)))
        (set_cnt (pLock f) li 1 (set_nLock (pOpen f) oc (nLock oc + of_bool (\<not> locked f)) (s\<lparr>kern := k'\<rparr>)))"
      and err: "rc \<noteq> SQLITE_OK \<Longrightarrow> os_inv K klock F (s\<lparr>kern := k'\<rparr>)"
      by blast
    have "sqliteOsReadLock K f s = Some (rc, f\<lparr>locked := locked f \<or> rc = SQLITE_OK\<rparr>,
        if rc = SQLITE_OK then set_cnt (pLock f) li 1
          (set_nLock (pOpen f) oc (nLock oc + of_bool (\<not> locked f)) (s\<lparr>kern := k'\<rparr>)) else s\<lparr>kern := k'\<rparr>)"
      using call li oc m fc by (auto simp: sqliteOsReadLock_def os_step_simps fun_upd_idem)
    then show ?thesis
      by (rule that) (use ok err h in \<open>auto simp: fun_upd_idem\<close>)
  next
    case busy
    then have "sqliteOsReadLock K f s = Some (SQLITE_BUSY, f\<lparr>locked := locked f\<rparr>, s)"
      using li oc m by (simp add: sqliteOsReadLock_def os_step_simps)
    then show ?thesis
      by (rule that) (use inv h in \<open>simp_all add: fun_upd_idem\<close>)
  qed
qed

lemma sqliteOsWriteLock_inv:
  assumes K: "posix_kernel K klock" and inv: "os_inv K klock F s" and h: "F h = Some (f, i)"
  obtains rc l s' where "sqliteOsWriteLock K f s = Some (rc, f\<lparr>locked := l\<rparr>, s')"
    "os_inv K klock (F(h \<mapsto> (f\<lparr>locked := l\<rparr>, i))) s'" "l = (locked f \<or> rc = SQLITE_OK)"
proof -
  from handle_facts [OF inv h] obtain li oc where
    li: "lockMem s (pLock f) = Some li" and oc: "openMem s (pOpen f) = Some oc" and m: "\<not> inMutex s" .
  show thesis
  proof (cases "cnt li = 0 \<or> (cnt li = 1 \<and> locked f)")
    case True
    then have may: "cnt li = 0 \<or> locked f \<and> cnt li \<le> 1" by auto
    from os_inv_request [OF K inv h li oc may, of F_WRLCK "-1"] obtain rc k' where
      fc: "set_file_lock K (ofd f) F_WRLCK (s\<lparr>inMutex := True\<rparr>) = (rc, s\<lparr>inMutex := True, kern := k'\<rparr>)"
      and ok: "rc = SQLITE_OK \<Longrightarrow> os_inv K klock (F(h \<mapsto> (f\<lparr>locked := True\<rparr>, i)))
        (set_cnt (pLock f) li (-1) (set_nLock (pOpen f) oc (nLock oc + of_bool (\<not> locked f)) (s\<lparr>kern := k'\<rparr>)))"
      and err: "rc \<noteq> SQLITE_OK \<Longrightarrow> os_inv K klock F (s\<lparr>kern := k'\<rparr>)"
      by blast
    have "sqliteOsWriteLock K f s = Some (rc, f\<lparr>locked := locked f \<or> rc = SQLITE_OK\<rparr>,
        if rc = SQLITE_OK then set_cnt (pLock f) li (-1)
          (set_nLock (pOpen f) oc (nLock oc + of_bool (\<not> locked f)) (s\<lparr>kern := k'\<rparr>)) else s\<lparr>kern := k'\<rparr>)"
      using True li oc m fc by (auto simp: sqliteOsWriteLock_def os_step_simps fun_upd_idem)
    then show ?thesis
      by (rule that) (use ok err h in \<open>auto simp: fun_upd_idem\<close>)
  next
    case False
    then have "sqliteOsWriteLock K f s = Some (SQLITE_BUSY, f\<lparr>locked := locked f\<rparr>, s)"
      using li oc m by (auto simp: sqliteOsWriteLock_def os_step_simps)
    then show ?thesis
      by (rule that) (use inv h in \<open>simp_all add: fun_upd_idem\<close>)
  qed
qed


lemma posix_close:
  assumes "posix_kernel K klock" "k_fstat K k fd = Some i"
  shows "k_fstat K (k_close K k fd) = (k_fstat K k)(fd := None)"
    and "klock (k_close K k fd) = (klock k)(i := F_UNLCK)"
  using assms unfolding posix_kernel_def by blast+

lemma close_pending_closes:
  assumes "posix_kernel K klock" "\<forall>fd\<in>set a. k_fstat K k fd = Some i" "distinct a"
  shows "\<exists>k'. close_pending K (length a) a k = Some k' \<and>
     k_fstat K k' = (\<lambda>fd. if fd \<in> set a then None else k_fstat K k fd) \<and>
     klock k' = (if a = [] then klock k else (klock k)(i := F_UNLCK))"
  using assms(2,3)
proof (induction a arbitrary: k)
  case (Cons fd a)
  note c = posix_close [OF assms(1), of k fd i]
  have "\<exists>k'. close_pending K (length a) a (k_close K k fd) = Some k' \<and>
     k_fstat K k' = (\<lambda>d. if d \<in> set a then None else k_fstat K (k_close K k fd) d) \<and>
     klock k' = (if a = [] then klock (k_close K k fd) else (klock (k_close K k fd))(i := F_UNLCK))"
    using Cons.prems c by (intro Cons.IH) auto
  then show ?case
    using Cons.prems c by (auto simp: fun_eq_iff)
qed simp

lemma sqliteOsUnlock_inv:
  assumes K: "posix_kernel K klock" and inv: "os_inv K klock F s" and h: "F h = Some (f, i)"
  obtains s' where "sqliteOsUnlock K f s = Some (SQLITE_OK, f\<lparr>locked := False\<rparr>, s')"
    "os_inv K klock (F(h \<mapsto> (f\<lparr>locked := False\<rparr>, i))) s'"
proof (cases "locked f")
  case False
  then show ?thesis
    using that [of s] inv h by (simp add: sqliteOsUnlock_def fun_upd_idem)
next
  case lf: True
  from handle_facts [OF inv h] obtain li oc where
    li: "lockMem s (pLock f) = Some li" and oc: "openMem s (pOpen f) = Some oc" and m: "\<not> inMutex s"
    and st: "k_fstat K (kern s) (ofd f) = Some i"
    and np: "aPending oc \<noteq> [] \<longrightarrow> 0 < nLock oc" "nPending oc = length (aPending oc)" "0 \<le> nLock oc"
    and kl: "klock (kern s) i = lock_mode (cnt li)" and cn: "cnt li = nLock oc \<or> cnt li = -1 \<and> nLock oc = 1"
    and n1: "locked f \<longrightarrow> 1 \<le> nLock oc"
    and pend: "\<forall>fd\<in>set (aPending oc). k_fstat K (kern s) fd = Some i" "distinct (aPending oc)" .
  note step = os_inv_lock_step [OF inv h li oc, where l = False]
  show ?thesis
  proof (cases "1 < cnt li")
    case True
    let ?s = "set_nLock (pOpen f) oc (nLock oc - 1) (set_cnt (pLock f) li (cnt li - 1) s)"
    have "os_inv K klock (F(h \<mapsto> (f\<lparr>locked := False\<rparr>, i))) ?s"
      by (rule step [where P = "aPending oc" and c = "cnt li - 1" and n = "nLock oc - 1"])
        (use True np kl cn m lf in \<open>auto simp: os_step_simps lock_mode_def\<close>)
    moreover have "sqliteOsUnlock K f s = Some (SQLITE_OK, f\<lparr>locked := False\<rparr>, ?s)"
      using True li oc m lf cn by (auto simp: sqliteOsUnlock_def unlock_count_def os_step_simps)
    ultimately show ?thesis using that by blast
  next
    case False
    with cn n1 lf have one: "nLock oc = 1" "cnt li = 1 \<or> cnt li = -1" by auto
    have st2: "k_fstat K (kern (s\<lparr>inMutex := True\<rparr>)) (ofd f) = Some i" using st by simp
    from set_file_lock_cases [OF K st2, of F_UNLCK] obtain rc k1 where
      fc: "set_file_lock K (ofd f) F_UNLCK (s\<lparr>inMutex := True\<rparr>) = (rc, s\<lparr>inMutex := True, kern := k1\<rparr>)"
        "rc = SQLITE_OK" "k_fstat K k1 = k_fstat K (kern s)" "klock k1 = (klock (kern s))(i := F_UNLCK)"
      by (metis os.ext_inject os.surjective os.update_convs(5))
    obtain k2 where k2: "close_pending K (length (aPending oc)) (aPending oc) k1 = Some k2"
        "k_fstat K k2 = (\<lambda>fd. if fd \<in> set (aPending oc) then None else k_fstat K (kern s) fd)"
        "klock k2 = (klock (kern s))(i := F_UNLCK)"
      using close_pending_closes [OF K, of "aPending oc" k1 i] pend unfolding fc(3,4) by (auto split: if_splits)
    let ?s = "s\<lparr>lockMem := (lockMem s)(pLock f \<mapsto> li\<lparr>cnt := 0\<rparr>), kern := k2,
        openMem := (openMem s)(pOpen f \<mapsto> oc\<lparr>nLock := 0, nPending := 0, aPending := []\<rparr>)\<rparr>"
    have "os_inv K klock (F(h \<mapsto> (f\<lparr>locked := False\<rparr>, i))) ?s"
      by (rule step [where P = "[]" and c = 0 and n = 0])
        (use one lf m k2 in \<open>auto simp: lock_mode_def\<close>)
    moreover have "sqliteOsUnlock K f s = Some (SQLITE_OK, f\<lparr>locked := False\<rparr>, ?s)"
    proof (cases "aPending oc = []")
      case True
      then have eq: "oc\<lparr>nLock := 0, nPending := 0, aPending := []\<rparr> = oc\<lparr>nLock := 0\<rparr>"
        using np by (intro openCnt.equality) simp_all
      show ?thesis
        unfolding eq using one li oc m lf fc(1,2) k2(1) np True
        by (auto simp: sqliteOsUnlock_def unlock_count_def os_step_simps)
    next
      case False
      then show ?thesis
        using one li oc m lf fc(1,2) k2(1) np
        by (auto simp: sqliteOsUnlock_def unlock_count_def os_step_simps)
    qed
    ultimately show ?thesis using that by blast
  qed
qed


text \<open>
  A handle goes away: its descriptor is closed when its inode has no lock and kept for later
  otherwise, and the structures go with the last handle.
\<close>

lemma os_inv_drop:
  assumes inv: "os_inv K klock F s" and h: "F h = Some (f, i)" and lf: "\<not> locked f"
    and li: "lockMem s (pLock f) = Some li" and oc: "openMem s (pOpen f) = Some oc"
    and m: "\<not> inMutex s'"
    and lst: "lst = (nh (on i) F = 1)"
    and hash: "lockHash s' = (if lst then (lockHash s)((i, k_getpid K) := None) else lockHash s)"
      "openHash s' = (if lst then (openHash s)(i := None) else openHash s)"
    and mem: "lockMem s' = (lockMem s)(pLock f := if lst then None else Some (li\<lparr>li_nRef := li_nRef li - 1\<rparr>))"
      "openMem s' = (openMem s)(pOpen f := if lst then None
         else Some (oc\<lparr>nPending := length P, aPending := P, oc_nRef := oc_nRef oc - 1\<rparr>))"
    and P: "if nLock oc \<noteq> 0
      then P = aPending oc @ [ofd f] \<and> k_fstat K (kern s') = k_fstat K (kern s) \<and> klock (kern s') = klock (kern s)
      else P = [] \<and> k_fstat K (kern s') = (k_fstat K (kern s))(ofd f := None) \<and>
           klock (kern s') = (klock (kern s))(i := F_UNLCK)"
  shows "os_inv K klock (F(h := None)) s'"
proof (rule os_invI)
  let ?F = "F(h := None)"
  from os_invD [OF inv h] li oc have e: "entry_ok K klock F (kern s) i li oc"
    and f: "k_fstat K (kern s) (ofd f) = Some i" "lockHash s (i, k_getpid K) = Some (pLock f)"
      "openHash s i = Some (pOpen f)" and fin: "finite (dom F)"
    by (metis option.sel)+
  have nh_on: "nh (on j) ?F = nh (on j) F - of_bool (j = i)" for j
    using nh_del [OF fin h, of "on j"] by (auto simp: on_defs)
  have nh_lock: "nh (locked_on j) ?F = nh (locked_on j) F" for j
    using nh_del [OF fin h, of "locked_on j"] lf by (simp add: on_defs)
  have lock_le: "nh (locked_on i) ?F \<le> nh (on i) ?F"
    using fin by (intro nh_mono) (auto simp: on_defs)
  have other: "k_fstat K (kern s') (ofd g) = Some j" "j = i \<Longrightarrow> \<not> lst" "ofd g \<noteq> ofd f"
    if "?F h' = Some (g, j)" for h' g j
  proof -
    have g: "F h' = Some (g, j)" "h' \<noteq> h" using that by (auto split: if_splits)
    then show "ofd g \<noteq> ofd f" using inv h unfolding os_inv_def by metis
    then show "k_fstat K (kern s') (ofd g) = Some j"
      using P g inv unfolding os_inv_def by (auto split: if_splits)
    show "\<not> lst" if "j = i"
      using nh_ge_1 [of ?F h' "(g, j)" "on i"] g fin lst nh_on [of i] that by (auto simp: on_defs)
  qed
  show "finite (dom ?F)" using fin by simp
  show "\<not> inMutex s'" by fact
  show "k_fstat K (kern s') (ofd g) = Some j \<and> lockHash s' (j, k_getpid K) = Some (pLock g) \<and>
        openHash s' j = Some (pOpen g) \<and> dirfd g = -1" if "?F h' = Some (g, j)" for h' g j
    using that other [OF that] inv hash unfolding os_inv_def by (auto split: if_splits)
  show "h1 = h2" if "?F h1 = Some (g1, j1)" "?F h2 = Some (g2, j2)" "ofd g1 = ofd g2" for h1 h2 g1 g2 j1 j2
    using that inv h unfolding os_inv_def by (auto split: if_splits)
  show "inode_ok K klock ?F s' j" for j
  proof (cases "j = i")
    case True
    show ?thesis
    proof (cases lst)
      case True
      then have "nLock oc = 0"
        using lst lock_le nh_on [of i] nh_lock [of i] e nh_nonneg [of "locked_on i" F] unfolding entry_ok_def by auto
      then show ?thesis
        using True \<open>j = i\<close> hash P nh_on [of i] lst by (simp add: inode_ok_def)
    next
      case False
      have "ofd f \<notin> set (aPending oc)" using e h unfolding entry_ok_def by blast
      moreover have nl: "nLock oc \<noteq> 0 \<longrightarrow> 0 < nLock oc"
        using e nh_nonneg [of "locked_on i" F] unfolding entry_ok_def by linarith
      moreover have "\<And>h' g j. h' \<noteq> h \<Longrightarrow> F h' = Some (g, j) \<Longrightarrow> ofd g \<noteq> ofd f"
        using other(3) by (metis fun_upd_other)
      ultimately have "entry_ok K klock ?F (kern s') i (li\<lparr>li_nRef := li_nRef li - 1\<rparr>)
          (oc\<lparr>nPending := length P, aPending := P, oc_nRef := oc_nRef oc - 1\<rparr>)"
        using e P nh_on [of i] nh_lock [of i] False lst f(1) nl
        unfolding entry_ok_def
        by (auto simp: lock_mode_def split: if_splits)
      then show ?thesis
        using \<open>j = i\<close> False f by (simp add: inode_ok_def hash mem)
    qed
  next
    case False
    have ji: "inode_ok K klock F s j" "inode_ok K klock F s i" using inv unfolding os_inv_def by blast+
    note d = inode_ok_distinct [OF ji False]
    show ?thesis
    proof (rule inode_ok_frame [OF ji(1)])
      show "lockMem s' a = lockMem s a" if "lockHash s (j, k_getpid K) = Some a" for a
        using d(1) [OF that] f mem by auto
      show "openMem s' b = openMem s b" if "openHash s j = Some b" for b
        using d(2) [OF that] f mem by auto
      show "k_fstat K (kern s') fd = Some j \<and> (\<forall>h f j. ?F h = Some (f, j) \<longrightarrow> ofd f \<noteq> fd)"
        if "k_fstat K (kern s) fd = Some j" "\<forall>h f j. F h = Some (f, j) \<longrightarrow> ofd f \<noteq> fd" for fd
        using that P e False h f(1) by (auto split: if_splits)
    qed (use False hash P nh_on nh_lock in \<open>simp_all split: if_splits\<close>)
  qed
qed


lemma sqliteOsClose_inv:
  assumes K: "posix_kernel K klock" and inv: "os_inv K klock F s" and h: "F h = Some (f, i)"
  obtains s' where "sqliteOsClose K True f s = Some (SQLITE_OK, s')" "os_inv K klock (F(h := None)) s'"
proof -
  let ?f = "f\<lparr>locked := False\<rparr>"
  obtain s1 where un: "sqliteOsUnlock K f s = Some (SQLITE_OK, ?f, s1)"
      and inv1: "os_inv K klock (F(h \<mapsto> (?f, i))) s1"
    using sqliteOsUnlock_inv [OF K inv h] .
  define G where "G = F(h \<mapsto> (?f, i))"
  have h1: "G h = Some (?f, i)" and inv1: "os_inv K klock G s1" and G: "G(h := None) = F(h := None)"
    using inv1 by (simp_all add: G_def)
  from os_invD [OF inv1 h1] obtain li oc where
    li: "lockMem s1 (pLock ?f) = Some li" and oc: "openMem s1 (pOpen ?f) = Some oc"
    and e: "entry_ok K klock G (kern s1) i li oc" and st: "k_fstat K (kern s1) (ofd ?f) = Some i"
    and d: "dirfd ?f = -1" and m: "\<not> inMutex s1" .
  let ?k = "if nLock oc \<noteq> 0 then kern s1 else k_close K (kern s1) (ofd f)"
  let ?P = "if nLock oc \<noteq> 0 then aPending oc @ [ofd f] else []"
  let ?l = "nh (on i) G = 1"
  let ?s = "s1\<lparr>kern := ?k,
     lockHash := (if ?l then (lockHash s1)((i, k_getpid K) := None) else lockHash s1),
     lockMem := (lockMem s1)(pLock f := if ?l then None else Some (li\<lparr>li_nRef := li_nRef li - 1\<rparr>)),
     openHash := (if ?l then (openHash s1)(i := None) else openHash s1),
     openMem := (openMem s1)(pOpen f := if ?l then None
       else Some (oc\<lparr>nPending := length ?P, aPending := ?P, oc_nRef := oc_nRef oc - 1\<rparr>))\<rparr>"
  have "os_inv K klock (G(h := None)) ?s"
    by (rule os_inv_drop [OF inv1 h1 _ li oc, where P = ?P and lst = ?l])
      (use m st posix_close [OF K st] in simp_all)
  moreover have "sqliteOsClose K True f s = Some (SQLITE_OK, ?s)"
  proof -
    have ep: "nLock oc = 0 \<longrightarrow> oc\<lparr>nPending := 0, aPending := []\<rparr> = oc" and
      key: "li_key li = (i, k_getpid K)" "oc_key oc = i" "li_nRef li = nh (on i) G" "oc_nRef oc = nh (on i) G"
      "nPending oc = length (aPending oc)"
      using e unfolding entry_ok_def by auto
    show ?thesis
      using un li oc m d ep
      by (cases ?l; cases "nLock oc = 0")
        (simp_all add: sqliteOsClose_def defer_close_def releaseLockInfo_def releaseOpenCnt_def os_step_simps key)
  qed
  ultimately show thesis using that G by simp
qed


text \<open>A new descriptor of the inode \<open>i\<close>, and the handle for it.\<close>

lemma inode_ok_fresh_lock: "inode_ok K klock F s j \<Longrightarrow> lockMem s p = None \<Longrightarrow> lockHash s (j, k_getpid K) \<noteq> Some p"
  by (auto simp: inode_ok_def split: option.splits)

lemma inode_ok_fresh_open: "inode_ok K klock F s j \<Longrightarrow> openMem s q = None \<Longrightarrow> openHash s j \<noteq> Some q"
  by (auto simp: inode_ok_def split: option.splits)

lemma os_inv_add:
  assumes inv: "os_inv K klock F s" and h: "F h = None"
    and new: "k_fstat K (kern s) d = None" "k_fstat K (kern s') = (k_fstat K (kern s))(d \<mapsto> i)"
    and same: "klock (kern s') = klock (kern s)" "\<not> inMutex s'"
    and hash: "lockHash s' = (lockHash s)((i, k_getpid K) \<mapsto> p)" "openHash s' = (openHash s)(i \<mapsto> q)"
    and mem: "lockMem s' = (lockMem s)(p \<mapsto> li')" "openMem s' = (openMem s)(q \<mapsto> oc')"
    and f: "f = \<lparr>pOpen = q, pLock = p, ofd = d, locked = False, dirfd = -1\<rparr>"
    and entry: "lockHash s (i, k_getpid K) = Some p \<and> openHash s i = Some q \<and>
        (\<exists>li oc. lockMem s p = Some li \<and> openMem s q = Some oc \<and>
          li' = li\<lparr>li_nRef := li_nRef li + 1\<rparr> \<and> oc' = oc\<lparr>oc_nRef := oc_nRef oc + 1\<rparr>) \<or>
      lockHash s (i, k_getpid K) = None \<and> openHash s i = None \<and> lockMem s p = None \<and> openMem s q = None \<and>
        li' = \<lparr>li_key = (i, k_getpid K), cnt = 0, li_nRef = 1\<rparr> \<and>
        oc' = \<lparr>oc_key = i, oc_nRef = 1, nLock = 0, nPending = 0, aPending = []\<rparr>"
  shows "os_inv K klock (F(h \<mapsto> (f, i))) s'"
proof (rule os_invI)
  let ?F = "F(h \<mapsto> (f, i))"
  have fin: "finite (dom F)" and ok: "inode_ok K klock F s j" for j using inv unfolding os_inv_def by blast+
  have nh_on: "nh (on j) ?F = nh (on j) F + of_bool (j = i)" for j
    using nh_new [OF fin h, of "on j"] by (auto simp: on_defs)
  have nh_lock: "nh (locked_on j) ?F = nh (locked_on j) F" for j
    using nh_new [OF fin h, of "locked_on j"] f by (simp add: on_defs)
  have old: "k_fstat K (kern s) (ofd g) = Some j \<and> lockHash s (j, k_getpid K) = Some (pLock g) \<and>
      openHash s j = Some (pOpen g) \<and> dirfd g = -1 \<and> ofd g \<noteq> d" if "F h' = Some (g, j)" for h' g j
    using that inv new(1) unfolding os_inv_def by (metis option.distinct(1))
  show "finite (dom ?F)" using fin by simp
  show "\<not> inMutex s'" by fact
  show "k_fstat K (kern s') (ofd g) = Some j \<and> lockHash s' (j, k_getpid K) = Some (pLock g) \<and>
        openHash s' j = Some (pOpen g) \<and> dirfd g = -1" if "?F h' = Some (g, j)" for h' g j
    using that old [of h' g j] new hash f entry by (auto split: if_splits)
  show "h1 = h2" if "?F h1 = Some (g1, j1)" "?F h2 = Some (g2, j2)" "ofd g1 = ofd g2" for h1 h2 g1 g2 j1 j2
  proof (cases "h1 = h \<or> h2 = h")
    case True
    then show ?thesis using that old [of h1 g1 j1] old [of h2 g2 j2] f by (auto split: if_splits)
  next
    case False
    then show ?thesis using that inv unfolding os_inv_def by (auto split: if_splits)
  qed
  show "inode_ok K klock ?F s' j" for j
  proof (cases "j = i")
    case True
    have "entry_ok K klock ?F (kern s') i li' oc'"
      using entry
    proof (elim disjE)
      assume "lockHash s (i, k_getpid K) = None \<and> openHash s i = None \<and> lockMem s p = None \<and> openMem s q = None \<and>
        li' = \<lparr>li_key = (i, k_getpid K), cnt = 0, li_nRef = 1\<rparr> \<and>
        oc' = \<lparr>oc_key = i, oc_nRef = 1, nLock = 0, nPending = 0, aPending = []\<rparr>"
      then show ?thesis
        using ok [of i] nh_on [of i] nh_lock [of i] same nh_locked_0 [OF fin, of i]
        by (auto simp: inode_ok_def entry_ok_def lock_mode_def)
    next
      assume "lockHash s (i, k_getpid K) = Some p \<and> openHash s i = Some q \<and>
        (\<exists>li oc. lockMem s p = Some li \<and> openMem s q = Some oc \<and>
          li' = li\<lparr>li_nRef := li_nRef li + 1\<rparr> \<and> oc' = oc\<lparr>oc_nRef := oc_nRef oc + 1\<rparr>)"
      then show ?thesis
        using ok [of i] nh_on [of i] nh_lock [of i] same new f
        by (auto simp: inode_ok_def entry_ok_def) blast+
    qed
    then show ?thesis using True by (simp add: inode_ok_def hash mem)
  next
    case False
    note d = inode_ok_distinct [OF ok [of j] ok [of i] False]
    show ?thesis
    proof (rule inode_ok_frame [OF ok [of j]])
      show "lockMem s' a = lockMem s a" if "lockHash s (j, k_getpid K) = Some a" for a
        using d(1) [OF that] that inode_ok_fresh_lock [OF ok [of j]] entry mem by auto
      show "openMem s' b = openMem s b" if "openHash s j = Some b" for b
        using d(2) [OF that] that inode_ok_fresh_open [OF ok [of j]] entry mem by auto
      show "k_fstat K (kern s') e = Some j \<and> (\<forall>h f j. ?F h = Some (f, j) \<longrightarrow> ofd f \<noteq> e)"
        if "k_fstat K (kern s) e = Some j" "\<forall>h f j. F h = Some (f, j) \<longrightarrow> ofd f \<noteq> e" for e
        using that new f by (auto split: if_splits)
    qed (use False hash same nh_on nh_lock in simp_all)
  qed
qed


text \<open>An open that found no memory: the inode has no handle, and closing the descriptor is harmless.\<close>

lemma os_inv_open_failed:
  assumes K: "posix_kernel K klock" and inv: "os_inv K klock F s"
    and new: "k_fstat K (kern s) d = None" "k_fstat K k1 = (k_fstat K (kern s))(d \<mapsto> i)"
    and same: "klock k1 = klock (kern s)" and none: "lockHash s (i, k_getpid K) = None"
  shows "os_inv K klock F (s\<lparr>kern := k_close K k1 d\<rparr>)"
proof (rule os_inv_same [OF inv])
  have "inode_ok K klock F s i" using inv unfolding os_inv_def by blast
  then have "klock (kern s) i = F_UNLCK"
    using none by (auto simp: inode_ok_def split: option.splits)
  then show "klock (kern (s\<lparr>kern := k_close K k1 d\<rparr>)) = klock (kern s)"
    using posix_close(2) [OF K, of k1 d i] new same by (simp add: fun_upd_idem)
  show "k_fstat K (kern (s\<lparr>kern := k_close K k1 d\<rparr>)) = k_fstat K (kern s)"
    using posix_close(1) [OF K, of k1 d i] new by (simp add: fun_upd_idem)
qed (use inv in \<open>simp_all add: os_inv_def\<close>)

definition alloc_fresh :: "os_alloc \<Rightarrow> 's os \<Rightarrow> bool" where
  "alloc_fresh al s \<longleftrightarrow>
     (\<forall>p. a_lock al = Some p \<longrightarrow> lockMem s p = None) \<and> (\<forall>q. a_open al = Some q \<longrightarrow> openMem s q = None)"

lemma open_finish_inv:
  assumes K: "posix_kernel K klock" and inv: "os_inv K klock F s" and h: "F h = None"
    and new: "k_fstat K (kern s) d = None" "k_fstat K k1 = (k_fstat K (kern s))(d \<mapsto> i)"
    and same: "klock k1 = klock (kern s)" and al: "alloc_fresh al s"
  obtains s' where "open_finish K al d (s\<lparr>kern := k1\<rparr>) = Some (Inl SQLITE_NOMEM, s')" "os_inv K klock F s'"
      "k_fstat K (kern s') = k_fstat K (kern s)" "klock (kern s') = klock (kern s)"
  | f s' where "open_finish K al d (s\<lparr>kern := k1\<rparr>) = Some (Inr f, s')"
      "os_inv K klock (F(h \<mapsto> (f, i))) s'" "k_fstat K (kern s') (ofd f) = Some i"
proof (cases "lockHash s (i, k_getpid K)")
  case none: None
  have ok: "inode_ok K klock F s i" and m: "\<not> inMutex s" using inv unfolding os_inv_def by blast+
  then have none2: "openHash s i = None"
    using none by (auto simp: inode_ok_def split: option.splits)
  note simps = open_finish_def findLockInfo_def findLock_def findOpen_def releaseLockInfo_def os_step_simps
  show ?thesis
  proof (cases "\<exists>p q. a_lock al = Some p \<and> a_lock_hash al \<and> a_open al = Some q \<and> a_open_hash al")
    case True
    then obtain p q where a: "a_lock al = Some p" "a_lock_hash al" "a_open al = Some q" "a_open_hash al"
      by blast
    let ?f = "\<lparr>pOpen = q, pLock = p, ofd = d, locked = False, dirfd = -1\<rparr>"
    let ?li = "\<lparr>li_key = (i, k_getpid K), cnt = 0, li_nRef = 1\<rparr>"
    let ?oc = "\<lparr>oc_key = i, oc_nRef = 1, nLock = 0, nPending = 0, aPending = []\<rparr>"
    let ?s = "s\<lparr>kern := k1, lockMem := (lockMem s)(p \<mapsto> ?li), lockHash := (lockHash s)((i, k_getpid K) \<mapsto> p),
        openMem := (openMem s)(q \<mapsto> ?oc), openHash := (openHash s)(i \<mapsto> q)\<rparr>"
    have "open_finish K al d (s\<lparr>kern := k1\<rparr>) = Some (Inr ?f, ?s)"
      using a m none none2 new(2) by (simp add: simps)
    then show ?thesis
    proof (rule that(2))
      show "os_inv K klock (F(h \<mapsto> (?f, i))) ?s"
        by (rule os_inv_add [OF inv h new(1), where p = p and q = q and li' = ?li and oc' = ?oc])
          (use a al new none none2 same m in \<open>auto simp: alloc_fresh_def\<close>)
    qed (use new in simp)
  next
    case False
    have "open_finish K al d (s\<lparr>kern := k1\<rparr>) = Some (Inl SQLITE_NOMEM, s\<lparr>kern := k_close K k1 d\<rparr>)"
      using False m none none2 new(2) al
      by (auto simp: simps alloc_fresh_def fun_upd_idem intro!: os.equality split: option.split)
    then show ?thesis
      using that(1) os_inv_open_failed [OF K inv new same none] posix_close [OF K, of k1 d i] new same ok none none2
      by (simp add: fun_upd_idem inode_ok_def)
  qed
next
  case (Some p)
  have ok: "inode_ok K klock F s i" and m: "\<not> inMutex s" using inv unfolding os_inv_def by blast+
  then obtain q li oc where e: "openHash s i = Some q" "lockMem s p = Some li" "openMem s q = Some oc"
    using Some by (auto simp: inode_ok_def split: option.splits)
  let ?f = "\<lparr>pOpen = q, pLock = p, ofd = d, locked = False, dirfd = -1\<rparr>"
  let ?s = "s\<lparr>kern := k1, lockMem := (lockMem s)(p \<mapsto> li\<lparr>li_nRef := li_nRef li + 1\<rparr>),
      openMem := (openMem s)(q \<mapsto> oc\<lparr>oc_nRef := oc_nRef oc + 1\<rparr>)\<rparr>"
  have "open_finish K al d (s\<lparr>kern := k1\<rparr>) = Some (Inr ?f, ?s)"
    using Some e m new(2) by (simp add: open_finish_def findLockInfo_def findLock_def findOpen_def os_step_simps)
  then show ?thesis
  proof (rule that(2))
    show "os_inv K klock (F(h \<mapsto> (?f, i))) ?s"
      by (rule os_inv_add [OF inv h new(1), where p = p and q = q and
            li' = "li\<lparr>li_nRef := li_nRef li + 1\<rparr>" and oc' = "oc\<lparr>oc_nRef := oc_nRef oc + 1\<rparr>"])
        (use Some e new same m in \<open>auto simp: fun_upd_idem\<close>)
  qed (use new in simp)
qed


subsection \<open>Runs of the program\<close>

definition add_handle :: "'s kernel \<Rightarrow> handles \<Rightarrow> nat \<Rightarrow> rc + OsFile \<Rightarrow> 's os \<Rightarrow> handles" where
  "add_handle K F h r s =
     (case r of
        Inl _ \<Rightarrow> F
      | Inr f \<Rightarrow> (case k_fstat K (kern s) (ofd f) of None \<Rightarrow> F | Some i \<Rightarrow> F(h \<mapsto> (f, i))))"

inductive os_step :: "'s kernel \<Rightarrow> handles \<times> 's os \<Rightarrow> handles \<times> 's os \<Rightarrow> bool" for K where
  open_rw: "F h = None \<Longrightarrow> alloc_fresh al s \<Longrightarrow>
    sqliteOsOpenReadWrite K al name s = Some (ro, r, s') \<Longrightarrow> os_step K (F, s) (add_handle K F h r s', s')"
| open_ro: "F h = None \<Longrightarrow> alloc_fresh al s \<Longrightarrow>
    sqliteOsOpenReadOnly K al name s = Some (r, s') \<Longrightarrow> os_step K (F, s) (add_handle K F h r s', s')"
| open_excl: "F h = None \<Longrightarrow> alloc_fresh al s \<Longrightarrow>
    sqliteOsOpenExclusive K al name del s = Some (r, s') \<Longrightarrow> os_step K (F, s) (add_handle K F h r s', s')"
| read_lock: "F h = Some (f, i) \<Longrightarrow>
    sqliteOsReadLock K f s = Some (rc, f', s') \<Longrightarrow> os_step K (F, s) (F(h \<mapsto> (f', i)), s')"
| write_lock: "F h = Some (f, i) \<Longrightarrow>
    sqliteOsWriteLock K f s = Some (rc, f', s') \<Longrightarrow> os_step K (F, s) (F(h \<mapsto> (f', i)), s')"
| unlock: "F h = Some (f, i) \<Longrightarrow>
    sqliteOsUnlock K f s = Some (rc, f', s') \<Longrightarrow> os_step K (F, s) (F(h \<mapsto> (f', i)), s')"
| close: "F h = Some (f, i) \<Longrightarrow>
    sqliteOsClose K True f s = Some (rc, s') \<Longrightarrow> os_step K (F, s) (F(h := None), s')"

definition os_start :: "('s \<Rightarrow> inode \<Rightarrow> lock_type) \<Rightarrow> 's os \<Rightarrow> bool" where
  "os_start klock s \<longleftrightarrow>
     lockHash s = Map.empty \<and> openHash s = Map.empty \<and> \<not> inMutex s \<and> (\<forall>i. klock (kern s) i = F_UNLCK)"

lemma posix_open:
  assumes "posix_kernel K klock" "k_open K k name flags = (d, e, k')"
  shows "klock k' = klock k" "d < 0 \<Longrightarrow> k_fstat K k' = k_fstat K k"
    "\<not> d < 0 \<Longrightarrow> k_fstat K k d = None \<and> (\<exists>i. k_fstat K k' = (k_fstat K k)(d \<mapsto> i))"
  using assms unfolding posix_kernel_def by metis+

lemma os_inv_kern:
  "os_inv K klock F s \<Longrightarrow> klock k = klock (kern s) \<Longrightarrow> k_fstat K k = k_fstat K (kern s) \<Longrightarrow>
   os_inv K klock F (s\<lparr>kern := k\<rparr>)"
  by (rule os_inv_same) (auto simp: os_inv_def)

lemma open_finish_add:
  assumes K: "posix_kernel K klock" and inv: "os_inv K klock F s" and h: "F h = None" and al: "alloc_fresh al s"
    and d: "k_fstat K (kern s) d = None" "k_fstat K k1 = (k_fstat K (kern s))(d \<mapsto> i)" "klock k1 = klock (kern s)"
  obtains r s' where "open_finish K al d (s\<lparr>kern := k1\<rparr>) = Some (r, s')"
    "os_inv K klock (add_handle K F h r s') s'"
  using open_finish_inv [OF K inv h d al]
  by (rule; simp add: add_handle_def)

lemma open_file_add:
  assumes K: "posix_kernel K klock" and inv: "os_inv K klock F s" and h: "F h = None" and al: "alloc_fresh al s"
    and k0: "klock k0 = klock (kern s)" "k_fstat K k0 = k_fstat K (kern s)"
    and op: "k_open K k0 name flags = (d, e, k1)"
  shows "d < 0 \<Longrightarrow> os_inv K klock F (s\<lparr>kern := k1\<rparr>)"
    and "\<not> d < 0 \<Longrightarrow> \<exists>r s'. open_finish K al d (s\<lparr>kern := k1\<rparr>) = Some (r, s') \<and>
       os_inv K klock (add_handle K F h r s') s'"
proof -
  note o = posix_open [OF K op]
  show "os_inv K klock F (s\<lparr>kern := k1\<rparr>)" if "d < 0"
    using os_inv_kern [OF inv] o that k0 by simp
  show "\<exists>r s'. open_finish K al d (s\<lparr>kern := k1\<rparr>) = Some (r, s') \<and> os_inv K klock (add_handle K F h r s') s'"
    if "\<not> d < 0"
    using o(1) o(3) [OF that] k0 open_finish_add [OF K inv h al, of d k1] by metis
qed

lemma sqliteOsOpen_inv:
  assumes K: "posix_kernel K klock" and inv: "os_inv K klock F s" and h: "F h = None" and al: "alloc_fresh al s"
  shows "\<exists>ro r s'. sqliteOsOpenReadWrite K al name s = Some (ro, r, s') \<and> os_inv K klock (add_handle K F h r s') s'"
    and "\<exists>r s'. sqliteOsOpenReadOnly K al name s = Some (r, s') \<and> os_inv K klock (add_handle K F h r s') s'"
    and "\<exists>r s'. sqliteOsOpenExclusive K al name del s = Some (r, s') \<and> os_inv K klock (add_handle K F h r s') s'"
proof -
  have un: "os_inv K klock (add_handle K F h r s1) s1 \<Longrightarrow>
      os_inv K klock (add_handle K F h r (s1\<lparr>kern := k_unlink K (kern s1) name\<rparr>)) (s1\<lparr>kern := k_unlink K (kern s1) name\<rparr>)" for r s1
  proof -
    assume a: "os_inv K klock (add_handle K F h r s1) s1"
    have u: "k_fstat K (k_unlink K (kern s1) name) = k_fstat K (kern s1)"
        "klock (k_unlink K (kern s1) name) = klock (kern s1)"
      using K unfolding posix_kernel_def by blast+
    then have "add_handle K F h r (s1\<lparr>kern := k_unlink K (kern s1) name\<rparr>) = add_handle K F h r s1"
      by (simp add: add_handle_def split: sum.split)
    then show ?thesis
      using os_inv_kern [OF a u(2,1)] by simp
  qed
  note o = open_file_add [OF K inv h al]
  show "\<exists>ro r s'. sqliteOsOpenReadWrite K al name s = Some (ro, r, s') \<and> os_inv K klock (add_handle K F h r s') s'"
  proof -
    obtain d e k1 where c: "k_open K (kern s) name O_RDWR_CREAT = (d, e, k1)" by (cases "k_open K (kern s) name O_RDWR_CREAT") auto
    obtain d2 e2 k2 where c2: "k_open K k1 name O_RDONLY = (d2, e2, k2)" by (cases "k_open K k1 name O_RDONLY") auto
    show ?thesis
      using o [OF refl refl c] o [OF _ _ c2] posix_open [OF K c]
      by (cases "d < 0"; cases "d2 < 0"; cases e)
        (auto simp: sqliteOsOpenReadWrite_def c c2 add_handle_def)
  qed
  show "\<exists>r s'. sqliteOsOpenReadOnly K al name s = Some (r, s') \<and> os_inv K klock (add_handle K F h r s') s'"
  proof -
    obtain d e k1 where c: "k_open K (kern s) name O_RDONLY = (d, e, k1)" by (cases "k_open K (kern s) name O_RDONLY") auto
    show ?thesis
      using o [OF refl refl c] by (cases "d < 0") (auto simp: sqliteOsOpenReadOnly_def c add_handle_def)
  qed
  show "\<exists>r s'. sqliteOsOpenExclusive K al name del s = Some (r, s') \<and> os_inv K klock (add_handle K F h r s') s'"
  proof -
    obtain d e k1 where c: "k_open K (kern s) name O_RDWR_EXCL = (d, e, k1)" by (cases "k_open K (kern s) name O_RDWR_EXCL") auto
    have "os_inv K klock (add_handle K F h (Inl SQLITE_CANTOPEN) s) s" using inv by (simp add: add_handle_def)
    then show ?thesis
      using o [OF refl refl c] un by (cases "d < 0") (auto simp: sqliteOsOpenExclusive_def c add_handle_def [of _ _ _ "Inl _"])
  qed
qed


lemma os_step_inv:
  assumes K: "posix_kernel K klock" and "os_step K x y" "os_inv K klock (fst x) (snd x)"
  shows "os_inv K klock (fst y) (snd y)"
  using assms(2,3)
proof (induction rule: os_step.induct)
  case (open_rw F h al s name ro r s')
  then show ?case using sqliteOsOpen_inv(1) [OF K, of F s h al name] by auto
next
  case (open_ro F h al s name r s')
  then show ?case using sqliteOsOpen_inv(2) [OF K, of F s h al name] by auto
next
  case (open_excl F h al s name del r s')
  then show ?case using sqliteOsOpen_inv(3) [OF K, of F s h al name del] by auto
next
  case (read_lock F h f i s rc f' s')
  then have inv: "os_inv K klock F s" by simp
  have "os_inv K klock (F(h \<mapsto> (f', i))) s'"
    by (rule sqliteOsReadLock_inv [OF K inv read_lock.hyps(1)]) (use read_lock.hyps(2) in auto)
  then show ?case by (simp only: fst_conv snd_conv)
next
  case (write_lock F h f i s rc f' s')
  then have inv: "os_inv K klock F s" by simp
  have "os_inv K klock (F(h \<mapsto> (f', i))) s'"
    by (rule sqliteOsWriteLock_inv [OF K inv write_lock.hyps(1)]) (use write_lock.hyps(2) in auto)
  then show ?case by (simp only: fst_conv snd_conv)
next
  case (unlock F h f i s rc f' s')
  then have inv: "os_inv K klock F s" by simp
  have "os_inv K klock (F(h \<mapsto> (f', i))) s'"
    by (rule sqliteOsUnlock_inv [OF K inv unlock.hyps(1)]) (use unlock.hyps(2) in auto)
  then show ?case by (simp only: fst_conv snd_conv)
next
  case (close F h f i s rc s')
  then have inv: "os_inv K klock F s" by simp
  have "os_inv K klock (F(h := None)) s'"
    by (rule sqliteOsClose_inv [OF K inv close.hyps(1)]) (use close.hyps(2) in auto)
  then show ?case by (simp only: fst_conv snd_conv)
qed

lemma os_reachable_inv:
  assumes "posix_kernel K klock" "os_start klock s0" "(os_step K)\<^sup>*\<^sup>* (Map.empty, s0) (F, s)"
  shows "os_inv K klock F s"
proof -
  have "os_inv K klock Map.empty s0"
    using assms(2) by (intro os_invI) (auto simp: os_start_def inode_ok_def nh_def)
  with assms(3) have "os_inv K klock (fst (F, s)) (snd (F, s))"
    by (induction rule: rtranclp_induct) (auto dest: os_step_inv [OF assms(1)])
  then show ?thesis by simp
qed

subsection \<open>Properties\<close>



text \<open>A small system with two descriptors and no other process: every request is granted.\<close>

type_synonym small = "(fd \<rightharpoonup> inode) \<times> (inode \<Rightarrow> lock_type)"

definition queue_file :: inode where
  "queue_file = Inode 8 77"

definition small_kernel :: "small kernel" where
  "small_kernel =
    \<lparr>k_fcntl = (\<lambda>k fd cmd l. case fst k fd of
         None \<Rightarrow> (-1, EOTHER 9, l, k) | Some i \<Rightarrow> (0, EOTHER 0, l, (fst k, (snd k)(i := l_type l)))),
     k_close = (\<lambda>k fd. case fst k fd of
         None \<Rightarrow> k | Some i \<Rightarrow> ((fst k)(fd := None), (snd k)(i := F_UNLCK))),
     k_fstat = fst,
     k_open = (\<lambda>k name fl. if fst k 3 = None then (3, False, ((fst k)(3 \<mapsto> queue_file), snd k))
         else if fst k 4 = None then (4, False, ((fst k)(4 \<mapsto> queue_file), snd k)) else (-1, False, k)),
     k_access = (\<lambda>k name. True),
     k_unlink = (\<lambda>k name. k),
     k_getpid = 100\<rparr>"

definition small_start :: "small os" where
  "small_start = \<lparr>lockHash = Map.empty, openHash = Map.empty, lockMem = Map.empty, openMem = Map.empty,
     inMutex = False, kern = (Map.empty, \<lambda>_. F_UNLCK)\<rparr>"

definition small_alloc :: os_alloc where
  "small_alloc = \<lparr>a_lock = Some 1, a_lock_hash = True, a_open = Some 1, a_open_hash = True\<rparr>"

lemma small_posix: "posix_kernel small_kernel snd"
  by (auto simp: posix_kernel_def small_kernel_def lock_file_def split: if_splits option.splits)

lemma small_start_ok: "os_start snd small_start"
  by (simp add: os_start_def small_start_def)

definition small_file :: "fd \<Rightarrow> bool \<Rightarrow> OsFile" where
  "small_file fd l = \<lparr>pOpen = 1, pLock = 1, ofd = fd, locked = l, dirfd = -1\<rparr>"

definition small_state :: "(fd \<rightharpoonup> inode) \<Rightarrow> lock_type \<Rightarrow> int \<Rightarrow> int \<Rightarrow> int \<Rightarrow> fd list \<Rightarrow> small os" where
  "small_state fds t c n k a =
    \<lparr>lockHash = [(queue_file, 100) \<mapsto> 1], openHash = [queue_file \<mapsto> 1],
     lockMem = [1 \<mapsto> \<lparr>li_key = (queue_file, 100), cnt = c, li_nRef = n\<rparr>],
     openMem = [1 \<mapsto> \<lparr>oc_key = queue_file, oc_nRef = n, nLock = k, nPending = length a, aPending = a\<rparr>],
     inMutex = False, kern = (fds, (\<lambda>_. F_UNLCK)(queue_file := t))\<rparr>"

lemmas small_simps =
  small_kernel_def small_start_def small_alloc_def small_file_def small_state_def add_handle_def
  sqliteOsOpenReadWrite_def open_finish_def findLockInfo_def findLock_def findOpen_def os_step_simps
  sqliteOsReadLock_def sqliteOsClose_def sqliteOsUnlock_def set_file_lock_def lock_file_def defer_close_def
  releaseLockInfo_def releaseOpenCnt_def

lemma small_open_1:
  "os_step small_kernel (Map.empty, small_start)
     ([0 \<mapsto> (small_file 3 False, queue_file)], small_state [3 \<mapsto> queue_file] F_UNLCK 0 1 0 [])"
  using os_step.open_rw [where F = Map.empty and h = 0 and al = small_alloc and s = small_start and
      K = small_kernel and name = "''queue.db''" and ro = False and r = "Inr (small_file 3 False)" and
      s' = "small_state [3 \<mapsto> queue_file] F_UNLCK 0 1 0 []"]
  by (simp add: small_simps alloc_fresh_def fun_upd_idem)

lemma small_open_2:
  "os_step small_kernel ([0 \<mapsto> (small_file 3 False, queue_file)], small_state [3 \<mapsto> queue_file] F_UNLCK 0 1 0 [])
     ([0 \<mapsto> (small_file 3 False, queue_file), 1 \<mapsto> (small_file 4 False, queue_file)],
      small_state [3 \<mapsto> queue_file, 4 \<mapsto> queue_file] F_UNLCK 0 2 0 [])"
  using os_step.open_rw [where F = "[0 \<mapsto> (small_file 3 False, queue_file)]" and h = 1 and
      al = "small_alloc\<lparr>a_lock := None, a_open := None\<rparr>" and
      s = "small_state [3 \<mapsto> queue_file] F_UNLCK 0 1 0 []" and
      K = small_kernel and name = "''queue.db''" and ro = False and r = "Inr (small_file 4 False)" and
      s' = "small_state [3 \<mapsto> queue_file, 4 \<mapsto> queue_file] F_UNLCK 0 2 0 []"]
  by (simp add: small_simps alloc_fresh_def fun_upd_idem)

lemma small_lock:
  "os_step small_kernel
     ([0 \<mapsto> (small_file 3 False, queue_file), 1 \<mapsto> (small_file 4 False, queue_file)],
      small_state [3 \<mapsto> queue_file, 4 \<mapsto> queue_file] F_UNLCK 0 2 0 [])
     ([0 \<mapsto> (small_file 3 True, queue_file), 1 \<mapsto> (small_file 4 False, queue_file)],
      small_state [3 \<mapsto> queue_file, 4 \<mapsto> queue_file] F_RDLCK 1 2 1 [])"
  using os_step.read_lock [where h = 0 and f = "small_file 3 False" and i = queue_file and
      F = "[0 \<mapsto> (small_file 3 False, queue_file), 1 \<mapsto> (small_file 4 False, queue_file)]" and
      s = "small_state [3 \<mapsto> queue_file, 4 \<mapsto> queue_file] F_UNLCK 0 2 0 []" and
      K = small_kernel and f' = "small_file 3 True" and rc = SQLITE_OK and
      s' = "small_state [3 \<mapsto> queue_file, 4 \<mapsto> queue_file] F_RDLCK 1 2 1 []"]
  by (simp add: small_simps fun_upd_twist)

lemma small_close:
  "os_step small_kernel
     ([0 \<mapsto> (small_file 3 True, queue_file), 1 \<mapsto> (small_file 4 False, queue_file)],
      small_state [3 \<mapsto> queue_file, 4 \<mapsto> queue_file] F_RDLCK 1 2 1 [])
     ([0 \<mapsto> (small_file 3 True, queue_file)],
      small_state [3 \<mapsto> queue_file, 4 \<mapsto> queue_file] F_RDLCK 1 1 1 [4])"
  using os_step.close [where h = 1 and f = "small_file 4 False" and i = queue_file and
      F = "[0 \<mapsto> (small_file 3 True, queue_file), 1 \<mapsto> (small_file 4 False, queue_file)]" and
      s = "small_state [3 \<mapsto> queue_file, 4 \<mapsto> queue_file] F_RDLCK 1 2 1 []" and
      K = small_kernel and rc = SQLITE_OK and
      s' = "small_state [3 \<mapsto> queue_file, 4 \<mapsto> queue_file] F_RDLCK 1 1 1 [4]"]
  by (simp add: small_simps)

lemma small_run:
  "(os_step small_kernel)\<^sup>*\<^sup>* (Map.empty, small_start)
     ([0 \<mapsto> (small_file 3 True, queue_file)],
      small_state [3 \<mapsto> queue_file, 4 \<mapsto> queue_file] F_RDLCK 1 1 1 [4])"
  by (rule converse_rtranclp_into_rtranclp, rule small_open_1 small_open_2 small_lock small_close)+
    (rule rtranclp.rtrancl_refl)





text \<open>
  C20. Exclusion between the handles of one process, which the operating system does not provide: a
  write lock is refused while another handle of the same file is locked, a read lock is refused while
  another handle has the write lock, and further read locks are granted without a system call.
\<close>

theorem os_lock_exclusion:
  assumes "posix_kernel K klock" and "os_start klock s0"
    and "(os_step K)\<^sup>*\<^sup>* (Map.empty, s0) (F, s)"
    and "F h = Some (f, i)" and "F g = Some (f2, i)" and "g \<noteq> h" and "locked f2"
  shows "sqliteOsWriteLock K f s = Some (SQLITE_BUSY, f, s) \<and>
    (klock (kern s) i = F_WRLCK \<longrightarrow> sqliteOsReadLock K f s = Some (SQLITE_BUSY, f, s)) \<and>
    (klock (kern s) i = F_RDLCK \<longrightarrow>
       (\<exists>s'. sqliteOsReadLock K f s = Some (SQLITE_OK, f\<lparr>locked := True\<rparr>, s') \<and> kern s' = kern s))"
proof -
  have inv: "os_inv K klock F s" by (rule os_reachable_inv [OF assms(1-3)])
  from os_invD [OF inv assms(4)] obtain li oc where
    li: "lockMem s (pLock f) = Some li" "openMem s (pOpen f) = Some oc"
    and e: "entry_ok K klock F (kern s) i li oc" and fin: "finite (dom F)" and m: "\<not> inMutex s" .
  have 1: "1 \<le> nh (locked_on i) (F(h := None))"
    using nh_ge_1 [of "F(h := None)" g "(f2, i)" "locked_on i"] assms(5-7) fin by (simp add: on_defs)
  then have n: "1 + of_bool (locked f) \<le> nLock oc"
    using nh_del [OF fin assms(4), of "locked_on i"] e by (simp add: on_defs entry_ok_def)
  then have n1: "1 \<le> nLock oc" by (cases "locked f") auto
  have c: "cnt li = nLock oc \<or> cnt li = -1 \<and> \<not> locked f" "klock (kern s) i = lock_mode (cnt li)"
    using e n unfolding entry_ok_def by auto
  have "cnt li \<noteq> 0" "\<not> (cnt li = 1 \<and> locked f)"
    using c n by (auto simp: of_bool_def split: if_splits)
  then have "sqliteOsWriteLock K f s = Some (SQLITE_BUSY, f, s)"
    using li m by (auto simp: sqliteOsWriteLock_def os_step_simps)
  moreover have "sqliteOsReadLock K f s = Some (SQLITE_BUSY, f, s)" if "klock (kern s) i = F_WRLCK"
  proof -
    have "cnt li = -1" "\<not> locked f" using that c n n1 by (auto simp: lock_mode_def split: if_splits)
    then show ?thesis using li m by (simp add: sqliteOsReadLock_def os_step_simps)
  qed
  moreover have "\<exists>s'. sqliteOsReadLock K f s = Some (SQLITE_OK, f\<lparr>locked := True\<rparr>, s') \<and> kern s' = kern s"
    if "klock (kern s) i = F_RDLCK"
  proof -
    have "0 < cnt li" using that c n n1 by (auto simp: lock_mode_def split: if_splits)
    then show ?thesis using li m by (auto simp: sqliteOsReadLock_def os_step_simps)
  qed
  ultimately show ?thesis by blast
qed

lemma small_run_2:
  "(os_step small_kernel)\<^sup>*\<^sup>* (Map.empty, small_start)
     ([0 \<mapsto> (small_file 3 True, queue_file), 1 \<mapsto> (small_file 4 False, queue_file)],
      small_state [3 \<mapsto> queue_file, 4 \<mapsto> queue_file] F_RDLCK 1 2 1 [])"
  by (rule converse_rtranclp_into_rtranclp, rule small_open_1 small_open_2 small_lock)+
    (rule rtranclp.rtrancl_refl)

theorem os_lock_exclusion_witness:
  "sqliteOsWriteLock small_kernel (small_file 4 False)
     (small_state [3 \<mapsto> queue_file, 4 \<mapsto> queue_file] F_RDLCK 1 2 1 []) =
   Some (SQLITE_BUSY, small_file 4 False, small_state [3 \<mapsto> queue_file, 4 \<mapsto> queue_file] F_RDLCK 1 2 1 [])"
  by (rule os_lock_exclusion [OF small_posix small_start_ok small_run_2, of 1 "small_file 4 False" queue_file
        0 "small_file 3 True", THEN conjunct1])
    (simp_all add: small_file_def)

lemma close_pending_short: "length a < n \<Longrightarrow> close_pending K n a k = None"
  by (induction K n a k rule: close_pending.induct) auto

text \<open>
  C35. When the array of deferred closes cannot grow, \<open>sqliteOsClose\<close> still counts the descriptor, so
  the unlock that releases the last lock of the file reads outside the array.
\<close>

theorem sqliteOsClose_realloc_failure:
  assumes K: "posix_kernel K klock" and "os_start klock s0"
    and "(os_step K)\<^sup>*\<^sup>* (Map.empty, s0) (F, s)"
    and h: "F h = Some (f, i)" and lf: "\<not> locked f" and g: "F g = Some (f2, i)" and "locked f2"
    and only: "\<forall>h' f'. F h' = Some (f', i) \<and> locked f' \<longrightarrow> h' = g"
  shows "\<exists>s'. sqliteOsClose K False f s = Some (SQLITE_OK, s') \<and> sqliteOsUnlock K f2 s' = None"
proof -
  have inv: "os_inv K klock F s" by (rule os_reachable_inv [OF assms(1-3)])
  from os_invD [OF inv h] obtain li oc where
    li: "lockMem s (pLock f) = Some li" and oc: "openMem s (pOpen f) = Some oc"
    and e: "entry_ok K klock F (kern s) i li oc" and d: "dirfd f = -1" and fin: "finite (dom F)"
    and m: "\<not> inMutex s" .
  have link: "lockHash s (i, k_getpid K) = Some (pLock f')" "openHash s i = Some (pOpen f')"
      "k_fstat K (kern s) (ofd f') = Some i" if "F h' = Some (f', i)" for h' f'
    using inv that unfolding os_inv_def by blast+
  have same: "pLock f2 = pLock f" "pOpen f2 = pOpen f" and st: "k_fstat K (kern s) (ofd f2) = Some i"
    using link [OF h] link [OF g] by simp_all
  have "nh (locked_on i) (F(g := None)) = 0"
    using only fin by (subst nh_eq_0) (auto simp: on_defs)
  then have n1: "nLock oc = 1" "cnt li = 1 \<or> cnt li = -1" and np: "nPending oc = length (aPending oc)"
      and ref: "li_nRef li = nh (on i) F" "oc_nRef oc = nh (on i) F"
    using nh_del [OF fin g, of "locked_on i"] \<open>locked f2\<close> e by (auto simp: on_defs entry_ok_def)
  have "h \<noteq> g" using h g lf \<open>locked f2\<close> by auto
  then have "1 \<le> nh (on i) (F(h := None))"
    using nh_ge_1 [of "F(h := None)" g "(f2, i)" "on i"] g fin by (simp add: on_defs)
  then have two: "nh (on i) F \<noteq> 1"
    using nh_del [OF fin h, of "on i"] by (simp add: on_defs)
  let ?s = "s\<lparr>lockMem := (lockMem s)(pLock f \<mapsto> li\<lparr>li_nRef := nh (on i) F - 1\<rparr>),
      openMem := (openMem s)(pOpen f \<mapsto> oc\<lparr>nPending := nPending oc + 1, oc_nRef := nh (on i) F - 1\<rparr>)\<rparr>"
  have "sqliteOsClose K False f s = Some (SQLITE_OK, ?s)"
    using lf li oc d m two n1(1) ref
    by (simp add: sqliteOsClose_def sqliteOsUnlock_def defer_close_def releaseLockInfo_def releaseOpenCnt_def os_step_simps)
  moreover have "sqliteOsUnlock K f2 ?s = None"
  proof -
    have st2: "k_fstat K (kern (?s\<lparr>inMutex := True\<rparr>)) (ofd f2) = Some i" using st by simp
    from set_file_lock_cases [OF K st2, of F_UNLCK] obtain rc k1 where
      rc: "set_file_lock K (ofd f2) F_UNLCK (?s\<lparr>inMutex := True\<rparr>) = (rc, ?s\<lparr>inMutex := True\<rparr>\<lparr>kern := k1\<rparr>)"
        "rc \<noteq> SQLITE_OK \<longrightarrow> klock k1 = klock (kern (?s\<lparr>inMutex := True\<rparr>)) \<and> F_UNLCK \<noteq> F_UNLCK" .
    then have fc: "set_file_lock K (ofd f2) F_UNLCK (?s\<lparr>inMutex := True\<rparr>) =
        (SQLITE_OK, ?s\<lparr>inMutex := True\<rparr>\<lparr>kern := k1\<rparr>)" by simp
    show ?thesis
      using n1 np fc m \<open>locked f2\<close> same close_pending_short [of "aPending oc" "Suc (nPending oc)" K k1]
      by (auto simp: sqliteOsUnlock_def unlock_count_def os_step_simps)
  qed
  ultimately show ?thesis by blast
qed

theorem sqliteOsClose_realloc_failure_witness:
  "\<exists>s'. sqliteOsClose small_kernel False (small_file 4 False)
     (small_state [3 \<mapsto> queue_file, 4 \<mapsto> queue_file] F_RDLCK 1 2 1 []) = Some (SQLITE_OK, s') \<and>
     sqliteOsUnlock small_kernel (small_file 3 True) s' = None"
  by (rule sqliteOsClose_realloc_failure [OF small_posix small_start_ok small_run_2, of 1 _ queue_file 0])
    (auto simp: small_file_def split: if_splits)

end
