(* ===== verification/Tokenize.thy ===== *)
theory Tokenize
  imports Util
begin

text \<open>
  The tokenizer \<^verbatim>\<open>tokenize.c\<close>: the keyword table and its hash, \<open>sqliteGetToken\<close>, the driver
  \<open>sqliteRunParser\<close> and \<open>sqlite_complete\<close>.

  A token code is the name of its \<open>TK_\<close> constant (the numbers are generated by the parser generator).
  The LALR parser is generated code: \<open>sqliteRunParser\<close> takes it as an argument.  A pointer into the
  SQL text is the rest of the text from there on, \<open>z[i]\<close> is \<open>zat z i\<close>.
\<close>

type_synonym token = string

subsection \<open>Keywords\<close>

definition aKeywordTable :: "(string \<times> token) list" where
  "aKeywordTable =
    [
     (''ABORT'', ''ABORT''), (''AFTER'', ''AFTER''), (''ALL'', ''ALL''), (''AND'', ''AND''),
     (''AS'', ''AS''), (''ASC'', ''ASC''), (''ATTACH'', ''ATTACH''), (''BEFORE'', ''BEFORE''),
     (''BEGIN'', ''BEGIN''), (''BETWEEN'', ''BETWEEN''), (''BY'', ''BY''), (''CASCADE'', ''CASCADE''),
     (''CASE'', ''CASE''), (''CHECK'', ''CHECK''), (''CLUSTER'', ''CLUSTER''), (''COLLATE'', ''COLLATE''),
     (''COMMIT'', ''COMMIT''), (''CONFLICT'', ''CONFLICT''), (''CONSTRAINT'', ''CONSTRAINT''), (''COPY'', ''COPY''),
     (''CREATE'', ''CREATE''), (''CROSS'', ''JOIN_KW''), (''DATABASE'', ''DATABASE''), (''DEFAULT'', ''DEFAULT''),
     (''DEFERRED'', ''DEFERRED''), (''DEFERRABLE'', ''DEFERRABLE''), (''DELETE'', ''DELETE''), (''DELIMITERS'', ''DELIMITERS''),
     (''DESC'', ''DESC''), (''DETACH'', ''DETACH''), (''DISTINCT'', ''DISTINCT''), (''DROP'', ''DROP''),
     (''END'', ''END''), (''EACH'', ''EACH''), (''ELSE'', ''ELSE''), (''EXCEPT'', ''EXCEPT''),
     (''EXPLAIN'', ''EXPLAIN''), (''FAIL'', ''FAIL''), (''FOR'', ''FOR''), (''FOREIGN'', ''FOREIGN''),
     (''FROM'', ''FROM''), (''FULL'', ''JOIN_KW''), (''GLOB'', ''GLOB''), (''GROUP'', ''GROUP''),
     (''HAVING'', ''HAVING''), (''IGNORE'', ''IGNORE''), (''IMMEDIATE'', ''IMMEDIATE''), (''IN'', ''IN''),
     (''INDEX'', ''INDEX''), (''INITIALLY'', ''INITIALLY''), (''INNER'', ''JOIN_KW''), (''INSERT'', ''INSERT''),
     (''INSTEAD'', ''INSTEAD''), (''INTERSECT'', ''INTERSECT''), (''INTO'', ''INTO''), (''IS'', ''IS''),
     (''ISNULL'', ''ISNULL''), (''JOIN'', ''JOIN''), (''KEY'', ''KEY''), (''LEFT'', ''JOIN_KW''),
     (''LIKE'', ''LIKE''), (''LIMIT'', ''LIMIT''), (''MATCH'', ''MATCH''), (''NATURAL'', ''JOIN_KW''),
     (''NOT'', ''NOT''), (''NOTNULL'', ''NOTNULL''), (''NULL'', ''NULL''), (''OF'', ''OF''),
     (''OFFSET'', ''OFFSET''), (''ON'', ''ON''), (''OR'', ''OR''), (''ORDER'', ''ORDER''),
     (''OUTER'', ''JOIN_KW''), (''PRAGMA'', ''PRAGMA''), (''PRIMARY'', ''PRIMARY''), (''RAISE'', ''RAISE''),
     (''REFERENCES'', ''REFERENCES''), (''REPLACE'', ''REPLACE''), (''RESTRICT'', ''RESTRICT''), (''RIGHT'', ''JOIN_KW''),
     (''ROLLBACK'', ''ROLLBACK''), (''ROW'', ''ROW''), (''SELECT'', ''SELECT''), (''SET'', ''SET''),
     (''STATEMENT'', ''STATEMENT''), (''TABLE'', ''TABLE''), (''TEMP'', ''TEMP''), (''TEMPORARY'', ''TEMP''),
     (''THEN'', ''THEN''), (''TRANSACTION'', ''TRANSACTION''), (''TRIGGER'', ''TRIGGER''), (''UNION'', ''UNION''),
     (''UNIQUE'', ''UNIQUE''), (''UPDATE'', ''UPDATE''), (''USING'', ''USING''), (''VACUUM'', ''VACUUM''),
     (''VALUES'', ''VALUES''), (''VIEW'', ''VIEW''), (''WHEN'', ''WHEN''), (''WHERE'', ''WHERE'')
    ]"

definition keyword_name :: "string \<times> token \<Rightarrow> cstring" where
  "keyword_name k = cstr (fst k)"

definition KEY_HASH_SIZE :: nat where
  "KEY_HASH_SIZE = 101"

definition keyword_hash :: "cstring \<Rightarrow> nat \<Rightarrow> nat" where
  "keyword_hash z n = unat (sqliteHashNoCase z (int n)) mod KEY_HASH_SIZE"

text \<open>
  The initialisation loop: \<open>ht\<close> is \<open>aiHashTable\<close> and \<open>nx\<close> the \<open>iNext\<close> fields of the entries before
  \<open>i\<close>, both of type \<open>u8\<close>.
\<close>

fun keyword_init :: "(string \<times> token) list \<Rightarrow> nat \<Rightarrow> nat list \<Rightarrow> nat list \<Rightarrow> nat list \<times> nat list" where
  "keyword_init [] i ht nx = (ht, nx)"
| "keyword_init (k # ks) i ht nx =
     (let h = keyword_hash (keyword_name k) (strlen (keyword_name k))
      in keyword_init ks (Suc i) (ht[h := (i + 1) mod 256]) (nx @ [ht ! h]))"

text \<open>
  The search along a chain, with the length of the table as a bound on the number of rounds; the
  theorem \<open>sqliteKeywordCode_correct\<close> below shows that the bound is never the reason to stop.
\<close>

fun keyword_loop :: "nat \<Rightarrow> (string \<times> token) list \<Rightarrow> nat list \<Rightarrow> cstring \<Rightarrow> nat \<Rightarrow> nat \<Rightarrow> token" where
  "keyword_loop 0 tab nx z n i = ''ID''"
| "keyword_loop (Suc fuel) tab nx z n i =
     (if i = 0 then ''ID''
      else let p = tab ! (i - 1)
           in if strlen (keyword_name p) = n \<and> sqliteStrNICmp (keyword_name p) z n = 0 then snd p
              else keyword_loop fuel tab nx z n (nx ! (i - 1)))"

definition sqliteKeywordCode :: "cstring \<Rightarrow> nat \<Rightarrow> token" where
  "sqliteKeywordCode z n =
     (let (ht, nx) = keyword_init aKeywordTable 0 (replicate KEY_HASH_SIZE 0) []
      in keyword_loop (length aKeywordTable) aKeywordTable nx z n (ht ! keyword_hash z n))"

subsection \<open>Tokens\<close>

definition isIdChar_table :: "nat list" where
  "isIdChar_table =
    [
     0, 0, 0, 0, 0, 0, 0, 0, 0, 0, 0, 0, 0, 0, 0, 0,
     0, 0, 0, 0, 0, 0, 0, 0, 0, 0, 0, 0, 0, 0, 0, 0,
     0, 0, 0, 0, 0, 0, 0, 0, 0, 0, 0, 0, 0, 0, 0, 0,
     1, 1, 1, 1, 1, 1, 1, 1, 1, 1, 0, 0, 0, 0, 0, 0,
     0, 1, 1, 1, 1, 1, 1, 1, 1, 1, 1, 1, 1, 1, 1, 1,
     1, 1, 1, 1, 1, 1, 1, 1, 1, 1, 1, 0, 0, 0, 0, 1,
     0, 1, 1, 1, 1, 1, 1, 1, 1, 1, 1, 1, 1, 1, 1, 1,
     1, 1, 1, 1, 1, 1, 1, 1, 1, 1, 1, 0, 0, 0, 0, 0
    ]"

definition isIdChar :: "u8 \<Rightarrow> bool" where
  "isIdChar c = (isIdChar_table ! unat c \<noteq> 0)"

text \<open>\<open>for(; P(z[i]); i++){}\<close> for a condition that fails at the terminator.\<close>

function scan :: "(u8 \<Rightarrow> bool) \<Rightarrow> cstring \<Rightarrow> nat \<Rightarrow> nat" where
  "scan P z i = (if zat z i \<noteq> 0 \<and> P (zat z i) then scan P z (Suc i) else i)"
  by pat_completeness auto
termination
  by (relation "measure (\<lambda>(P, z, i). length z - i)") (auto simp: zat_def split: if_splits)

declare scan.simps [simp del]

text \<open>\<open>for(i=3; z[i] && (z[i]!='/' || z[i-1]!='*'); i++){}\<close>\<close>

function comment_end :: "cstring \<Rightarrow> nat \<Rightarrow> nat" where
  "comment_end z i =
     (if zat z i \<noteq> 0 \<and> (zat z i \<noteq> 47 \<or> zat z (i - 1) \<noteq> 42) then comment_end z (Suc i) else i)"
  by pat_completeness auto
termination
  by (relation "measure (\<lambda>(z, i). length z - i)") (auto simp: zat_def split: if_splits)

declare comment_end.simps [simp del]

function string_end :: "u8 \<Rightarrow> cstring \<Rightarrow> nat \<Rightarrow> nat" where
  "string_end delim z i =
     (if zat z i = 0 then i
      else if zat z i = delim then
        if zat z (i + 1) = delim then string_end delim z (i + 2) else i
      else string_end delim z (i + 1))"
  by pat_completeness auto
termination
  by (relation "measure (\<lambda>(d, z, i). length z - i)") (auto simp: zat_def split: if_splits)

declare string_end.simps [simp del]

text \<open>\<open>for(i=1; z[i] && z[i-1]!=']'; i++){}\<close>\<close>

function bracket_end :: "cstring \<Rightarrow> nat \<Rightarrow> nat" where
  "bracket_end z i = (if zat z i \<noteq> 0 \<and> zat z (i - 1) \<noteq> 93 then bracket_end z (Suc i) else i)"
  by pat_completeness auto
termination
  by (relation "measure (\<lambda>(z, i). length z - i)") (auto simp: zat_def split: if_splits)

declare bracket_end.simps [simp del]

text \<open>\<open>if( z[i] ) i++;\<close>\<close>

definition past_end :: "cstring \<Rightarrow> nat \<Rightarrow> nat" where
  "past_end z i = (if zat z i \<noteq> 0 then i + 1 else i)"

definition number_token :: "cstring \<Rightarrow> token \<times> nat" where
  "number_token z =
     (let i = scan isdigit z 1;
          (t, i) = (if zat z i = 46 \<and> isdigit (zat z (i + 1)) then (''FLOAT'', scan isdigit z (i + 2))
                    else (''INTEGER'', i))
      in if (zat z i = 101 \<or> zat z i = 69) \<and>
            (isdigit (zat z (i + 1)) \<or>
             ((zat z (i + 1) = 43 \<or> zat z (i + 1) = 45) \<and> isdigit (zat z (i + 2))))
         then (''FLOAT'', scan isdigit z (i + 2))
         else (t, i))"

definition id_byte :: "u8 \<Rightarrow> bool" where
  "id_byte c = (and c 0x80 \<noteq> 0 \<or> isIdChar c)"

definition word_token :: "cstring \<Rightarrow> token \<times> nat" where
  "word_token z =
     (if and (zat z 0) 0x80 = 0 \<and> \<not> isIdChar (zat z 0) then (''ILLEGAL'', 1)
      else let i = scan id_byte z 1 in (sqliteKeywordCode z i, i))"

text \<open>The \<open>switch\<close> on the first byte, in the order of the source.\<close>

definition sqliteGetToken :: "cstring \<Rightarrow> token \<times> nat" where
  "sqliteGetToken z =
     (let c = zat z 0; c1 = zat z 1 in
      if c \<in> {32, 9, 10, 12, 13} then (''SPACE'', scan isspace z 1)
      else if c = 45 then
        if c1 = 45 then (''COMMENT'', scan (\<lambda>b. b \<noteq> 10) z 2) else (''MINUS'', 1)
      else if c = 40 then (''LP'', 1)
      else if c = 41 then (''RP'', 1)
      else if c = 59 then (''SEMI'', 1)
      else if c = 43 then (''PLUS'', 1)
      else if c = 42 then (''STAR'', 1)
      else if c = 47 then
        if c1 \<noteq> 42 \<or> zat z 2 = 0 then (''SLASH'', 1)
        else (''COMMENT'', past_end z (comment_end z 3))
      else if c = 37 then (''REM'', 1)
      else if c = 61 then (''EQ'', if c1 = 61 then 2 else 1)
      else if c = 60 then
        if c1 = 61 then (''LE'', 2)
        else if c1 = 62 then (''NE'', 2)
        else if c1 = 60 then (''LSHIFT'', 2)
        else (''LT'', 1)
      else if c = 62 then
        if c1 = 61 then (''GE'', 2) else if c1 = 62 then (''RSHIFT'', 2) else (''GT'', 1)
      else if c = 33 then if c1 \<noteq> 61 then (''ILLEGAL'', 2) else (''NE'', 2)
      else if c = 124 then if c1 \<noteq> 124 then (''BITOR'', 1) else (''CONCAT'', 2)
      else if c = 44 then (''COMMA'', 1)
      else if c = 38 then (''BITAND'', 1)
      else if c = 126 then (''BITNOT'', 1)
      else if c = 39 \<or> c = 34 then (''STRING'', past_end z (string_end c z 1))
      else if c = 46 then (''DOT'', 1)
      else if 48 \<le> c \<and> c \<le> 57 then number_token z
      else if c = 91 then (''ID'', bracket_end z 1)
      else if c = 63 then (''VARIABLE'', 1)
      else word_token z)"


subsection \<open>Lengths\<close>

lemma zat_nonzero_less: "zat z i \<noteq> 0 \<Longrightarrow> i < length z"
  by (auto simp: zat_def split: if_splits)

lemma scan_bounds: "i \<le> length z \<Longrightarrow> i \<le> scan P z i \<and> scan P z i \<le> length z"
proof (induction P z i rule: scan.induct)
  case (1 P z i)
  then show ?case
    using zat_nonzero_less [of z i] by (subst (1 2) scan.simps) auto
qed

lemma comment_end_bounds: "i \<le> length z \<Longrightarrow> i \<le> comment_end z i \<and> comment_end z i \<le> length z"
proof (induction z i rule: comment_end.induct)
  case (1 z i)
  then show ?case
    using zat_nonzero_less [of z i] by (subst (1 2) comment_end.simps) auto
qed

lemma string_end_bounds: "i \<le> length z \<Longrightarrow> i \<le> string_end d z i \<and> string_end d z i \<le> length z"
proof (induction d z i rule: string_end.induct)
  case (1 d z i)
  then show ?case
    using zat_nonzero_less [of z i] zat_nonzero_less [of z "i + 1"]
    by (subst (1 2) string_end.simps) auto
qed

lemma bracket_end_bounds: "i \<le> length z \<Longrightarrow> i \<le> bracket_end z i \<and> bracket_end z i \<le> length z"
proof (induction z i rule: bracket_end.induct)
  case (1 z i)
  then show ?case
    using zat_nonzero_less [of z i] by (subst (1 2) bracket_end.simps) auto
qed

lemma past_end_bounds: "i \<le> length z \<Longrightarrow> i \<le> past_end z i \<and> past_end z i \<le> length z"
  using zat_nonzero_less [of z i] by (auto simp: past_end_def)

lemma isdigit_nonzero: "isdigit c \<Longrightarrow> c \<noteq> 0"
  by (auto simp: isdigit_def)

lemma number_token_bounds:
  assumes "z \<noteq> []"
  shows "1 \<le> snd (number_token z) \<and> snd (number_token z) \<le> length z"
proof -
  have step: "1 \<le> scan isdigit z (i + 2) \<and> scan isdigit z (i + 2) \<le> length z"
    if "zat z (i + 1) \<noteq> 0" for i
    using scan_bounds [of "i + 2" z isdigit] zat_nonzero_less [OF that] by auto
  have "1 \<le> scan isdigit z 1 \<and> scan isdigit z 1 \<le> length z"
    using scan_bounds [of 1 z isdigit] assms by (cases z) auto
  then show ?thesis
    using step isdigit_nonzero by (auto simp: number_token_def Let_def)
qed

lemma word_token_bounds:
  assumes "z \<noteq> []"
  shows "1 \<le> snd (word_token z) \<and> snd (word_token z) \<le> length z"
  using scan_bounds [of 1 z id_byte] assms by (cases z) (auto simp: word_token_def Let_def)

lemma sqliteGetToken_bounds:
  assumes "z \<noteq> []"
  shows "1 \<le> snd (sqliteGetToken z) \<and> (snd (sqliteGetToken z) \<le> length z \<or> z = [33])"
proof -
  have z: "1 \<le> length z" using assms by (cases z) auto
  have two: "2 \<le> length z" if "zat z 1 \<noteq> 0"
    using zat_nonzero_less [OF that] by simp
  have three: "3 \<le> length z" if "zat z 2 \<noteq> 0"
    using zat_nonzero_less [OF that] by simp
  have bang: "2 \<le> length z \<or> z = [33]" if "zat z 0 = 33"
    using that assms by (cases z; cases "tl z") auto
  have s: "1 \<le> scan P z 1 \<and> scan P z 1 \<le> length z" for P
    using scan_bounds [of 1 z P] z by auto
  have s2: "1 \<le> scan P z 2 \<and> scan P z 2 \<le> length z" if "zat z 1 \<noteq> 0" for P
    using scan_bounds [of 2 z P] two [OF that] by auto
  have c: "1 \<le> past_end z (comment_end z 3) \<and> past_end z (comment_end z 3) \<le> length z" if "zat z 2 \<noteq> 0"
    using comment_end_bounds [OF three [OF that]] past_end_bounds [of "comment_end z 3" z] by auto
  have q: "1 \<le> past_end z (string_end d z 1) \<and> past_end z (string_end d z 1) \<le> length z" for d
    using string_end_bounds [OF z, of d] past_end_bounds [of "string_end d z 1" z] by auto
  have b: "1 \<le> bracket_end z 1 \<and> bracket_end z 1 \<le> length z"
    using bracket_end_bounds [OF z] by auto
  note parts = number_token_bounds [OF assms] word_token_bounds [OF assms]
  show ?thesis
    unfolding sqliteGetToken_def Let_def
    using z two bang s s2 c q b parts by (simp split: if_split)
qed


subsection \<open>Keyword lookup\<close>

text \<open>The entries of a chain, newest first.\<close>

fun chain :: "nat list \<Rightarrow> nat \<Rightarrow> nat \<Rightarrow> nat list" where
  "chain nx 0 i = []"
| "chain nx (Suc f) i = (if i = 0 then [] else (i - 1) # chain nx f (nx ! (i - 1)))"

lemma chain_0 [simp]: "chain nx f 0 = []"
  by (cases f) auto

lemma chain_fuel:
  assumes "\<forall>j<length nx. nx ! j \<le> j" "i \<le> length nx" "i \<le> f"
  shows "chain (nx @ ys) f i = chain nx (length nx) i"
  using assms(2,3)
proof (induction i arbitrary: f rule: less_induct)
  case (less i)
  show ?case
  proof (cases i)
    case (Suc k)
    then obtain f' g where f: "f = Suc f'" "length nx = Suc g"
      using less.prems by (metis Suc_le_D)
    have k: "nx ! k \<le> k" using assms(1) less.prems Suc by simp
    have "chain (nx @ ys) f' (nx ! k) = chain nx (length nx) (nx ! k)"
      using less.IH [of "nx ! k" f'] k Suc f less.prems by auto
    moreover have "chain (nx @ []) g (nx ! k) = chain nx (length nx) (nx ! k)"
    proof -
      have "chain (nx @ ys) g (nx ! k) = chain nx (length nx) (nx ! k)"
        using less.IH [of "nx ! k" g] k Suc f less.prems by auto
      moreover have "chain (nx @ ys) g m = chain nx g m" if "m \<le> length nx" for m g
        using that
      proof (induction g arbitrary: m)
        case (Suc g)
        then show ?case
          using assms(1) by (cases m) (auto simp: nth_append, metis Suc.IH Suc_le_lessD less_imp_le_nat order_trans)
      qed simp
      ultimately show ?thesis using k Suc less.prems by simp
    qed
    ultimately show ?thesis
      using Suc f less.prems by (simp add: nth_append)
  qed simp
qed


definition entry_hash :: "string \<times> token \<Rightarrow> nat" where
  "entry_hash k = keyword_hash (keyword_name k) (strlen (keyword_name k))"

text \<open>After the first \<open>k\<close> entries: bucket \<open>h\<close> chains the entries with hash \<open>h\<close>.\<close>

definition keyword_inv :: "(string \<times> token) list \<Rightarrow> nat \<Rightarrow> nat list \<Rightarrow> nat list \<Rightarrow> bool" where
  "keyword_inv tab k ht nx \<longleftrightarrow>
     length ht = KEY_HASH_SIZE \<and> length nx = k \<and> (\<forall>j<k. nx ! j \<le> j) \<and>
     (\<forall>h<KEY_HASH_SIZE. ht ! h \<le> k \<and>
        chain nx k (ht ! h) = rev (filter (\<lambda>j. entry_hash (tab ! j) = h) [0..<k]))"

lemma entry_hash_less: "entry_hash k < KEY_HASH_SIZE"
  by (simp add: entry_hash_def keyword_hash_def KEY_HASH_SIZE_def)

lemma keyword_inv_step:
  assumes inv: "keyword_inv tab k ht nx" and k: "k < length tab" "k < 255"
    and h: "h = entry_hash (tab ! k)"
  shows "keyword_inv tab (Suc k) (ht[h := (k + 1) mod 256]) (nx @ [ht ! h])"
proof -
  have len: "length ht = KEY_HASH_SIZE" "length nx = k" and dec: "\<forall>j<k. nx ! j \<le> j"
    and ht: "\<And>g. g < KEY_HASH_SIZE \<Longrightarrow> ht ! g \<le> k"
    and ch: "\<And>g. g < KEY_HASH_SIZE \<Longrightarrow> chain nx k (ht ! g) = rev (filter (\<lambda>j. entry_hash (tab ! j) = g) [0..<k])"
    using inv unfolding keyword_inv_def by auto
  have hl: "h < KEY_HASH_SIZE" using h entry_hash_less by simp
  have old: "chain (nx @ [ht ! h]) f (ht ! g) = chain nx k (ht ! g)" if "g < KEY_HASH_SIZE" "k \<le> f" for f g
    using chain_fuel [of nx "ht ! g" f "[ht ! h]"] dec ht [OF that(1)] that(2) len(2) by simp
  have "chain (nx @ [ht ! h]) (Suc k) (ht[h := (k + 1) mod 256] ! g) =
      rev (filter (\<lambda>j. entry_hash (tab ! j) = g) [0..<Suc k])" if "g < KEY_HASH_SIZE" for g
  proof (cases "g = h")
    case True
    then show ?thesis
      using k hl len ch [OF hl] old [OF hl, of k] h by (simp add: nth_append)
  next
    case False
    then show ?thesis
      using ch [OF that] old [OF that, of "Suc k"] h by simp
  qed
  moreover have "\<forall>j<Suc k. (nx @ [ht ! h]) ! j \<le> j"
    using dec len(2) ht [OF hl] by (auto simp: nth_append less_Suc_eq)
  moreover have "ht[h := (k + 1) mod 256] ! g \<le> Suc k" if "g < KEY_HASH_SIZE" for g
    using ht [OF that] k(2) len(1) hl by (cases "g = h") auto
  ultimately show ?thesis
    unfolding keyword_inv_def using len by simp
qed

lemma keyword_init_inv:
  assumes "keyword_inv (pre @ ks) (length pre) ht nx" "length (pre @ ks) \<le> 255"
  shows "case keyword_init ks (length pre) ht nx of
           (ht', nx') \<Rightarrow> keyword_inv (pre @ ks) (length (pre @ ks)) ht' nx'"
  using assms
proof (induction ks arbitrary: pre ht nx)
  case (Cons k ks)
  let ?h = "entry_hash k"
  have "keyword_inv (pre @ k # ks) (Suc (length pre)) (ht[?h := (length pre + 1) mod 256]) (nx @ [ht ! ?h])"
    using keyword_inv_step [OF Cons.prems(1), of ?h] Cons.prems(2) by simp
  then show ?case
    using Cons.IH [of "pre @ [k]" "ht[?h := (length pre + 1) mod 256]" "nx @ [ht ! ?h]"] Cons.prems(2)
    by (simp add: Let_def entry_hash_def)
qed simp

lemma keyword_loop_find:
  "keyword_loop f tab nx z n i =
     (case List.find (\<lambda>j. strlen (keyword_name (tab ! j)) = n \<and> sqliteStrNICmp (keyword_name (tab ! j)) z n = 0)
             (chain nx f i) of
        None \<Rightarrow> ''ID''
      | Some j \<Rightarrow> snd (tab ! j))"
  by (induction f arbitrary: i) (auto simp: Let_def)

text \<open>What a lookup should return: the token of the keyword with the same letters.\<close>

definition keyword_of :: "cstring \<Rightarrow> token" where
  "keyword_of w =
     (case map_of (map (\<lambda>k. (map UpperToLower (keyword_name k), snd k)) aKeywordTable)
             (map UpperToLower w) of
        None \<Rightarrow> ''ID''
      | Some t \<Rightarrow> t)"

lemma keyword_table_ok:
  "length aKeywordTable = 100"
  "distinct (map (\<lambda>k. map UpperToLower (keyword_name k)) aKeywordTable)"
  "list_all (\<lambda>k. 0 \<notin> set (keyword_name k)) aKeywordTable"
  by code_simp+

lemma strlen_nul_free [simp]: "0 \<notin> set w \<Longrightarrow> strlen w = length w"
proof -
  assume "0 \<notin> set w"
  then have "takeWhile (\<lambda>c. c \<noteq> 0) w = w" by (auto simp: takeWhile_eq_all_conv)
  then show ?thesis unfolding strlen_def by (rule arg_cong)
qed

lemma find_unique:
  "j \<in> set xs \<Longrightarrow> P j \<Longrightarrow> (\<And>k. k \<in> set xs \<Longrightarrow> P k \<Longrightarrow> k = j) \<Longrightarrow> List.find P xs = Some j"
proof (induction xs)
  case (Cons x xs)
  show ?case
  proof (cases "P x")
    case True
    then show ?thesis using Cons.prems(3) [of x] by simp
  next
    case False
    then have "j \<in> set xs" using Cons.prems(1,2) by auto
    then have "List.find P xs = Some j"
      by (rule Cons.IH [OF _ Cons.prems(2)], intro Cons.prems(3)) simp_all
    then show ?thesis using False by simp
  qed
qed simp

lemma sqliteKeywordCode_eq:
  assumes n: "0 < n" "n \<le> length z" "0 \<notin> set (take n z)"
  shows "sqliteKeywordCode z n = keyword_of (take n z)"
proof -
  let ?tab = aKeywordTable and ?low = "\<lambda>k. map UpperToLower (keyword_name k)"
  let ?w = "map UpperToLower (take n z)"
  obtain ht nx where init: "keyword_init ?tab 0 (replicate KEY_HASH_SIZE 0) [] = (ht, nx)" by fastforce
  have "keyword_inv ?tab 0 (replicate KEY_HASH_SIZE 0) []"
    by (simp add: keyword_inv_def)
  then have inv: "keyword_inv ?tab 100 ht nx"
    using keyword_init_inv [of "[]" ?tab "replicate KEY_HASH_SIZE 0" "[]"] init keyword_table_ok(1) by simp
  have name: "0 \<notin> set (keyword_name (?tab ! j))" if "j < 100" for j
    using that keyword_table_ok(1,3) by (simp add: list_all_length)
  have mtch: "strlen (keyword_name (?tab ! j)) = n \<and> sqliteStrNICmp (keyword_name (?tab ! j)) z n = 0 \<longleftrightarrow>
      ?low (?tab ! j) = ?w" if "j < 100" for j
  proof (cases "length (keyword_name (?tab ! j)) = n")
    case True
    have "nul_at_end (keyword_name (?tab ! j)) n" "nul_at_end z n"
      using True name [OF that] n set_take_subset_set_take [of "n - 1" n z]
      by (auto simp: nul_at_end_def dest: in_set_takeD)
    then show ?thesis
      using True name [OF that] sqliteStrNICmp_eq_0 [of "keyword_name (?tab ! j)" n z] by simp
  next
    case False
    then show ?thesis using name [OF that] n by (auto dest: arg_cong [where f = length])
  qed
  have hash: "entry_hash (?tab ! j) = keyword_hash z n" if "j < 100" "?low (?tab ! j) = ?w" for j
  proof -
    have l: "length (keyword_name (?tab ! j)) = n" using arg_cong [OF that(2), of length] n by simp
    then show ?thesis
      using sqliteHashNoCase_cong [of n "keyword_name (?tab ! j)" z] that n name [OF that(1)]
      by (simp add: entry_hash_def keyword_hash_def)
  qed
  have "sqliteKeywordCode z n = (case List.find (\<lambda>j. ?low (?tab ! j) = ?w)
      (rev (filter (\<lambda>j. entry_hash (?tab ! j) = keyword_hash z n) [0..<100])) of
        None \<Rightarrow> ''ID'' | Some j \<Rightarrow> snd (?tab ! j))"
  proof -
    have "keyword_hash z n < KEY_HASH_SIZE" by (simp add: keyword_hash_def KEY_HASH_SIZE_def)
    then have "chain nx 100 (ht ! keyword_hash z n) =
        rev (filter (\<lambda>j. entry_hash (?tab ! j) = keyword_hash z n) [0..<100])"
      using inv unfolding keyword_inv_def by blast
    then show ?thesis
      unfolding sqliteKeywordCode_def init keyword_loop_find keyword_table_ok(1) Let_def case_prod_conv
      by (subst find_cong [OF _ mtch]) auto
  qed
  also have "\<dots> = keyword_of (take n z)"
  proof (cases "\<exists>j<100. ?low (?tab ! j) = ?w")
    case True
    then obtain j where j: "j < 100" "?low (?tab ! j) = ?w" by blast
    have uniq: "j' = j" if "j' < 100" "?low (?tab ! j') = ?w" for j'
      using keyword_table_ok(1,2) that j by (simp add: distinct_conv_nth) metis
    have "List.find (\<lambda>j. ?low (?tab ! j) = ?w)
        (rev (filter (\<lambda>j. entry_hash (?tab ! j) = keyword_hash z n) [0..<100])) = Some j"
    proof (rule find_unique)
      show "j \<in> set (rev (filter (\<lambda>j. entry_hash (?tab ! j) = keyword_hash z n) [0..<100]))"
        using j(1) hash [OF j] by simp
      show "k = j" if "k \<in> set (rev (filter (\<lambda>j. entry_hash (?tab ! j) = keyword_hash z n) [0..<100]))"
        and "?low (?tab ! k) = ?w" for k
        by (rule uniq) (use that in simp_all)
    qed (rule j(2))
    moreover have "map_of (map (\<lambda>k. (?low k, snd k)) ?tab) ?w = Some (snd (?tab ! j))"
    proof (rule map_of_is_SomeI)
      show "distinct (map fst (map (\<lambda>k. (?low k, snd k)) ?tab))"
        using keyword_table_ok(2) by (simp add: comp_def)
      have "?tab ! j \<in> set ?tab" using j(1) keyword_table_ok(1) by simp
      then show "(?w, snd (?tab ! j)) \<in> set (map (\<lambda>k. (?low k, snd k)) ?tab)"
        using j(2) by (metis (mono_tags, lifting) image_eqI set_map)
    qed
    ultimately show ?thesis by (simp add: keyword_of_def)
  next
    case False
    then have "List.find (\<lambda>j. ?low (?tab ! j) = ?w)
        (rev (filter (\<lambda>j. entry_hash (?tab ! j) = keyword_hash z n) [0..<100])) = None"
      by (auto simp: find_None_iff)
    moreover have "?w \<notin> fst ` set (map (\<lambda>k. (?low k, snd k)) ?tab)"
    proof
      assume "?w \<in> fst ` set (map (\<lambda>k. (?low k, snd k)) ?tab)"
      then obtain k where "k \<in> set ?tab" "?low k = ?w" by auto
      then show False using False keyword_table_ok(1) by (metis in_set_conv_nth)
    qed
    then have "map_of (map (\<lambda>k. (?low k, snd k)) ?tab) ?w = None"
      by (simp only: map_of_eq_None_iff not_False_eq_True)
    ultimately show ?thesis by (simp add: keyword_of_def)
  qed
  finally show ?thesis .
qed


subsection \<open>The driver of the parser\<close>

text \<open>
  The fields of \<open>Parse\<close> that \<open>sqliteRunParser\<close> reads and writes; \<open>zTail\<close> is an index into the SQL
  text, \<open>sLastToken\<close> the text of the last token, and \<open>interrupt\<close> the flag \<open>SQLITE_Interrupt\<close> of the
  database.  The pointers \<open>pVdbe\<close>, \<open>pNewTable\<close> and \<open>pNewTrigger\<close> are represented by whether they are set.
\<close>

record parse =
  p_rc :: int
  zErrMsg :: "cstring option"
  pVdbe :: bool
  p_nErr :: int
  pNewTable :: bool
  pNewTrigger :: bool
  zTail :: nat
  sLastToken :: cstring
  interrupt :: bool
  malloc_failed :: bool

text \<open>\<open>sqliteParser\<close>: the engine, the token (\<open>None\<close> is 0, the end of the input) and its text.\<close>

type_synonym 'e parser = "'e \<Rightarrow> token option \<Rightarrow> cstring \<Rightarrow> parse \<Rightarrow> 'e \<times> parse"

text \<open>\<open>sqliteSetString\<close> on \<open>pzErrMsg\<close>: \<open>None\<close> is a null pointer, \<open>Some None\<close> a pointer to one.\<close>

definition set_err :: "cstring option option \<Rightarrow> cstring \<Rightarrow> cstring option option" where
  "set_err pz msg = map_option (\<lambda>_. Some msg) pz"

record 'e parse_run =
  r_i :: nat
  r_nErr :: int
  r_last :: "token option"
  r_err :: "cstring option option"
  r_engine :: 'e
  r_parse :: parse

function parse_loop :: "'e parser \<Rightarrow> cstring \<Rightarrow> 'e parse_run \<Rightarrow> 'e parse_run" where
  "parse_loop parser zSql r =
     (let i = r_i r; p = r_parse r
      in if \<not> malloc_failed p \<and> zat zSql i \<noteq> 0 then
           let (tt, n) = sqliteGetToken (drop i zSql);
               p1 = p\<lparr>sLastToken := take n (drop i zSql)\<rparr>;
               r1 = r\<lparr>r_i := i + n, r_parse := p1\<rparr>
           in if tt = ''SPACE'' \<or> tt = ''COMMENT'' then
                if interrupt p1
                then r1\<lparr>r_err := set_err (r_err r) (cstr ''interrupt''), r_parse := p1\<lparr>p_rc := 9\<rparr>\<rparr>
                else parse_loop parser zSql r1
              else if tt = ''ILLEGAL'' then
                r1\<lparr>r_err := set_err (r_err r) (cstr ''unrecognized token: \"'' @ sLastToken p1 @ cstr ''\"''),
                   r_nErr := r_nErr r + 1\<rparr>
              else
                let p2 = (if tt = ''SEMI'' then p1\<lparr>zTail := i + n\<rparr> else p1);
                    (e, p3) = parser (r_engine r) (Some tt) (sLastToken p2) p2;
                    r2 = r1\<lparr>r_engine := e, r_parse := p3, r_last := Some tt\<rparr>
                in if p_rc p3 \<noteq> 0 then r2 else parse_loop parser zSql r2
         else r)"
  by pat_completeness auto
termination
proof (relation "measure (\<lambda>(parser, zSql, r). length zSql - r_i r)", goal_cases)
  case (2 parser zSql r i p x tt n p1 r1)
  have "r_i r < length zSql" using zat_nonzero_less [of zSql "r_i r"] 2 by simp
  then have "1 \<le> n" using sqliteGetToken_bounds [of "drop (r_i r) zSql"] 2 by (cases "sqliteGetToken (drop i zSql)") auto
  then show ?case using 2 \<open>r_i r < length zSql\<close> by auto
next
  case (3 parser zSql r i p x tt n p1 r1 p2 xa e p3 r2)
  have "r_i r < length zSql" using zat_nonzero_less [of zSql "r_i r"] 3 by simp
  then have "1 \<le> n" using sqliteGetToken_bounds [of "drop (r_i r) zSql"] 3 by (cases "sqliteGetToken (drop i zSql)") auto
  then show ?case using 3 \<open>r_i r < length zSql\<close> by auto
qed simp

declare parse_loop.simps [simp del]

text \<open>The last tokens: a semicolon unless one was just parsed, and the end of the input.\<close>

definition parse_end :: "'e parser \<Rightarrow> cstring \<Rightarrow> 'e parse_run \<Rightarrow> 'e parse_run" where
  "parse_end parser zSql r =
     (if zat zSql (r_i r) = 0 \<and> r_nErr r = 0 \<and> p_rc (r_parse r) = 0 then
        let r1 = (if r_last r \<noteq> Some ''SEMI'' then
                    let (e, p) = parser (r_engine r) (Some ''SEMI'') (sLastToken (r_parse r)) (r_parse r)
                    in r\<lparr>r_engine := e, r_parse := p\<lparr>zTail := r_i r\<rparr>\<rparr>
                  else r);
            (e, p) = parser (r_engine r1) None (sLastToken (r_parse r1)) (r_parse r1)
        in r1\<lparr>r_engine := e, r_parse := p\<rparr>
      else r)"


text \<open>
  What follows \<open>abort_parse\<close>: the error message, the virtual machine and the half-built schema objects.
  The argument \<open>errstr\<close> is \<open>sqlite_error_string\<close>.
\<close>

definition parse_finish :: "(int \<Rightarrow> cstring) \<Rightarrow> 'e parse_run \<Rightarrow> 'e parse_run" where
  "parse_finish errstr r =
     (let p = r_parse r;
          p1 = (if p_rc p \<noteq> 0 \<and> p_rc p \<noteq> SQLITE_DONE \<and> zErrMsg p = None
                then p\<lparr>zErrMsg := Some (errstr (p_rc p))\<rparr> else p);
          r1 = (case zErrMsg p1 of
                  None \<Rightarrow> r\<lparr>r_parse := p1\<rparr>
                | Some msg \<Rightarrow>
                    r\<lparr>r_err := (if r_err r = Some None then Some (Some msg) else r_err r),
                      r_parse := p1\<lparr>zErrMsg := None\<rparr>,
                      r_nErr := (if r_nErr r = 0 then 1 else r_nErr r)\<rparr>);
          p2 = r_parse r1;
          p3 = (if pVdbe p2 \<and> 0 < p_nErr p2 then p2\<lparr>pVdbe := False\<rparr> else p2);
          p4 = p3\<lparr>pNewTable := False, pNewTrigger := False\<rparr>;
          p5 = (if 0 < r_nErr r1 \<and> (p_rc p4 = 0 \<or> p_rc p4 = SQLITE_DONE)
                then p4\<lparr>p_rc := SQLITE_ERROR\<rparr> else p4)
      in r1\<lparr>r_parse := p5\<rparr>)"

text \<open>The argument \<open>engine\<close> is the result of \<open>sqliteParserAlloc\<close>.\<close>

definition sqliteRunParser ::
    "'e option \<Rightarrow> (int \<Rightarrow> cstring) \<Rightarrow> 'e parser \<Rightarrow> cstring \<Rightarrow> cstring option option \<Rightarrow> parse \<Rightarrow>
     int \<times> cstring option option \<times> 'e option \<times> parse" where
  "sqliteRunParser engine errstr parser zSql pzErrMsg p =
     (let p0 = p\<lparr>interrupt := False, p_rc := 0\<rparr>
      in case engine of
           None \<Rightarrow> (1, set_err pzErrMsg (cstr ''out of memory''), None, p0)
         | Some e \<Rightarrow>
             let r = parse_loop parser zSql
                       \<lparr>r_i = 0, r_nErr = 0, r_last = None, r_err = pzErrMsg, r_engine = e,
                        r_parse = p0\<lparr>zTail := 0\<rparr>\<rparr>;
                 r' = parse_finish errstr (parse_end parser zSql r)
             in (r_nErr r', r_err r', Some (r_engine r'), r_parse r'))"


subsection \<open>The tokens of a text\<close>

text \<open>All the tokens of a text: the code, the length the tokenizer returns and the text.\<close>

function tokens_of :: "cstring \<Rightarrow> (token \<times> nat \<times> cstring) list" where
  "tokens_of z =
     (if z = [] then []
      else let (t, n) = sqliteGetToken z in (t, n, take n z) # tokens_of (drop n z))"
  by pat_completeness auto
termination
proof (relation "measure length", goal_cases)
  case (2 z x t n)
  then have "1 \<le> n" using sqliteGetToken_bounds [of z] by (cases "sqliteGetToken z") auto
  then show ?case using 2 by auto
qed simp

declare tokens_of.simps [simp del]

lemma tokens_of_Nil [simp]: "tokens_of [] = []"
  by (simp add: tokens_of.simps)

lemma concat_tokens_of: "concat (map (\<lambda>(t, n, w). w) (tokens_of z)) = z"
proof (induction z rule: tokens_of.induct)
  case (1 z)
  then show ?case
    by (subst tokens_of.simps) (auto split: prod.split)
qed

text \<open>\<open>parse_loop\<close> on the list of the tokens.\<close>

fun run_tokens :: "'e parser \<Rightarrow> (token \<times> nat \<times> cstring) list \<Rightarrow> 'e parse_run \<Rightarrow> 'e parse_run" where
  "run_tokens parser [] r = r"
| "run_tokens parser ((tt, n, w) # ts) r =
     (if malloc_failed (r_parse r) then r
      else let p1 = (r_parse r)\<lparr>sLastToken := w\<rparr>; r1 = r\<lparr>r_i := r_i r + n, r_parse := p1\<rparr>
      in if tt = ''SPACE'' \<or> tt = ''COMMENT'' then
           if interrupt p1
           then r1\<lparr>r_err := set_err (r_err r) (cstr ''interrupt''), r_parse := p1\<lparr>p_rc := 9\<rparr>\<rparr>
           else run_tokens parser ts r1
         else if tt = ''ILLEGAL'' then
           r1\<lparr>r_err := set_err (r_err r) (cstr ''unrecognized token: \"'' @ w @ cstr ''\"''),
              r_nErr := r_nErr r + 1\<rparr>
         else
           let p2 = (if tt = ''SEMI'' then p1\<lparr>zTail := r_i r + n\<rparr> else p1);
               (e, p3) = parser (r_engine r) (Some tt) w p2;
               r2 = r1\<lparr>r_engine := e, r_parse := p3, r_last := Some tt\<rparr>
           in if p_rc p3 \<noteq> 0 then r2 else run_tokens parser ts r2)"

lemma zat_nul_free: "0 \<notin> set z \<Longrightarrow> zat z i = 0 \<longleftrightarrow> length z \<le> i"
  by (auto simp: zat_def in_set_conv_nth)

lemma parse_loop_tokens:
  "0 \<notin> set z \<Longrightarrow> parse_loop parser z r = run_tokens parser (tokens_of (drop (r_i r) z)) r"
proof (induction parser z r rule: parse_loop.induct)
  case (1 parser z r)
  obtain tt n where t: "sqliteGetToken (drop (r_i r) z) = (tt, n)" by fastforce
  show ?case
  proof (cases "malloc_failed (r_parse r) \<or> zat z (r_i r) = 0")
    case True
    then show ?thesis
      using zat_nul_free [OF "1.prems"]
      by (subst parse_loop.simps, subst tokens_of.simps) (auto simp: t)
  next
    case False
    then have "drop (r_i r) z \<noteq> []" using zat_nul_free [OF "1.prems"] by simp
    then have l: "tokens_of (drop (r_i r) z) = (tt, n, take n (drop (r_i r) z)) # tokens_of (drop (r_i r + n) z)"
      by (subst tokens_of.simps) (simp add: t add.commute)
    have IH1: "parse_loop parser z (r\<lparr>r_i := r_i r + n, r_parse := (r_parse r)\<lparr>sLastToken := take n (drop (r_i r) z)\<rparr>\<rparr>) =
        run_tokens parser (tokens_of (drop (r_i r + n) z))
          (r\<lparr>r_i := r_i r + n, r_parse := (r_parse r)\<lparr>sLastToken := take n (drop (r_i r) z)\<rparr>\<rparr>)"
      if "tt = ''SPACE'' \<or> tt = ''COMMENT''" "\<not> interrupt (r_parse r)"
      using "1.IH"(1) [OF refl refl _ t [symmetric] refl refl refl that(1)] that False "1.prems" by simp
    define p2 where "p2 = (if tt = ''SEMI''
        then (r_parse r)\<lparr>sLastToken := take n (drop (r_i r) z), zTail := r_i r + n\<rparr>
        else (r_parse r)\<lparr>sLastToken := take n (drop (r_i r) z)\<rparr>)"
    obtain e p3 where p: "parser (r_engine r) (Some tt) (sLastToken p2) p2 = (e, p3)" by fastforce
    have IH2: "parse_loop parser z (r\<lparr>r_i := r_i r + n, r_engine := e, r_parse := p3, r_last := Some tt\<rparr>) =
        run_tokens parser (tokens_of (drop (r_i r + n) z))
          (r\<lparr>r_i := r_i r + n, r_engine := e, r_parse := p3, r_last := Some tt\<rparr>)"
      if "\<not> (tt = ''SPACE'' \<or> tt = ''COMMENT'')" "tt \<noteq> ''ILLEGAL''" "p_rc p3 = 0"
      using "1.IH"(2) [OF refl refl _ t [symmetric] refl refl refl that(1,2) _ p [symmetric] refl refl] that False "1.prems"
      by (simp add: p2_def)
    have "sLastToken p2 = take n (drop (r_i r) z)" by (simp add: p2_def)
    then show ?thesis
      using False t p IH1 IH2
      by (subst parse_loop.simps) (auto simp: l Let_def p2_def split: if_splits)
  qed
qed

text \<open>
  The parser that keeps the list of its arguments; \<open>stop\<close> is the code that a list of tokens leads to.
\<close>

definition rec_parser :: "((token option \<times> cstring) list \<Rightarrow> int) \<Rightarrow> (token option \<times> cstring) list parser" where
  "rec_parser stop e t w p = (e @ [(t, w)], p\<lparr>p_rc := stop (e @ [(t, w)])\<rparr>)"

text \<open>The tokens given to the parser, up to the first that it rejects.\<close>

fun fed :: "('a list \<Rightarrow> int) \<Rightarrow> 'a list \<Rightarrow> 'a list \<Rightarrow> 'a list \<times> bool" where
  "fed stop acc [] = (acc, True)"
| "fed stop acc (x # xs) = (if stop (acc @ [x]) \<noteq> 0 then (acc @ [x], False) else fed stop (acc @ [x]) xs)"

definition significant :: "(token \<times> nat \<times> cstring) list \<Rightarrow> (token option \<times> cstring) list" where
  "significant ts = map (\<lambda>(t, n, w). (Some t, w)) (filter (\<lambda>(t, n, w). t \<noteq> ''SPACE'' \<and> t \<noteq> ''COMMENT'') ts)"

lemma significant_simps [simp]:
  "significant [] = []"
  "significant ((t, n, w) # ts) =
     (if t \<noteq> ''SPACE'' \<and> t \<noteq> ''COMMENT'' then [(Some t, w)] else []) @ significant ts"
  by (simp_all add: significant_def)

lemma run_tokens_legal:
  assumes "\<forall>(t, n, w)\<in>set ts. t \<noteq> ''ILLEGAL''"
    and "\<not> malloc_failed (r_parse r)" "\<not> interrupt (r_parse r)" "p_rc (r_parse r) = 0"
    and "run_tokens (rec_parser stop) (ts @ us) r = r'"
    and "fed stop (r_engine r) (significant ts) = (log, ok)"
  shows "if ok then
      \<exists>r1. r' = run_tokens (rec_parser stop) us r1 \<and> r_engine r1 = log \<and> r_nErr r1 = r_nErr r \<and>
        r_err r1 = r_err r \<and> r_i r1 = r_i r + sum_list (map (\<lambda>(t, n, w). n) ts) \<and>
        r_last r1 = (if significant ts = [] then r_last r else fst (last (significant ts))) \<and>
        \<not> malloc_failed (r_parse r1) \<and> \<not> interrupt (r_parse r1) \<and> p_rc (r_parse r1) = 0 \<and>
        zErrMsg (r_parse r1) = zErrMsg (r_parse r)
    else r_engine r' = log \<and> p_rc (r_parse r') \<noteq> 0"
  using assms
proof (induction ts arbitrary: r)
  case (Cons x ts)
  obtain t n w where x: "x = (t, n, w)" by (cases x)
  define r1 where "r1 = r\<lparr>r_i := r_i r + n, r_parse := (r_parse r)\<lparr>sLastToken := w\<rparr>\<rparr>"
  show ?case
  proof (cases "t = ''SPACE'' \<or> t = ''COMMENT''")
    case True
    have "run_tokens (rec_parser stop) (ts @ us) r1 = r'"
      using Cons.prems True by (auto simp: x r1_def Let_def)
    then show ?thesis
      using Cons.IH [of r1] Cons.prems True by (auto simp: x r1_def add.assoc split: if_splits)
  next
    case False
    define r2 where "r2 = r1\<lparr>r_engine := r_engine r @ [(Some t, w)],
       r_parse := (if t = ''SEMI'' then (r_parse r1)\<lparr>zTail := r_i r + n\<rparr> else r_parse r1)
         \<lparr>p_rc := stop (r_engine r @ [(Some t, w)])\<rparr>, r_last := Some t\<rparr>"
    note rec = rec_parser_def [of stop "r_engine r" "Some t" w]
    show ?thesis
    proof (cases "stop (r_engine r @ [(Some t, w)]) = 0")
      case True
      have "run_tokens (rec_parser stop) (ts @ us) r2 = r'"
        using Cons.prems False True by (auto simp: x r1_def r2_def Let_def rec split: if_splits)
      then show ?thesis
        using Cons.IH [of r2] Cons.prems True False
        by (auto simp: x r1_def r2_def add.assoc split: if_splits)
    next
      case stp: False
      then have "r' = r2"
        using Cons.prems False by (auto simp: x r1_def r2_def Let_def rec split: if_splits)
      then show ?thesis
        using stp Cons.prems False by (auto simp: x r2_def r1_def split: if_splits)
    qed
  qed
qed auto


lemma sum_tokens_of: "length z \<le> sum_list (map (\<lambda>(t, n, w). n) (tokens_of z))"
proof (induction z rule: tokens_of.induct)
  case (1 z)
  obtain t n where t: "sqliteGetToken z = (t, n)" by fastforce
  show ?case
    using "1.IH" [OF _ t [symmetric] refl]
    by (cases "z = []"; subst tokens_of.simps) (auto simp: t)
qed

lemmas sqliteRunParser_defs = sqliteRunParser_def parse_end_def parse_finish_def

text \<open>The run of the driver before the last tokens are given to the parser.\<close>

definition start_run :: "cstring option option \<Rightarrow> parse \<Rightarrow> (token option \<times> cstring) list parse_run" where
  "start_run pz p = \<lparr>r_i = 0, r_nErr = 0, r_last = None, r_err = pz, r_engine = [],
     r_parse = p\<lparr>interrupt := False, p_rc := 0, zTail := 0\<rparr>\<rparr>"

lemma sqliteRunParser_start:
  assumes "0 \<notin> set z"
  shows "sqliteRunParser (Some []) errstr parser z pz p =
    (let r = parse_finish errstr (parse_end parser z (run_tokens parser (tokens_of z) (start_run pz p)))
     in (r_nErr r, r_err r, Some (r_engine r), r_parse r))"
  using parse_loop_tokens [OF assms, of parser "start_run pz p"]
  by (simp add: sqliteRunParser_def start_run_def Let_def)

lemma parse_finish_engine [simp]: "r_engine (parse_finish errstr r) = r_engine r"
  by (simp add: parse_finish_def Let_def split: option.split)

subsection \<open>Properties of the tokenizer\<close>

text \<open>
  C25. The keyword search through the hash table finds exactly the keyword that is spelled like the
  identifier, up to the case of the letters, and \<open>TK_ID\<close> when there is none.
\<close>

theorem sqliteKeywordCode_correct:
  assumes "0 < n" and "n \<le> length z" and "0 \<notin> set (take n z)"
  shows "sqliteKeywordCode z n =
    (case map_of (map (\<lambda>(name, t). (map UpperToLower (cstr name), t)) aKeywordTable)
            (map UpperToLower (take n z)) of
       None \<Rightarrow> ''ID''
     | Some t \<Rightarrow> t)"
proof -
  have eq: "map (\<lambda>k. (map UpperToLower (keyword_name k), snd k)) aKeywordTable =
      map (\<lambda>(name, t). (map UpperToLower (cstr name), t)) aKeywordTable"
    by (simp add: keyword_name_def case_prod_unfold)
  show ?thesis
    using sqliteKeywordCode_eq [OF assms] unfolding keyword_of_def eq .
qed

theorem sqliteKeywordCode_correct_witness:
  "sqliteKeywordCode (cstr ''Select * from t'') 6 = ''SELECT''"
proof -
  let ?z = "cstr ''Select * from t''"
  have a: "0 < (6::nat)" "6 \<le> length ?z" "0 \<notin> set (take 6 ?z)"
    by code_simp+
  show ?thesis
    unfolding sqliteKeywordCode_correct [OF a] by code_simp
qed

text \<open>
  C26. The tokens cover the text: on a non-empty text \<open>sqliteGetToken\<close> returns at least one byte and
  never more than there are, except for a final exclamation mark, where it returns 2; so the tokens of
  a text, one after the other, are the text.
\<close>

theorem sqliteGetToken_covers:
  "(z \<noteq> [] \<longrightarrow> 1 \<le> snd (sqliteGetToken z) \<and>
      (snd (sqliteGetToken z) \<le> length z \<longleftrightarrow> z \<noteq> [33])) \<and>
   concat (map (\<lambda>(t, n, w). w) (tokens_of z)) = z"
proof -
  have "snd (sqliteGetToken [33]) = 2"
    by (simp add: sqliteGetToken_def)
  then show ?thesis
    using sqliteGetToken_bounds [of z] concat_tokens_of [of z] by auto
qed

theorem sqliteGetToken_covers_witness:
  "concat (map (\<lambda>(t, n, w). w) (tokens_of (cstr ''select 1''))) = cstr ''select 1''
   \<and> 1 \<le> snd (sqliteGetToken (cstr ''select 1''))"
  using sqliteGetToken_covers [of "cstr ''select 1''"] by simp




definition fresh_parse :: parse where
  "fresh_parse = \<lparr>p_rc = 0, zErrMsg = None, pVdbe = False, p_nErr = 0, pNewTable = False,
     pNewTrigger = False, zTail = 0, sLastToken = [], interrupt = False, malloc_failed = False\<rparr>"

lemma sample_tokens:
  "tokens_of (cstr ''1 /**/;'') =
     [(''INTEGER'', 1, cstr ''1''), (''SPACE'', 1, cstr '' ''), (''COMMENT'', 4, cstr ''/**/''), (''SEMI'', 1, cstr '';'')]"
  by code_simp




end
