(* ===== verification/Complete.thy ===== *)
theory Complete
  imports Tokenize "HOL-Library.Sublist"
begin

text \<open>
  \<open>sqlite_complete\<close> of \<^verbatim>\<open>tokenize.c\<close>: the state machine that decides whether a text ends at the end
  of a statement, with the special rule for \<open>CREATE TRIGGER\<close>.  The table \<open>isIdChar\<close> has 128 entries and
  is indexed with the whole byte here; what the memory behind it holds is the argument \<open>beyond\<close>.
\<close>

subsection \<open>Definitions\<close>

definition tkEXPLAIN :: nat where "tkEXPLAIN = 0"
definition tkCREATE :: nat where "tkCREATE = 1"
definition tkTEMP :: nat where "tkTEMP = 2"
definition tkTRIGGER :: nat where "tkTRIGGER = 3"
definition tkEND :: nat where "tkEND = 4"
definition tkSEMI :: nat where "tkSEMI = 5"
definition tkWS :: nat where "tkWS = 6"
definition tkOTHER :: nat where "tkOTHER = 7"

lemmas tk_defs =
  tkEXPLAIN_def tkCREATE_def tkTEMP_def tkTRIGGER_def tkEND_def tkSEMI_def tkWS_def tkOTHER_def

definition trans_table :: "nat list list" where
  "trans_table =
    [[1, 2, 3, 3, 3, 0, 0, 3],
     [3, 2, 3, 3, 3, 0, 1, 3],
     [3, 3, 2, 4, 3, 0, 2, 3],
     [3, 3, 3, 3, 3, 0, 3, 3],
     [4, 4, 4, 4, 4, 5, 4, 4],
     [4, 4, 4, 4, 6, 5, 5, 4],
     [4, 4, 4, 4, 4, 0, 6, 4]]"

definition next_state :: "nat \<Rightarrow> nat \<Rightarrow> nat" where
  "next_state state tok = trans_table ! state ! tok"

definition id_index :: "(u8 \<Rightarrow> bool) \<Rightarrow> u8 \<Rightarrow> bool" where
  "id_index beyond c = (if unat c < 128 then isIdChar c else beyond c)"

text \<open>\<open>while( zSql[0] && (zSql[0]!='*' || zSql[1]!='/') ){ zSql++; }\<close>\<close>

fun skip_comment :: "cstring \<Rightarrow> cstring" where
  "skip_comment [] = []"
| "skip_comment (c # z) = (if c = 42 \<and> zat z 0 = 47 then c # z else skip_comment z)"

definition complete_word :: "cstring \<Rightarrow> nat \<Rightarrow> nat" where
  "complete_word z nId =
     (let c = zat z 0 in
      if c = 99 \<or> c = 67 then
        if nId = 6 \<and> sqliteStrNICmp z (cstr ''create'') 6 = 0 then tkCREATE else tkOTHER
      else if c = 116 \<or> c = 84 then
        if nId = 7 \<and> sqliteStrNICmp z (cstr ''trigger'') 7 = 0 then tkTRIGGER
        else if nId = 4 \<and> sqliteStrNICmp z (cstr ''temp'') 4 = 0 then tkTEMP
        else if nId = 9 \<and> sqliteStrNICmp z (cstr ''temporary'') 9 = 0 then tkTEMP
        else tkOTHER
      else if c = 101 \<or> c = 69 then
        if nId = 3 \<and> sqliteStrNICmp z (cstr ''end'') 3 = 0 then tkEND
        else if nId = 7 \<and> sqliteStrNICmp z (cstr ''explain'') 7 = 0 then tkEXPLAIN
        else tkOTHER
      else tkOTHER)"

text \<open>
  The \<open>switch\<close> on the next byte: \<open>Token t z'\<close> is a token and the text after it (after the final
  \<open>zSql++\<close>), \<open>Ret0\<close> a \<open>return 0\<close> and \<open>RetState\<close> a \<open>return state==0\<close>.
\<close>

datatype complete_case = Token nat cstring | Ret0 | RetState

definition complete_token :: "(u8 \<Rightarrow> bool) \<Rightarrow> cstring \<Rightarrow> complete_case" where
  "complete_token beyond z =
     (let c = zat z 0 in
      if c = 59 then Token tkSEMI (drop 1 z)
      else if c \<in> {32, 13, 9, 10, 12} then Token tkWS (drop 1 z)
      else if c = 47 then
        if zat z 1 \<noteq> 42 then Token tkOTHER (drop 1 z)
        else let z' = skip_comment (drop 2 z)
             in if z' = [] then Ret0 else Token tkWS (drop 2 z')
      else if c = 45 then
        if zat z 1 \<noteq> 45 then Token tkOTHER (drop 1 z)
        else let z' = dropWhile (\<lambda>b. b \<noteq> 10) z
             in if z' = [] then RetState else Token tkWS (drop 1 z')
      else if c = 91 then
        let z' = dropWhile (\<lambda>b. b \<noteq> 93) (drop 1 z)
        in if z' = [] then Ret0 else Token tkOTHER (drop 1 z')
      else if c = 34 \<or> c = 39 then
        let z' = dropWhile (\<lambda>b. b \<noteq> c) (drop 1 z)
        in if z' = [] then Ret0 else Token tkOTHER (drop 1 z')
      else if id_index beyond c then
        let nId = scan (id_index beyond) z 1
        in Token (complete_word z nId) (drop nId z)
      else Token tkOTHER (drop 1 z))"

lemma skip_comment_length: "length (skip_comment z) \<le> length z"
  by (induction z rule: skip_comment.induct) auto

lemma complete_token_length:
  assumes "complete_token beyond z = Token t z'" "z \<noteq> []"
  shows "length z' < length z"
proof -
  have dw: "length (drop 1 (dropWhile P y)) < length z" if "length y \<le> length z" for P y
    using length_dropWhile_le [of P y] that assms(2) by (cases z) auto
  have sc: "length (drop 2 (skip_comment (drop 2 z))) < length z"
    using skip_comment_length [of "drop 2 z"] assms(2) by (cases z) auto
  have id: "length (drop (scan P z 1) z) < length z" for P
    using scan_bounds [of 1 z P] assms(2) by (cases z) auto
  have one: "length (drop 1 z) < length z" using assms(2) by (cases z) auto
  show ?thesis
    using assms(1) dw [of z] dw [of "drop 1 z"] sc id one
    by (auto simp: complete_token_def Let_def split: if_splits)
qed

function complete_loop :: "(u8 \<Rightarrow> bool) \<Rightarrow> nat \<Rightarrow> cstring \<Rightarrow> bool" where
  "complete_loop beyond state z =
     (if zat z 0 = 0 then state = 0
      else case complete_token beyond z of
             Ret0 \<Rightarrow> False
           | RetState \<Rightarrow> state = 0
           | Token t z' \<Rightarrow> complete_loop beyond (next_state state t) z')"
  by pat_completeness auto
termination
  by (relation "measure (\<lambda>(b, s, z). length z)") (auto dest!: complete_token_length)

declare complete_loop.simps [simp del]

definition sqlite_complete :: "(u8 \<Rightarrow> bool) \<Rightarrow> cstring \<Rightarrow> bool" where
  "sqlite_complete beyond zSql = complete_loop beyond 0 zSql"


subsection \<open>The tokens of a text\<close>

function complete_tokens :: "(u8 \<Rightarrow> bool) \<Rightarrow> cstring \<Rightarrow> nat list option" where
  "complete_tokens beyond z =
     (if zat z 0 = 0 then Some []
      else case complete_token beyond z of
             Ret0 \<Rightarrow> None
           | RetState \<Rightarrow> Some []
           | Token t z' \<Rightarrow>
               map_option (\<lambda>ts. if t = tkWS then ts else t # ts) (complete_tokens beyond z'))"
  by pat_completeness auto
termination
  by (relation "measure (\<lambda>(b, z). length z)") (auto dest!: complete_token_length)

declare complete_tokens.simps [simp del]

definition tok_ok :: "nat \<Rightarrow> bool" where
  "tok_ok t \<longleftrightarrow> t \<in> {tkEXPLAIN, tkCREATE, tkTEMP, tkTRIGGER, tkEND, tkSEMI, tkOTHER}"

lemma complete_word_ok: "tok_ok (complete_word z n)"
  by (simp add: complete_word_def tok_ok_def Let_def)

lemma complete_token_ok: "complete_token beyond z = Token t z' \<Longrightarrow> tok_ok t \<or> t = tkWS"
  using complete_word_ok
  by (auto simp: complete_token_def tok_ok_def Let_def split: if_splits)

lemma complete_tokens_ok: "complete_tokens beyond z = Some ts \<Longrightarrow> list_all tok_ok ts"
proof (induction beyond z arbitrary: ts rule: complete_tokens.induct)
  case (1 beyond z)
  then show ?case
    by (subst (asm) (2) complete_tokens.simps)
      (auto split: if_splits complete_case.splits dest: complete_token_ok)
qed

abbreviation run :: "nat \<Rightarrow> nat list \<Rightarrow> nat" where
  "run state ts \<equiv> foldl next_state state ts"

text \<open>One step of the machine for every token, from the table.\<close>

lemma next_state_simps [simp]:
  "next_state 0 t = (if t = tkEXPLAIN then 1 else if t = tkCREATE then 2 else if t = tkSEMI then 0 else 3)"
  "next_state 1 t = (if t = tkCREATE then 2 else if t = tkSEMI then 0 else 3)"
  "next_state 2 t = (if t = tkTEMP then 2 else if t = tkTRIGGER then 4 else if t = tkSEMI then 0 else 3)"
  "next_state 3 t = (if t = tkSEMI then 0 else 3)"
  "next_state 4 t = (if t = tkSEMI then 5 else 4)"
  "next_state 5 t = (if t = tkEND then 6 else if t = tkSEMI then 5 else 4)"
  "next_state 6 t = (if t = tkSEMI then 0 else 4)"
  if "tok_ok t"
  using that by (auto simp: tok_ok_def next_state_def trans_table_def tk_defs)

lemmas next_state_Suc_0 [simp] = next_state_simps(2) [unfolded One_nat_def]

lemma next_state_less: "s < 7 \<Longrightarrow> tok_ok t \<or> t = tkWS \<Longrightarrow> next_state s t < 7"
  by (auto simp: tok_ok_def next_state_def trans_table_def tk_defs less_Suc_eq numeral_eq_Suc)

lemma next_state_WS: "s < 7 \<Longrightarrow> next_state s tkWS = s"
  by (auto simp: next_state_def trans_table_def tk_defs less_Suc_eq numeral_eq_Suc)

lemma complete_loop_run:
  "s < 7 \<Longrightarrow> complete_loop beyond s z \<longleftrightarrow>
     (\<exists>ts. complete_tokens beyond z = Some ts \<and> run s ts = 0)"
proof (induction beyond s z rule: complete_loop.induct)
  case (1 beyond s z)
  show ?case
  proof (cases "zat z 0 = 0")
    case True
    then show ?thesis by (simp add: complete_loop.simps [of beyond s z] complete_tokens.simps [of beyond z])
  next
    case False
    show ?thesis
    proof (cases "complete_token beyond z")
      case (Token t z')
      have ok: "tok_ok t \<or> t = tkWS" using complete_token_ok [OF Token] .
      have "complete_loop beyond (next_state s t) z' \<longleftrightarrow>
          (\<exists>ts. complete_tokens beyond z' = Some ts \<and> run (next_state s t) ts = 0)"
        using "1.IH" [OF False Token] next_state_less [OF "1.prems" ok] .
      then show ?thesis
        using False Token next_state_WS [OF "1.prems"]
        by (cases "t = tkWS")
          (auto simp: complete_loop.simps [of beyond s z] complete_tokens.simps [of beyond z])
    qed (use False in \<open>simp_all add: complete_loop.simps [of beyond s z] complete_tokens.simps [of beyond z]\<close>)
  qed
qed

subsection \<open>Statements\<close>

definition create_head :: "nat list \<Rightarrow> bool" where
  "create_head q \<longleftrightarrow> (\<exists>n. q = tkCREATE # replicate n tkTEMP \<or> q = tkEXPLAIN # tkCREATE # replicate n tkTEMP)"

definition trigger_head :: "nat list \<Rightarrow> bool" where
  "trigger_head q \<longleftrightarrow> (\<exists>h. create_head h \<and> q = h @ [tkTRIGGER])"

definition trigger_end :: "nat list \<Rightarrow> bool" where
  "trigger_end b \<longleftrightarrow> suffix [tkSEMI, tkEND, tkSEMI] b"

text \<open>
  A sequence of complete statements: a statement that does not begin with \<open>CREATE TRIGGER\<close> ends at its
  first semicolon; one that does ends at its first \<open>; END ;\<close>.
\<close>

inductive statements :: "nat list \<Rightarrow> bool" where
  none: "statements []"
| simple: "tkSEMI \<notin> set p \<Longrightarrow> \<forall>q. prefix q p \<longrightarrow> \<not> trigger_head q \<Longrightarrow> statements ts \<Longrightarrow>
    statements (p @ tkSEMI # ts)"
| trigger: "trigger_head q \<Longrightarrow> trigger_end b \<Longrightarrow> \<forall>b'. strict_prefix b' b \<longrightarrow> \<not> trigger_end b' \<Longrightarrow>
    statements ts \<Longrightarrow> statements (q @ b @ ts)"


lemma tk_distinct [simp]:
  "tkSEMI \<noteq> tkCREATE" "tkSEMI \<noteq> tkTEMP" "tkSEMI \<noteq> tkTRIGGER" "tkSEMI \<noteq> tkEND" "tkSEMI \<noteq> tkEXPLAIN"
  "tkCREATE \<noteq> tkEXPLAIN" "tkCREATE \<noteq> tkTEMP" "tkCREATE \<noteq> tkTRIGGER" "tkTEMP \<noteq> tkTRIGGER" "tkTEMP \<noteq> tkEXPLAIN"
  "tkTRIGGER \<noteq> tkEXPLAIN" "tkEND \<noteq> tkSEMI" "tkTEMP \<noteq> tkCREATE" "tkTRIGGER \<noteq> tkTEMP" "tkEXPLAIN \<noteq> tkCREATE"
  "tkCREATE \<noteq> tkSEMI" "tkTEMP \<noteq> tkSEMI" "tkTRIGGER \<noteq> tkSEMI" "tkEXPLAIN \<noteq> tkSEMI" "tkTRIGGER \<noteq> tkCREATE"
  "tkEXPLAIN \<noteq> tkTEMP" "tkEXPLAIN \<noteq> tkTRIGGER"
  by (simp_all add: tk_defs)

lemma tok_ok_simps [simp]:
  "tok_ok tkSEMI" "tok_ok tkCREATE" "tok_ok tkTEMP" "tok_ok tkTRIGGER" "tok_ok tkEND" "tok_ok tkEXPLAIN" "tok_ok tkOTHER"
  by (simp_all add: tok_ok_def)

lemma create_head_snoc: "create_head (p @ [t]) \<longleftrightarrow>
   (t = tkCREATE \<and> (p = [] \<or> p = [tkEXPLAIN])) \<or> (t = tkTEMP \<and> create_head p)"
proof
  assume "create_head (p @ [t])"
  then obtain n where n: "p @ [t] = tkCREATE # replicate n tkTEMP \<or> p @ [t] = tkEXPLAIN # tkCREATE # replicate n tkTEMP"
    unfolding create_head_def by blast
  then show "(t = tkCREATE \<and> (p = [] \<or> p = [tkEXPLAIN])) \<or> (t = tkTEMP \<and> create_head p)"
  proof (cases n)
    case 0
    then show ?thesis using n by (auto simp: Cons_eq_append_conv append_eq_Cons_conv)
  next
    case (Suc m)
    have r: "replicate n tkTEMP = replicate m tkTEMP @ [tkTEMP]"
      by (simp add: Suc replicate_append_same)
    then have "p = tkCREATE # replicate m tkTEMP \<and> t = tkTEMP \<or> p = tkEXPLAIN # tkCREATE # replicate m tkTEMP \<and> t = tkTEMP"
      using n by (metis append1_eq_conv append_Cons)
    then show ?thesis unfolding create_head_def by blast
  qed
next
  assume a: "(t = tkCREATE \<and> (p = [] \<or> p = [tkEXPLAIN])) \<or> (t = tkTEMP \<and> create_head p)"
  have snoc: "tkTEMP # replicate n tkTEMP = replicate n tkTEMP @ [tkTEMP]" for n
    by (simp add: replicate_append_same)
  show "create_head (p @ [t])"
    using a unfolding create_head_def
    by (auto intro: exI [of _ 0]) (metis snoc replicate_Suc)+
qed

text \<open>The state after a prefix of a statement that has no semicolon yet.\<close>

definition has_trigger_head :: "nat list \<Rightarrow> bool" where
  "has_trigger_head p \<longleftrightarrow> (\<exists>q. prefix q p \<and> trigger_head q)"

lemma has_trigger_head_snoc:
  "has_trigger_head (p @ [t]) \<longleftrightarrow> has_trigger_head p \<or> (t = tkTRIGGER \<and> create_head p)"
  by (auto simp: has_trigger_head_def trigger_head_def prefix_snoc)

lemma create_no_trigger: "create_head p \<Longrightarrow> \<not> has_trigger_head p"
proof (induction p rule: rev_induct)
  case (snoc t p)
  then show ?case
    by (auto simp: has_trigger_head_snoc create_head_snoc)
      (auto simp: has_trigger_head_def trigger_head_def create_head_def prefix_def Cons_eq_append_conv)
qed (simp add: create_head_def)

lemma run_head:
  assumes "list_all tok_ok p" "tkSEMI \<notin> set p"
  shows "run 0 p = (if p = [] then 0 else if p = [tkEXPLAIN] then 1 else if create_head p then 2
    else if has_trigger_head p then 4 else 3)"
  using assms
proof (induction p rule: rev_induct)
  case (snoc t p)
  have "\<not> create_head []" "\<not> create_head [tkEXPLAIN]" "\<not> has_trigger_head []" "\<not> has_trigger_head [tkEXPLAIN]"
    by (auto simp: create_head_def has_trigger_head_def trigger_head_def prefix_def Cons_eq_append_conv append_eq_Cons_conv)
  then show ?case
    using snoc create_no_trigger [of p]
    by (auto simp: create_head_snoc has_trigger_head_snoc split: if_splits)
qed simp

lemma run_trigger:
  assumes "list_all tok_ok b" "\<forall>b'. prefix b' b \<longrightarrow> \<not> trigger_end b'"
  shows "run 4 b = (if suffix [tkSEMI, tkEND] b then 6 else if suffix [tkSEMI] b then 5 else 4)"
  using assms
proof (induction b rule: rev_induct)
  case (snoc t b)
  have "\<not> trigger_end (b @ [t])" using snoc.prems(2) by blast
  then have "\<not> (t = tkSEMI \<and> suffix [tkSEMI, tkEND] b)"
    by (auto simp: trigger_end_def suffix_def)
  moreover have "suffix [tkSEMI, tkEND] (b @ [t]) \<longleftrightarrow> t = tkEND \<and> suffix [tkSEMI] b"
    "suffix [tkSEMI] (b @ [t]) \<longleftrightarrow> t = tkSEMI"
    by (auto simp: suffix_def)
  ultimately show ?case
    using snoc by (auto simp: prefix_snoc suffix_def split: if_splits)
qed (simp add: suffix_def)


lemma run_trigger_end:
  assumes "list_all tok_ok b" "trigger_end b" "\<forall>b'. strict_prefix b' b \<longrightarrow> \<not> trigger_end b'"
  shows "run 4 b = 0"
proof -
  obtain a where b: "b = (a @ [tkSEMI, tkEND]) @ [tkSEMI]"
    using assms(2) by (auto simp: trigger_end_def suffix_def)
  have "strict_prefix (a @ [tkSEMI, tkEND]) b"
    unfolding b by (simp add: strict_prefix_def)
  then have "\<forall>b'. prefix b' (a @ [tkSEMI, tkEND]) \<longrightarrow> \<not> trigger_end b'"
    using assms(3) prefix_order.le_less_trans by blast
  then have "run 4 (a @ [tkSEMI, tkEND]) = 6"
    using run_trigger [of "a @ [tkSEMI, tkEND]"] assms(1) by (simp add: b suffix_def)
  then show ?thesis by (simp add: b)
qed

text \<open>The shortest prefix of a list with a property.\<close>

lemma shortest_prefix:
  assumes "P (c :: 'a list)"
  shows "\<exists>b ts. c = b @ ts \<and> P b \<and> (\<forall>b'. strict_prefix b' b \<longrightarrow> \<not> P b')"
proof -
  define n where "n = (LEAST n. P (take n c) \<and> n \<le> length c)"
  have n: "P (take n c) \<and> n \<le> length c"
    unfolding n_def by (rule LeastI [of _ "length c"]) (simp add: assms)
  have "\<not> P b'" if sp: "strict_prefix b' (take n c)" for b'
  proof -
    obtain e where e: "take n c = b' @ e" "e \<noteq> []"
      using sp unfolding strict_prefix_def prefix_def by auto
    have "c = b' @ e @ drop n c" using e(1) append_take_drop_id [of n c] by (metis append_assoc)
    then have "b' = take (length b') c" by (metis append_eq_conv_conj)
    moreover have "length b' < n" using arg_cong [OF e(1), of length] e(2) n by simp
    ultimately have "length b' < n" "b' = take (length b') c" by simp_all
    then show ?thesis using not_less_Least [of "length b'" "\<lambda>n. P (take n c) \<and> n \<le> length c"] n
      unfolding n_def by auto
  qed
  then show ?thesis using n append_take_drop_id by metis
qed

lemma statements_run: "statements ts \<Longrightarrow> list_all tok_ok ts \<Longrightarrow> run 0 ts = 0"
proof (induction rule: statements.induct)
  case (simple p ts)
  have "run 0 p \<noteq> 4 \<and> run 0 p < 5"
    using run_head [of p] simple by (auto simp: has_trigger_head_def)
  then have "run 0 p \<in> {0, 1, 2, 3}" by auto
  then have "next_state (run 0 p) tkSEMI = 0" by auto
  then show ?case using simple by simp
next
  case (trigger q b ts)
  obtain h where h: "create_head h" "q = h @ [tkTRIGGER]"
    using trigger.hyps(1) by (auto simp: trigger_head_def)
  have "tkSEMI \<notin> set h" using h(1) by (auto simp: create_head_def)
  moreover have "h \<noteq> []" "h \<noteq> [tkEXPLAIN]" using h(1) by (auto simp: create_head_def)
  ultimately have "run 0 h = 2"
    using run_head [of h] h trigger.prems by simp
  then have "run 0 q = 4" using h(2) by simp
  then show ?case
    using trigger run_trigger_end [of b] by simp
qed simp

lemma run_statements: "list_all tok_ok ts \<Longrightarrow> run 0 ts = 0 \<Longrightarrow> statements ts"
proof (induction "length ts" arbitrary: ts rule: less_induct)
  case less
  show ?case
  proof (cases "\<exists>q. prefix q (takeWhile (\<lambda>t. t \<noteq> tkSEMI) ts) \<and> trigger_head q")
    case True
    then obtain q where q: "prefix q (takeWhile (\<lambda>t. t \<noteq> tkSEMI) ts)" "trigger_head q" by blast
    then obtain c where c: "ts = q @ c"
      by (metis prefix_def prefix_order.trans takeWhile_is_prefix)
    have "set q \<subseteq> set (takeWhile (\<lambda>t. t \<noteq> tkSEMI) ts)" using q(1) by (rule set_mono_prefix)
    then have "tkSEMI \<notin> set q" by (auto dest: set_takeWhileD)
    moreover have "q \<noteq> []" "q \<noteq> [tkEXPLAIN]" "\<not> create_head q" "has_trigger_head q"
      using q(2) create_no_trigger by (auto simp: trigger_head_def create_head_def has_trigger_head_def)
    ultimately have "run 0 q = 4" using run_head [of q] less.prems(1) c by simp
    then have run4: "run 4 c = 0" using less.prems(2) c by simp
    have "\<exists>d. prefix d c \<and> trigger_end d"
    proof (rule ccontr)
      assume "\<nexists>d. prefix d c \<and> trigger_end d"
      then show False using run_trigger [of c] less.prems(1) c run4 by (auto split: if_splits)
    qed
    then obtain d e where d: "c = d @ e" "trigger_end d" by (auto simp: prefix_def)
    obtain b u where b: "d = b @ u" "trigger_end b" "\<forall>b'. strict_prefix b' b \<longrightarrow> \<not> trigger_end b'"
      using shortest_prefix [of trigger_end, OF d(2)] by blast
    have "run 4 b = 0" using run_trigger_end [of b] b less.prems(1) c d by simp
    then have "run 0 (u @ e) = 0" using run4 d b by simp
    moreover have "length (u @ e) < length ts" using c d b \<open>q \<noteq> []\<close> by simp
    ultimately have "statements (u @ e)" using less.hyps [of "u @ e"] less.prems(1) c d b by simp
    then show ?thesis using statements.trigger [OF q(2) b(2,3), of "u @ e"] c d b by simp
  next
    case False
    let ?p = "takeWhile (\<lambda>t. t \<noteq> tkSEMI) ts"
    have p: "tkSEMI \<notin> set ?p" "list_all tok_ok ?p"
      using less.prems(1) by (auto dest: set_takeWhileD simp: list_all_iff)
    show ?thesis
    proof (cases "dropWhile (\<lambda>t. t \<noteq> tkSEMI) ts")
      case Nil
      then have eq: "?p = ts" by (metis append_Nil2 takeWhile_dropWhile_id)
      have "ts = []" using run_head [OF p(2,1)] less.prems(2) unfolding eq by (auto split: if_splits)
      then show ?thesis by (simp add: statements.none)
    next
      case (Cons x u)
      then have ts: "ts = ?p @ tkSEMI # u"
        by (metis (mono_tags, lifting) hd_dropWhile list.distinct(1) list.sel(1) takeWhile_dropWhile_id)
      have "run 0 ?p \<in> {0, 1, 2, 3}"
        using run_head [OF p(2,1)] False by (auto simp: has_trigger_head_def)
      then have "next_state (run 0 ?p) tkSEMI = 0" by auto
      then have "run 0 u = 0" using less.prems(2) by (subst (asm) ts) simp
      moreover have "length u < length ts" using arg_cong [OF ts, of length] by simp
      moreover have "list_all tok_ok u" using less.prems(1) by (subst (asm) ts) simp
      ultimately have "statements u" using less.hyps by blast
      then show ?thesis using statements.simple [OF p(1) _, of u] False ts by metis
    qed
  qed
qed

text \<open>
  C13. \<open>sqlite_complete\<close> accepts a text exactly when its tokens form a sequence of complete statements: it
  is not inside a string, a bracketed name or a C comment, every statement that begins with
  \<open>[EXPLAIN] CREATE [TEMP] TRIGGER\<close> runs to its first \<open>; END ;\<close>, and every other one to its first
  semicolon.
\<close>

theorem sqlite_complete_correct:
  "sqlite_complete beyond zSql \<longleftrightarrow>
     (\<exists>ts. complete_tokens beyond zSql = Some ts \<and> statements ts)"
proof -
  have "run 0 ts = 0 \<longleftrightarrow> statements ts" if "complete_tokens beyond zSql = Some ts" for ts
    using run_statements statements_run complete_tokens_ok [OF that] by blast
  then show ?thesis
    using complete_loop_run [of 0 beyond zSql] by (auto simp: sqlite_complete_def)
qed

end
