(* ===== verification/Rc4.thy ===== *)
theory Rc4
  imports Prelude "HOL-Library.Multiset"
begin

text \<open>
  The pseudo-random number generator \<^verbatim>\<open>random.c\<close>: the RC4 state, its initialisation from a seed,
  \<open>randomByte\<close> and \<open>sqliteRandomness\<close>.  The seed that \<open>sqliteOsRandomSeed\<close> writes is an argument: a
  function from the index to the byte.
\<close>

subsection \<open>Definitions\<close>

record prng =
  isInit :: bool
  prng_i :: u8
  prng_j :: u8
  prng_s :: "u8 list"

text \<open>The loop that mixes the seed into the state, from index \<open>i\<close> on.\<close>

function prng_mix :: "(nat \<Rightarrow> u8) \<Rightarrow> nat \<Rightarrow> u8 \<Rightarrow> u8 list \<Rightarrow> u8 \<times> u8 list" where
  "prng_mix k i j s =
     (if i < 256 then
        let j' = j + (s ! i + k i); t = s ! unat j'
        in prng_mix k (Suc i) j' (s[unat j' := s ! i, i := t])
      else (j, s))"
  by pat_completeness auto
termination
  by (relation "measure (\<lambda>(k, i, j, s). 256 - i)") auto

declare prng_mix.simps [simp del]

definition prng_init :: "(nat \<Rightarrow> u8) \<Rightarrow> prng" where
  "prng_init k =
     (let (j, s) = prng_mix k 0 0 (map of_nat [0..<256])
      in \<lparr>isInit = True, prng_i = 0, prng_j = j, prng_s = s\<rparr>)"

definition randomByte :: "(nat \<Rightarrow> u8) \<Rightarrow> prng \<Rightarrow> u8 \<times> prng" where
  "randomByte seed p =
     (let p = (if \<not> isInit p then prng_init seed else p);
          i = prng_i p + 1;
          t = prng_s p ! unat i;
          j = prng_j p + t;
          s1 = (prng_s p)[unat i := prng_s p ! unat j];
          s2 = s1[unat j := t];
          t' = t + s2 ! unat i
      in (s2 ! unat t', p\<lparr>prng_i := i, prng_j := j, prng_s := s2\<rparr>))"

fun sqliteRandomness :: "(nat \<Rightarrow> u8) \<Rightarrow> nat \<Rightarrow> prng \<Rightarrow> u8 list \<times> prng" where
  "sqliteRandomness seed 0 p = ([], p)"
| "sqliteRandomness seed (Suc n) p =
     (let (b, p1) = randomByte seed p; (bs, p2) = sqliteRandomness seed n p1 in (b # bs, p2))"

subsection \<open>The state stays a permutation of the bytes\<close>

definition all_bytes :: "u8 list" where
  "all_bytes = map of_nat [0..<256]"

definition prng_ok :: "prng \<Rightarrow> bool" where
  "prng_ok p \<longleftrightarrow> (isInit p \<longrightarrow> mset (prng_s p) = mset all_bytes)"

lemma length_all_bytes [simp]: "length all_bytes = 256"
  by (simp add: all_bytes_def)

lemma distinct_all_bytes: "distinct all_bytes"
proof -
  have "inj_on (of_nat :: nat \<Rightarrow> u8) {0..<256}"
  proof (rule inj_onI)
    fix x y :: nat
    assume "x \<in> {0..<256}" "y \<in> {0..<256}" "(of_nat x :: u8) = of_nat y"
    then have "unat (of_nat x :: u8) = unat (of_nat y :: u8)" "x < 256" "y < 256" by auto
    then show "x = y" by (simp add: unat_of_nat)
  qed
  then show ?thesis by (simp add: all_bytes_def distinct_map)
qed

lemma perm_bytes:
  assumes "mset s = mset all_bytes"
  shows "length s = 256" "distinct s" "set s = UNIV"
proof -
  show "length s = 256" using mset_eq_length [OF assms] by simp
  show "distinct s" using assms distinct_all_bytes mset_eq_imp_distinct_iff by blast
  have "b \<in> set all_bytes" for b :: u8
    unfolding all_bytes_def using unat_u8_less [of b] by (auto intro!: image_eqI [of _ _ "unat b"])
  then show "set s = UNIV" using mset_eq_setD [OF assms] by auto
qed

lemma mset_exchange:
  "i < length s \<Longrightarrow> j < length s \<Longrightarrow> mset (s[j := s ! i, i := s ! j]) = mset s"
  by (metis mset_swap list_update_swap list_update_overwrite list_update_id)

lemma prng_mix_perm:
  "mset s = mset all_bytes \<Longrightarrow> mset (snd (prng_mix k i j s)) = mset all_bytes"
proof (induction k i j s rule: prng_mix.induct)
  case (1 k i j s)
  have l: "length s = 256" using perm_bytes(1) [OF "1.prems"] .
  show ?case
  proof (cases "i < 256")
    case True
    let ?j = "j + (s ! i + k i)"
    have "mset (s[unat ?j := s ! i, i := s ! unat ?j]) = mset s"
      using l True by (intro mset_exchange) auto
    then show ?thesis
      using "1.IH" [OF True refl refl] "1.prems" True by (subst prng_mix.simps) (simp add: Let_def)
  next
    case False
    then show ?thesis using "1.prems" by (subst prng_mix.simps) simp
  qed
qed

lemma prng_init_ok: "mset (prng_s (prng_init k)) = mset all_bytes" "isInit (prng_init k)"
  using prng_mix_perm [of all_bytes k 0 0]
  by (simp_all add: prng_init_def all_bytes_def case_prod_unfold Let_def)


text \<open>The state before a step, from the state after it.\<close>

definition prng_back :: "prng \<Rightarrow> prng" where
  "prng_back p =
     (let i = prng_i p; j = prng_j p; s = prng_s p; t = s ! unat j
      in p\<lparr>prng_i := i - 1, prng_j := j - t, prng_s := s[unat j := s ! unat i, unat i := t]\<rparr>)"

lemma randomByte_state:
  assumes "isInit p" "length (prng_s p) = 256"
  shows "mset (prng_s (snd (randomByte seed p))) = mset (prng_s p)"
    and "isInit (snd (randomByte seed p))" and "prng_back (snd (randomByte seed p)) = p"
proof -
  let ?i = "unat (prng_i p + 1)" and ?s = "prng_s p"
  let ?j = "unat (prng_j p + ?s ! ?i)"
  let ?s2 = "?s[?i := ?s ! ?j, ?j := ?s ! ?i]"
  have step: "snd (randomByte seed p) = p\<lparr>prng_i := prng_i p + 1, prng_j := prng_j p + ?s ! ?i, prng_s := ?s2\<rparr>"
    using assms(1) by (simp add: randomByte_def Let_def)
  have ij: "?i < 256" "?j < 256" by simp_all
  show "mset (prng_s (snd (randomByte seed p))) = mset ?s"
    using ij assms(2) by (simp add: step mset_exchange)
  show "isInit (snd (randomByte seed p))" using assms(1) by (simp add: step)
  have "?s2 ! ?j = ?s ! ?i" "?s2 ! ?i = ?s ! ?j"
    using ij assms(2) by (auto simp: nth_list_update)
  moreover have "?s2[?j := ?s ! ?j, ?i := ?s ! ?i] = ?s"
    using ij assms(2) by (intro nth_equalityI) (auto simp: nth_list_update)
  ultimately show "prng_back (snd (randomByte seed p)) = p"
    by (simp add: step prng_back_def Let_def)
qed

lemma randomByte_ok:
  assumes "prng_ok p"
  shows "isInit (snd (randomByte seed p))" "mset (prng_s (snd (randomByte seed p))) = mset all_bytes"
proof -
  let ?q = "if \<not> isInit p then prng_init seed else p"
  have q: "isInit ?q" "mset (prng_s ?q) = mset all_bytes"
    using assms prng_init_ok [of seed] by (auto simp: prng_ok_def)
  have eq: "randomByte seed p = randomByte seed ?q"
    using q(1) by (simp add: randomByte_def prng_init_ok(2))
  note st = randomByte_state [OF q(1) perm_bytes(1) [OF q(2)], of seed]
  show "isInit (snd (randomByte seed p))" unfolding eq by (rule st(2))
  show "mset (prng_s (snd (randomByte seed p))) = mset all_bytes"
    unfolding eq st(1) by (rule q(2))
qed

lemma sqliteRandomness_Suc:
  "sqliteRandomness seed (Suc n) p =
     (fst (randomByte seed p) # fst (sqliteRandomness seed n (snd (randomByte seed p))),
      snd (sqliteRandomness seed n (snd (randomByte seed p))))"
  by (simp add: case_prod_unfold Let_def)

lemma sqliteRandomness_ok:
  "prng_ok p \<Longrightarrow> length (fst (sqliteRandomness seed n p)) = n \<and> prng_ok (snd (sqliteRandomness seed n p)) \<and>
     (isInit p \<or> 0 < n \<longrightarrow> isInit (snd (sqliteRandomness seed n p)))"
proof (induction n arbitrary: p)
  case (Suc n)
  then show ?case
    using randomByte_ok [of p seed] Suc.IH [of "snd (randomByte seed p)"]
    by (auto simp: sqliteRandomness_Suc prng_ok_def simp del: sqliteRandomness.simps)
qed simp

lemma sqliteRandomness_inject:
  assumes "prng_ok p" "prng_ok q" "isInit p" "isInit q"
    and "snd (sqliteRandomness seed n p) = snd (sqliteRandomness seed n q)"
  shows "p = q"
  using assms
proof (induction n arbitrary: p q)
  case (Suc n)
  have l: "length (prng_s r) = 256" if "prng_ok r" "isInit r" for r
    using that perm_bytes(1) by (simp add: prng_ok_def)
  have "snd (randomByte seed p) = snd (randomByte seed q)"
    using Suc.IH [of "snd (randomByte seed p)" "snd (randomByte seed q)"] Suc.prems
      randomByte_ok [of p seed] randomByte_ok [of q seed]
    by (simp add: sqliteRandomness_Suc prng_ok_def del: sqliteRandomness.simps)
  then show ?case
    using randomByte_state(3) [of p seed] randomByte_state(3) [of q seed] Suc.prems l by metis
qed simp

subsection \<open>Properties\<close>

text \<open>
  C37. The generator never leaves its state space: from the start, or from any state in which the table
  is a permutation of the 256 bytes, \<open>sqliteRandomness\<close> returns as many bytes as were asked for and
  ends in such a state; and no step loses information: two initialised states that lead to the same
  state were the same.
\<close>

theorem sqliteRandomness_permutation:
  assumes "isInit p \<longrightarrow> mset (prng_s p) = mset all_bytes" and "isInit q" and "mset (prng_s q) = mset all_bytes"
    and "sqliteRandomness seed n p = (bs, p')"
  shows "length bs = n \<and> (isInit p \<or> 0 < n \<longrightarrow> mset (prng_s p') = mset all_bytes) \<and>
    (isInit p \<and> snd (sqliteRandomness seed n q) = p' \<longrightarrow> q = p)"
  using sqliteRandomness_ok [of p seed n] sqliteRandomness_inject [of p q seed n] assms
  by (auto simp: prng_ok_def)

theorem sqliteRandomness_permutation_witness:
  "length (fst (sqliteRandomness (\<lambda>_. 3) 8 \<lparr>isInit = False, prng_i = 0, prng_j = 0, prng_s = []\<rparr>)) = 8"
  using sqliteRandomness_permutation
    [of "\<lparr>isInit = False, prng_i = 0, prng_j = 0, prng_s = []\<rparr>" "prng_init (\<lambda>_. 3)" "\<lambda>_. 3" 8, OF _ _ _ prod.collapse [symmetric]]
    prng_init_ok [of "\<lambda>_. 3"] by simp

end
