(* ===== verification/Expr.thy ===== *)
theory Expr
  imports Util
begin

text \<open>
  Expression trees (\<open>struct Expr\<close> of \<^verbatim>\<open>sqliteInt.h\<close>) and the routines of \<^verbatim>\<open>expr.c\<close> that only inspect them.

  A null pointer is \<open>None\<close>.  A token is the text it covers; of a sub-select only the list of its result
  expressions is kept.
\<close>

datatype tk =
    TK_PLUS | TK_MINUS | TK_STAR | TK_SLASH | TK_REM | TK_BITAND | TK_BITOR | TK_LSHIFT | TK_RSHIFT
  | TK_AND | TK_OR | TK_LT | TK_LE | TK_GT | TK_GE | TK_NE | TK_EQ | TK_ISNULL | TK_NOTNULL | TK_NOT
  | TK_UMINUS | TK_UPLUS | TK_BITNOT | TK_CONCAT | TK_INTEGER | TK_FLOAT | TK_STRING | TK_NULL
  | TK_VARIABLE | TK_COLUMN | TK_FUNCTION | TK_AGG_FUNCTION | TK_GLOB | TK_LIKE | TK_SELECT | TK_IN
  | TK_BETWEEN | TK_AS | TK_CASE | TK_RAISE | TK_ID | TK_DOT | TK_ABORT

datatype expr = Expr
  (op: tk) (dataType: nat) (pLeft: "expr option") (pRight: "expr option") (pList: "expr list option")
  (token: "cstring option") (iTable: int) (iColumn: int) (iAgg: int) (pSelect: "expr list option")

definition SQLITE_SO_TEXT :: nat where "SQLITE_SO_TEXT = 2"
definition SQLITE_SO_NUM :: nat where "SQLITE_SO_NUM = 4"

subsection \<open>The type of an expression\<close>

text \<open>
  The operators the first two groups of cases list.  The result of \<open>sqliteExprType\<close> is \<open>None\<close> when the
  assertion of the last case fails.
\<close>

definition numeric_tk :: "tk \<Rightarrow> bool" where
  "numeric_tk t \<longleftrightarrow> t \<in> {TK_PLUS, TK_MINUS, TK_STAR, TK_SLASH, TK_AND, TK_OR, TK_ISNULL, TK_NOTNULL, TK_NOT,
     TK_UMINUS, TK_UPLUS, TK_BITAND, TK_BITOR, TK_BITNOT, TK_LSHIFT, TK_RSHIFT, TK_REM, TK_INTEGER,
     TK_FLOAT, TK_IN, TK_BETWEEN, TK_GLOB, TK_LIKE}"

definition text_tk :: "tk \<Rightarrow> bool" where
  "text_tk t \<longleftrightarrow> t \<in> {TK_STRING, TK_NULL, TK_CONCAT, TK_VARIABLE}"

definition compare_tk :: "tk \<Rightarrow> bool" where
  "compare_tk t \<longleftrightarrow> t \<in> {TK_LT, TK_LE, TK_GT, TK_GE, TK_NE, TK_EQ}"

fun sqliteExprType :: "expr \<Rightarrow> nat option" and
    opt_type :: "expr option \<Rightarrow> nat option" and
    case_type :: "bool \<Rightarrow> expr list \<Rightarrow> nat option" where
  "sqliteExprType (Expr t dt l r xs tok tab col agg sel) =
     (if numeric_tk t then Some SQLITE_SO_NUM
      else if text_tk t then Some SQLITE_SO_TEXT
      else if compare_tk t then
        (case opt_type l of
           None \<Rightarrow> None
         | Some d \<Rightarrow> if d = SQLITE_SO_NUM then Some SQLITE_SO_NUM else opt_type r)
      else if t = TK_AS then opt_type l
      else if t = TK_COLUMN \<or> t = TK_FUNCTION \<or> t = TK_AGG_FUNCTION then Some dt
      else if t = TK_SELECT then (case sel of Some (e # _) \<Rightarrow> sqliteExprType e | _ \<Rightarrow> None)
      else if t = TK_CASE then
        (case (if r = None then Some SQLITE_SO_TEXT else opt_type r) of
           None \<Rightarrow> None
         | Some d \<Rightarrow> if d = SQLITE_SO_NUM then Some SQLITE_SO_NUM
                     else (case xs of None \<Rightarrow> Some SQLITE_SO_TEXT | Some es \<Rightarrow> case_type False es))
      else None)"
| "opt_type None = Some SQLITE_SO_NUM"
| "opt_type (Some e) = sqliteExprType e"
| "case_type value [] = Some SQLITE_SO_TEXT"
| "case_type value (e # es) =
     (if value then
        (case sqliteExprType e of
           None \<Rightarrow> None
         | Some d \<Rightarrow> if d = SQLITE_SO_NUM then Some SQLITE_SO_NUM else case_type False es)
      else case_type True es)"

subsection \<open>Constants\<close>

text \<open>\<open>case TK_ID\<close> to \<open>TK_VARIABLE\<close> of \<open>sqliteExprIsConstant\<close>, and the recursion of the default case.\<close>

fun sqliteExprIsConstant :: "expr \<Rightarrow> bool" and all_constant :: "expr list \<Rightarrow> bool" where
  "sqliteExprIsConstant (Expr t dt l r xs tok tab col agg sel) =
     (if t \<in> {TK_ID, TK_COLUMN, TK_DOT, TK_FUNCTION} then False
      else if t \<in> {TK_NULL, TK_STRING, TK_INTEGER, TK_FLOAT, TK_VARIABLE} then True
      else
        (case l of None \<Rightarrow> True | Some e \<Rightarrow> sqliteExprIsConstant e) \<and>
        (case r of None \<Rightarrow> True | Some e \<Rightarrow> sqliteExprIsConstant e) \<and>
        (case xs of None \<Rightarrow> True | Some es \<Rightarrow> all_constant es) \<and>
        (l \<noteq> None \<or> r \<noteq> None \<or> (case xs of None \<Rightarrow> False | Some es \<Rightarrow> es \<noteq> [])))"
| "all_constant [] = True"
| "all_constant (e # es) = (sqliteExprIsConstant e \<and> all_constant es)"

text \<open>\<open>atoi\<close> of the C library on a string that fits.\<close>

definition atoi :: "cstring \<Rightarrow> int" where
  "atoi z =
     (let d = int (digit_value (takeWhile isdigit (skip_sign z))) in if zat z 0 = 45 then - d else d)"

fun sqliteExprIsInteger :: "expr \<Rightarrow> int option" where
  "sqliteExprIsInteger (Expr t dt l r xs tok tab col agg sel) =
     (case t of
        TK_INTEGER \<Rightarrow>
          (case tok of Some z \<Rightarrow> if sqliteFitsIn32Bits z then Some (atoi z) else None | None \<Rightarrow> None)
      | TK_STRING \<Rightarrow>
          (case tok of
             Some z \<Rightarrow>
               if dropWhile isdigit (if zat z 0 = 45 then tl z else z) = [] \<and> sqliteFitsIn32Bits z
               then Some (atoi z) else None
           | None \<Rightarrow> None)
      | TK_UPLUS \<Rightarrow> (case l of Some e \<Rightarrow> sqliteExprIsInteger e | None \<Rightarrow> None)
      | TK_UMINUS \<Rightarrow> (case l of Some e \<Rightarrow> map_option uminus (sqliteExprIsInteger e) | None \<Rightarrow> None)
      | _ \<Rightarrow> None)"

definition sqliteIsRowid :: "cstring \<Rightarrow> bool" where
  "sqliteIsRowid z \<longleftrightarrow>
     sqliteStrICmp z (cstr ''_ROWID_'') = 0 \<or> sqliteStrICmp z (cstr ''ROWID'') = 0 \<or> sqliteStrICmp z (cstr ''OID'') = 0"

subsection \<open>Comparison of expressions\<close>

text \<open>The comparison of the tokens: a null token on the left matches any token.\<close>

definition token_eq :: "cstring option \<Rightarrow> cstring option \<Rightarrow> bool" where
  "token_eq a b =
     (case a of
        None \<Rightarrow> True
      | Some x \<Rightarrow>
          (case b of
             None \<Rightarrow> False
           | Some y \<Rightarrow> length y = length x \<and> sqliteStrNICmp x y (length y) = 0))"

fun sqliteExprCompare :: "expr \<Rightarrow> expr \<Rightarrow> bool" and
    opt_compare :: "expr option \<Rightarrow> expr option \<Rightarrow> bool" and
    list_compare :: "expr list \<Rightarrow> expr list \<Rightarrow> bool" where
  "sqliteExprCompare (Expr t dt l r xs tok tab col agg sel) (Expr t' dt' l' r' xs' tok' tab' col' agg' sel') =
     (t = t' \<and> opt_compare l l' \<and> opt_compare r r' \<and>
      (case xs of
         Some es \<Rightarrow> (case xs' of None \<Rightarrow> False | Some es' \<Rightarrow> length es = length es' \<and> list_compare es es')
       | None \<Rightarrow> xs' = None) \<and>
      sel = None \<and> sel' = None \<and> tab = tab' \<and> col = col' \<and> token_eq tok tok')"
| "opt_compare None b = (b = None)"
| "opt_compare (Some a) None = False"
| "opt_compare (Some a) (Some b) = sqliteExprCompare a b"
| "list_compare [] bs = True"
| "list_compare (a # as) [] = False"
| "list_compare (a # as) (b # bs) = (sqliteExprCompare a b \<and> list_compare as bs)"

subsection \<open>Functions\<close>

text \<open>
  A function definition; \<open>hasFunc\<close> and \<open>hasStep\<close> say whether \<open>xFunc\<close> and \<open>xStep\<close> are set and \<open>addr\<close> is
  the address of the structure.  The hash table \<open>db->aFunc\<close> is an argument that maps a name to the list
  of its definitions, in the order of \<open>pNext\<close>.
\<close>

record funcdef =
  addr :: nat
  hasFunc :: bool
  hasStep :: bool
  nArg :: int
  includeTypes :: bool

definition callable :: "funcdef \<Rightarrow> bool" where
  "callable p \<longleftrightarrow> hasFunc p \<or> hasStep p"

text \<open>The loop \<open>while( p && p->nArg!=nArg )\<close>: the matching definition and \<open>pMaybe\<close>.\<close>

fun func_loop :: "int \<Rightarrow> funcdef option \<Rightarrow> funcdef list \<Rightarrow> funcdef option \<times> funcdef option" where
  "func_loop n maybe [] = (None, maybe)"
| "func_loop n maybe (p # ps) =
     (if nArg p = n then (Some p, maybe)
      else func_loop n (if nArg p < 0 \<and> callable p then Some p else maybe) ps)"

text \<open>\<open>sqliteFindFunction\<close> with \<open>createFlag==0\<close>.\<close>

definition sqliteFindFunction :: "(cstring \<Rightarrow> funcdef list) \<Rightarrow> cstring \<Rightarrow> int \<Rightarrow> funcdef option" where
  "sqliteFindFunction aFunc zName n =
     (let ps = aFunc zName
      in if ps \<noteq> [] \<and> n < 0 then List.find callable ps
         else
           (case func_loop n None ps of
              (Some p, _) \<Rightarrow> if callable p then Some p else None
            | (None, maybe) \<Rightarrow> maybe))"

text \<open>\<open>getFunctionName\<close>, with the name it gives to any other operator.\<close>

definition getFunctionName :: "expr \<Rightarrow> cstring option" where
  "getFunctionName e =
     (case op e of
        TK_FUNCTION \<Rightarrow> token e
      | TK_LIKE \<Rightarrow> Some (cstr ''like'')
      | TK_GLOB \<Rightarrow> Some (cstr ''glob'')
      | _ \<Rightarrow> Some (cstr ''can't happen''))"

end
