(* ===== verification/Mem.thy ===== *)
theory Mem
  imports Util
begin

text \<open>
  The values of the virtual machine (\<open>struct Mem\<close> of \<^verbatim>\<open>vdbeInt.h\<close>) and the operators on them that the
  opcodes of \<^verbatim>\<open>vdbe.c\<close> compute.

  A field of \<open>mem\<close> is \<open>None\<close> when the flag \<open>MEM_Int\<close>, \<open>MEM_Real\<close> or \<open>MEM_Str\<close> is not set; the code never
  reads such a field.  A value can have several representations at once.  Who owns the memory of a
  string (\<open>MEM_Dyn\<close>, \<open>MEM_Static\<close>, \<open>MEM_Ephem\<close>, \<open>MEM_Short\<close>) is not part of the model: a string is its
  bytes.  Integers are 32-bit words; signed overflow, which C leaves undefined, wraps, and a shift
  uses the low five bits of its count.  Floating point is a parameter, the record \<open>float_ops\<close>.
\<close>

type_synonym i32 = "32 word"

record 'r float_ops =
  f_atof :: "cstring \<Rightarrow> 'r"
  f_print :: "'r \<Rightarrow> cstring"
  f_of_int :: "int \<Rightarrow> 'r"
  f_to_int :: "'r \<Rightarrow> i32"
  f_add :: "'r \<Rightarrow> 'r \<Rightarrow> 'r"
  f_sub :: "'r \<Rightarrow> 'r \<Rightarrow> 'r"
  f_mul :: "'r \<Rightarrow> 'r \<Rightarrow> 'r"
  f_div :: "'r \<Rightarrow> 'r \<Rightarrow> 'r"
  f_neg :: "'r \<Rightarrow> 'r"

record 'r mem =
  m_null :: bool
  m_int :: "i32 option"
  m_real :: "'r option"
  m_str :: "cstring option"

definition mem_null :: "'r mem" where
  "mem_null = \<lparr>m_null = True, m_int = None, m_real = None, m_str = None\<rparr>"

definition mem_int :: "i32 \<Rightarrow> 'r mem" where
  "mem_int i = \<lparr>m_null = False, m_int = Some i, m_real = None, m_str = None\<rparr>"

definition mem_real :: "'r \<Rightarrow> 'r mem" where
  "mem_real r = \<lparr>m_null = False, m_int = None, m_real = Some r, m_str = None\<rparr>"

definition mem_str :: "cstring \<Rightarrow> 'r mem" where
  "mem_str s = \<lparr>m_null = False, m_int = None, m_real = None, m_str = Some s\<rparr>"

lemmas mem_defs = mem_null_def mem_int_def mem_real_def mem_str_def

subsection \<open>Conversions\<close>

text \<open>The digits loop of \<open>toInt\<close>; the value wraps.\<close>

fun toInt_loop :: "i32 \<Rightarrow> cstring \<Rightarrow> i32" where
  "toInt_loop v [] = v"
| "toInt_loop v (c # z) = (if 48 \<le> c \<and> c \<le> 57 then toInt_loop (v * 10 + ucast c - 48) z else v)"

definition toInt :: "cstring \<Rightarrow> bool \<times> i32" where
  "toInt zNum =
     (let neg = (zat zNum 0 = 45);
          zNum = (if zat zNum 0 = 45 \<or> zat zNum 0 = 43 then tl zNum else zNum);
          i = length (takeWhile (\<lambda>c. 48 \<le> c \<and> c \<le> 57) zNum);
          v = toInt_loop 0 zNum
      in (zat zNum i = 0 \<and> 0 < i \<and> (i < 10 \<or> (i = 10 \<and> memcmp zNum (cstr ''2147483647'') 10 \<le> 0)),
          if neg then - v else v))"

text \<open>\<open>%d\<close> of \<open>sqlite_snprintf\<close>.\<close>

fun print_nat :: "nat \<Rightarrow> cstring" where
  "print_nat n = (if n < 10 then [48 + of_nat n] else print_nat (n div 10) @ [48 + of_nat (n mod 10)])"

declare print_nat.simps [simp del]

definition print_int :: "i32 \<Rightarrow> cstring" where
  "print_int i = (if sint i < 0 then 45 # print_nat (nat (- sint i)) else print_nat (nat (sint i)))"

text \<open>The string of a value after \<open>Stringify\<close>, its integer after \<open>Integerify\<close> and its real after \<open>Realify\<close>.\<close>

definition Stringify :: "'r float_ops \<Rightarrow> 'r mem \<Rightarrow> cstring" where
  "Stringify fl m =
     (case m_str m of
        Some z \<Rightarrow> z
      | None \<Rightarrow>
          (case m_real m of
             Some r \<Rightarrow> f_print fl r
           | None \<Rightarrow> (case m_int m of Some i \<Rightarrow> print_int i | None \<Rightarrow> [])))"

definition Integerify :: "'r float_ops \<Rightarrow> 'r mem \<Rightarrow> i32" where
  "Integerify fl m =
     (case m_int m of
        Some i \<Rightarrow> i
      | None \<Rightarrow>
          (case m_real m of
             Some r \<Rightarrow> f_to_int fl r
           | None \<Rightarrow> (case m_str m of Some z \<Rightarrow> snd (toInt z) | None \<Rightarrow> 0)))"

definition Realify :: "'r float_ops \<Rightarrow> 'r mem \<Rightarrow> 'r" where
  "Realify fl m =
     (case m_real m of
        Some r \<Rightarrow> r
      | None \<Rightarrow>
          (case m_str m of
             Some z \<Rightarrow> f_atof fl z
           | None \<Rightarrow> (case m_int m of Some i \<Rightarrow> f_of_int fl (sint i) | None \<Rightarrow> f_of_int fl 0)))"

subsection \<open>Arithmetic\<close>

datatype arith_op = Add_op | Subtract_op | Multiply_op | Divide_op | Remainder_op

text \<open>C division truncates towards zero.\<close>

definition c_div :: "i32 \<Rightarrow> i32 \<Rightarrow> i32" where
  "c_div b a = word_of_int (sgn (sint b) * sgn (sint a) * (\<bar>sint b\<bar> div \<bar>sint a\<bar>))"

definition c_mod :: "i32 \<Rightarrow> i32 \<Rightarrow> i32" where
  "c_mod b a = word_of_int (sgn (sint b) * (\<bar>sint b\<bar> mod \<bar>sint a\<bar>))"

definition int_arith :: "arith_op \<Rightarrow> i32 \<Rightarrow> i32 \<Rightarrow> i32 option" where
  "int_arith op b a =
     (case op of
        Add_op \<Rightarrow> Some (b + a)
      | Subtract_op \<Rightarrow> Some (b - a)
      | Multiply_op \<Rightarrow> Some (b * a)
      | Divide_op \<Rightarrow> if a = 0 then None else Some (c_div b a)
      | Remainder_op \<Rightarrow> if a = 0 then None else Some (c_mod b a))"

definition real_arith :: "'r float_ops \<Rightarrow> arith_op \<Rightarrow> 'r \<Rightarrow> 'r \<Rightarrow> 'r option" where
  "real_arith fl op b a =
     (case op of
        Add_op \<Rightarrow> Some (f_add fl b a)
      | Subtract_op \<Rightarrow> Some (f_sub fl b a)
      | Multiply_op \<Rightarrow> Some (f_mul fl b a)
      | Divide_op \<Rightarrow> if a = f_of_int fl 0 then None else Some (f_div fl b a)
      | Remainder_op \<Rightarrow>
          if f_to_int fl a = 0 then None
          else Some (f_of_int fl (sint (c_mod (f_to_int fl b) (f_to_int fl a)))))"

text \<open>\<open>nos\<close> is the second entry of the stack and \<open>tos\<close> the top; \<open>None\<close> of a quotient is \<open>divide_by_zero\<close>.\<close>

definition op_arith :: "'r float_ops \<Rightarrow> arith_op \<Rightarrow> 'r mem \<Rightarrow> 'r mem \<Rightarrow> 'r mem" where
  "op_arith fl op nos tos =
     (if m_null tos \<or> m_null nos then mem_null
      else
        (case (m_int tos, m_int nos) of
           (Some a, Some b) \<Rightarrow> (case int_arith op b a of Some b \<Rightarrow> mem_int b | None \<Rightarrow> mem_null)
         | _ \<Rightarrow> (case real_arith fl op (Realify fl nos) (Realify fl tos) of
                   Some b \<Rightarrow> mem_real b | None \<Rightarrow> mem_null)))"

datatype bit_op = BitAnd_op | BitOr_op | ShiftLeft_op | ShiftRight_op

definition op_bits :: "'r float_ops \<Rightarrow> bit_op \<Rightarrow> 'r mem \<Rightarrow> 'r mem \<Rightarrow> 'r mem" where
  "op_bits fl op nos tos =
     (if m_null tos \<or> m_null nos then mem_null
      else
        let a = Integerify fl tos; b = Integerify fl nos
        in mem_int
             (case op of
                BitAnd_op \<Rightarrow> and a b
              | BitOr_op \<Rightarrow> or a b
              | ShiftLeft_op \<Rightarrow> push_bit (unat b mod 32) a
              | ShiftRight_op \<Rightarrow> signed_drop_bit (unat b mod 32) a))"

definition op_negative :: "'r::linorder float_ops \<Rightarrow> 'r mem \<Rightarrow> 'r mem" where
  "op_negative fl m =
     (case (m_real m, m_int m) of
        (Some r, _) \<Rightarrow> mem_real (f_neg fl r)
      | (None, Some i) \<Rightarrow> mem_int (- i)
      | (None, None) \<Rightarrow> if m_null m then m else mem_real (f_neg fl (Realify fl m)))"

definition op_abs :: "'r::linorder float_ops \<Rightarrow> 'r mem \<Rightarrow> 'r mem" where
  "op_abs fl m =
     (let rabs = (\<lambda>r. if r < f_of_int fl 0 then f_neg fl r else r)
      in case (m_real m, m_int m) of
           (Some r, _) \<Rightarrow> mem_real (rabs r)
         | (None, Some i) \<Rightarrow> mem_int (if sint i < 0 then - i else i)
         | (None, None) \<Rightarrow> if m_null m then m else mem_real (rabs (Realify fl m)))"

definition op_not :: "'r float_ops \<Rightarrow> 'r mem \<Rightarrow> 'r mem" where
  "op_not fl m = (if m_null m then m else mem_int (if Integerify fl m = 0 then 1 else 0))"

definition op_bitnot :: "'r float_ops \<Rightarrow> 'r mem \<Rightarrow> 'r mem" where
  "op_bitnot fl m = (if m_null m then m else mem_int (not (Integerify fl m)))"

subsection \<open>Comparison and logic\<close>

datatype cmp_op = Eq_op | Ne_op | Lt_op | Le_op | Gt_op | Ge_op

definition cmp_holds :: "cmp_op \<Rightarrow> int \<Rightarrow> bool" where
  "cmp_holds op c =
     (case op of Eq_op \<Rightarrow> c = 0 | Ne_op \<Rightarrow> c \<noteq> 0 | Lt_op \<Rightarrow> c < 0 | Le_op \<Rightarrow> c \<le> 0
       | Gt_op \<Rightarrow> c > 0 | Ge_op \<Rightarrow> c \<ge> 0)"

text \<open>
  The value of \<open>c\<close> in the numeric comparisons, \<open>None\<close> when an operand is NULL.  The difference of two
  integers is computed in 32 bits.
\<close>

definition compare_num :: "'r::linorder float_ops \<Rightarrow> 'r mem \<Rightarrow> 'r mem \<Rightarrow> int option" where
  "compare_num fl nos tos =
     (if m_null tos \<or> m_null nos then None
      else
        (case (m_int nos, m_int tos) of
           (Some b, Some a) \<Rightarrow> Some (sint (b - a))
         | (b, a) \<Rightarrow>
             if a \<noteq> None \<and> m_str nos \<noteq> None \<and> fst (toInt (the (m_str nos)))
             then Some (sint (snd (toInt (the (m_str nos))) - the a))
             else if b \<noteq> None \<and> m_str tos \<noteq> None \<and> fst (toInt (the (m_str tos)))
             then Some (sint (the b - snd (toInt (the (m_str tos)))))
             else Some (sqliteCompare (f_atof fl) (Some (Stringify fl nos)) (Some (Stringify fl tos)))))"

definition compare_text :: "'r float_ops \<Rightarrow> 'r mem \<Rightarrow> 'r mem \<Rightarrow> int option" where
  "compare_text fl nos tos =
     (if m_null tos \<or> m_null nos then None else Some (strcmp (Stringify fl nos) (Stringify fl tos)))"

definition compare_mem :: "'r::linorder float_ops \<Rightarrow> bool \<Rightarrow> 'r mem \<Rightarrow> 'r mem \<Rightarrow> int option" where
  "compare_mem fl txt nos tos = (if txt then compare_text fl nos tos else compare_num fl nos tos)"

text \<open>The value an instruction with \<open>P2==0\<close> pushes.\<close>

definition mem_bool :: "bool option \<Rightarrow> 'r mem" where
  "mem_bool b = (case b of None \<Rightarrow> mem_null | Some b \<Rightarrow> mem_int (if b then 1 else 0))"

text \<open>The truth value of an operand: 0 is true, 1 false and 2 unknown.\<close>

definition logic_value :: "'r float_ops \<Rightarrow> 'r mem \<Rightarrow> nat" where
  "logic_value fl m = (if m_null m then 2 else if Integerify fl m = 0 then 1 else 0)"

definition and_logic :: "nat list" where "and_logic = [0, 1, 2, 1, 1, 1, 2, 1, 2]"
definition or_logic :: "nat list" where "or_logic = [0, 0, 0, 0, 1, 2, 0, 2, 2]"

definition op_logic :: "'r float_ops \<Rightarrow> bool \<Rightarrow> 'r mem \<Rightarrow> 'r mem \<Rightarrow> 'r mem" where
  "op_logic fl is_and nos tos =
     (let v = (if is_and then and_logic else or_logic) ! (logic_value fl tos * 3 + logic_value fl nos)
      in if v = 2 then mem_null else mem_int (if v = 0 then 1 else 0))"

definition op_concat :: "'r float_ops \<Rightarrow> cstring \<Rightarrow> 'r mem list \<Rightarrow> 'r mem" where
  "op_concat fl sep ms =
     (if list_ex m_null ms \<or> (ms = [] \<and> 1 < length sep) then mem_null
      else mem_str (concat (case map (Stringify fl) ms of [] \<Rightarrow> [] | z # zs \<Rightarrow> z # map ((@) sep) zs)))"

text \<open>What \<open>Stringify\<close> leaves in the entries up to the first NULL.\<close>

definition stringified :: "'r float_ops \<Rightarrow> 'r mem \<Rightarrow> 'r mem" where
  "stringified fl m = (if m_str m \<noteq> None then m else mem_str (Stringify fl m))"

fun stringify_prefix :: "'r float_ops \<Rightarrow> 'r mem list \<Rightarrow> 'r mem list" where
  "stringify_prefix fl [] = []"
| "stringify_prefix fl (m # ms) = (if m_null m then m # ms else stringified fl m # stringify_prefix fl ms)"

definition op_addimm :: "'r float_ops \<Rightarrow> i32 \<Rightarrow> 'r mem \<Rightarrow> 'r mem" where
  "op_addimm fl k m =
     (case m_int m of
        Some i \<Rightarrow> m\<lparr>m_int := Some (i + k)\<rparr>
      | None \<Rightarrow> mem_int (Integerify fl m + k))"

definition op_forceint :: "'r::linorder float_ops \<Rightarrow> bool \<Rightarrow> 'r mem \<Rightarrow> 'r mem option" where
  "op_forceint fl strict m =
     (if m_int m = None \<and> m_real m = None \<and> (m_str m = None \<or> \<not> sqliteIsNumber (the (m_str m))) then None
      else Some (mem_int
        (case m_int m of
           Some i \<Rightarrow> i + (if strict then 1 else 0)
         | None \<Rightarrow>
             let r = Realify fl m; v = f_to_int fl r;
                 v = (if f_of_int fl (sint v) < r then v + 1 else v)
             in if strict \<and> r = f_of_int fl (sint v) then v + 1 else v)))"

definition op_mustbeint :: "'r::linorder float_ops \<Rightarrow> 'r mem \<Rightarrow> 'r mem option" where
  "op_mustbeint fl m =
     (let of_real = (\<lambda>r. if f_of_int fl (sint (f_to_int fl r)) \<noteq> r then None else Some (mem_int (f_to_int fl r)))
      in case (m_int m, m_real m, m_str m) of
           (Some i, _, _) \<Rightarrow> Some (mem_int i)
         | (None, Some r, _) \<Rightarrow> of_real r
         | (None, None, Some z) \<Rightarrow>
             if fst (toInt z) then Some (mem_int (snd (toInt z)))
             else if \<not> sqliteIsNumber z then None
             else of_real (f_atof fl z)
         | (None, None, None) \<Rightarrow> None)"

text \<open>What a failed \<open>OP_MustBeInt\<close> leaves on the stack: a numeric string has got a real representation.\<close>

definition mismatch_mem :: "'r float_ops \<Rightarrow> 'r mem \<Rightarrow> 'r mem" where
  "mismatch_mem fl m =
     (case (m_int m, m_real m, m_str m) of
        (None, None, Some z) \<Rightarrow> if sqliteIsNumber z then m\<lparr>m_real := Some (f_atof fl z)\<rparr> else m
      | _ \<Rightarrow> m)"

end
