(* ===== verification/Vdbeaux.thy ===== *)
theory Vdbeaux
  imports Util "HOL-Library.Monad_Syntax"
begin

text \<open>
  The part of \<^verbatim>\<open>vdbeaux.c\<close> that builds a program for the virtual machine: instructions, labels,
  lists of instructions, and the changes to operands of instructions that are already in place.

  \<open>aOp\<close> is the whole allocated array (\<open>nOpAlloc\<close> is its length), of which the first \<open>nOp\<close> entries are
  used; \<open>aLabel\<close> is \<open>None\<close> for a null pointer.  An operation is \<open>None\<close> when it would access an array
  outside its bounds or when an \<open>assert\<close> fails.  Whether a reallocation succeeds is an argument \<open>mem\<close>.
\<close>

subsection \<open>Definitions\<close>

text \<open>The operand P3: a string, or a pointer to some object (\<open>P3_POINTER\<close>), by its address.\<close>

datatype p3val = P3Str cstring | P3Ptr nat

record 'op vdbe_op =
  opcode :: 'op
  p1 :: int
  p2 :: int
  p3 :: "p3val option"
  p3type :: int

definition P3_NOTUSED :: int where "P3_NOTUSED = 0"
definition P3_DYNAMIC :: int where "P3_DYNAMIC = -1"
definition P3_STATIC :: int where "P3_STATIC = -2"
definition P3_POINTER :: int where "P3_POINTER = -3"

lemmas P3_defs = P3_NOTUSED_def P3_DYNAMIC_def P3_STATIC_def P3_POINTER_def

record 'op vdbe =
  magic_init :: bool
  nOp :: nat
  aOp :: "'op vdbe_op list"
  nLabel :: nat
  nLabelAlloc :: nat
  aLabel :: "int list option"

text \<open>A fresh entry of the array; the argument is the opcode with number 0.\<close>

definition zero_op :: "'op \<Rightarrow> 'op vdbe_op" where
  "zero_op z = \<lparr>opcode = z, p1 = 0, p2 = 0, p3 = None, p3type = P3_NOTUSED\<rparr>"

definition put :: "'a list \<Rightarrow> nat \<Rightarrow> 'a \<Rightarrow> 'a list option" where
  "put xs i x = (if i < length xs then Some (xs[i := x]) else None)"

definition get :: "'a list \<Rightarrow> nat \<Rightarrow> 'a option" where
  "get xs i = (if i < length xs then Some (xs ! i) else None)"

definition sqliteVdbeCreate :: "'op vdbe" where
  "sqliteVdbeCreate =
     \<lparr>magic_init = True, nOp = 0, aOp = [], nLabel = 0, nLabelAlloc = 0, aLabel = None\<rparr>"

text \<open>\<open>p2<0 && (-1-p2)<p->nLabel && p->aLabel[-1-p2]>=0\<close>\<close>

definition resolved :: "'op vdbe \<Rightarrow> int \<Rightarrow> int option" where
  "resolved p x =
     (if x < 0 \<and> nat (-1 - x) < nLabel p then do {
        a \<leftarrow> aLabel p;
        l \<leftarrow> get a (nat (-1 - x));
        Some (if l \<ge> 0 then l else x)
      }
      else Some x)"

definition sqliteVdbeAddOp ::
    "'op \<Rightarrow> bool \<Rightarrow> 'op vdbe \<Rightarrow> 'op \<Rightarrow> int \<Rightarrow> int \<Rightarrow> (nat \<times> 'op vdbe) option" where
  "sqliteVdbeAddOp z mem p oper x1 x2 =
     (let i = nOp p; p = p\<lparr>nOp := i + 1\<rparr>
      in if \<not> magic_init p then None
         else if i \<ge> length (aOp p) \<and> \<not> mem then Some (0, p)
         else do {
           let p = (if i \<ge> length (aOp p)
                    then p\<lparr>aOp := aOp p @ replicate (length (aOp p) + 100) (zero_op z)\<rparr> else p);
           x2 \<leftarrow> resolved p x2;
           a \<leftarrow> put (aOp p) i \<lparr>opcode = oper, p1 = x1, p2 = x2, p3 = None, p3type = P3_NOTUSED\<rparr>;
           Some (i, p\<lparr>aOp := a\<rparr>)
         })"

text \<open>
  \<open>addr<0 || addr>=p->nOp\<close> selects the last instruction.  The argument \<open>n\<close> is the P3 type or, when it
  is not negative, the length of the copy (0 for the whole string).
\<close>

definition p3_addr :: "'op vdbe \<Rightarrow> int \<Rightarrow> nat option" where
  "p3_addr p addr =
     (if addr < 0 \<or> addr \<ge> int (nOp p) then if nOp p = 0 then None else Some (nOp p - 1)
      else Some (nat addr))"

definition sqliteVdbeChangeP3 :: "'op vdbe \<Rightarrow> int \<Rightarrow> p3val option \<Rightarrow> int \<Rightarrow> 'op vdbe option" where
  "sqliteVdbeChangeP3 p addr zP3 n =
     (if \<not> magic_init p then None
      else if aOp p = [] then Some p
      else case p3_addr p addr of
        None \<Rightarrow> Some p
      | Some i \<Rightarrow> do {
          op \<leftarrow> get (aOp p) i;
          op' \<leftarrow> (case zP3 of
                       None \<Rightarrow> Some (op\<lparr>p3 := None, p3type := P3_NOTUSED\<rparr>)
                     | Some s \<Rightarrow>
                         if n < 0 then Some (op\<lparr>p3 := Some s, p3type := n\<rparr>)
                         else (case s of
                             P3Str s \<Rightarrow> Some (op\<lparr>p3 := Some (P3Str (if n = 0 then s else take (nat n) s)),
                                                 p3type := P3_DYNAMIC\<rparr>)
                           | P3Ptr _ \<Rightarrow> None));
          a \<leftarrow> put (aOp p) i op';
          Some (p\<lparr>aOp := a\<rparr>)
        })"

definition sqliteVdbeOp3 ::
    "'op \<Rightarrow> bool \<Rightarrow> 'op vdbe \<Rightarrow> 'op \<Rightarrow> int \<Rightarrow> int \<Rightarrow> p3val option \<Rightarrow> int \<Rightarrow> (nat \<times> 'op vdbe) option" where
  "sqliteVdbeOp3 z mem p oper x1 x2 zP3 t = do {
     (addr, p) \<leftarrow> sqliteVdbeAddOp z mem p oper x1 x2;
     p \<leftarrow> sqliteVdbeChangeP3 p (int addr) zP3 t;
     Some (addr, p)
   }"

fun code_loop :: "'op \<Rightarrow> bool list \<Rightarrow> 'op vdbe \<Rightarrow> ('op \<times> int \<times> int) list \<Rightarrow> 'op vdbe option" where
  "code_loop z ms p [] = Some p"
| "code_loop z [] p (_ # _) = None"
| "code_loop z (mem # ms) p ((oper, x1, x2) # ops) = do {
     (_, p) \<leftarrow> sqliteVdbeAddOp z mem p oper x1 x2;
     code_loop z ms p ops
   }"

definition sqliteVdbeCode ::
    "'op \<Rightarrow> bool list \<Rightarrow> 'op vdbe \<Rightarrow> ('op \<times> int \<times> int) list \<Rightarrow> (nat \<times> 'op vdbe) option" where
  "sqliteVdbeCode z ms p ops = map_option (Pair (nOp p)) (code_loop z ms p ops)"

text \<open>A failed reallocation frees the old array and leaves no labels; \<open>0\<close> is then the result.\<close>

definition sqliteVdbeMakeLabel :: "bool \<Rightarrow> 'op vdbe \<Rightarrow> (int \<times> 'op vdbe) option" where
  "sqliteVdbeMakeLabel mem p =
     (if \<not> magic_init p then None
      else
        let i = nLabel p; p = p\<lparr>nLabel := i + 1\<rparr>;
            p = (if i \<ge> nLabelAlloc p then
                   p\<lparr>nLabelAlloc := nLabelAlloc p * 2 + 10,
                     aLabel := (if mem
                       then Some ((case aLabel p of None \<Rightarrow> [] | Some a \<Rightarrow> a) @
                                  replicate (nLabelAlloc p * 2 + 10 - nLabelAlloc p) 0)
                       else None)\<rparr>
                 else p)
        in case aLabel p of
             None \<Rightarrow> Some (0, p\<lparr>nLabel := 0, nLabelAlloc := 0\<rparr>)
           | Some a \<Rightarrow> do {
               a \<leftarrow> put a i (-1);
               Some (-1 - int i, p\<lparr>aLabel := Some a\<rparr>)
             })"

text \<open>The loop of \<open>sqliteVdbeResolveLabel\<close> over the first \<open>nOp\<close> instructions.\<close>

definition patch_labels :: "int \<Rightarrow> int \<Rightarrow> nat \<Rightarrow> 'op vdbe_op list \<Rightarrow> 'op vdbe_op list" where
  "patch_labels x addr n ops =
     map (\<lambda>op. if p2 op = x then op\<lparr>p2 := addr\<rparr> else op) (take n ops) @ drop n ops"

definition sqliteVdbeResolveLabel :: "'op vdbe \<Rightarrow> int \<Rightarrow> 'op vdbe option" where
  "sqliteVdbeResolveLabel p x =
     (if \<not> magic_init p then None
      else if x < 0 \<and> nat (- x) \<le> nLabel p \<and> aOp p \<noteq> [] then do {
        a \<leftarrow> aLabel p;
        l \<leftarrow> get a (nat (-1 - x));
        if l = int (nOp p) then Some p
        else if l \<ge> 0 then None
        else do {
          a \<leftarrow> put a (nat (-1 - x)) (int (nOp p));
          if nOp p \<le> length (aOp p)
          then Some (p\<lparr>aLabel := Some a, aOp := patch_labels x (int (nOp p)) (nOp p) (aOp p)\<rparr>)
          else None
        }
      }
      else Some p)"

definition sqliteVdbeCurrentAddr :: "'op vdbe \<Rightarrow> nat option" where
  "sqliteVdbeCurrentAddr p = (if magic_init p then Some (nOp p) else None)"

text \<open>The loop of \<open>sqliteVdbeAddOpList\<close> from entry \<open>i\<close> on; \<open>ADDR(p2)\<close> is \<open>-1-p2\<close>.\<close>

definition relocate :: "nat \<Rightarrow> 'op \<times> int \<times> int \<times> cstring option \<Rightarrow> 'op vdbe_op" where
  "relocate addr e =
     (case e of (oper, x1, x2, x3) \<Rightarrow>
        \<lparr>opcode = oper, p1 = x1, p2 = (if x2 < 0 then int addr + (-1 - x2) else x2), p3 = map_option P3Str x3,
         p3type = (if x3 \<noteq> None then P3_STATIC else P3_NOTUSED)\<rparr>)"

fun add_list_loop ::
    "nat \<Rightarrow> nat \<Rightarrow> ('op \<times> int \<times> int \<times> cstring option) list \<Rightarrow> 'op vdbe_op list \<Rightarrow> 'op vdbe_op list option" where
  "add_list_loop addr i [] a = Some a"
| "add_list_loop addr i (e # es) a = do {
     a \<leftarrow> put a (i + addr) (relocate addr e);
     add_list_loop addr (Suc i) es a
   }"

definition sqliteVdbeAddOpList ::
    "'op \<Rightarrow> bool \<Rightarrow> 'op vdbe \<Rightarrow> ('op \<times> int \<times> int \<times> cstring option) list \<Rightarrow> (nat \<times> 'op vdbe) option" where
  "sqliteVdbeAddOpList z mem p ops =
     (let n = length ops
      in if \<not> magic_init p then None
         else if nOp p + n \<ge> length (aOp p) \<and> \<not> mem then Some (0, p)
         else do {
           let p = (if nOp p + n \<ge> length (aOp p)
                    then p\<lparr>aOp := aOp p @ replicate (length (aOp p) + n + 10) (zero_op z)\<rparr> else p);
           a \<leftarrow> add_list_loop (nOp p) 0 ops (aOp p);
           Some (nOp p, p\<lparr>aOp := a, nOp := nOp p + n\<rparr>)
         })"

definition change_op :: "('op vdbe_op \<Rightarrow> 'op vdbe_op) \<Rightarrow> 'op vdbe \<Rightarrow> int \<Rightarrow> 'op vdbe option" where
  "change_op f p addr =
     (if \<not> magic_init p then None
      else if addr \<ge> 0 \<and> int (nOp p) > addr \<and> aOp p \<noteq> [] then do {
        op \<leftarrow> get (aOp p) (nat addr);
        a \<leftarrow> put (aOp p) (nat addr) (f op);
        Some (p\<lparr>aOp := a\<rparr>)
      }
      else Some p)"

definition sqliteVdbeChangeP1 :: "'op vdbe \<Rightarrow> int \<Rightarrow> int \<Rightarrow> 'op vdbe option" where
  "sqliteVdbeChangeP1 p addr val = change_op (\<lambda>op. op\<lparr>p1 := val\<rparr>) p addr"

definition sqliteVdbeChangeP2 :: "'op vdbe \<Rightarrow> int \<Rightarrow> int \<Rightarrow> 'op vdbe option" where
  "sqliteVdbeChangeP2 p addr val =
     (if val < 0 then None else change_op (\<lambda>op. op\<lparr>p2 := val\<rparr>) p addr)"

text \<open>\<open>sqliteDequote\<close> works on the buffer with the terminator.\<close>

definition dequoted :: "cstring \<Rightarrow> cstring" where
  "dequoted s = str_at (sqliteDequote (s @ [0]))"

definition sqliteVdbeDequoteP3 :: "'op vdbe \<Rightarrow> int \<Rightarrow> 'op vdbe option" where
  "sqliteVdbeDequoteP3 p addr =
     (if \<not> magic_init p then None
      else if aOp p = [] then Some p
      else case p3_addr p addr of
        None \<Rightarrow> Some p
      | Some i \<Rightarrow> do {
          op \<leftarrow> get (aOp p) i;
          (case p3 op of
             None \<Rightarrow> Some p
           | Some (P3Ptr _) \<Rightarrow> if p3type op = P3_POINTER then Some p else None
           | Some (P3Str s) \<Rightarrow>
               if zat s 0 = 0 \<or> p3type op = P3_POINTER then Some p
               else do {
                 a \<leftarrow> put (aOp p) i (op\<lparr>p3type := P3_DYNAMIC, p3 := Some (P3Str (dequoted s))\<rparr>);
                 Some (p\<lparr>aOp := a\<rparr>)
               })
        })"

text \<open>
  The loop of \<open>sqliteVdbeCompressSpace\<close> after the leading white space: the argument is the rest of the
  string and the result what has been written from \<open>z[j]\<close> on.
\<close>

function compress_loop :: "cstring \<Rightarrow> cstring" where
  "compress_loop z =
     (if z = [] then []
      else if isspace (hd z) then 32 # compress_loop (dropWhile isspace (tl z))
      else hd z # compress_loop (tl z))"
  by pat_completeness auto
termination
proof (relation "measure length", goal_cases)
  case (2 z)
  then show ?case using length_dropWhile_le [of isspace "tl z"] by (cases z) auto
next
  case (3 z)
  then show ?case by (cases z) auto
qed simp

declare compress_loop.simps [simp del]

definition compress_space :: "cstring \<Rightarrow> cstring" where
  "compress_space z = rev (dropWhile isspace (rev (compress_loop (dropWhile isspace z))))"

definition sqliteVdbeCompressSpace :: "'op vdbe \<Rightarrow> int \<Rightarrow> 'op vdbe option" where
  "sqliteVdbeCompressSpace p addr =
     (if \<not> magic_init p then None
      else if aOp p = [] \<or> addr < 0 \<or> addr \<ge> int (nOp p) then Some p
      else do {
        op \<leftarrow> get (aOp p) (nat addr);
        if p3type op = P3_POINTER then Some p
        else do {
          z \<leftarrow> (case p3 op of
                  None \<Rightarrow> Some None
                | Some (P3Str z) \<Rightarrow> Some (Some (P3Str (compress_space z)))
                | Some (P3Ptr _) \<Rightarrow> None);
          a \<leftarrow> put (aOp p) (nat addr) (op\<lparr>p3type := P3_DYNAMIC, p3 := z\<rparr>);
          Some (p\<lparr>aOp := a\<rparr>)
        }
      })"

fun find_op_loop :: "'op \<Rightarrow> int \<Rightarrow> nat \<Rightarrow> nat \<Rightarrow> 'op vdbe_op list \<Rightarrow> nat option" where
  "find_op_loop oper x2 i 0 a = Some 0"
| "find_op_loop oper x2 i (Suc n) a = do {
     op \<leftarrow> get a i;
     if opcode op = oper \<and> p2 op = x2 then Some (i + 1) else find_op_loop oper x2 (Suc i) n a
   }"

definition sqliteVdbeFindOp :: "'op vdbe \<Rightarrow> 'op \<Rightarrow> int \<Rightarrow> nat option" where
  "sqliteVdbeFindOp p oper x2 =
     (if \<not> magic_init p then None else find_op_loop oper x2 0 (nOp p) (aOp p))"

definition sqliteVdbeGetOp :: "'op vdbe \<Rightarrow> int \<Rightarrow> 'op vdbe_op option" where
  "sqliteVdbeGetOp p addr =
     (if \<not> magic_init p \<or> addr < 0 \<or> addr \<ge> int (nOp p) then None else get (aOp p) (nat addr))"


subsection \<open>A two-pass assembler\<close>

text \<open>
  The specification of the label mechanism: the first pass keeps the instructions as they were given
  and a table of labels; the second replaces every label by its address.
\<close>

record 'op asm =
  sym :: "'op vdbe_op list"
  lab :: "nat option list"

definition target :: "nat option list \<Rightarrow> int \<Rightarrow> int" where
  "target ls x =
     (if x < 0 \<and> nat (-1 - x) < length ls
      then (case ls ! nat (-1 - x) of None \<Rightarrow> x | Some n \<Rightarrow> int n) else x)"

definition assemble :: "'op asm \<Rightarrow> 'op vdbe_op list" where
  "assemble A = map (\<lambda>op. op\<lparr>p2 := target (lab A) (p2 op)\<rparr>) (sym A)"

lemma length_assemble: "length (assemble A) = length (sym A)"
  by (simp add: assemble_def)

datatype 'op cmd = Add 'op int int | Label | Resolve int

text \<open>A label may be resolved once; before the first instruction resolving has no effect.\<close>

definition asm_step :: "'op cmd \<Rightarrow> 'op asm \<Rightarrow> 'op asm option" where
  "asm_step c A =
     (case c of
        Add oper x1 x2 \<Rightarrow>
          Some (A\<lparr>sym := sym A @ [\<lparr>opcode = oper, p1 = x1, p2 = x2, p3 = None, p3type = P3_NOTUSED\<rparr>]\<rparr>)
      | Label \<Rightarrow> Some (A\<lparr>lab := lab A @ [None]\<rparr>)
      | Resolve x \<Rightarrow>
          if x < 0 \<and> nat (- x) \<le> length (lab A) \<and> sym A \<noteq> [] then
            (case lab A ! nat (-1 - x) of
               None \<Rightarrow> Some (A\<lparr>lab := (lab A)[nat (-1 - x) := Some (length (sym A))]\<rparr>)
             | Some n \<Rightarrow> if n = length (sym A) then Some A else None)
          else Some A)"

definition vdbe_step :: "'op \<Rightarrow> 'op cmd \<Rightarrow> 'op vdbe \<Rightarrow> 'op vdbe option" where
  "vdbe_step z c p =
     (case c of
        Add oper x1 x2 \<Rightarrow> map_option snd (sqliteVdbeAddOp z True p oper x1 x2)
      | Label \<Rightarrow> map_option snd (sqliteVdbeMakeLabel True p)
      | Resolve x \<Rightarrow> sqliteVdbeResolveLabel p x)"

fun run_cmds :: "('c \<Rightarrow> 's \<Rightarrow> 's option) \<Rightarrow> 'c list \<Rightarrow> 's \<Rightarrow> 's option" where
  "run_cmds step [] s = Some s"
| "run_cmds step (c # cs) s = do { s \<leftarrow> step c s; run_cmds step cs s }"

text \<open>A step function that simulates another one, and what follows for runs.\<close>

locale simulation =
  fixes conc :: "'c \<Rightarrow> 's \<Rightarrow> 's option" and abst :: "'c \<Rightarrow> 'a \<Rightarrow> 'a option"
    and rel :: "'s \<Rightarrow> 'a \<Rightarrow> bool"
  assumes sim: "rel s a \<Longrightarrow> rel_option rel (conc c s) (abst c a)"
begin

lemma run_sim: "rel s a \<Longrightarrow> rel_option rel (run_cmds conc cs s) (run_cmds abst cs a)"
proof (induction cs arbitrary: s a)
  case (Cons c cs)
  from sim [OF Cons.prems, of c] show ?case
    by (cases rule: option.rel_cases) (auto intro: Cons.IH)
qed simp

end

definition label_value :: "nat option \<Rightarrow> int" where
  "label_value l = (case l of None \<Rightarrow> -1 | Some n \<Rightarrow> int n)"

definition asm_rel :: "'op vdbe \<Rightarrow> 'op asm \<Rightarrow> bool" where
  "asm_rel p A \<longleftrightarrow>
     magic_init p \<and> nOp p = length (sym A) \<and> nOp p \<le> length (aOp p) \<and> (sym A = [] \<longrightarrow> aOp p = []) \<and>
     take (nOp p) (aOp p) = assemble A \<and>
     nLabel p = length (lab A) \<and> nLabel p \<le> nLabelAlloc p \<and>
     length (case aLabel p of None \<Rightarrow> [] | Some a \<Rightarrow> a) = nLabelAlloc p \<and>
     take (nLabel p) (case aLabel p of None \<Rightarrow> [] | Some a \<Rightarrow> a) = map label_value (lab A)"

lemma asm_rel_label:
  assumes "asm_rel p A" "i < nLabel p"
  obtains a where "aLabel p = Some a" "i < length a" "a ! i = label_value (lab A ! i)"
proof -
  obtain a where a: "aLabel p = Some a" using assms by (cases "aLabel p") (auto simp: asm_rel_def)
  have t: "take (nLabel p) a = map label_value (lab A)" and i: "i < length a" "i < length (lab A)"
    using assms a by (auto simp: asm_rel_def)
  have "a ! i = map label_value (lab A) ! i"
    using assms(2) by (simp flip: t)
  then show ?thesis using that a i by simp
qed

lemma resolved_target:
  assumes "asm_rel p A"
  shows "resolved (p\<lparr>nOp := n, aOp := ops\<rparr>) x = Some (target (lab A) x)"
proof (cases "x < 0 \<and> nat (-1 - x) < nLabel p")
  case True
  then obtain a where a: "aLabel p = Some a" "nat (-1 - x) < length a" "a ! nat (-1 - x) = label_value (lab A ! nat (-1 - x))"
    using asm_rel_label [OF assms] by blast
  then show ?thesis
    using True assms by (auto simp: resolved_def get_def target_def label_value_def asm_rel_def split: option.splits)
next
  case False
  then show ?thesis using assms by (auto simp: resolved_def target_def asm_rel_def)
qed

lemma sim_add:
  assumes "asm_rel p A"
  shows "rel_option asm_rel (vdbe_step z (Add oper x1 x2) p) (asm_step (Add oper x1 x2) A)"
proof -
  let ?ops = "if nOp p \<ge> length (aOp p) then aOp p @ replicate (length (aOp p) + 100) (zero_op z) else aOp p"
  let ?op = "\<lparr>opcode = oper, p1 = x1, p2 = target (lab A) x2, p3 = None, p3type = P3_NOTUSED\<rparr>"
  have n: "nOp p < length ?ops" using assms by (auto simp: asm_rel_def)
  have "sqliteVdbeAddOp z True p oper x1 x2 = Some (nOp p, p\<lparr>nOp := nOp p + 1, aOp := ?ops[nOp p := ?op]\<rparr>)"
    using resolved_target [OF assms, where n = "nOp p + 1" and ops = ?ops and x = x2] n assms
    by (auto simp: sqliteVdbeAddOp_def Let_def put_def asm_rel_def)
  moreover have "take (Suc (nOp p)) (?ops[nOp p := ?op]) = take (nOp p) (aOp p) @ [?op]"
    using n assms by (subst take_Suc_conv_app_nth) (auto simp: asm_rel_def)
  ultimately show ?thesis
    using assms n by (auto simp: vdbe_step_def asm_step_def asm_rel_def assemble_def)
qed

lemma sim_label:
  assumes "asm_rel p A"
  shows "rel_option asm_rel (vdbe_step z Label p) (asm_step Label A)"
proof -
  let ?old = "case aLabel p of None \<Rightarrow> [] | Some a \<Rightarrow> a"
  let ?a = "if nLabel p \<ge> nLabelAlloc p
            then ?old @ replicate (nLabelAlloc p * 2 + 10 - nLabelAlloc p) 0 else ?old"
  let ?n = "if nLabel p \<ge> nLabelAlloc p then nLabelAlloc p * 2 + 10 else nLabelAlloc p"
  have n: "nLabel p < length ?a" "length ?a = ?n" using assms by (auto simp: asm_rel_def)
  have "sqliteVdbeMakeLabel True p = Some (-1 - int (nLabel p),
      p\<lparr>nLabel := nLabel p + 1, nLabelAlloc := ?n, aLabel := Some (?a[nLabel p := -1])\<rparr>)"
    using n assms
    by (cases "aLabel p") (auto simp: sqliteVdbeMakeLabel_def Let_def put_def asm_rel_def)
  moreover have "take (Suc (nLabel p)) (?a[nLabel p := -1]) = take (nLabel p) ?old @ [-1]"
    using n assms by (subst take_Suc_conv_app_nth) (auto simp: asm_rel_def)
  moreover have "assemble (A\<lparr>lab := lab A @ [None]\<rparr>) = assemble A"
    by (auto simp: assemble_def target_def nth_append)
  ultimately show ?thesis
    using assms n by (auto simp: vdbe_step_def asm_step_def asm_rel_def label_value_def)
qed

lemma patch_assemble:
  assumes "x < 0" "nat (-1 - x) < length (lab A)" "lab A ! nat (-1 - x) = None"
  shows "map (\<lambda>op. if p2 op = x then op\<lparr>p2 := int n\<rparr> else op) (assemble A)
         = assemble (A\<lparr>lab := (lab A)[nat (-1 - x) := Some n]\<rparr>)"
proof -
  have *: "target ((lab A)[nat (-1 - x) := Some n]) y
           = (if target (lab A) y = x then int n else target (lab A) y)" for y
    using assms by (auto simp: target_def nth_list_update split: option.splits)
  show ?thesis by (simp add: assemble_def *)
qed

lemma sim_resolve:
  assumes "asm_rel p A"
  shows "rel_option asm_rel (vdbe_step z (Resolve x) p) (asm_step (Resolve x) A)"
proof (cases "x < 0 \<and> nat (- x) \<le> nLabel p \<and> aOp p \<noteq> []")
  case False
  then show ?thesis
    using assms by (auto simp: vdbe_step_def asm_step_def sqliteVdbeResolveLabel_def asm_rel_def)
next
  case True
  let ?i = "nat (-1 - x)"
  have i: "?i < nLabel p" using True by auto
  obtain a where a: "aLabel p = Some a" "?i < length a" "a ! ?i = label_value (lab A ! ?i)"
    using asm_rel_label [OF assms i] .
  have sym: "sym A \<noteq> []" "nLabel p = length (lab A)" "magic_init p" "nOp p = length (sym A)"
    "nOp p \<le> length (aOp p)" using assms True by (auto simp: asm_rel_def)
  show ?thesis
  proof (cases "lab A ! ?i")
    case (Some n)
    then show ?thesis
      using True i a sym assms
      by (simp add: vdbe_step_def asm_step_def sqliteVdbeResolveLabel_def get_def label_value_def)
  next
    case None
    let ?A = "A\<lparr>lab := (lab A)[?i := Some (length (sym A))]\<rparr>"
    let ?p = "p\<lparr>aLabel := Some (a[?i := int (nOp p)]),
                aOp := patch_labels x (int (nOp p)) (nOp p) (aOp p)\<rparr>"
    have "vdbe_step z (Resolve x) p = Some ?p" "asm_step (Resolve x) A = Some ?A"
      using True a sym None
      by (simp_all add: vdbe_step_def asm_step_def sqliteVdbeResolveLabel_def get_def put_def label_value_def)
    moreover have "take (nOp p) (aOp ?p) = assemble ?A"
      using patch_assemble [of x A "length (sym A)"] True i sym None assms
      by (auto simp: patch_labels_def asm_rel_def length_assemble)
    moreover have "take (nLabel p) (a[?i := int (nOp p)]) = map label_value (lab ?A)"
      using assms a sym by (simp add: asm_rel_def take_update_swap map_update label_value_def)
    ultimately show ?thesis
      using assms a sym by (simp add: asm_rel_def patch_labels_def length_assemble)
  qed
qed

interpretation vdbe_asm: simulation "vdbe_step z" asm_step asm_rel
proof
  fix p :: "'a vdbe" and A c
  assume "asm_rel p A"
  then show "rel_option asm_rel (vdbe_step z c p) (asm_step c A)"
    by (cases c) (simp_all add: sim_add sim_label sim_resolve)
qed

definition vdbe_build :: "'op \<Rightarrow> 'op cmd list \<Rightarrow> 'op vdbe option" where
  "vdbe_build z cs = run_cmds (vdbe_step z) cs sqliteVdbeCreate"


text \<open>
  The words of a string, the reference for \<open>sqliteVdbeCompressSpace\<close>.
\<close>

function words :: "cstring \<Rightarrow> cstring list" where
  "words z =
     (let w = dropWhile isspace z
      in if w = [] then []
         else takeWhile (\<lambda>c. \<not> isspace c) w # words (dropWhile (\<lambda>c. \<not> isspace c) w))"
  by pat_completeness auto
termination
proof (relation "measure length", goal_cases)
  case (2 z w)
  then have "\<not> isspace (hd w)" "w \<noteq> []" using hd_dropWhile [of isspace z] by auto
  then have "length (dropWhile (\<lambda>c. \<not> isspace c) w) < length w"
    using length_dropWhile_le [of "\<lambda>c. \<not> isspace c" "tl w"] by (cases w) auto
  moreover have "length w \<le> length z" using 2 by (simp add: length_dropWhile_le)
  ultimately show ?case by simp
qed simp

declare words.simps [simp del]

lemma words_Nil: "dropWhile isspace z = [] \<Longrightarrow> words z = []"
  by (subst words.simps) (simp only: Let_def refl if_True)

lemma words_Cons:
  "dropWhile isspace z \<noteq> [] \<Longrightarrow>
   words z = takeWhile (\<lambda>c. \<not> isspace c) (dropWhile isspace z)
     # words (dropWhile (\<lambda>c. \<not> isspace c) (dropWhile isspace z))"
  by (subst words.simps) (simp only: Let_def if_False)

fun join :: "cstring \<Rightarrow> cstring list \<Rightarrow> cstring" where
  "join sep [] = []"
| "join sep [w] = w"
| "join sep (w # ws) = w @ sep @ join sep ws"

definition space_tail :: "cstring list \<Rightarrow> cstring" where
  "space_tail ws = concat (map (\<lambda>w. 32 # w) ws)"

lemma join_Cons: "join [32] (w # ws) = w @ space_tail ws"
  by (induction ws arbitrary: w) (auto simp: space_tail_def)

lemma compress_loop_word:
  "compress_loop z = takeWhile (\<lambda>c. \<not> isspace c) z @ compress_loop (dropWhile (\<lambda>c. \<not> isspace c) z)"
  by (induction z) (simp_all add: compress_loop.simps)

lemma isspace_32 [simp]: "isspace 32"
  by (simp add: isspace_def)

lemma compress_loop_space:
  "isspace c \<Longrightarrow> compress_loop (c # z) = 32 # compress_loop (dropWhile isspace z)"
  by (simp add: compress_loop.simps)

lemma words_nonspace:
  "w \<in> set (words z) \<Longrightarrow> w \<noteq> [] \<and> (\<forall>c \<in> set w. \<not> isspace c)"
proof (induction z rule: words.induct)
  case (1 z)
  let ?w = "dropWhile isspace z"
  show ?case
  proof (cases "?w = []")
    case True
    then show ?thesis using "1.prems" words_Nil [OF True] by simp
  next
    case False
    then have "takeWhile (\<lambda>c. \<not> isspace c) ?w \<noteq> []"
      using hd_dropWhile [OF False] by (cases ?w) auto
    moreover have "w = takeWhile (\<lambda>c. \<not> isspace c) ?w \<or>
        w \<in> set (words (dropWhile (\<lambda>c. \<not> isspace c) ?w))"
      using "1.prems" unfolding words_Cons [OF False] by simp
    moreover have "\<forall>c \<in> set (takeWhile (\<lambda>c. \<not> isspace c) ?w). \<not> isspace c"
      by (blast dest: set_takeWhileD)
    ultimately show ?thesis
      using "1.IH" [OF refl False] by metis
  qed
qed

lemma compress_loop_words:
  "r = [] \<or> isspace (hd r) \<Longrightarrow> \<exists>t \<in> {[], [32]}. compress_loop r = space_tail (words r) @ t"
proof (induction r rule: words.induct)
  case (1 r)
  let ?w = "dropWhile isspace r" and ?v = "dropWhile (\<lambda>c. \<not> isspace c) (dropWhile isspace r)"
  note IH = "1.IH"
  have r: "compress_loop r = 32 # compress_loop ?w" if "r \<noteq> []"
    using "1.prems" that compress_loop_space [of "hd r" "tl r"] by (cases r) auto
  consider "r = []" | "r \<noteq> []" "?w = []" | "r \<noteq> []" "?w \<noteq> []" by blast
  then show ?case
  proof cases
    case 1
    then show ?thesis by (simp add: compress_loop.simps words.simps [of "[]"] space_tail_def)
  next
    case 2
    then show ?thesis
      using r by (simp add: words_Nil space_tail_def compress_loop.simps [of "[]"]
        del: dropWhile_eq_Nil_conv)
  next
    case 3
    have "?v = [] \<or> isspace (hd ?v)" using hd_dropWhile [of "\<lambda>c. \<not> isspace c" ?w] by auto
    then obtain t where "t \<in> {[], [32]}" "compress_loop ?v = space_tail (words ?v) @ t"
      using IH [OF refl 3(2)] by blast
    then show ?thesis
      using r 3 compress_loop_word [of ?w] words_Cons [of r]
      by (intro bexI [of _ t]) (simp_all add: space_tail_def)
  qed
qed

lemma space_tail_last:
  assumes "\<And>w. w \<in> set (v # ws) \<Longrightarrow> w \<noteq> [] \<and> (\<forall>c \<in> set w. \<not> isspace c)"
  shows "\<not> isspace (List.last (v @ space_tail ws))" "v @ space_tail ws \<noteq> []"
proof -
  show "\<not> isspace (List.last (v @ space_tail ws))"
    using assms
  proof (induction ws arbitrary: v)
    case (Cons w ws)
    have "\<not> isspace (List.last (w @ space_tail ws))" by (rule Cons.IH) (use Cons.prems in auto)
    moreover have "w @ space_tail ws \<noteq> []" using Cons.prems [of w] by simp
    ultimately show ?case by (simp add: space_tail_def)
  qed (use last_in_set in \<open>fastforce simp: space_tail_def\<close>)
  show "v @ space_tail ws \<noteq> []" using assms [of v] by simp
qed

lemma compress_space_words: "compress_space z = join [32] (words z)"
proof (cases "dropWhile isspace z = []")
  case True
  then show ?thesis
    using words_Nil [OF True]
    by (simp add: compress_space_def compress_loop.simps [of "[]"] del: dropWhile_eq_Nil_conv)
next
  case False
  let ?w = "dropWhile isspace z"
  let ?h = "takeWhile (\<lambda>c. \<not> isspace c) ?w" and ?v = "dropWhile (\<lambda>c. \<not> isspace c) ?w"
  have words: "words z = ?h # words ?v" using words_Cons [OF False] .
  have "?v = [] \<or> isspace (hd ?v)" using hd_dropWhile [of "\<lambda>c. \<not> isspace c" ?w] by auto
  then obtain t where t: "t \<in> {[], [32]}" "compress_loop ?v = space_tail (words ?v) @ t"
    using compress_loop_words by blast
  let ?l = "?h @ space_tail (words ?v)"
  have "w \<noteq> [] \<and> (\<forall>c \<in> set w. \<not> isspace c)" if "w \<in> set (?h # words ?v)" for w
    using words_nonspace [of w z, unfolded words, OF that] .
  note last_l = space_tail_last [of ?h "words ?v", OF this]
  have "dropWhile isspace (rev ?l) = rev ?l"
    unfolding dropWhile_eq_self_iff hd_rev using last_l(1) by simp
  moreover have "compress_loop ?w = ?l @ t" using t compress_loop_word [of ?w] by simp
  ultimately show ?thesis
    using t(1) unfolding compress_space_def words join_Cons by auto
qed

text \<open>
  \<open>sqliteVdbeCompressSpace\<close> leaves in the operand P3 of the instruction its words, in their order,
  with one space between them and none before or after, and makes it a dynamic string.  An address
  outside the program and an operand that is not a string are left alone.
\<close>
theorem sqliteVdbeCompressSpace_words:
  assumes "magic_init p" "nOp p \<le> length (aOp p)" "p3 (aOp p ! nat addr) = Some (P3Str z)"
  shows "sqliteVdbeCompressSpace p addr =
    Some (if 0 \<le> addr \<and> addr < int (nOp p) \<and> p3type (aOp p ! nat addr) \<noteq> P3_POINTER
          then p\<lparr>aOp := (aOp p)[nat addr := (aOp p ! nat addr)
                   \<lparr>p3type := P3_DYNAMIC, p3 := Some (P3Str (join [32] (words z)))\<rparr>]\<rparr>
          else p)"
proof (cases "0 \<le> addr \<and> addr < int (nOp p)")
  case True
  then have "nat addr < length (aOp p)" using assms by auto
  moreover from this have "aOp p \<noteq> []" by auto
  ultimately show ?thesis
    using True assms by (simp add: sqliteVdbeCompressSpace_def get_def put_def compress_space_words)
next
  case False
  then show ?thesis using assms by (auto simp: sqliteVdbeCompressSpace_def)
qed

theorem sqliteVdbeCompressSpace_words_witness:
  "map_option (\<lambda>p. p3 (aOp p ! 0)) (sqliteVdbeCompressSpace
     \<lparr>magic_init = True, nOp = 1,
      aOp = [\<lparr>opcode = (0::nat), p1 = 0, p2 = 0, p3 = Some (P3Str (cstr ''  a  b '')), p3type = P3_STATIC\<rparr>],
      nLabel = 0, nLabelAlloc = 0, aLabel = None\<rparr> 0)
   = Some (Some (P3Str (cstr ''a b'')))"
proof -
  have "words (cstr ''  a  b '') = [cstr ''a'', cstr ''b'']" by code_simp
  then show ?thesis
    by (subst sqliteVdbeCompressSpace_words [where z = "cstr ''  a  b ''"]) (simp_all add: P3_defs cstr_def)
qed

end
