(* ===== verification/Safety.thy ===== *)
theory Safety
  imports Prelude
begin

text \<open>
  The misuse checks of \<^verbatim>\<open>util.c\<close> (\<open>sqliteSafetyOn\<close>, \<open>sqliteSafetyOff\<close>, \<open>sqliteSafetyCheck\<close>): the
  field \<open>magic\<close> of a database connection as a state machine that every API routine brackets its work
  with.  \<open>busy_vdbe\<close> stands for \<open>db->pVdbe!=0\<close>.
\<close>

definition SQLITE_MAGIC_OPEN :: u32 where "SQLITE_MAGIC_OPEN = 0xa029a697"
definition SQLITE_MAGIC_CLOSED :: u32 where "SQLITE_MAGIC_CLOSED = 0x9f3c2d33"
definition SQLITE_MAGIC_BUSY :: u32 where "SQLITE_MAGIC_BUSY = 0xf03b7906"
definition SQLITE_MAGIC_ERROR :: u32 where "SQLITE_MAGIC_ERROR = 0xb5357930"

lemmas magic_defs =
  SQLITE_MAGIC_OPEN_def SQLITE_MAGIC_CLOSED_def SQLITE_MAGIC_BUSY_def SQLITE_MAGIC_ERROR_def

record db_guard =
  magic :: u32
  interrupted :: bool
  want_to_close :: bool
  busy_vdbe :: bool

definition sqliteSafetyOn :: "db_guard \<Rightarrow> bool \<times> db_guard" where
  "sqliteSafetyOn db =
     (if magic db = SQLITE_MAGIC_OPEN then (False, db\<lparr>magic := SQLITE_MAGIC_BUSY\<rparr>)
      else if magic db = SQLITE_MAGIC_BUSY \<or> magic db = SQLITE_MAGIC_ERROR \<or> want_to_close db
      then (True, db\<lparr>magic := SQLITE_MAGIC_ERROR, interrupted := True\<rparr>)
      else (True, db))"

definition sqliteSafetyOff :: "db_guard \<Rightarrow> bool \<times> db_guard" where
  "sqliteSafetyOff db =
     (if magic db = SQLITE_MAGIC_BUSY then (False, db\<lparr>magic := SQLITE_MAGIC_OPEN\<rparr>)
      else if magic db = SQLITE_MAGIC_OPEN \<or> magic db = SQLITE_MAGIC_ERROR \<or> want_to_close db
      then (True, db\<lparr>magic := SQLITE_MAGIC_ERROR, interrupted := True\<rparr>)
      else (True, db))"

definition sqliteSafetyCheck :: "db_guard \<Rightarrow> bool \<times> db_guard" where
  "sqliteSafetyCheck db =
     (if busy_vdbe db then (True, db\<lparr>magic := SQLITE_MAGIC_ERROR\<rparr>) else (False, db))"

subsection \<open>Runs\<close>

datatype guard_call = On | Off | Check

definition guard_step :: "guard_call \<Rightarrow> db_guard \<Rightarrow> bool \<times> db_guard" where
  "guard_step c =
     (case c of On \<Rightarrow> sqliteSafetyOn | Off \<Rightarrow> sqliteSafetyOff | Check \<Rightarrow> sqliteSafetyCheck)"

text \<open>The calls of all threads in the order in which they happen, with their results.\<close>

fun guard_run :: "guard_call list \<Rightarrow> db_guard \<Rightarrow> (guard_call \<times> bool) list \<times> db_guard" where
  "guard_run [] db = ([], db)"
| "guard_run (c # cs) db =
     (let (r, db1) = guard_step c db; (rs, db2) = guard_run cs db1 in ((c, r) # rs, db2))"

text \<open>The calls before the first one that reports an error.\<close>

definition before_error :: "(guard_call \<times> bool) list \<Rightarrow> guard_call list" where
  "before_error rs = map fst (takeWhile (\<lambda>(c, r). \<not> r) rs)"

fun alternates :: "guard_call list \<Rightarrow> bool" where
  "alternates [] = True"
| "alternates [c] = (c = On)"
| "alternates (c # d # cs) = (c = On \<and> d = Off \<and> alternates cs)"

lemma magic_distinct [simp]:
  "SQLITE_MAGIC_OPEN \<noteq> SQLITE_MAGIC_BUSY" "SQLITE_MAGIC_BUSY \<noteq> SQLITE_MAGIC_OPEN"
  "SQLITE_MAGIC_ERROR \<noteq> SQLITE_MAGIC_OPEN" "SQLITE_MAGIC_ERROR \<noteq> SQLITE_MAGIC_BUSY"
  "SQLITE_MAGIC_OPEN \<noteq> SQLITE_MAGIC_ERROR" "SQLITE_MAGIC_BUSY \<noteq> SQLITE_MAGIC_ERROR"
  by (simp_all add: magic_defs)

lemmas guard_defs = guard_step_def sqliteSafetyOn_def sqliteSafetyOff_def sqliteSafetyCheck_def

lemma guard_step_cases:
  "guard_step c db = (r, db') \<Longrightarrow> magic db \<in> {SQLITE_MAGIC_OPEN, SQLITE_MAGIC_BUSY, SQLITE_MAGIC_ERROR} \<Longrightarrow>
   busy_vdbe db' = busy_vdbe db \<and>
   (if r then magic db' = SQLITE_MAGIC_ERROR
    else c = Check \<and> db' = db \<or>
      c = On \<and> magic db = SQLITE_MAGIC_OPEN \<and> magic db' = SQLITE_MAGIC_BUSY \<or>
      c = Off \<and> magic db = SQLITE_MAGIC_BUSY \<and> magic db' = SQLITE_MAGIC_OPEN)"
  by (cases c) (auto simp: guard_defs split: if_splits)

lemma guard_run_error:
  "magic db = SQLITE_MAGIC_ERROR \<Longrightarrow> guard_run cs db = (rs, db') \<Longrightarrow>
   magic db' = SQLITE_MAGIC_ERROR \<and> (\<forall>(c, r) \<in> set rs. c \<noteq> Check \<longrightarrow> r)"
proof (induction cs arbitrary: db rs)
  case (Cons c cs)
  obtain r db1 rs1 where s: "guard_step c db = (r, db1)" "guard_run cs db1 = (rs1, db')" "rs = (c, r) # rs1"
    using Cons.prems(2) by (auto split: prod.splits)
  have "magic db1 = SQLITE_MAGIC_ERROR" "c \<noteq> Check \<longrightarrow> r"
    using s(1) Cons.prems(1) by (cases c; auto simp: guard_defs split: if_splits)+
  then show ?case using Cons.IH [OF _ s(2)] s(3) by simp
qed simp

lemma guard_run_shape:
  assumes "guard_run cs db = (rs, db')" "magic db = (if inside then SQLITE_MAGIC_BUSY else SQLITE_MAGIC_OPEN)"
  shows "alternates ((if inside then [On] else []) @ filter (\<lambda>c. c \<noteq> Check) (before_error rs)) \<and>
    (\<forall>r1 e r2. rs = r1 @ e # r2 \<and> snd e \<longrightarrow> (\<forall>(c, r) \<in> set r2. c \<noteq> Check \<longrightarrow> r))"
  using assms
proof (induction cs arbitrary: db rs inside)
  case Nil
  then show ?case by (auto simp: before_error_def)
next
  case (Cons c cs)
  obtain r db1 rs1 where s: "guard_step c db = (r, db1)" "guard_run cs db1 = (rs1, db')" "rs = (c, r) # rs1"
    using Cons.prems(1) by (auto split: prod.splits)
  have m: "magic db \<in> {SQLITE_MAGIC_OPEN, SQLITE_MAGIC_BUSY, SQLITE_MAGIC_ERROR}"
    using Cons.prems(2) by auto
  note step = guard_step_cases [OF s(1) m]
  show ?case
  proof (cases r)
    case True
    then have "\<forall>(c, r) \<in> set rs1. c \<noteq> Check \<longrightarrow> r"
      using step guard_run_error [OF _ s(2)] by simp
    then show ?thesis
      using s(3) True by (auto simp: before_error_def append_eq_Cons_conv Cons_eq_append_conv)
  next
    case False
    let ?in = "if c = On then True else if c = Off then False else inside"
    have m1: "magic db1 = (if ?in then SQLITE_MAGIC_BUSY else SQLITE_MAGIC_OPEN)"
      using step False Cons.prems(2) by (auto split: if_splits)
    note IH = Cons.IH [OF s(2) m1]
    have "c = Check \<or> c = On \<and> \<not> inside \<or> c = Off \<and> inside"
      using step False Cons.prems(2) by (auto split: if_splits)
    then have "alternates ((if inside then [On] else []) @ filter (\<lambda>c. c \<noteq> Check) (before_error rs))"
      using IH [THEN conjunct1] s(3) False by (auto simp: before_error_def)
    moreover have "\<forall>(c, r) \<in> set r2. c \<noteq> Check \<longrightarrow> r" if split: "rs = r1 @ e # r2" "snd e" for r1 e r2
    proof -
      obtain r3 where "rs1 = r3 @ e # r2"
        using split s(3) False by (cases r1) auto
      then show ?thesis using IH [THEN conjunct2] split(2) by blast
    qed
    ultimately show ?thesis by blast
  qed
qed

subsection \<open>Properties\<close>

text \<open>
  C24. On an open connection, whatever the order of the calls of the threads: until the first call that
  reports an error, successful entries and exits alternate, so at most one thread is inside; and after a
  call that reports an error every later entry or exit reports one too.
\<close>

theorem safety_exclusion:
  assumes "magic db = SQLITE_MAGIC_OPEN" and "guard_run cs db = (rs, db')"
  shows "alternates (filter (\<lambda>c. c \<noteq> Check) (before_error rs)) \<and>
    (\<forall>r1 e r2. rs = r1 @ e # r2 \<and> snd e \<longrightarrow> (\<forall>(c, r) \<in> set r2. c \<noteq> Check \<longrightarrow> r))"
  using guard_run_shape [OF assms(2), of False] assms(1) by simp

theorem safety_exclusion_witness:
  "guard_run [On, Off, On, On, Off] \<lparr>magic = SQLITE_MAGIC_OPEN, interrupted = False, want_to_close = False, busy_vdbe = False\<rparr> =
     ([(On, False), (Off, False), (On, False), (On, True), (Off, True)],
      \<lparr>magic = SQLITE_MAGIC_ERROR, interrupted = True, want_to_close = False, busy_vdbe = False\<rparr>) \<and>
   alternates [On, Off, On]"
proof -
  let ?db = "\<lparr>magic = SQLITE_MAGIC_OPEN, interrupted = False, want_to_close = False, busy_vdbe = False\<rparr>"
  have run: "guard_run [On, Off, On, On, Off] ?db =
     ([(On, False), (Off, False), (On, False), (On, True), (Off, True)],
      \<lparr>magic = SQLITE_MAGIC_ERROR, interrupted = True, want_to_close = False, busy_vdbe = False\<rparr>)"
    by (simp add: guard_defs)
  have "alternates (filter (\<lambda>c. c \<noteq> Check)
      (before_error [(On, False), (Off, False), (On, False), (On, True), (Off, True)]))"
    by (rule safety_exclusion [OF _ run, THEN conjunct1]) simp
  then show ?thesis using run by (simp add: before_error_def)
qed

end
