(* ===== verification/Vdbe.thy ===== *)
theory Vdbe
  imports Mem Vdbeaux Safety
begin

text \<open>
  The interpreter of the virtual machine, \<open>sqliteVdbeExec\<close> of \<^verbatim>\<open>vdbe.c\<close>, for the opcodes that expressions
  and control flow are compiled to.

  The stack is a list with its top first.  What the opcodes read from cursors and aggregates
  (\<open>OP_Column\<close>, \<open>OP_Recno\<close>, \<open>OP_AggGet\<close>, \<open>OP_Found\<close>, \<open>OP_NotFound\<close>) and the functions that
  \<open>OP_Function\<close> calls are fields of the environment.  Allocation does not fail, no progress callback is
  set and no trace is written.
\<close>

datatype opcode =
    OP_none | OP_Goto | OP_Gosub | OP_Return | OP_Halt | OP_Integer | OP_String | OP_Variable | OP_Pop
  | OP_Dup | OP_Pull | OP_Push | OP_Concat | OP_Arith arith_op | OP_Function | OP_Bits bit_op | OP_AddImm
  | OP_ForceInt | OP_MustBeInt | OP_Cmp cmp_op | OP_StrCmp cmp_op | OP_And | OP_Or | OP_Negative
  | OP_AbsValue | OP_Not | OP_BitNot | OP_Noop | OP_If | OP_IfNot | OP_IsNull | OP_NotNull
  | OP_Column | OP_Recno | OP_AggGet | OP_Found | OP_NotFound
  | OP_MemStore | OP_MemLoad | OP_MemIncr | OP_SetInsert | OP_SetFound | OP_SetNotFound

type_synonym instr = "opcode vdbe_op"

text \<open>
  The environment: floating point, the bound variables, the current row of each cursor, the current
  aggregate, membership in the table of a cursor, and the functions with their result and whether
  they report an error.
\<close>

record 'r env =
  fl :: "'r float_ops"
  azVar :: "cstring option list"
  column :: "int \<Rightarrow> int \<Rightarrow> 'r mem"
  recno :: "int \<Rightarrow> i32 option"
  agg_get :: "int \<Rightarrow> 'r mem"
  found :: "int \<Rightarrow> cstring \<Rightarrow> bool"
  xFunc :: "nat \<Rightarrow> cstring option list \<Rightarrow> 'r mem \<times> bool"
  error_string :: "int \<Rightarrow> cstring"

text \<open>The memory cells, the sets and the connection, which outlive an instruction.\<close>

record 'r store =
  aMem :: "'r mem list"
  aSet :: "cstring list list"
  db :: db_guard

record 'r vm =
  pc :: int
  stack :: "'r mem list"
  returnStack :: "int list"
  store :: "'r store"
  zErrMsg :: "cstring option"
  errorAction :: int
  rc :: int
  halted :: bool

text \<open>
  An instruction leads to the next one, makes \<open>sqliteVdbeExec\<close> return with a code, or breaks an
  assertion or the bounds of an array.
\<close>

datatype 'r result = Next "'r vm" | Return int "'r vm" | Fault

text \<open>The labels \<open>vdbe_halt\<close>, \<open>abort_due_to_error\<close> and \<open>abort_due_to_interrupt\<close>.\<close>

definition interrupt_db :: "'r vm \<Rightarrow> 'r vm" where
  "interrupt_db s = s\<lparr>store := (store s)\<lparr>db := (db (store s))\<lparr>interrupted := False\<rparr>\<rparr>\<rparr>"

definition interrupt_code :: "'r vm \<Rightarrow> int" where
  "interrupt_code s = (if magic (db (store s)) \<noteq> SQLITE_MAGIC_BUSY then SQLITE_MISUSE else SQLITE_INTERRUPT)"

definition abort_due_to_interrupt :: "'r env \<Rightarrow> 'r vm \<Rightarrow> 'r result" where
  "abort_due_to_interrupt env s =
     Return SQLITE_ERROR
       ((interrupt_db s)\<lparr>zErrMsg := Some (error_string env (interrupt_code s)), rc := interrupt_code s, halted := True\<rparr>)"

definition vdbe_halt :: "'r env \<Rightarrow> int \<Rightarrow> 'r vm \<Rightarrow> 'r result" where
  "vdbe_halt env code s =
     (if interrupted (db (store s)) then abort_due_to_interrupt env s
      else if code \<noteq> SQLITE_OK then Return SQLITE_ERROR (s\<lparr>rc := code, halted := True\<rparr>)
      else Return SQLITE_DONE (s\<lparr>halted := True\<rparr>))"

definition abort_due_to_error :: "'r env \<Rightarrow> int \<Rightarrow> 'r vm \<Rightarrow> 'r result" where
  "abort_due_to_error env code s =
     vdbe_halt env code
       (if zErrMsg s = None then s\<lparr>zErrMsg := Some (error_string env code)\<rparr> else s)"

definition jump :: "instr \<Rightarrow> 'r vm \<Rightarrow> 'r vm" where
  "jump op s = s\<lparr>pc := p2 op - 1\<rparr>"

definition jump_if :: "bool \<Rightarrow> instr \<Rightarrow> 'r vm \<Rightarrow> 'r vm" where
  "jump_if b op s = (if b then jump op s else s)"

definition push :: "'r mem \<Rightarrow> 'r vm \<Rightarrow> 'r vm" where
  "push m s = s\<lparr>stack := m # stack s\<rparr>"

text \<open>\<open>popStack\<close>, which must not pop more than there is.\<close>

definition popStack :: "nat \<Rightarrow> 'r vm \<Rightarrow> 'r vm" where
  "popStack n s = s\<lparr>stack := drop n (stack s)\<rparr>"

definition with_tos :: "'r vm \<Rightarrow> ('r mem \<Rightarrow> 'r vm \<Rightarrow> 'r result) \<Rightarrow> 'r result" where
  "with_tos s f = (case stack s of tos # st \<Rightarrow> f tos (s\<lparr>stack := st\<rparr>) | [] \<Rightarrow> Fault)"

definition with_two :: "'r vm \<Rightarrow> ('r mem \<Rightarrow> 'r mem \<Rightarrow> 'r vm \<Rightarrow> 'r result) \<Rightarrow> 'r result" where
  "with_two s f = (case stack s of tos # nos # st \<Rightarrow> f nos tos (s\<lparr>stack := st\<rparr>) | _ \<Rightarrow> Fault)"

subsection \<open>Opcodes\<close>

definition exec_goto :: "'r env \<Rightarrow> instr \<Rightarrow> 'r vm \<Rightarrow> 'r result" where
  "exec_goto env op s =
     (if interrupted (db (store s)) then abort_due_to_interrupt env s else Next (jump op s))"

definition exec_gosub :: "instr \<Rightarrow> 'r vm \<Rightarrow> 'r result" where
  "exec_gosub op s =
     (if length (returnStack s) \<ge> 100
      then Return SQLITE_ERROR
             (s\<lparr>zErrMsg := Some (cstr ''return address stack overflow''), rc := SQLITE_INTERNAL\<rparr>)
      else Next (jump op (s\<lparr>returnStack := (pc s + 1) # returnStack s\<rparr>)))"

definition exec_return :: "'r vm \<Rightarrow> 'r result" where
  "exec_return s =
     (case returnStack s of
        [] \<Rightarrow> Return SQLITE_ERROR
                (s\<lparr>zErrMsg := Some (cstr ''return address stack underflow''), rc := SQLITE_INTERNAL\<rparr>)
      | a # as \<Rightarrow> Next (s\<lparr>returnStack := as, pc := a - 1\<rparr>))"

definition exec_halt :: "instr \<Rightarrow> 'r vm \<Rightarrow> 'r result" where
  "exec_halt op s =
     (let s = s\<lparr>halted := True\<rparr>
      in if p1 op \<noteq> SQLITE_OK then
           let s = s\<lparr>rc := p1 op, errorAction := p2 op\<rparr>
           in Return SQLITE_ERROR
                (case p3 op of Some (P3Str z) \<Rightarrow> s\<lparr>zErrMsg := Some z\<rparr> | _ \<Rightarrow> s)
         else Return SQLITE_DONE (s\<lparr>rc := SQLITE_OK\<rparr>))"

definition exec_integer :: "instr \<Rightarrow> 'r vm \<Rightarrow> 'r result" where
  "exec_integer op s =
     (case p3 op of
        None \<Rightarrow> Next (push (mem_int (word_of_int (p1 op))) s)
      | Some (P3Str z) \<Rightarrow> Next (push ((mem_int (word_of_int (p1 op)))\<lparr>m_str := Some z\<rparr>) s)
      | Some (P3Ptr _) \<Rightarrow> Fault)"

definition exec_string :: "instr \<Rightarrow> 'r vm \<Rightarrow> 'r result" where
  "exec_string op s =
     (case p3 op of
        None \<Rightarrow> Next (push mem_null s)
      | Some (P3Str z) \<Rightarrow> Next (push (mem_str z) s)
      | Some (P3Ptr _) \<Rightarrow> Fault)"

definition variable :: "cstring option list \<Rightarrow> int \<Rightarrow> 'r mem" where
  "variable vs k =
     (let j = k - 1
      in if 0 \<le> j \<and> j < int (length vs)
         then (case vs ! nat j of Some z \<Rightarrow> mem_str z | None \<Rightarrow> mem_null) else mem_null)"

definition exec_pop :: "instr \<Rightarrow> 'r vm \<Rightarrow> 'r result" where
  "exec_pop op s =
     (if p1 op < 0 \<or> length (stack s) < nat (p1 op) then Fault else Next (popStack (nat (p1 op)) s))"

definition exec_dup :: "instr \<Rightarrow> 'r vm \<Rightarrow> 'r result" where
  "exec_dup op s =
     (if p1 op < 0 \<or> length (stack s) \<le> nat (p1 op) then Fault
      else Next (push (stack s ! nat (p1 op)) s))"

definition exec_pull :: "instr \<Rightarrow> 'r vm \<Rightarrow> 'r result" where
  "exec_pull op s =
     (let k = nat (p1 op)
      in if p1 op < 0 \<or> length (stack s) \<le> k then Fault
         else Next (s\<lparr>stack := stack s ! k # take k (stack s) @ drop (Suc k) (stack s)\<rparr>))"

text \<open>\<open>OP_Push\<close> overwrites the entry and then pops the top.\<close>

definition exec_push :: "instr \<Rightarrow> 'r vm \<Rightarrow> 'r result" where
  "exec_push op s =
     (if p1 op < 0 \<or> length (stack s) \<le> nat (p1 op) then Fault
      else Next (s\<lparr>stack := tl ((stack s)[nat (p1 op) := hd (stack s)])\<rparr>))"

definition exec_concat :: "'r env \<Rightarrow> instr \<Rightarrow> 'r vm \<Rightarrow> 'r result" where
  "exec_concat env op s =
     (let n = nat (p1 op);
          sep = (case p3 op of Some (P3Str z) \<Rightarrow> z | _ \<Rightarrow> []);
          ms = rev (take n (stack s));
          kept = rev (stringify_prefix (fl env) ms) @ drop n (stack s)
      in if p1 op < 0 \<or> length (stack s) < n then Fault
         else Next (s\<lparr>stack := op_concat (fl env) sep ms #
                                 (if p2 op = 0 then drop n (stack s) else kept)\<rparr>))"

text \<open>
  \<open>OP_Function\<close> brackets the call with the misuse checks of the connection.
\<close>

definition exec_function :: "'r env \<Rightarrow> instr \<Rightarrow> 'r vm \<Rightarrow> 'r result" where
  "exec_function env op s =
     (let n = nat (p1 op)
      in if p1 op < 0 \<or> length (stack s) < n then Fault
         else case p3 op of
           Some (P3Ptr f) \<Rightarrow>
             (let args = map (\<lambda>m. if m_null m then None else Some (Stringify (fl env) m)) (rev (take n (stack s)));
                  (bad, g) = sqliteSafetyOff (db (store s));
                  s1 = s\<lparr>store := (store s)\<lparr>db := g\<rparr>\<rparr>
              in if bad then abort_due_to_error env SQLITE_MISUSE s1
                 else
                   let (m, err) = xFunc env f args;
                       (bad, g) = sqliteSafetyOn g;
                       s2 = s\<lparr>store := (store s)\<lparr>db := g\<rparr>\<rparr>
                   in if bad then abort_due_to_error env SQLITE_MISUSE s2
                      else
                        let s3 = push m (popStack n s2)
                        in if err
                           then vdbe_halt env SQLITE_ERROR
                                  (s3\<lparr>zErrMsg := Some (case m_str m of Some z \<Rightarrow> z | None \<Rightarrow> cstr ''user function error'')\<rparr>)
                           else Next s3)
         | _ \<Rightarrow> Fault)"

definition exec_forceint :: "'r::linorder env \<Rightarrow> instr \<Rightarrow> 'r vm \<Rightarrow> 'r result" where
  "exec_forceint env op s =
     with_tos s (\<lambda>tos s. case op_forceint (fl env) (p1 op \<noteq> 0) tos of
       None \<Rightarrow> Next (jump op s) | Some m \<Rightarrow> Next (push m s))"

definition exec_mustbeint :: "'r::linorder env \<Rightarrow> instr \<Rightarrow> 'r vm \<Rightarrow> 'r result" where
  "exec_mustbeint env op s =
     with_tos s (\<lambda>tos s'. case op_mustbeint (fl env) tos of
       Some m \<Rightarrow> Next (push m s')
     | None \<Rightarrow>
         let s = push (mismatch_mem (fl env) tos) s'
         in if p2 op = 0 then abort_due_to_error env SQLITE_MISMATCH s
            else if p1 op \<noteq> 0 then Next (jump op s') else Next (jump op s))"

text \<open>The end of a comparison: a jump, or the result is pushed if \<open>P2\<close> is 0.\<close>

definition exec_compare :: "instr \<Rightarrow> bool option \<Rightarrow> 'r vm \<Rightarrow> 'r result" where
  "exec_compare op b s =
     (if p2 op \<noteq> 0
      then Next (jump_if (case b of None \<Rightarrow> p1 op \<noteq> 0 | Some b \<Rightarrow> b) op s)
      else Next (push (mem_bool b) s))"

definition exec_cmp :: "'r::linorder env \<Rightarrow> bool \<Rightarrow> cmp_op \<Rightarrow> instr \<Rightarrow> 'r vm \<Rightarrow> 'r result" where
  "exec_cmp env txt c op s =
     with_two s (\<lambda>nos tos s.
       exec_compare op (map_option (cmp_holds c) (compare_mem (fl env) txt nos tos)) s)"

definition exec_if :: "'r env \<Rightarrow> bool \<Rightarrow> instr \<Rightarrow> 'r vm \<Rightarrow> 'r result" where
  "exec_if env neg op s =
     with_tos s (\<lambda>tos s. Next (jump_if
       (if m_null tos then p1 op \<noteq> 0 else (Integerify (fl env) tos \<noteq> 0) \<noteq> neg) op s))"

definition exec_isnull :: "bool \<Rightarrow> instr \<Rightarrow> 'r vm \<Rightarrow> 'r result" where
  "exec_isnull neg op s =
     (let cnt = nat \<bar>p1 op\<bar>; null = list_ex m_null (take cnt (stack s))
      in if length (stack s) < cnt then Fault
         else Next (jump_if (null \<noteq> neg) op (if p1 op > 0 then popStack cnt s else s)))"

text \<open>A new memory cell is all zero.\<close>

definition zero_mem :: "'r mem" where
  "zero_mem = \<lparr>m_null = False, m_int = None, m_real = None, m_str = None\<rparr>"

definition exec_memstore :: "instr \<Rightarrow> 'r vm \<Rightarrow> 'r result" where
  "exec_memstore op s =
     with_tos s (\<lambda>tos s'.
       let i = p1 op; old = aMem (store s);
           cells = (if i \<ge> int (length old) then old @ replicate (nat i + 5 - length old) zero_mem else old);
           store' = (store s)\<lparr>aMem := cells[nat i := tos]\<rparr>
       in if i < 0 then Fault
          else Next ((if p2 op \<noteq> 0 then s' else s)\<lparr>store := store'\<rparr>))"

definition exec_memload :: "instr \<Rightarrow> 'r vm \<Rightarrow> 'r result" where
  "exec_memload op s =
     (if 0 \<le> p1 op \<and> p1 op < int (length (aMem (store s)))
      then Next (push (aMem (store s) ! nat (p1 op)) s) else Fault)"

definition exec_memincr :: "instr \<Rightarrow> 'r vm \<Rightarrow> 'r result" where
  "exec_memincr op s =
     (if 0 \<le> p1 op \<and> p1 op < int (length (aMem (store s))) then
        let m = aMem (store s) ! nat (p1 op)
        in case m_int m of
             Some i \<Rightarrow>
               if m = mem_int i
               then Next (jump_if (p2 op > 0 \<and> sint (i + 1) > 0) op
                      (s\<lparr>store := (store s)\<lparr>aMem := (aMem (store s))[nat (p1 op) := mem_int (i + 1)]\<rparr>\<rparr>))
               else Fault
           | None \<Rightarrow> Fault
      else Fault)"

text \<open>The sets are hash tables of strings; \<open>aSet\<close> keeps the elements of each.\<close>

definition exec_setinsert :: "'r env \<Rightarrow> instr \<Rightarrow> 'r vm \<Rightarrow> 'r result" where
  "exec_setinsert env op s =
     (let i = nat (p1 op); old = aSet (store s);
          sets = (if length old \<le> i then old @ replicate (i + 1 - length old) [] else old);
          insert = (\<lambda>z s. Next (s\<lparr>store := (store s)\<lparr>aSet := sets[i := List.insert z (sets ! i)]\<rparr>\<rparr>))
      in if p1 op < 0 then Fault
         else case p3 op of
           Some (P3Str z) \<Rightarrow> insert z s
         | Some (P3Ptr _) \<Rightarrow> Fault
         | None \<Rightarrow> with_tos s (\<lambda>tos s. insert (Stringify (fl env) tos) s))"

definition set_found :: "'r store \<Rightarrow> int \<Rightarrow> cstring \<Rightarrow> bool" where
  "set_found st i z \<longleftrightarrow> 0 \<le> i \<and> i < int (length (aSet st)) \<and> z \<in> set (aSet st ! nat i)"

definition exec_setfound :: "'r env \<Rightarrow> bool \<Rightarrow> instr \<Rightarrow> 'r vm \<Rightarrow> 'r result" where
  "exec_setfound env neg op s =
     with_tos s (\<lambda>tos s.
       Next (jump_if (set_found (store s) (p1 op) (Stringify (fl env) tos) \<noteq> neg) op s))"

definition exec_found :: "'r env \<Rightarrow> bool \<Rightarrow> instr \<Rightarrow> 'r vm \<Rightarrow> 'r result" where
  "exec_found env neg op s =
     with_tos s (\<lambda>tos s. Next (jump_if (found env (p1 op) (Stringify (fl env) tos) \<noteq> neg) op s))"

text \<open>\<open>OP_Recno\<close>: the number of the current row, or NULL on the row of NULLs.\<close>

definition row_number :: "'r env \<Rightarrow> int \<Rightarrow> 'r mem" where
  "row_number env i = (case recno env i of None \<Rightarrow> mem_null | Some v \<Rightarrow> mem_int v)"

definition exec_op :: "'r::linorder env \<Rightarrow> instr \<Rightarrow> 'r vm \<Rightarrow> 'r result" where
  "exec_op env op s =
     (case opcode op of
        OP_none \<Rightarrow> Fault
      | OP_Goto \<Rightarrow> exec_goto env op s
      | OP_Gosub \<Rightarrow> exec_gosub op s
      | OP_Return \<Rightarrow> exec_return s
      | OP_Halt \<Rightarrow> exec_halt op s
      | OP_Integer \<Rightarrow> exec_integer op s
      | OP_String \<Rightarrow> exec_string op s
      | OP_Variable \<Rightarrow> Next (push (variable (azVar env) (p1 op)) s)
      | OP_Pop \<Rightarrow> exec_pop op s
      | OP_Dup \<Rightarrow> exec_dup op s
      | OP_Pull \<Rightarrow> exec_pull op s
      | OP_Push \<Rightarrow> exec_push op s
      | OP_Concat \<Rightarrow> exec_concat env op s
      | OP_Arith a \<Rightarrow> with_two s (\<lambda>nos tos s. Next (push (op_arith (fl env) a nos tos) s))
      | OP_Function \<Rightarrow> exec_function env op s
      | OP_Bits b \<Rightarrow> with_two s (\<lambda>nos tos s. Next (push (op_bits (fl env) b nos tos) s))
      | OP_AddImm \<Rightarrow> with_tos s (\<lambda>tos s. Next (push (op_addimm (fl env) (word_of_int (p1 op)) tos) s))
      | OP_ForceInt \<Rightarrow> exec_forceint env op s
      | OP_MustBeInt \<Rightarrow> exec_mustbeint env op s
      | OP_Cmp c \<Rightarrow> exec_cmp env False c op s
      | OP_StrCmp c \<Rightarrow> exec_cmp env True c op s
      | OP_And \<Rightarrow> with_two s (\<lambda>nos tos s. Next (push (op_logic (fl env) True nos tos) s))
      | OP_Or \<Rightarrow> with_two s (\<lambda>nos tos s. Next (push (op_logic (fl env) False nos tos) s))
      | OP_Negative \<Rightarrow> with_tos s (\<lambda>tos s. Next (push (op_negative (fl env) tos) s))
      | OP_AbsValue \<Rightarrow> with_tos s (\<lambda>tos s. Next (push (op_abs (fl env) tos) s))
      | OP_Not \<Rightarrow> with_tos s (\<lambda>tos s. Next (push (op_not (fl env) tos) s))
      | OP_BitNot \<Rightarrow> with_tos s (\<lambda>tos s. Next (push (op_bitnot (fl env) tos) s))
      | OP_Noop \<Rightarrow> Next s
      | OP_If \<Rightarrow> exec_if env False op s
      | OP_IfNot \<Rightarrow> exec_if env True op s
      | OP_IsNull \<Rightarrow> exec_isnull False op s
      | OP_NotNull \<Rightarrow> exec_isnull True op s
      | OP_Column \<Rightarrow> Next (push (column env (p1 op) (p2 op)) s)
      | OP_Recno \<Rightarrow> Next (push (row_number env (p1 op)) s)
      | OP_AggGet \<Rightarrow> Next (push (agg_get env (p2 op)) s)
      | OP_Found \<Rightarrow> exec_found env False op s
      | OP_NotFound \<Rightarrow> exec_found env True op s
      | OP_MemStore \<Rightarrow> exec_memstore op s
      | OP_MemLoad \<Rightarrow> exec_memload op s
      | OP_MemIncr \<Rightarrow> exec_memincr op s
      | OP_SetInsert \<Rightarrow> exec_setinsert env op s
      | OP_SetFound \<Rightarrow> exec_setfound env False op s
      | OP_SetNotFound \<Rightarrow> exec_setfound env True op s)"

text \<open>
  One turn of the loop: the assertions \<open>pc>=0 && pc<p->nOp\<close> and \<open>pTos<=&p->aStack[pc]\<close>, the
  instruction, and \<open>pc++\<close>.
\<close>

definition exec_step :: "'r::linorder env \<Rightarrow> instr list \<Rightarrow> 'r vm \<Rightarrow> 'r result" where
  "exec_step env ops s =
     (if pc s < 0 \<or> pc s \<ge> int (length ops) \<or> int (length (stack s)) > pc s + 1 then Fault
      else case exec_op env (ops ! nat (pc s)) s of
        Next s' \<Rightarrow> Next (s'\<lparr>pc := pc s' + 1\<rparr>)
      | r \<Rightarrow> r)"

text \<open>The loop, with a bound on the number of instructions.\<close>

fun sqliteVdbeExec :: "'r::linorder env \<Rightarrow> instr list \<Rightarrow> nat \<Rightarrow> 'r vm \<Rightarrow> 'r result" where
  "sqliteVdbeExec env ops 0 s = Next s"
| "sqliteVdbeExec env ops (Suc n) s =
     (case exec_step env ops s of Next s' \<Rightarrow> sqliteVdbeExec env ops n s' | r \<Rightarrow> r)"

end
