(* ===== verification/Expr_Code.thy ===== *)
theory Expr_Code
  imports Expr Vdbe
begin

text \<open>
  The code generator for expressions of \<^verbatim>\<open>expr.c\<close>: \<open>sqliteExprCode\<close> leaves the value of an expression on
  the stack, \<open>sqliteExprIfTrue\<close> and \<open>sqliteExprIfFalse\<close> jump on its truth value.

  The generator works on the program under construction (theory \<open>Vdbeaux\<close>) and on the error count of
  the parser; it is \<open>None\<close> where an assertion fails or a null pointer is followed.
\<close>

text \<open>
  What the generator reads: \<open>pParse->useAgg\<close>, \<open>db->file_format\<close>, the functions, and the jump of an
  ignored constraint, if there is a trigger.
\<close>

record ctx =
  useAgg :: bool
  file_format :: int
  aFunc :: "cstring \<Rightarrow> funcdef list"
  ignoreJump :: "int option"

record gen =
  pVdbe :: "opcode vdbe"
  nErr :: nat
  zErr :: "cstring option"

definition OE_Rollback :: int where "OE_Rollback = 1"
definition OE_Abort :: int where "OE_Abort = 2"
definition OE_Fail :: int where "OE_Fail = 3"
definition OE_Ignore :: int where "OE_Ignore = 4"

subsection \<open>The builder's routines on the state of the generator\<close>

definition on_vdbe :: "(opcode vdbe \<Rightarrow> opcode vdbe option) \<Rightarrow> gen \<Rightarrow> gen option" where
  "on_vdbe f g = map_option (\<lambda>v. g\<lparr>pVdbe := v\<rparr>) (f (pVdbe g))"

definition emit_addr :: "opcode \<Rightarrow> int \<Rightarrow> int \<Rightarrow> gen \<Rightarrow> (int \<times> gen) option" where
  "emit_addr oper x1 x2 g =
     map_option (\<lambda>(i, v). (int i, g\<lparr>pVdbe := v\<rparr>)) (sqliteVdbeAddOp OP_none True (pVdbe g) oper x1 x2)"

definition emit :: "opcode \<Rightarrow> int \<Rightarrow> int \<Rightarrow> gen \<Rightarrow> gen option" where
  "emit oper x1 x2 g = map_option snd (emit_addr oper x1 x2 g)"

definition emit3 :: "opcode \<Rightarrow> int \<Rightarrow> int \<Rightarrow> p3val option \<Rightarrow> int \<Rightarrow> gen \<Rightarrow> gen option" where
  "emit3 oper x1 x2 z t g =
     on_vdbe (\<lambda>v. map_option snd (sqliteVdbeOp3 OP_none True v oper x1 x2 z t)) g"

definition make_label :: "gen \<Rightarrow> (int \<times> gen) option" where
  "make_label g = map_option (\<lambda>(l, v). (l, g\<lparr>pVdbe := v\<rparr>)) (sqliteVdbeMakeLabel True (pVdbe g))"

definition resolve_label :: "int \<Rightarrow> gen \<Rightarrow> gen option" where
  "resolve_label l = on_vdbe (\<lambda>v. sqliteVdbeResolveLabel v l)"

definition change_p2 :: "int \<Rightarrow> int \<Rightarrow> gen \<Rightarrow> gen option" where
  "change_p2 a val = on_vdbe (\<lambda>v. sqliteVdbeChangeP2 v a val)"

definition change_p3 :: "int \<Rightarrow> p3val option \<Rightarrow> int \<Rightarrow> gen \<Rightarrow> gen option" where
  "change_p3 a z n = on_vdbe (\<lambda>v. sqliteVdbeChangeP3 v a z n)"

definition dequote_p3 :: "int \<Rightarrow> gen \<Rightarrow> gen option" where
  "dequote_p3 a = on_vdbe (\<lambda>v. sqliteVdbeDequoteP3 v a)"

definition current_addr :: "gen \<Rightarrow> int option" where
  "current_addr g = map_option int (sqliteVdbeCurrentAddr (pVdbe g))"

subsection \<open>The pieces of \<open>sqliteExprCode\<close>\<close>

text \<open>The first switch of \<open>sqliteExprCode\<close>.\<close>

definition code_op :: "tk \<Rightarrow> opcode" where
  "code_op t =
     (case t of
        TK_PLUS \<Rightarrow> OP_Arith Add_op | TK_MINUS \<Rightarrow> OP_Arith Subtract_op | TK_STAR \<Rightarrow> OP_Arith Multiply_op
      | TK_SLASH \<Rightarrow> OP_Arith Divide_op | TK_AND \<Rightarrow> OP_And | TK_OR \<Rightarrow> OP_Or
      | TK_LT \<Rightarrow> OP_Cmp Lt_op | TK_LE \<Rightarrow> OP_Cmp Le_op | TK_GT \<Rightarrow> OP_Cmp Gt_op | TK_GE \<Rightarrow> OP_Cmp Ge_op
      | TK_NE \<Rightarrow> OP_Cmp Ne_op | TK_EQ \<Rightarrow> OP_Cmp Eq_op | TK_ISNULL \<Rightarrow> OP_IsNull | TK_NOTNULL \<Rightarrow> OP_NotNull
      | TK_NOT \<Rightarrow> OP_Not | TK_UMINUS \<Rightarrow> OP_Negative | TK_BITAND \<Rightarrow> OP_Bits BitAnd_op
      | TK_BITOR \<Rightarrow> OP_Bits BitOr_op | TK_BITNOT \<Rightarrow> OP_BitNot | TK_LSHIFT \<Rightarrow> OP_Bits ShiftLeft_op
      | TK_RSHIFT \<Rightarrow> OP_Bits ShiftRight_op | TK_REM \<Rightarrow> OP_Arith Remainder_op | _ \<Rightarrow> OP_none)"

text \<open>\<open>op += 6\<close> turns a numeric comparison into one of texts.\<close>

definition add_6 :: "opcode \<Rightarrow> opcode" where
  "add_6 oper = (case oper of OP_Cmp c \<Rightarrow> OP_StrCmp c | _ \<Rightarrow> OP_none)"

definition compare_op :: "ctx \<Rightarrow> expr \<Rightarrow> opcode \<Rightarrow> opcode option" where
  "compare_op c e oper =
     (if file_format c \<ge> 4
      then map_option (\<lambda>t. if t = SQLITE_SO_TEXT then add_6 oper else oper) (sqliteExprType e)
      else Some oper)"

definition code_column :: "ctx \<Rightarrow> int \<Rightarrow> int \<Rightarrow> int \<Rightarrow> gen \<Rightarrow> gen option" where
  "code_column c tab col agg g =
     (if useAgg c then emit OP_AggGet 0 agg g
      else if col \<ge> 0 then emit OP_Column tab col g
      else emit OP_Recno tab 0 g)"

definition code_number :: "bool \<Rightarrow> cstring \<Rightarrow> gen \<Rightarrow> gen option" where
  "code_number is_int z g =
     (if is_int \<and> sqliteFitsIn32Bits z then emit OP_Integer (atoi z) 0 g else emit OP_String 0 0 g)"

definition code_literal :: "tk \<Rightarrow> cstring option \<Rightarrow> gen \<Rightarrow> gen option" where
  "code_literal t tok g =
     (case tok of
        None \<Rightarrow> None
      | Some z \<Rightarrow> do {
          g \<leftarrow> code_number (t = TK_INTEGER) z g;
          g \<leftarrow> change_p3 (-1) (Some (P3Str z)) (int (length z)) g;
          dequote_p3 (-1) g
        })"

text \<open>\<open>sprintf(z, "-%.*s", p->n, p->z)\<close> and the instruction for it.\<close>

definition code_negated :: "tk \<Rightarrow> cstring option \<Rightarrow> gen \<Rightarrow> gen option" where
  "code_negated t tok g =
     (case tok of
        None \<Rightarrow> None
      | Some z \<Rightarrow> do {
          g \<leftarrow> code_number (t = TK_INTEGER) (45 # z) g;
          change_p3 (-1) (Some (P3Str (45 # z))) (int (length z) + 1) g
        })"

definition sqliteErrorMsg :: "cstring \<Rightarrow> gen \<Rightarrow> gen" where
  "sqliteErrorMsg msg g = g\<lparr>nErr := nErr g + 1, zErr := Some msg\<rparr>"

definition code_raise :: "ctx \<Rightarrow> int \<Rightarrow> cstring option \<Rightarrow> gen \<Rightarrow> gen option" where
  "code_raise c col tok g =
     (case ignoreJump c of
        None \<Rightarrow>
          let g = sqliteErrorMsg (cstr ''RAISE() may only be used within a trigger-program'') g
          in Some (g\<lparr>nErr := nErr g + 1\<rparr>)
      | Some dest \<Rightarrow>
          if col = OE_Rollback \<or> col = OE_Abort \<or> col = OE_Fail then do {
            g \<leftarrow> emit3 OP_Halt SQLITE_CONSTRAINT col (map_option P3Str tok)
                   (case tok of Some z \<Rightarrow> int (length z) | None \<Rightarrow> 0) g;
            dequote_p3 (-1) g
          }
          else if col = OE_Ignore then emit3 OP_Goto 0 dest (Some (P3Str (cstr ''(IGNORE jump)''))) 0 g
          else None)"

text \<open>The instructions of \<open>TK_IN\<close> after the code of the left operand.\<close>

definition code_in :: "bool \<Rightarrow> int \<Rightarrow> gen \<Rightarrow> gen option" where
  "code_in sub tab g = do {
     a \<leftarrow> current_addr g;
     g \<leftarrow> emit OP_NotNull (-1) (a + 4) g;
     g \<leftarrow> emit OP_Pop 2 0 g;
     g \<leftarrow> emit OP_String 0 0 g;
     g \<leftarrow> emit OP_Goto 0 (a + 6) g;
     g \<leftarrow> emit (if sub then OP_Found else OP_SetFound) tab (a + 6) g;
     emit OP_AddImm (-1) 0 g
   }"

text \<open>The types of the arguments, for a function with \<open>includeTypes\<close>.\<close>

definition code_type :: "bool \<Rightarrow> expr \<Rightarrow> gen \<Rightarrow> gen option" where
  "code_type types e g =
     (if types then do {
        t \<leftarrow> sqliteExprType e;
        emit3 OP_String 0 0 (Some (P3Str (cstr (if t = SQLITE_SO_NUM then ''numeric'' else ''text'')))) P3_STATIC g
      }
      else Some g)"

definition code_function :: "ctx \<Rightarrow> expr \<Rightarrow> (bool \<Rightarrow> gen \<Rightarrow> gen option) \<Rightarrow> gen \<Rightarrow> gen option" where
  "code_function c e args g = do {
     let n = (case pList e of None \<Rightarrow> 0 | Some es \<Rightarrow> length es);
     name \<leftarrow> getFunctionName e;
     def \<leftarrow> sqliteFindFunction (aFunc c) name (int n);
     g \<leftarrow> args (includeTypes def) g;
     emit3 OP_Function (int (if includeTypes def then n * 2 else n)) 0 (Some (P3Ptr (addr def))) P3_POINTER g
   }"

fun sqliteExprCode :: "ctx \<Rightarrow> expr \<Rightarrow> gen \<Rightarrow> gen option" and
    opt_code :: "ctx \<Rightarrow> expr option \<Rightarrow> gen \<Rightarrow> gen option" and
    sqliteExprCodeExprList :: "ctx \<Rightarrow> bool \<Rightarrow> expr list \<Rightarrow> gen \<Rightarrow> gen option" and
    case_loop :: "ctx \<Rightarrow> bool \<Rightarrow> int \<Rightarrow> expr list \<Rightarrow> gen \<Rightarrow> gen option" where
  "sqliteExprCode c (Expr t dt l r xs tok tab col agg sel) g =
     (case t of
        TK_COLUMN \<Rightarrow> code_column c tab col agg g
      | TK_STRING \<Rightarrow> code_literal t tok g
      | TK_FLOAT \<Rightarrow> code_literal t tok g
      | TK_INTEGER \<Rightarrow> code_literal t tok g
      | TK_NULL \<Rightarrow> emit OP_String 0 0 g
      | TK_VARIABLE \<Rightarrow> emit OP_Variable tab 0 g
      | TK_LSHIFT \<Rightarrow> do { g \<leftarrow> opt_code c r g; g \<leftarrow> opt_code c l g; emit (code_op t) 0 0 g }
      | TK_RSHIFT \<Rightarrow> do { g \<leftarrow> opt_code c r g; g \<leftarrow> opt_code c l g; emit (code_op t) 0 0 g }
      | TK_CONCAT \<Rightarrow> do { g \<leftarrow> opt_code c l g; g \<leftarrow> opt_code c r g; emit OP_Concat 2 0 g }
      | TK_UMINUS \<Rightarrow>
          (case l of
             None \<Rightarrow> None
           | Some e \<Rightarrow>
               if op e = TK_FLOAT \<or> op e = TK_INTEGER then code_negated (op e) (token e) g
               else do { g \<leftarrow> sqliteExprCode c e g; emit (code_op t) 0 0 g })
      | TK_BITNOT \<Rightarrow> do { g \<leftarrow> opt_code c l g; emit (code_op t) 0 0 g }
      | TK_NOT \<Rightarrow> do { g \<leftarrow> opt_code c l g; emit (code_op t) 0 0 g }
      | TK_ISNULL \<Rightarrow> do {
          g \<leftarrow> emit OP_Integer 1 0 g; g \<leftarrow> opt_code c l g; a \<leftarrow> current_addr g;
          g \<leftarrow> emit (code_op t) 1 (a + 2) g; emit OP_AddImm (-1) 0 g }
      | TK_NOTNULL \<Rightarrow> do {
          g \<leftarrow> emit OP_Integer 1 0 g; g \<leftarrow> opt_code c l g; a \<leftarrow> current_addr g;
          g \<leftarrow> emit (code_op t) 1 (a + 2) g; emit OP_AddImm (-1) 0 g }
      | TK_AGG_FUNCTION \<Rightarrow> emit OP_AggGet 0 agg g
      | TK_GLOB \<Rightarrow> code_function c (Expr t dt l r xs tok tab col agg sel)
                   (\<lambda>types g. case xs of None \<Rightarrow> Some g | Some es \<Rightarrow> sqliteExprCodeExprList c types es g) g
      | TK_LIKE \<Rightarrow> code_function c (Expr t dt l r xs tok tab col agg sel)
                   (\<lambda>types g. case xs of None \<Rightarrow> Some g | Some es \<Rightarrow> sqliteExprCodeExprList c types es g) g
      | TK_FUNCTION \<Rightarrow> code_function c (Expr t dt l r xs tok tab col agg sel)
                   (\<lambda>types g. case xs of None \<Rightarrow> Some g | Some es \<Rightarrow> sqliteExprCodeExprList c types es g) g
      | TK_SELECT \<Rightarrow> emit OP_MemLoad col 0 g
      | TK_IN \<Rightarrow> do { g \<leftarrow> emit OP_Integer 1 0 g; g \<leftarrow> opt_code c l g; code_in (sel \<noteq> None) tab g }
      | TK_BETWEEN \<Rightarrow>
          (case xs of
             Some (lo # hi # _) \<Rightarrow> do {
               g \<leftarrow> opt_code c l g; g \<leftarrow> emit OP_Dup 0 0 g;
               g \<leftarrow> sqliteExprCode c lo g; g \<leftarrow> emit (OP_Cmp Ge_op) 0 0 g; g \<leftarrow> emit OP_Pull 1 0 g;
               g \<leftarrow> sqliteExprCode c hi g; g \<leftarrow> emit (OP_Cmp Le_op) 0 0 g; emit OP_And 0 0 g }
           | _ \<Rightarrow> None)
      | TK_UPLUS \<Rightarrow> opt_code c l g
      | TK_AS \<Rightarrow> opt_code c l g
      | TK_CASE \<Rightarrow>
          (case xs of
             None \<Rightarrow> None
           | Some es \<Rightarrow>
               if length es mod 2 \<noteq> 0 \<or> es = [] then None
               else do {
                 (end_label, g) \<leftarrow> make_label g;
                 g \<leftarrow> opt_code c l g;
                 g \<leftarrow> case_loop c (l \<noteq> None) end_label es g;
                 g \<leftarrow> (if l \<noteq> None then emit OP_Pop 1 0 g else Some g);
                 g \<leftarrow> (if r \<noteq> None then opt_code c r g else emit OP_String 0 0 g);
                 resolve_label end_label g
               })
      | TK_RAISE \<Rightarrow> code_raise c col tok g
      | TK_ID \<Rightarrow> Some g
      | TK_DOT \<Rightarrow> Some g
      | TK_ABORT \<Rightarrow> Some g
      | _ \<Rightarrow> do {
          oper \<leftarrow> (if compare_tk t
                   then compare_op c (Expr t dt l r xs tok tab col agg sel) (code_op t) else Some (code_op t));
          g \<leftarrow> opt_code c l g; g \<leftarrow> opt_code c r g; emit oper 0 0 g })"
| "opt_code c None g = Some g"
| "opt_code c (Some e) g = sqliteExprCode c e g"
| "sqliteExprCodeExprList c types [] g = Some g"
| "sqliteExprCodeExprList c types (e # es) g = do {
     g \<leftarrow> sqliteExprCode c e g; g \<leftarrow> code_type types e g; sqliteExprCodeExprList c types es g }"
| "case_loop c base end_label [] g = Some g"
| "case_loop c base end_label [e] g = None"
| "case_loop c base end_label (w # t # es) g = do {
     g \<leftarrow> sqliteExprCode c w g;
     (j, g) \<leftarrow> (if base then do {
                 g \<leftarrow> emit OP_Dup 1 1 g;
                 (j, g) \<leftarrow> emit_addr (OP_Cmp Ne_op) 1 0 g;
                 g \<leftarrow> emit OP_Pop 1 0 g;
                 Some (j, g) }
               else emit_addr OP_IfNot 1 0 g);
     g \<leftarrow> sqliteExprCode c t g;
     g \<leftarrow> emit OP_Goto 0 end_label g;
     a \<leftarrow> current_addr g;
     g \<leftarrow> change_p2 j a g;
     case_loop c base end_label es g }"

subsection \<open>Conditional jumps\<close>

text \<open>The first switches of \<open>sqliteExprIfTrue\<close> and \<open>sqliteExprIfFalse\<close>.\<close>

definition true_op :: "tk \<Rightarrow> opcode" where
  "true_op t =
     (case t of
        TK_LT \<Rightarrow> OP_Cmp Lt_op | TK_LE \<Rightarrow> OP_Cmp Le_op | TK_GT \<Rightarrow> OP_Cmp Gt_op | TK_GE \<Rightarrow> OP_Cmp Ge_op
      | TK_NE \<Rightarrow> OP_Cmp Ne_op | TK_EQ \<Rightarrow> OP_Cmp Eq_op | TK_ISNULL \<Rightarrow> OP_IsNull | TK_NOTNULL \<Rightarrow> OP_NotNull
      | _ \<Rightarrow> OP_none)"

definition false_op :: "tk \<Rightarrow> opcode" where
  "false_op t =
     (case t of
        TK_LT \<Rightarrow> OP_Cmp Ge_op | TK_LE \<Rightarrow> OP_Cmp Gt_op | TK_GT \<Rightarrow> OP_Cmp Le_op | TK_GE \<Rightarrow> OP_Cmp Lt_op
      | TK_NE \<Rightarrow> OP_Cmp Eq_op | TK_EQ \<Rightarrow> OP_Cmp Ne_op | TK_ISNULL \<Rightarrow> OP_NotNull | TK_NOTNULL \<Rightarrow> OP_IsNull
      | _ \<Rightarrow> OP_none)"

definition flag :: "bool \<Rightarrow> int" where
  "flag b = (if b then 1 else 0)"

text \<open>The instructions of \<open>TK_IN\<close> in a jump, after the code of the left operand.\<close>

definition jump_in :: "opcode \<Rightarrow> int \<Rightarrow> int \<Rightarrow> bool \<Rightarrow> gen \<Rightarrow> gen option" where
  "jump_in oper tab dest jin g = do {
     a \<leftarrow> current_addr g;
     g \<leftarrow> emit OP_NotNull (-1) (a + 3) g;
     g \<leftarrow> emit OP_Pop 1 0 g;
     g \<leftarrow> emit OP_Goto 0 (if jin then dest else a + 4) g;
     emit oper tab dest g
   }"

definition true_between :: "ctx \<Rightarrow> expr option \<Rightarrow> expr \<Rightarrow> expr \<Rightarrow> int \<Rightarrow> bool \<Rightarrow> gen \<Rightarrow> gen option" where
  "true_between c l lo hi dest jin g = do {
     g \<leftarrow> opt_code c l g;
     g \<leftarrow> emit OP_Dup 0 0 g;
     g \<leftarrow> sqliteExprCode c lo g;
     (a, g) \<leftarrow> emit_addr (OP_Cmp Lt_op) (flag (\<not> jin)) 0 g;
     g \<leftarrow> sqliteExprCode c hi g;
     g \<leftarrow> emit (OP_Cmp Le_op) (flag jin) dest g;
     g \<leftarrow> emit OP_Integer 0 0 g;
     b \<leftarrow> current_addr g;
     g \<leftarrow> change_p2 a b g;
     emit OP_Pop 1 0 g
   }"

definition false_between :: "ctx \<Rightarrow> expr option \<Rightarrow> expr \<Rightarrow> expr \<Rightarrow> int \<Rightarrow> bool \<Rightarrow> gen \<Rightarrow> gen option" where
  "false_between c l lo hi dest jin g = do {
     g \<leftarrow> opt_code c l g;
     g \<leftarrow> emit OP_Dup 0 0 g;
     g \<leftarrow> sqliteExprCode c lo g;
     a \<leftarrow> current_addr g;
     g \<leftarrow> emit (OP_Cmp Ge_op) (flag (\<not> jin)) (a + 3) g;
     g \<leftarrow> emit OP_Pop 1 0 g;
     g \<leftarrow> emit OP_Goto 0 dest g;
     g \<leftarrow> sqliteExprCode c hi g;
     emit (OP_Cmp Gt_op) (flag jin) dest g
   }"

fun sqliteExprIfTrue :: "ctx \<Rightarrow> expr \<Rightarrow> int \<Rightarrow> bool \<Rightarrow> gen \<Rightarrow> gen option" and
    sqliteExprIfFalse :: "ctx \<Rightarrow> expr \<Rightarrow> int \<Rightarrow> bool \<Rightarrow> gen \<Rightarrow> gen option" where
  "sqliteExprIfTrue c (Expr t dt l r xs tok tab col agg sel) dest jin g =
     (if t = TK_AND then do {
        (d2, g) \<leftarrow> make_label g;
        g \<leftarrow> (case l of None \<Rightarrow> Some g | Some e \<Rightarrow> sqliteExprIfFalse c e d2 (\<not> jin) g);
        g \<leftarrow> (case r of None \<Rightarrow> Some g | Some e \<Rightarrow> sqliteExprIfTrue c e dest jin g);
        resolve_label d2 g
      }
      else if t = TK_OR then do {
        g \<leftarrow> (case l of None \<Rightarrow> Some g | Some e \<Rightarrow> sqliteExprIfTrue c e dest jin g);
        (case r of None \<Rightarrow> Some g | Some e \<Rightarrow> sqliteExprIfTrue c e dest jin g)
      }
      else if t = TK_NOT then
        (case l of None \<Rightarrow> Some g | Some e \<Rightarrow> sqliteExprIfFalse c e dest jin g)
      else if compare_tk t then do {
        g \<leftarrow> opt_code c l g;
        g \<leftarrow> opt_code c r g;
        oper \<leftarrow> compare_op c (Expr t dt l r xs tok tab col agg sel) (true_op t);
        emit oper (flag jin) dest g
      }
      else if t = TK_ISNULL \<or> t = TK_NOTNULL then do {
        g \<leftarrow> opt_code c l g;
        emit (true_op t) 1 dest g
      }
      else if t = TK_IN then do {
        g \<leftarrow> opt_code c l g;
        jump_in (if sel \<noteq> None then OP_Found else OP_SetFound) tab dest jin g
      }
      else if t = TK_BETWEEN then
        (case xs of Some (lo # hi # _) \<Rightarrow> true_between c l lo hi dest jin g | _ \<Rightarrow> None)
      else do {
        g \<leftarrow> sqliteExprCode c (Expr t dt l r xs tok tab col agg sel) g;
        emit OP_If (flag jin) dest g
      })"
| "sqliteExprIfFalse c (Expr t dt l r xs tok tab col agg sel) dest jin g =
     (if t = TK_AND then do {
        g \<leftarrow> (case l of None \<Rightarrow> Some g | Some e \<Rightarrow> sqliteExprIfFalse c e dest jin g);
        (case r of None \<Rightarrow> Some g | Some e \<Rightarrow> sqliteExprIfFalse c e dest jin g)
      }
      else if t = TK_OR then do {
        (d2, g) \<leftarrow> make_label g;
        g \<leftarrow> (case l of None \<Rightarrow> Some g | Some e \<Rightarrow> sqliteExprIfTrue c e d2 (\<not> jin) g);
        g \<leftarrow> (case r of None \<Rightarrow> Some g | Some e \<Rightarrow> sqliteExprIfFalse c e dest jin g);
        resolve_label d2 g
      }
      else if t = TK_NOT then
        (case l of None \<Rightarrow> Some g | Some e \<Rightarrow> sqliteExprIfTrue c e dest jin g)
      else if compare_tk t then do {
        oper \<leftarrow> compare_op c (Expr t dt l r xs tok tab col agg sel) (false_op t);
        g \<leftarrow> opt_code c l g;
        g \<leftarrow> opt_code c r g;
        emit oper (flag jin) dest g
      }
      else if t = TK_ISNULL \<or> t = TK_NOTNULL then do {
        g \<leftarrow> opt_code c l g;
        emit (false_op t) 1 dest g
      }
      else if t = TK_IN then do {
        g \<leftarrow> opt_code c l g;
        jump_in (if sel \<noteq> None then OP_NotFound else OP_SetNotFound) tab dest jin g
      }
      else if t = TK_BETWEEN then
        (case xs of Some (lo # hi # _) \<Rightarrow> false_between c l lo hi dest jin g | _ \<Rightarrow> None)
      else do {
        g \<leftarrow> sqliteExprCode c (Expr t dt l r xs tok tab col agg sel) g;
        emit OP_IfNot (flag jin) dest g
      })"

subsection \<open>The value of an expression\<close>

text \<open>
  The specification: the value of an expression, by recursion on the tree, in terms of the operators
  of theory \<open>Mem\<close>.  The last argument holds the memory cells and the sets.
\<close>

definition cmp_of :: "tk \<Rightarrow> cmp_op" where
  "cmp_of t =
     (case t of TK_LT \<Rightarrow> Lt_op | TK_LE \<Rightarrow> Le_op | TK_GT \<Rightarrow> Gt_op | TK_GE \<Rightarrow> Ge_op | TK_NE \<Rightarrow> Ne_op | _ \<Rightarrow> Eq_op)"

definition text_compare :: "ctx \<Rightarrow> expr \<Rightarrow> bool" where
  "text_compare c e \<longleftrightarrow> file_format c \<ge> 4 \<and> sqliteExprType e = Some SQLITE_SO_TEXT"

definition literal_value :: "bool \<Rightarrow> cstring \<Rightarrow> cstring \<Rightarrow> 'r mem" where
  "literal_value is_int z text =
     (if is_int \<and> sqliteFitsIn32Bits z then (mem_int (word_of_int (atoi z)))\<lparr>m_str := Some text\<rparr>
      else mem_str text)"

definition unquoted :: "cstring \<Rightarrow> cstring" where
  "unquoted z = (if zat z 0 = 0 then z else dequoted z)"

definition between :: "'r::linorder float_ops \<Rightarrow> 'r mem \<Rightarrow> 'r mem \<Rightarrow> 'r mem \<Rightarrow> 'r mem" where
  "between f x lo hi =
     op_logic f True
       (mem_bool (map_option (cmp_holds Ge_op) (compare_num f x lo)))
       (mem_bool (map_option (cmp_holds Le_op) (compare_num f x hi)))"

definition member :: "'r env \<Rightarrow> 'r store \<Rightarrow> bool \<Rightarrow> int \<Rightarrow> 'r mem \<Rightarrow> bool option" where
  "member env st sub tab m =
     (if m_null m then None
      else Some (if sub then found env tab (Stringify (fl env) m) else set_found st tab (Stringify (fl env) m)))"

definition apply_function :: "'r env \<Rightarrow> funcdef \<Rightarrow> 'r mem list \<Rightarrow> 'r mem" where
  "apply_function env f ms =
     fst (xFunc env (addr f) (map (\<lambda>m. if m_null m then None else Some (Stringify (fl env) m)) ms))"

definition type_name :: "expr \<Rightarrow> 'r mem" where
  "type_name e = mem_str (cstr (if sqliteExprType e = Some SQLITE_SO_NUM then ''numeric'' else ''text''))"

definition the_function :: "ctx \<Rightarrow> expr \<Rightarrow> funcdef option" where
  "the_function c e =
     (case getFunctionName e of
        None \<Rightarrow> None
      | Some z \<Rightarrow> sqliteFindFunction (aFunc c) z (int (case pList e of None \<Rightarrow> 0 | Some es \<Rightarrow> length es)))"

text \<open>The alternative of \<open>CASE\<close> that is chosen: by the truth of its condition, or by equality with the base.\<close>

definition chosen :: "'r::linorder float_ops \<Rightarrow> 'r mem option \<Rightarrow> 'r mem \<Rightarrow> bool" where
  "chosen f base w =
     (case base of
        None \<Rightarrow> \<not> m_null w \<and> Integerify f w \<noteq> 0
      | Some b \<Rightarrow> map_option (cmp_holds Ne_op) (compare_num f w b) = Some False)"

text \<open>
  The value of a node from the values of its operands \<open>x\<close> and \<open>y\<close>, of its list (with or without the type
  names) and of the alternatives of a \<open>CASE\<close>.
\<close>

definition node_value ::
    "ctx \<Rightarrow> 'r::linorder env \<Rightarrow> 'r store \<Rightarrow> expr \<Rightarrow> 'r mem \<Rightarrow> 'r mem \<Rightarrow> (bool \<Rightarrow> 'r mem list) \<Rightarrow>
     ('r mem option \<Rightarrow> 'r mem \<Rightarrow> 'r mem) \<Rightarrow> 'r mem" where
  "node_value c env st e x y vs alt =
     (case op e of
        TK_COLUMN \<Rightarrow> (if useAgg c then agg_get env (iAgg e)
                      else if iColumn e \<ge> 0 then column env (iTable e) (iColumn e) else row_number env (iTable e))
      | TK_STRING \<Rightarrow> literal_value False (the (token e)) (unquoted (the (token e)))
      | TK_FLOAT \<Rightarrow> literal_value False (the (token e)) (unquoted (the (token e)))
      | TK_INTEGER \<Rightarrow> literal_value True (the (token e)) (unquoted (the (token e)))
      | TK_NULL \<Rightarrow> mem_null
      | TK_VARIABLE \<Rightarrow> variable (azVar env) (iTable e)
      | TK_PLUS \<Rightarrow> op_arith (fl env) Add_op x y
      | TK_MINUS \<Rightarrow> op_arith (fl env) Subtract_op x y
      | TK_STAR \<Rightarrow> op_arith (fl env) Multiply_op x y
      | TK_SLASH \<Rightarrow> op_arith (fl env) Divide_op x y
      | TK_REM \<Rightarrow> op_arith (fl env) Remainder_op x y
      | TK_BITAND \<Rightarrow> op_bits (fl env) BitAnd_op x y
      | TK_BITOR \<Rightarrow> op_bits (fl env) BitOr_op x y
      | TK_LSHIFT \<Rightarrow> op_bits (fl env) ShiftLeft_op y x
      | TK_RSHIFT \<Rightarrow> op_bits (fl env) ShiftRight_op y x
      | TK_CONCAT \<Rightarrow> op_concat (fl env) [] [x, y]
      | TK_AND \<Rightarrow> op_logic (fl env) True x y
      | TK_OR \<Rightarrow> op_logic (fl env) False x y
      | TK_NOT \<Rightarrow> op_not (fl env) x
      | TK_BITNOT \<Rightarrow> op_bitnot (fl env) x
      | TK_UMINUS \<Rightarrow>
          (let t = op (the (pLeft e)); z = 45 # the (token (the (pLeft e)))
           in if t = TK_INTEGER \<or> t = TK_FLOAT then literal_value (t = TK_INTEGER) z z
              else op_negative (fl env) x)
      | TK_ISNULL \<Rightarrow> mem_bool (Some (m_null x))
      | TK_NOTNULL \<Rightarrow> mem_bool (Some (\<not> m_null x))
      | TK_AGG_FUNCTION \<Rightarrow> agg_get env (iAgg e)
      | TK_GLOB \<Rightarrow> (let f = the (the_function c e) in apply_function env f (vs (includeTypes f)))
      | TK_LIKE \<Rightarrow> (let f = the (the_function c e) in apply_function env f (vs (includeTypes f)))
      | TK_FUNCTION \<Rightarrow> (let f = the (the_function c e) in apply_function env f (vs (includeTypes f)))
      | TK_SELECT \<Rightarrow> aMem st ! nat (iColumn e)
      | TK_IN \<Rightarrow> mem_bool (member env st (pSelect e \<noteq> None) (iTable e) x)
      | TK_BETWEEN \<Rightarrow> between (fl env) x (vs False ! 0) (vs False ! 1)
      | TK_UPLUS \<Rightarrow> x
      | TK_AS \<Rightarrow> x
      | TK_CASE \<Rightarrow> alt (if pLeft e = None then None else Some x) (if pRight e = None then mem_null else y)
      | TK_RAISE \<Rightarrow> mem_null
      | TK_ID \<Rightarrow> mem_null
      | TK_DOT \<Rightarrow> mem_null
      | TK_ABORT \<Rightarrow> mem_null
      | _ \<Rightarrow> mem_bool (map_option (cmp_holds (cmp_of (op e))) (compare_mem (fl env) (text_compare c e) x y)))"

fun expr_value :: "ctx \<Rightarrow> 'r::linorder env \<Rightarrow> 'r store \<Rightarrow> expr \<Rightarrow> 'r mem" and
    opt_value :: "ctx \<Rightarrow> 'r::linorder env \<Rightarrow> 'r store \<Rightarrow> expr option \<Rightarrow> 'r mem" and
    list_value :: "ctx \<Rightarrow> 'r::linorder env \<Rightarrow> 'r store \<Rightarrow> bool \<Rightarrow> expr list \<Rightarrow> 'r mem list" and
    case_value :: "ctx \<Rightarrow> 'r::linorder env \<Rightarrow> 'r store \<Rightarrow> 'r mem option \<Rightarrow> expr list \<Rightarrow> 'r mem \<Rightarrow> 'r mem" where
  "expr_value c env st (Expr t dt l r xs tok tab col agg sel) =
     node_value c env st (Expr t dt l r xs tok tab col agg sel) (opt_value c env st l) (opt_value c env st r)
       (\<lambda>types. case xs of None \<Rightarrow> [] | Some es \<Rightarrow> list_value c env st types es)
       (\<lambda>base d. case xs of None \<Rightarrow> d | Some es \<Rightarrow> case_value c env st base es d)"
| "opt_value c env st None = mem_null"
| "opt_value c env st (Some e) = expr_value c env st e"
| "list_value c env st types [] = []"
| "list_value c env st types (e # es) =
     expr_value c env st e # (if types then [type_name e] else []) @ list_value c env st types es"
| "case_value c env st base [] d = d"
| "case_value c env st base [e] d = d"
| "case_value c env st base (w # t # es) d =
     (if chosen (fl env) base (expr_value c env st w) then expr_value c env st t
      else case_value c env st base es d)"

text \<open>
  The expressions that reach the generator: name resolution has removed identifiers, every operator
  has its operands, every function exists, and the type of every comparison is known.
\<close>

definition node_ok :: "ctx \<Rightarrow> nat \<Rightarrow> expr \<Rightarrow> bool" where
  "node_ok c nMem e \<longleftrightarrow>
     (pLeft e = None \<longrightarrow> op e \<in> {TK_COLUMN, TK_STRING, TK_FLOAT, TK_INTEGER, TK_NULL, TK_VARIABLE,
        TK_AGG_FUNCTION, TK_GLOB, TK_LIKE, TK_FUNCTION, TK_SELECT, TK_CASE}) \<and>
     (pRight e = None \<longrightarrow> op e \<in> {TK_COLUMN, TK_STRING, TK_FLOAT, TK_INTEGER, TK_NULL, TK_VARIABLE,
        TK_AGG_FUNCTION, TK_GLOB, TK_LIKE, TK_FUNCTION, TK_SELECT, TK_CASE, TK_NOT, TK_BITNOT, TK_UMINUS,
        TK_UPLUS, TK_AS, TK_ISNULL, TK_NOTNULL, TK_IN, TK_BETWEEN}) \<and>
     (op e = TK_CASE \<longrightarrow> (case pList e of None \<Rightarrow> False | Some es \<Rightarrow> es \<noteq> [] \<and> length es mod 2 = 0)) \<and>
     (op e = TK_BETWEEN \<longrightarrow> (case pList e of None \<Rightarrow> False | Some es \<Rightarrow> 2 \<le> length es)) \<and>
     (op e \<in> {TK_STRING, TK_FLOAT, TK_INTEGER} \<longrightarrow> token e \<noteq> None) \<and>
     (op e \<in> {TK_GLOB, TK_LIKE, TK_FUNCTION} \<longrightarrow> the_function c e \<noteq> None) \<and>
     (op e = TK_SELECT \<longrightarrow> 0 \<le> iColumn e \<and> iColumn e < int nMem) \<and>
     (op e = TK_AGG_FUNCTION \<or> op e = TK_COLUMN \<and> useAgg c \<longrightarrow> 0 \<le> iAgg e) \<and>
     sqliteExprType e \<noteq> None \<and>
     op e \<notin> {TK_RAISE, TK_ID, TK_DOT, TK_ABORT}"

fun expr_ok :: "ctx \<Rightarrow> nat \<Rightarrow> expr \<Rightarrow> bool" and
    opt_ok :: "ctx \<Rightarrow> nat \<Rightarrow> expr option \<Rightarrow> bool" and
    list_ok :: "ctx \<Rightarrow> nat \<Rightarrow> expr list \<Rightarrow> bool" where
  "expr_ok c nMem (Expr t dt l r xs tok tab col agg sel) =
     (node_ok c nMem (Expr t dt l r xs tok tab col agg sel) \<and> opt_ok c nMem l \<and> opt_ok c nMem r \<and>
      (case xs of None \<Rightarrow> True | Some es \<Rightarrow> list_ok c nMem es))"
| "opt_ok c nMem None = True"
| "opt_ok c nMem (Some e) = expr_ok c nMem e"
| "list_ok c nMem [] = True"
| "list_ok c nMem (e # es) = (expr_ok c nMem e \<and> list_ok c nMem es)"

end
