(* ===== verification/Expr_Correct.thy ===== *)
theory Expr_Correct
  imports Expr_Code
begin

text \<open>
  The code generated for an expression computes its value; the conditional jumps are in the theory
  \<open>Expr_Jump\<close>.
\<close>

subsection \<open>What the generator does to the program, in terms of the two-pass assembler\<close>

abbreviation app :: "opcode asm \<Rightarrow> instr list \<Rightarrow> opcode asm" where
  "app A is \<equiv> A\<lparr>sym := sym A @ is\<rparr>"

definition ins :: "opcode \<Rightarrow> int \<Rightarrow> int \<Rightarrow> instr" where
  "ins oper x1 x2 = \<lparr>opcode = oper, p1 = x1, p2 = x2, p3 = None, p3type = P3_NOTUSED\<rparr>"

definition gens :: "(gen \<Rightarrow> gen option) \<Rightarrow> opcode asm \<Rightarrow> opcode asm \<Rightarrow> bool" where
  "gens f A B \<longleftrightarrow>
     (\<forall>g. asm_rel (pVdbe g) A \<longrightarrow> (\<exists>g'. f g = Some g' \<and> asm_rel (pVdbe g') B \<and> nErr g' = nErr g))"

lemma gensD:
  assumes "gens f A B" "asm_rel (pVdbe g) A"
  obtains g' where "f g = Some g'" "asm_rel (pVdbe g') B" "nErr g' = nErr g"
  using assms unfolding gens_def by blast

lemma gens_skip: "gens Some A A"
  by (simp add: gens_def)

lemma gens_bind: "gens f A B \<Longrightarrow> gens h B C \<Longrightarrow> gens (\<lambda>g. f g \<bind> h) A C"
  unfolding gens_def by fastforce

lemma gens_const: "gens (h x) A B \<Longrightarrow> gens (\<lambda>g. Some x \<bind> (\<lambda>y. h y g)) A B"
  by (simp add: gens_def)

lemma gens_on_vdbe:
  assumes "\<And>v. asm_rel v A \<Longrightarrow> \<exists>v'. f v = Some v' \<and> asm_rel v' B"
  shows "gens (on_vdbe f) A B"
  using assms by (fastforce simp: gens_def on_vdbe_def)

lemma add_op_asm:
  assumes "asm_rel v A"
  shows "\<exists>v'. sqliteVdbeAddOp OP_none True v oper x1 x2 = Some (length (sym A), v')
           \<and> asm_rel v' (app A [ins oper x1 x2])"
proof -
  have "rel_option asm_rel (vdbe_step OP_none (Add oper x1 x2) v) (asm_step (Add oper x1 x2) A)"
    using assms by (rule sim_add)
  then obtain r where r: "sqliteVdbeAddOp OP_none True v oper x1 x2 = Some r"
    "asm_rel (snd r) (app A [ins oper x1 x2])"
    by (auto simp: vdbe_step_def asm_step_def ins_def option_rel_Some2)
  moreover have "fst r = length (sym A)"
    using r(1) assms
    by (auto simp: sqliteVdbeAddOp_def Let_def asm_rel_def bind_eq_Some_conv split: if_splits)
  ultimately show ?thesis by (metis prod.collapse)
qed

lemma gens_emit: "gens (emit oper x1 x2) A (app A [ins oper x1 x2])"
  unfolding gens_def emit_def emit_addr_def using add_op_asm [of _ A oper x1 x2] by fastforce

lemma gens_emit_addr:
  assumes "gens (h (int (length (sym A)))) (app A [ins oper x1 x2]) B"
  shows "gens (\<lambda>g. emit_addr oper x1 x2 g \<bind> (\<lambda>(j, g). h j g)) A B"
  unfolding gens_def
proof (intro allI impI)
  fix g :: gen assume "asm_rel (pVdbe g) A"
  from add_op_asm [OF this, of oper x1 x2] obtain v where
    v: "sqliteVdbeAddOp OP_none True (pVdbe g) oper x1 x2 = Some (length (sym A), v)"
    "asm_rel (pVdbe (g\<lparr>pVdbe := v\<rparr>)) (app A [ins oper x1 x2])" by auto
  obtain g' where "h (int (length (sym A))) (g\<lparr>pVdbe := v\<rparr>) = Some g'" "asm_rel (pVdbe g') B" "nErr g' = nErr g"
    using gensD [OF assms v(2)] by auto
  then show "\<exists>g'. (emit_addr oper x1 x2 g \<bind> (\<lambda>(j, g). h j g)) = Some g' \<and> asm_rel (pVdbe g') B \<and> nErr g' = nErr g"
    using v(1) by (simp add: emit_addr_def)
qed

lemma gens_current:
  assumes "gens (h (int (length (sym A)))) A B"
  shows "gens (\<lambda>g. current_addr g \<bind> (\<lambda>a. h a g)) A B"
  using assms
  by (auto simp: gens_def current_addr_def sqliteVdbeCurrentAddr_def asm_rel_def)

lemma gens_label:
  assumes "gens (h (-1 - int (length (lab A)))) (A\<lparr>lab := lab A @ [None]\<rparr>) B"
  shows "gens (\<lambda>g. make_label g \<bind> (\<lambda>(l, g). h l g)) A B"
proof -
  have label: "\<exists>v'. sqliteVdbeMakeLabel True v = Some (-1 - int (length (lab A)), v')
           \<and> asm_rel v' (A\<lparr>lab := lab A @ [None]\<rparr>)" if "asm_rel v A" for v :: "opcode vdbe"
  proof -
    have "rel_option asm_rel (vdbe_step OP_none Label v) (asm_step Label A)"
      using that by (rule sim_label)
    then obtain r where r: "sqliteVdbeMakeLabel True v = Some r"
      "asm_rel (snd r) (A\<lparr>lab := lab A @ [None]\<rparr>)"
      by (auto simp: vdbe_step_def asm_step_def option_rel_Some2)
    moreover have "fst r = -1 - int (length (lab A))"
      using r(1) that
      by (auto simp: sqliteVdbeMakeLabel_def Let_def asm_rel_def bind_eq_Some_conv
          split: if_splits option.splits)
    ultimately show ?thesis by (metis prod.collapse)
  qed
  show ?thesis
    unfolding gens_def
  proof (intro allI impI)
    fix g :: gen assume "asm_rel (pVdbe g) A"
    from label [OF this] obtain v where
      v: "sqliteVdbeMakeLabel True (pVdbe g) = Some (-1 - int (length (lab A)), v)"
      "asm_rel (pVdbe (g\<lparr>pVdbe := v\<rparr>)) (A\<lparr>lab := lab A @ [None]\<rparr>)" by auto
    obtain g' where "h (-1 - int (length (lab A))) (g\<lparr>pVdbe := v\<rparr>) = Some g'" "asm_rel (pVdbe g') B" "nErr g' = nErr g"
      using gensD [OF assms v(2)] by auto
    then show "\<exists>g'. (make_label g \<bind> (\<lambda>(l, g). h l g)) = Some g' \<and> asm_rel (pVdbe g') B \<and> nErr g' = nErr g"
      using v(1) by (simp add: make_label_def)
  qed
qed

lemma gens_resolve:
  assumes "k < length (lab A)" "lab A ! k = None" "sym A \<noteq> []"
  shows "gens (resolve_label (-1 - int k)) A (A\<lparr>lab := (lab A)[k := Some (length (sym A))]\<rparr>)"
  unfolding resolve_label_def
proof (rule gens_on_vdbe)
  fix v :: "opcode vdbe" assume "asm_rel v A"
  then have "rel_option asm_rel (vdbe_step OP_none (Resolve (-1 - int k)) v) (asm_step (Resolve (-1 - int k)) A)"
    by (rule sim_resolve)
  moreover have "nat (- 1 - (- 1 - int k)) = k" "nat (int k + 1) = Suc k" by auto
  ultimately show "\<exists>v'. sqliteVdbeResolveLabel v (-1 - int k) = Some v'
      \<and> asm_rel v' (A\<lparr>lab := (lab A)[k := Some (length (sym A))]\<rparr>)"
    using assms by (auto simp: vdbe_step_def asm_step_def option_rel_Some2)
qed

text \<open>Changing an instruction in place, when the change does not depend on how labels are resolved.\<close>

lemma change_asm:
  assumes "asm_rel v A" "j < length (sym A)"
    and f: "f ((sym A ! j)\<lparr>p2 := target (lab A) (p2 (sym A ! j))\<rparr>)
            = (f (sym A ! j))\<lparr>p2 := target (lab A) (p2 (f (sym A ! j)))\<rparr>"
  shows "get (aOp v) j = Some ((sym A ! j)\<lparr>p2 := target (lab A) (p2 (sym A ! j))\<rparr>)"
    and "put (aOp v) j (f (aOp v ! j)) = Some ((aOp v)[j := f (aOp v ! j)])"
    and "asm_rel (v\<lparr>aOp := (aOp v)[j := f (aOp v ! j)]\<rparr>) (A\<lparr>sym := (sym A)[j := f (sym A ! j)]\<rparr>)"
proof -
  have v: "nOp v = length (sym A)" "length (sym A) \<le> length (aOp v)"
    "take (length (sym A)) (aOp v) = assemble A"
    using assms(1) by (auto simp: asm_rel_def)
  have "aOp v ! j = take (length (sym A)) (aOp v) ! j" using assms(2) by simp
  then have j: "aOp v ! j = (sym A ! j)\<lparr>p2 := target (lab A) (p2 (sym A ! j))\<rparr>"
    using assms(2) unfolding v(3) by (simp add: assemble_def)
  show "get (aOp v) j = Some ((sym A ! j)\<lparr>p2 := target (lab A) (p2 (sym A ! j))\<rparr>)"
    using v assms(2) by (simp add: get_def j)
  show "put (aOp v) j (f (aOp v ! j)) = Some ((aOp v)[j := f (aOp v ! j)])"
    using v assms(2) by (simp add: put_def)
  have "take (length (sym A)) ((aOp v)[j := f (aOp v ! j)]) = (assemble A)[j := f (aOp v ! j)]"
    using v by (simp add: take_update_swap)
  also have "\<dots> = assemble (A\<lparr>sym := (sym A)[j := f (sym A ! j)]\<rparr>)"
    unfolding j f by (simp add: assemble_def map_update)
  finally show "asm_rel (v\<lparr>aOp := (aOp v)[j := f (aOp v ! j)]\<rparr>) (A\<lparr>sym := (sym A)[j := f (sym A ! j)]\<rparr>)"
    using assms(1,2) v(1) by (auto simp: asm_rel_def)
qed

lemma gens_change_p2:
  assumes "j < length (sym A)" "0 \<le> a"
  shows "gens (change_p2 (int j) a) A (A\<lparr>sym := (sym A)[j := (sym A ! j)\<lparr>p2 := a\<rparr>]\<rparr>)"
  unfolding change_p2_def
proof (rule gens_on_vdbe)
  fix v :: "opcode vdbe" assume v: "asm_rel v A"
  have "target (lab A) a = a" using assms by (simp add: target_def)
  then have "(sym A ! j)\<lparr>p2 := target (lab A) (p2 (sym A ! j))\<rparr>\<lparr>p2 := a\<rparr>
      = ((sym A ! j)\<lparr>p2 := a\<rparr>)\<lparr>p2 := target (lab A) (p2 ((sym A ! j)\<lparr>p2 := a\<rparr>))\<rparr>" by simp
  note c = change_asm [where f = "\<lambda>q. q\<lparr>p2 := a\<rparr>", OF v assms(1) this]
  have "aOp v \<noteq> []" "nOp v = length (sym A)" "magic_init v" using v assms by (auto simp: asm_rel_def)
  then show "\<exists>v'. sqliteVdbeChangeP2 v (int j) a = Some v'
      \<and> asm_rel v' (A\<lparr>sym := (sym A)[j := (sym A ! j)\<lparr>p2 := a\<rparr>]\<rparr>)"
    using c assms by (auto simp: sqliteVdbeChangeP2_def change_op_def get_def put_def split: if_splits)
qed

lemma change_last_asm:
  assumes "asm_rel v A" "sym A = xs @ [q]"
    and "\<And>x. f (q\<lparr>p2 := x\<rparr>) = (f q)\<lparr>p2 := x\<rparr>" "p2 (f q) = p2 q"
  shows "p3_addr v (-1) = Some (length xs)" "aOp v \<noteq> []" "magic_init v"
    and "get (aOp v) (length xs) = Some (q\<lparr>p2 := target (lab A) (p2 q)\<rparr>)"
    and "put (aOp v) (length xs) (f (q\<lparr>p2 := target (lab A) (p2 q)\<rparr>))
           = Some ((aOp v)[length xs := f (q\<lparr>p2 := target (lab A) (p2 q)\<rparr>)])"
    and "asm_rel (v\<lparr>aOp := (aOp v)[length xs := f (q\<lparr>p2 := target (lab A) (p2 q)\<rparr>)]\<rparr>)
           (A\<lparr>sym := xs @ [f q]\<rparr>)"
proof -
  have j: "length xs < length (sym A)" "sym A ! length xs = q" using assms(2) by auto
  have "f ((sym A ! length xs)\<lparr>p2 := target (lab A) (p2 (sym A ! length xs))\<rparr>)
        = (f (sym A ! length xs))\<lparr>p2 := target (lab A) (p2 (f (sym A ! length xs)))\<rparr>"
    using assms(3,4) j(2) by simp
  note c = change_asm [OF assms(1) j(1) this]
  have at: "aOp v ! length xs = q\<lparr>p2 := target (lab A) (p2 q)\<rparr>"
    using c(1) j(2) by (auto simp: get_def split: if_splits)
  show "p3_addr v (-1) = Some (length xs)" "aOp v \<noteq> []" "magic_init v"
    using assms(1,2) by (auto simp: p3_addr_def asm_rel_def)
  show "get (aOp v) (length xs) = Some (q\<lparr>p2 := target (lab A) (p2 q)\<rparr>)"
    using c(1) j(2) by simp
  show "put (aOp v) (length xs) (f (q\<lparr>p2 := target (lab A) (p2 q)\<rparr>))
           = Some ((aOp v)[length xs := f (q\<lparr>p2 := target (lab A) (p2 q)\<rparr>)])"
    using c(2) unfolding at .
  have "(sym A)[length xs := f (sym A ! length xs)] = xs @ [f q]" using assms(2) by simp
  then show "asm_rel (v\<lparr>aOp := (aOp v)[length xs := f (q\<lparr>p2 := target (lab A) (p2 q)\<rparr>)]\<rparr>)
           (A\<lparr>sym := xs @ [f q]\<rparr>)"
    using c(3) unfolding at by simp
qed

lemma gens_change_p3:
  assumes "sym A = xs @ [q]"
  shows "gens (change_p3 (-1) (Some (P3Str z)) (int (length z))) A
           (A\<lparr>sym := xs @ [q\<lparr>p3 := Some (P3Str z), p3type := P3_DYNAMIC\<rparr>]\<rparr>)"
  unfolding change_p3_def
proof (rule gens_on_vdbe)
  fix v :: "opcode vdbe" assume "asm_rel v A"
  note c = change_last_asm [OF this assms,
    where f = "\<lambda>q. q\<lparr>p3 := Some (P3Str z), p3type := P3_DYNAMIC\<rparr>", simplified]
  then show "\<exists>v'. sqliteVdbeChangeP3 v (-1) (Some (P3Str z)) (int (length z)) = Some v' \<and>
      asm_rel v' (A\<lparr>sym := xs @ [q\<lparr>p3 := Some (P3Str z), p3type := P3_DYNAMIC\<rparr>]\<rparr>)"
    by (cases z) (simp_all add: sqliteVdbeChangeP3_def)
qed

lemma gens_dequote:
  assumes "sym A = xs @ [q]" "p3 q = Some (P3Str z)" "p3type q = P3_DYNAMIC"
  shows "gens (dequote_p3 (-1)) A (A\<lparr>sym := xs @ [q\<lparr>p3 := Some (P3Str (unquoted z))\<rparr>]\<rparr>)"
  unfolding dequote_p3_def
proof (rule gens_on_vdbe)
  fix v :: "opcode vdbe" assume v: "asm_rel v A"
  note c = change_last_asm [OF v assms(1),
    where f = "\<lambda>q. q\<lparr>p3type := P3_DYNAMIC, p3 := Some (P3Str (unquoted z))\<rparr>", simplified]
  have keep: "q\<lparr>p3 := Some (P3Str z)\<rparr> = q" "q\<lparr>p3type := P3_DYNAMIC, p3 := x\<rparr> = q\<lparr>p3 := x\<rparr>" for x
    using assms(2,3) by (simp_all add: vdbe_op.equality)
  show "\<exists>v'. sqliteVdbeDequoteP3 v (-1) = Some v' \<and>
      asm_rel v' (A\<lparr>sym := xs @ [q\<lparr>p3 := Some (P3Str (unquoted z))\<rparr>]\<rparr>)"
  proof (cases "zat z 0 = 0")
    case True
    then have "unquoted z = z" by (simp add: unquoted_def)
    moreover have eq: "A\<lparr>sym := xs @ [q]\<rparr> = A" using assms(1) by (metis asm.surjective asm.update_convs(1))
    moreover have "sqliteVdbeDequoteP3 v (-1) = Some v"
      using c(1-4) assms True by (simp add: sqliteVdbeDequoteP3_def)
    ultimately show ?thesis
      using v by (simp only: keep eq) simp
  next
    case False
    then have "unquoted z = dequoted z" by (simp add: unquoted_def)
    then show ?thesis
      using c assms False unfolding keep by (simp add: sqliteVdbeDequoteP3_def P3_defs)
  qed
qed

lemma gens_emit3:
  assumes "t < 0"
  shows "gens (emit3 oper x1 x2 (Some z) t) A (app A [(ins oper x1 x2)\<lparr>p3 := Some z, p3type := t\<rparr>])"
  unfolding emit3_def
proof (rule gens_on_vdbe)
  fix v :: "opcode vdbe" assume "asm_rel v A"
  from add_op_asm [OF this, of oper x1 x2] obtain w where
    w: "sqliteVdbeAddOp OP_none True v oper x1 x2 = Some (length (sym A), w)"
      "asm_rel w (app A [ins oper x1 x2])" by auto
  have "sym (app A [ins oper x1 x2]) = sym A @ [ins oper x1 x2]" by simp
  note c = change_last_asm [OF w(2) this, where f = "\<lambda>q. q\<lparr>p3 := Some z, p3type := t\<rparr>", simplified]
  have "p3_addr w (int (length (sym A))) = Some (length (sym A))"
    using w(2) by (auto simp: p3_addr_def asm_rel_def)
  then show "\<exists>v'. map_option snd (sqliteVdbeOp3 OP_none True v oper x1 x2 (Some z) t) = Some v' \<and>
      asm_rel v' (app A [(ins oper x1 x2)\<lparr>p3 := Some z, p3type := t\<rparr>])"
    using assms c w(1) by (simp add: sqliteVdbeOp3_def sqliteVdbeChangeP3_def)
qed

subsection \<open>Running a part of the program\<close>

text \<open>
  A finished program \<open>P\<close> contains the instructions of \<open>B\<close> from address \<open>n\<close> on, with the labels replaced
  according to \<open>L\<close>.
\<close>

definition relabel :: "(int \<Rightarrow> int) \<Rightarrow> instr \<Rightarrow> instr" where
  "relabel L q = q\<lparr>p2 := L (p2 q)\<rparr>"

definition linked :: "nat \<Rightarrow> opcode asm \<Rightarrow> instr list \<Rightarrow> (int \<Rightarrow> int) \<Rightarrow> bool" where
  "linked n B P L \<longleftrightarrow>
     (\<forall>i. n \<le> i \<and> i < length (sym B) \<longrightarrow> i < length P \<and> P ! i = relabel L (sym B ! i)) \<and>
     (\<forall>k m. k < length (lab B) \<and> lab B ! k = Some m \<longrightarrow> L (-1 - int k) = int m) \<and>
     (\<forall>x \<ge> 0. L x = x)"

definition covers :: "nat \<Rightarrow> opcode asm \<Rightarrow> opcode asm \<Rightarrow> bool" where
  "covers n B D \<longleftrightarrow>
     length (sym B) \<le> length (sym D) \<and>
     (\<forall>i. n \<le> i \<and> i < length (sym B) \<longrightarrow> sym D ! i = sym B ! i) \<and>
     length (lab B) \<le> length (lab D) \<and>
     (\<forall>k < length (lab B). lab B ! k = None \<or> lab D ! k = lab B ! k)"

definition grows :: "opcode asm \<Rightarrow> opcode asm \<Rightarrow> bool" where
  "grows A B \<longleftrightarrow> (\<exists>is. sym B = sym A @ is) \<and> (\<exists>ls. lab B = lab A @ ls)"

lemma linked_covers: "linked n D P L \<Longrightarrow> covers m B D \<Longrightarrow> n \<le> m \<Longrightarrow> linked m B P L"
proof -
  assume l: "linked n D P L" and c: "covers m B D" and n: "n \<le> m"
  have "i < length P \<and> P ! i = relabel L (sym B ! i)" if "m \<le> i" "i < length (sym B)" for i
  proof -
    have "n \<le> i" "i < length (sym D)" "sym D ! i = sym B ! i" using that c n by (auto simp: covers_def)
    then show ?thesis using l by (auto simp: linked_def)
  qed
  moreover have "L (-1 - int k) = int a" if "k < length (lab B)" "lab B ! k = Some a" for k a
  proof -
    have "k < length (lab D)" "lab D ! k = Some a" using that c by (auto simp: covers_def)
    then show ?thesis using l by (auto simp: linked_def)
  qed
  ultimately show ?thesis using l by (simp add: linked_def)
qed

lemma linked_mono: "linked n D P L \<Longrightarrow> n \<le> m \<Longrightarrow> linked m D P L"
  unfolding linked_def by (meson le_trans)

lemma grows_covers: "grows B D \<Longrightarrow> covers n B D"
  by (auto simp: grows_def covers_def nth_append)

lemma grows_refl [simp]: "grows A A"
  by (simp add: grows_def)

lemma grows_trans: "grows A B \<Longrightarrow> grows B C \<Longrightarrow> grows A C"
  by (auto simp: grows_def)

lemma grows_app [simp]: "grows A (app A is)"
  by (simp add: grows_def)

lemma grows_length: "grows A B \<Longrightarrow> length (sym A) \<le> length (sym B)" "grows A B \<Longrightarrow> length (lab A) \<le> length (lab B)"
  by (auto simp: grows_def)

definition at_pc :: "'r vm \<Rightarrow> int \<Rightarrow> 'r mem list \<Rightarrow> 'r vm" where
  "at_pc s i st = s\<lparr>pc := i, stack := st\<rparr>"

lemma at_pc_simps [simp]:
  "pc (at_pc s i st) = i" "stack (at_pc s i st) = st" "store (at_pc s i st) = store s"
  "at_pc s i st\<lparr>pc := j\<rparr> = at_pc s j st" "at_pc s i st\<lparr>stack := st'\<rparr> = at_pc s i st'"
  "push m (at_pc s i st) = at_pc s i (m # st)" "popStack n (at_pc s i st) = at_pc s i (drop n st)"
  "jump q (at_pc s i st) = at_pc s (p2 q - 1) st"
  by (simp_all add: at_pc_def push_def popStack_def jump_def)

lemma at_pc_store: "store s = \<sigma> \<Longrightarrow> at_pc s i st\<lparr>store := \<sigma>\<rparr> = at_pc s i st"
  by (simp add: at_pc_def)

definition runs :: "'r::linorder env \<Rightarrow> instr list \<Rightarrow> 'r vm \<Rightarrow> 'r vm \<Rightarrow> bool" where
  "runs env P = (\<lambda>s s'. exec_step env P s = Next s')\<^sup>*\<^sup>*"

lemma runs_refl [simp]: "runs env P s s"
  by (simp add: runs_def)

lemma runs_trans: "runs env P s s' \<Longrightarrow> runs env P s' s'' \<Longrightarrow> runs env P s s''"
  unfolding runs_def by (rule rtranclp_trans)

lemma runs_step:
  assumes "linked n B P L" "n \<le> i" "i < length (sym B)" "length st \<le> Suc i"
    and "exec_op env (relabel L (sym B ! i)) (at_pc s (int i) st) = Next s'" "s'' = s'\<lparr>pc := pc s' + 1\<rparr>"
  shows "runs env P (at_pc s (int i) st) s''"
proof -
  have "P ! i = relabel L (sym B ! i)" "i < length P" using assms(1-3) by (auto simp: linked_def)
  then have "exec_step env P (at_pc s (int i) st) = Next s''"
    using assms(4-6) by (simp add: exec_step_def)
  then show ?thesis unfolding runs_def by (rule r_into_rtranclp)
qed

text \<open>
  Code from \<open>A\<close> to \<open>B\<close> that replaces the entries \<open>xs\<close> on top of the stack by \<open>ys\<close>, in a machine whose
  memory cells, sets and connection are \<open>\<sigma>\<close>, and never exceeds the bound on the stack.
\<close>

definition execs ::
    "'r::linorder env \<Rightarrow> 'r store \<Rightarrow> 'r mem list \<Rightarrow> 'r mem list \<Rightarrow> opcode asm \<Rightarrow> opcode asm \<Rightarrow> bool" where
  "execs env \<sigma> xs ys A B \<longleftrightarrow>
     length ys + length (sym A) \<le> length xs + length (sym B) \<and>
     (\<forall>P L s st. linked (length (sym A)) B P L \<longrightarrow> store s = \<sigma> \<longrightarrow> length xs + length st \<le> Suc (length (sym A)) \<longrightarrow>
        runs env P (at_pc s (int (length (sym A))) (xs @ st)) (at_pc s (int (length (sym B))) (ys @ st)))"

lemma execsD:
  "execs env \<sigma> xs ys A B \<Longrightarrow> linked (length (sym A)) B P L \<Longrightarrow> store s = \<sigma> \<Longrightarrow>
   length xs + length st \<le> Suc (length (sym A)) \<Longrightarrow>
   runs env P (at_pc s (int (length (sym A))) (xs @ st)) (at_pc s (int (length (sym B))) (ys @ st))"
  unfolding execs_def by blast

lemma execs_comp:
  assumes "execs env \<sigma> xs ys A B" "execs env \<sigma> ys zs B C" "grows A B" "grows B C"
  shows "execs env \<sigma> xs zs A C"
  unfolding execs_def
proof (intro conjI allI impI)
  show "length zs + length (sym A) \<le> length xs + length (sym C)"
    using assms(1,2) by (auto simp: execs_def)
  fix P L and s :: "'a vm" and st :: "'a mem list"
  assume l: "linked (length (sym A)) C P L" and s: "store s = \<sigma>"
    and st: "length xs + length st \<le> Suc (length (sym A))"
  have "linked (length (sym A)) B P L"
    using linked_covers [OF l grows_covers [OF assms(4)]] by blast
  then have "runs env P (at_pc s (int (length (sym A))) (xs @ st)) (at_pc s (int (length (sym B))) (ys @ st))"
    using execsD [OF assms(1)] s st by blast
  moreover have "linked (length (sym B)) C P L"
    using linked_mono [OF l] grows_length(1) [OF assms(3)] by blast
  then have "runs env P (at_pc s (int (length (sym B))) (ys @ st)) (at_pc s (int (length (sym C))) (zs @ st))"
    using execsD [OF assms(2)] s st assms(1) by (auto simp: execs_def)
  ultimately show "runs env P (at_pc s (int (length (sym A))) (xs @ st)) (at_pc s (int (length (sym C))) (zs @ st))"
    by (rule runs_trans)
qed

lemma execs_frame: "execs env \<sigma> xs ys A B \<Longrightarrow> execs env \<sigma> (xs @ zs) (ys @ zs) A B"
  by (simp add: execs_def)

lemma execs_instr:
  assumes "\<And>L s st i. (\<forall>x \<ge> 0. L x = x) \<Longrightarrow> store s = \<sigma> \<Longrightarrow>
      exec_op env (relabel L q) (at_pc s i (xs @ st)) = Next (at_pc s i (ys @ st))"
    and "length ys \<le> Suc (length xs)"
  shows "execs env \<sigma> xs ys A (app A [q])"
  unfolding execs_def
proof (intro conjI allI impI)
  show "length ys + length (sym A) \<le> length xs + length (sym (app A [q]))" using assms(2) by simp
  fix P L and s :: "'a vm" and st :: "'a mem list"
  assume l: "linked (length (sym A)) (app A [q]) P L" and s: "store s = \<sigma>"
    and st: "length xs + length st \<le> Suc (length (sym A))"
  show "runs env P (at_pc s (int (length (sym A))) (xs @ st)) (at_pc s (int (length (sym (app A [q])))) (ys @ st))"
    by (rule runs_step [OF l]) (use s st l assms(1) in \<open>auto simp: linked_def add.commute\<close>)
qed

text \<open>The generator emits such code, wherever it starts.\<close>

definition code :: "'r::linorder env \<Rightarrow> 'r store \<Rightarrow> (gen \<Rightarrow> gen option) \<Rightarrow> 'r mem list \<Rightarrow> 'r mem list \<Rightarrow> bool" where
  "code env \<sigma> f xs ys \<longleftrightarrow> (\<forall>A. \<exists>B. gens f A B \<and> grows A B \<and> execs env \<sigma> xs ys A B)"

lemma codeE:
  assumes "code env \<sigma> f xs ys"
  obtains B where "gens f A B" "grows A B" "execs env \<sigma> xs ys A B"
  using assms unfolding code_def by blast

lemma code_bind: "code env \<sigma> f xs ys \<Longrightarrow> code env \<sigma> h ys zs \<Longrightarrow> code env \<sigma> (\<lambda>g. f g \<bind> h) xs zs"
  unfolding code_def
proof
  fix A
  assume f: "\<forall>A. \<exists>B. gens f A B \<and> grows A B \<and> execs env \<sigma> xs ys A B"
    and h: "\<forall>A. \<exists>B. gens h A B \<and> grows A B \<and> execs env \<sigma> ys zs A B"
  obtain B where B: "gens f A B" "grows A B" "execs env \<sigma> xs ys A B" using f by blast
  obtain C where C: "gens h B C" "grows B C" "execs env \<sigma> ys zs B C" using h by blast
  show "\<exists>B. gens (\<lambda>g. f g \<bind> h) A B \<and> grows A B \<and> execs env \<sigma> xs zs A B"
    using gens_bind [OF B(1) C(1)] grows_trans [OF B(2) C(2)] execs_comp [OF B(3) C(3) B(2) C(2)] by blast
qed

lemma code_frame: "code env \<sigma> f xs ys \<Longrightarrow> code env \<sigma> f (xs @ zs) (ys @ zs)"
  unfolding code_def using execs_frame by blast

lemma code_skip: "code env \<sigma> Some xs xs"
  unfolding code_def execs_def by (meson gens_skip grows_refl order_refl runs_refl)

lemma code_emit:
  assumes "\<And>L s st i. (\<forall>x \<ge> 0. L x = x) \<Longrightarrow> store s = \<sigma> \<Longrightarrow>
      exec_op env (relabel L (ins oper x1 x2)) (at_pc s i (xs @ st)) = Next (at_pc s i (ys @ st))"
    and "length ys \<le> Suc (length xs)"
  shows "code env \<sigma> (emit oper x1 x2) xs ys"
  unfolding code_def using gens_emit execs_instr [OF assms] grows_app by blast

subsection \<open>The instructions an expression is compiled to\<close>

lemmas exec_simps = exec_op_def relabel_def ins_def with_tos_def with_two_def

lemma code_emit_arith:
  "code env \<sigma> (emit (OP_Arith a) 0 0) [y, x] [op_arith (fl env) a x y]"
  "code env \<sigma> (emit (OP_Bits b) 0 0) [y, x] [op_bits (fl env) b x y]"
  "code env \<sigma> (emit OP_And 0 0) [y, x] [op_logic (fl env) True x y]"
  "code env \<sigma> (emit OP_Or 0 0) [y, x] [op_logic (fl env) False x y]"
  "code env \<sigma> (emit OP_Negative 0 0) [x] [op_negative (fl env) x]"
  "code env \<sigma> (emit OP_Not 0 0) [x] [op_not (fl env) x]"
  "code env \<sigma> (emit OP_BitNot 0 0) [x] [op_bitnot (fl env) x]"
  "code env \<sigma> (emit OP_Concat 2 0) [y, x] [op_concat (fl env) [] [x, y]]"
  "code env \<sigma> (emit OP_AddImm k 0) [x] [op_addimm (fl env) (word_of_int k) x]"
  "code env \<sigma> (emit (OP_Cmp p) 0 0) [y, x] [mem_bool (map_option (cmp_holds p) (compare_num (fl env) x y))]"
  "code env \<sigma> (emit (OP_StrCmp p) 0 0) [y, x] [mem_bool (map_option (cmp_holds p) (compare_text (fl env) x y))]"
  by (rule code_emit; simp add: exec_simps exec_concat_def exec_cmp_def exec_compare_def compare_mem_def)+

lemma code_emit_push:
  "code env \<sigma> (emit OP_Recno tab 0) [] [row_number env tab]"
  "code env \<sigma> (emit OP_Integer k 0) [] [mem_int (word_of_int k)]"
  "code env \<sigma> (emit OP_String 0 0) [] [mem_null]"
  "code env \<sigma> (emit OP_Variable k 0) [] [variable (azVar env) k]"
  "0 \<le> agg \<Longrightarrow> code env \<sigma> (emit OP_AggGet 0 agg) [] [agg_get env agg]"
  "0 \<le> col \<Longrightarrow> code env \<sigma> (emit OP_Column tab col) [] [column env tab col]"
  "0 \<le> k \<Longrightarrow> k < int (length (aMem \<sigma>)) \<Longrightarrow> code env \<sigma> (emit OP_MemLoad k 0) [] [aMem \<sigma> ! nat k]"
  by (rule code_emit; simp add: exec_simps exec_integer_def exec_string_def exec_memload_def)+

lemma code_emit_stack:
  "code env \<sigma> (emit OP_Dup 0 0) [x] [x, x]"
  "code env \<sigma> (emit OP_Dup 1 1) [x, y] [y, x, y]"
  "code env \<sigma> (emit OP_Pull 1 0) [x, y] [y, x]"
  "code env \<sigma> (emit OP_Pop 1 0) [x] []"
  by (rule code_emit; simp add: exec_simps exec_dup_def exec_pull_def exec_pop_def)+

lemma code_column_ok:
  assumes "useAgg c \<Longrightarrow> 0 \<le> agg"
  shows "code env \<sigma> (code_column c tab col agg) []
    [if useAgg c then agg_get env agg else if 0 \<le> col then column env tab col else row_number env tab]"
proof -
  have "code_column c tab col agg =
    (if useAgg c then emit OP_AggGet 0 agg else if 0 \<le> col then emit OP_Column tab col else emit OP_Recno tab 0)"
    by (rule ext) (simp add: code_column_def)
  then show ?thesis using assms by (simp add: code_emit_push)
qed

text \<open>A constant: the instruction, its text, and the removal of quotes.\<close>

definition number_ins :: "bool \<Rightarrow> cstring \<Rightarrow> instr" where
  "number_ins is_int z = (if is_int \<and> sqliteFitsIn32Bits z then ins OP_Integer (atoi z) 0 else ins OP_String 0 0)"

lemma gens_number: "gens (code_number is_int z) A (app A [number_ins is_int z])"
proof -
  have "code_number is_int z =
    (if is_int \<and> sqliteFitsIn32Bits z then emit OP_Integer (atoi z) 0 else emit OP_String 0 0)"
    by (rule ext) (simp add: code_number_def)
  then show ?thesis by (simp add: number_ins_def gens_emit)
qed

lemma gens_number_text:
  assumes "n = int (length text)"
  shows "gens (\<lambda>g. code_number is_int z g \<bind> change_p3 (-1) (Some (P3Str text)) n) A
    (app A [(number_ins is_int z)\<lparr>p3 := Some (P3Str text), p3type := P3_DYNAMIC\<rparr>])"
  using gens_bind [OF gens_number gens_change_p3 [of "app A [number_ins is_int z]" "sym A"]] assms by simp

lemma execs_number:
  "execs env \<sigma> [] [literal_value is_int z text] A
     (app A [(number_ins is_int z)\<lparr>p3 := Some (P3Str text), p3type := P3_DYNAMIC\<rparr>])"
  by (rule execs_instr)
    (auto simp: number_ins_def exec_simps exec_integer_def exec_string_def literal_value_def)

lemma code_literal_ok:
  "code env \<sigma> (code_literal t (Some z)) [] [literal_value (t = TK_INTEGER) z (unquoted z)]"
  unfolding code_def
proof
  fix A
  let ?q = "(number_ins (t = TK_INTEGER) z)\<lparr>p3 := Some (P3Str z), p3type := P3_DYNAMIC\<rparr>"
  let ?B = "app A [?q\<lparr>p3 := Some (P3Str (unquoted z))\<rparr>]"
  have "gens (\<lambda>g. code_number (t = TK_INTEGER) z g \<bind> change_p3 (-1) (Some (P3Str z)) (int (length z))
      \<bind> dequote_p3 (-1)) A ?B"
    using gens_bind [OF gens_number_text gens_dequote [of "app A [?q]" "sym A" ?q z]] by simp
  then have "gens (code_literal t (Some z)) A ?B"
    by (simp add: gens_def code_literal_def)
  moreover have "?q\<lparr>p3 := Some (P3Str (unquoted z))\<rparr>
      = (number_ins (t = TK_INTEGER) z)\<lparr>p3 := Some (P3Str (unquoted z)), p3type := P3_DYNAMIC\<rparr>" by simp
  ultimately show "\<exists>B. gens (code_literal t (Some z)) A B \<and> grows A B
      \<and> execs env \<sigma> [] [literal_value (t = TK_INTEGER) z (unquoted z)] A B"
    using execs_number grows_app by metis
qed

lemma code_negated_ok:
  "code env \<sigma> (code_negated t (Some z)) [] [literal_value (t = TK_INTEGER) (45 # z) (45 # z)]"
  unfolding code_def
proof
  fix A
  have "gens (code_negated t (Some z)) A
      (app A [(number_ins (t = TK_INTEGER) (45 # z))\<lparr>p3 := Some (P3Str (45 # z)), p3type := P3_DYNAMIC\<rparr>])"
    using gens_number_text [of _ "45 # z" "t = TK_INTEGER" "45 # z" A]
    by (simp add: gens_def code_negated_def add.commute)
  then show "\<exists>B. gens (code_negated t (Some z)) A B \<and> grows A B
      \<and> execs env \<sigma> [] [literal_value (t = TK_INTEGER) (45 # z) (45 # z)] A B"
    using execs_number grows_app by metis
qed

text \<open>Code of a fixed shape that contains jumps.\<close>

lemma code_block:
  assumes "\<And>A. gens f A (app A (qs (length (sym A))))"
    and "\<And>n. length ys + n \<le> length xs + n + length (qs n)"
    and "\<And>n P L s st. (\<And>i. i < length (qs n) \<Longrightarrow> n + i < length P \<and> P ! (n + i) = relabel L (qs n ! i)) \<Longrightarrow>
      (\<forall>x \<ge> 0. L x = x) \<Longrightarrow> store s = \<sigma> \<Longrightarrow> length xs + length st \<le> Suc n \<Longrightarrow>
      runs env P (at_pc s (int n) (xs @ st)) (at_pc s (int (n + length (qs n))) (ys @ st))"
  shows "code env \<sigma> f xs ys"
  unfolding code_def
proof
  fix A
  have "execs env \<sigma> xs ys A (app A (qs (length (sym A))))"
    unfolding execs_def
  proof (intro conjI allI impI)
    show "length ys + length (sym A) \<le> length xs + length (sym (app A (qs (length (sym A)))))"
      using assms(2) [of "length (sym A)"] by simp
    fix P L and s :: "'a vm" and st :: "'a mem list"
    assume l: "linked (length (sym A)) (app A (qs (length (sym A)))) P L" and s: "store s = \<sigma>"
      and st: "length xs + length st \<le> Suc (length (sym A))"
    have "length (sym A) + i < length P \<and> P ! (length (sym A) + i) = relabel L (qs (length (sym A)) ! i)"
      if "i < length (qs (length (sym A)))" for i
      using l that unfolding linked_def by (metis (no_types, lifting) asm.select_convs(1) asm.surjective
          asm.update_convs(1) le_add1 length_append nat_add_left_cancel_less nth_append_length_plus)
    from assms(3) [OF this _ s st] l
    show "runs env P (at_pc s (int (length (sym A))) (xs @ st))
        (at_pc s (int (length (sym (app A (qs (length (sym A))))))) (ys @ st))"
      by (auto simp: linked_def)
  qed
  then show "\<exists>B. gens f A B \<and> grows A B \<and> execs env \<sigma> xs ys A B"
    using assms(1) grows_app by blast
qed

lemma runs_into: "exec_step env P s = Next s' \<Longrightarrow> runs env P s' t \<Longrightarrow> runs env P s t"
  unfolding runs_def by (rule converse_rtranclp_into_rtranclp)

text \<open>The address of an instruction of a block, as the machine computes it.\<close>

lemma nat_addr [simp]:
  "nat (int n + numeral k) = n + numeral k" "nat (numeral k + int n) = n + numeral k"
  "nat (int n + 1) = Suc n" "nat (1 + int n) = Suc n"
  by (simp_all add: nat_add_distrib)

lemma block_nth:
  assumes "\<And>i. i < length qs \<Longrightarrow> n + i < length P \<and> P ! (n + i) = relabel L (qs ! i)"
  shows "0 < length qs \<Longrightarrow> n < length P \<and> P ! n = relabel L (qs ! 0)"
    "1 < length qs \<Longrightarrow> Suc n < length P \<and> P ! Suc n = relabel L (qs ! 1)"
    "2 < length qs \<Longrightarrow> Suc (Suc n) < length P \<and> P ! Suc (Suc n) = relabel L (qs ! 2)"
    "3 < length qs \<Longrightarrow> n + 3 < length P \<and> P ! (n + 3) = relabel L (qs ! 3)"
    "4 < length qs \<Longrightarrow> n + 4 < length P \<and> P ! (n + 4) = relabel L (qs ! 4)"
    "5 < length qs \<Longrightarrow> n + 5 < length P \<and> P ! (n + 5) = relabel L (qs ! 5)"
  using assms [of 0] assms [of 1] assms [of 2] assms [of 3] assms [of 4] assms [of 5]
  by simp_all

lemma gens_block: "gens f (app A []) B \<Longrightarrow> gens f A B"
  by simp

lemma gens_emit_next: "gens h (app A (is @ [ins oper x1 x2])) B \<Longrightarrow> gens (\<lambda>g. emit oper x1 x2 g \<bind> h) (app A is) B"
  by (rule gens_bind [OF gens_emit]) simp

lemma gens_emit_end: "js = is @ [ins oper x1 x2] \<Longrightarrow> gens (emit oper x1 x2) (app A is) (app A js)"
  using gens_emit [of oper x1 x2 "app A is"] by simp

lemmas exec_sims = exec_step_def exec_simps exec_isnull_def exec_pop_def exec_string_def exec_integer_def
  exec_goto_def exec_dup_def exec_found_def exec_setfound_def exec_cmp_def exec_compare_def exec_if_def
  compare_mem_def jump_if_def add.commute

lemma addimm_1 [simp]: "op_addimm f (- 1) (mem_int 1) = mem_int 0"
  by (simp add: op_addimm_def mem_int_def)

lemma code_nulltest:
  assumes "(oper, v) \<in> {(OP_IsNull, m_null m), (OP_NotNull, \<not> m_null m)}"
  shows "code env \<sigma> (\<lambda>g. current_addr g \<bind> (\<lambda>a. emit oper 1 (a + 2) g \<bind> emit OP_AddImm (-1) 0))
    [m, mem_int 1] [mem_bool (Some v)]"
proof (rule code_block [where qs = "\<lambda>n. [ins oper 1 (int n + 2), ins OP_AddImm (-1) 0]"])
  show "gens (\<lambda>g. current_addr g \<bind> (\<lambda>a. emit oper 1 (a + 2) g \<bind> emit OP_AddImm (- 1) 0)) A
      (app A [ins oper 1 (int (length (sym A)) + 2), ins OP_AddImm (- 1) 0])" for A
    by (rule gens_current, rule gens_block, rule gens_emit_next, rule gens_emit_end) simp
next
  fix n P L and s :: "'a vm" and st :: "'a mem list"
  let ?qs = "[ins oper 1 (int n + 2), ins OP_AddImm (-1) 0]"
  assume P: "\<And>i. i < length ?qs \<Longrightarrow> n + i < length P \<and> P ! (n + i) = relabel L (?qs ! i)"
    and L: "\<forall>x \<ge> 0. L x = x" and st: "length [m, mem_int 1] + length st \<le> Suc n"
  note facts = L st block_nth [OF P, simplified]
  consider (isnull) "oper = OP_IsNull" "v = m_null m" | (notnull) "oper = OP_NotNull" "v = (\<not> m_null m)"
    using assms by auto
  then show "runs env P (at_pc s (int n) ([m, mem_int 1] @ st)) (at_pc s (int (n + length ?qs)) ([mem_bool (Some v)] @ st))"
  proof cases
    case isnull
    show ?thesis
      by (cases "m_null m"; (rule runs_into, (use isnull facts in \<open>simp add: exec_sims\<close>; fail))+,
          use isnull in \<open>simp add: mem_bool_def add.commute\<close>)
  next
    case notnull
    show ?thesis
      by (cases "m_null m"; (rule runs_into, (use notnull facts in \<open>simp add: exec_sims\<close>; fail))+,
          use notnull in \<open>simp add: mem_bool_def add.commute\<close>)
  qed
qed simp

lemma code_in_ok:
  assumes "\<not> interrupted (db \<sigma>)"
  shows "code env \<sigma> (code_in sub tab) [m, mem_int 1] [mem_bool (member env \<sigma> sub tab m)]"
proof (rule code_block [where qs = "\<lambda>n. [ins OP_NotNull (-1) (int n + 4), ins OP_Pop 2 0, ins OP_String 0 0,
    ins OP_Goto 0 (int n + 6), ins (if sub then OP_Found else OP_SetFound) tab (int n + 6), ins OP_AddImm (-1) 0]"])
  show "gens (code_in sub tab) A (app A [ins OP_NotNull (- 1) (int (length (sym A)) + 4), ins OP_Pop 2 0,
      ins OP_String 0 0, ins OP_Goto 0 (int (length (sym A)) + 6),
      ins (if sub then OP_Found else OP_SetFound) tab (int (length (sym A)) + 6), ins OP_AddImm (- 1) 0])" for A
    unfolding code_in_def
    by (rule gens_current, rule gens_block, (rule gens_emit_next)+, rule gens_emit_end) simp
next
  fix n P L and s :: "'a vm" and st :: "'a mem list"
  let ?qs = "[ins OP_NotNull (-1) (int n + 4), ins OP_Pop 2 0, ins OP_String 0 0,
    ins OP_Goto 0 (int n + 6), ins (if sub then OP_Found else OP_SetFound) tab (int n + 6), ins OP_AddImm (-1) 0]"
  assume P: "\<And>i. i < length ?qs \<Longrightarrow> n + i < length P \<and> P ! (n + i) = relabel L (?qs ! i)"
    and L: "\<forall>x \<ge> 0. L x = x" and st: "length [m, mem_int 1] + length st \<le> Suc n" and s: "store s = \<sigma>"
  note facts = L st s assms block_nth [OF P, simplified]
  consider (null) "m_null m" | (found) "\<not> m_null m" "member env \<sigma> sub tab m = Some True"
    | (missing) "\<not> m_null m" "member env \<sigma> sub tab m = Some False"
    by (auto simp: member_def)
  then show "runs env P (at_pc s (int n) ([m, mem_int 1] @ st))
      (at_pc s (int (n + length ?qs)) ([mem_bool (member env \<sigma> sub tab m)] @ st))"
  proof cases
    case null
    show ?thesis
      by ((rule runs_into, (use null facts in \<open>simp add: exec_sims\<close>; fail))+,
          use null in \<open>simp add: member_def mem_bool_def add.commute\<close>)
  next
    case found
    show ?thesis
      by (cases sub; (rule runs_into, (use found facts in \<open>simp add: exec_sims member_def\<close>; fail))+,
          use found in \<open>simp add: mem_bool_def add.commute\<close>)
  next
    case missing
    show ?thesis
      by (cases sub; (rule runs_into, (use missing facts in \<open>simp add: exec_sims member_def\<close>; fail))+,
          use missing in \<open>simp add: mem_bool_def add.commute\<close>)
  qed
qed simp

lemma code_push: "code env \<sigma> f [] [v] \<Longrightarrow> code env \<sigma> f zs (v # zs)"
  using code_frame [of env \<sigma> f "[]" "[v]" zs] by simp

lemma code_cong: "f = h \<Longrightarrow> code env \<sigma> h xs ys \<Longrightarrow> code env \<sigma> f xs ys"
  by simp

lemma code_emit3:
  assumes "\<And>L s st i. (\<forall>x \<ge> 0. L x = x) \<Longrightarrow> store s = \<sigma> \<Longrightarrow>
      exec_op env (relabel L ((ins oper x1 x2)\<lparr>p3 := Some z, p3type := t\<rparr>)) (at_pc s i (xs @ st)) = Next (at_pc s i (ys @ st))"
    and "length ys \<le> Suc (length xs)" "t < 0"
  shows "code env \<sigma> (emit3 oper x1 x2 (Some z) t) xs ys"
  unfolding code_def using gens_emit3 [OF assms(3)] execs_instr [OF assms(1,2)] grows_app by blast

lemma compare_op_eq:
  assumes "sqliteExprType e \<noteq> None"
  shows "compare_op c e (OP_Cmp p) = Some (if text_compare c e then OP_StrCmp p else OP_Cmp p)"
  using assms by (auto simp: compare_op_def text_compare_def add_6_def)

lemma code_compare:
  assumes "code env \<sigma> f [] [x]" "code env \<sigma> h [] [y]"
  shows "code env \<sigma> (\<lambda>g. f g \<bind> (\<lambda>g. h g \<bind> emit (if txt then OP_StrCmp p else OP_Cmp p) 0 0)) []
    [mem_bool (map_option (cmp_holds p) (compare_mem (fl env) txt x y))]"
  by (cases "txt"; rule code_bind [OF assms(1) code_bind [OF code_push [OF assms(2)]]])
    (simp_all add: code_emit_arith compare_mem_def)

lemma code_two:
  assumes "code env \<sigma> f [] [x]" "code env \<sigma> h [] [y]" "code env \<sigma> k [y, x] [z]"
  shows "code env \<sigma> (\<lambda>g. f g \<bind> (\<lambda>g. h g \<bind> k)) [] [z]"
  by (rule code_bind [OF assms(1) code_bind [OF code_push [OF assms(2)] assms(3)]])

lemma code_type_ok:
  assumes "sqliteExprType e \<noteq> None"
  shows "code env \<sigma> (code_type types e) [] (if types then [type_name e] else [])"
proof -
  have "code_type types e = (if types
      then emit3 OP_String 0 0 (Some (P3Str (cstr (if sqliteExprType e = Some SQLITE_SO_NUM then ''numeric'' else ''text''))))
        P3_STATIC else Some)"
    using assms by (auto simp: code_type_def fun_eq_iff)
  moreover have "code env \<sigma> (emit3 OP_String 0 0
      (Some (P3Str (cstr (if sqliteExprType e = Some SQLITE_SO_NUM then ''numeric'' else ''text'')))) P3_STATIC) [] [type_name e]"
    by (rule code_emit3) (simp_all add: exec_simps exec_string_def type_name_def P3_defs del: cstr_simps)
  ultimately show ?thesis by (simp add: code_skip)
qed

definition quiet :: "'r env \<Rightarrow> 'r store \<Rightarrow> bool" where
  "quiet env \<sigma> \<longleftrightarrow> \<not> interrupted (db \<sigma>) \<and> magic (db \<sigma>) = SQLITE_MAGIC_BUSY \<and> (\<forall>f args. \<not> snd (xFunc env f args))"

lemma safety_round_trip:
  assumes "magic (db \<sigma>) = SQLITE_MAGIC_BUSY"
  shows "sqliteSafetyOff (db \<sigma>) = (False, (db \<sigma>)\<lparr>magic := SQLITE_MAGIC_OPEN\<rparr>)"
    "sqliteSafetyOn ((db \<sigma>)\<lparr>magic := SQLITE_MAGIC_OPEN\<rparr>) = (False, db \<sigma>)"
  using assms by (simp_all add: sqliteSafetyOff_def sqliteSafetyOn_def)

lemma code_call:
  assumes "quiet env \<sigma>" "n = int (length vs)"
  shows "code env \<sigma> (emit3 OP_Function n 0 (Some (P3Ptr (addr d))) P3_POINTER) (rev vs) [apply_function env d vs]"
proof (rule code_emit3)
  fix L :: "int \<Rightarrow> int" and i st and s :: "'a vm"
  assume L: "\<forall>x \<ge> 0. L x = x" and s: "store s = \<sigma>"
  let ?args = "map (\<lambda>m. if m_null m then None else Some (Stringify (fl env) m)) vs"
  have "\<not> snd (xFunc env (addr d) ?args)" using assms(1) by (simp add: quiet_def)
  then have "xFunc env (addr d) ?args = (apply_function env d vs, False)"
    by (simp add: apply_function_def prod_eq_iff)
  moreover have "magic (db \<sigma>) = SQLITE_MAGIC_BUSY" using assms(1) by (simp add: quiet_def)
  ultimately show "exec_op env (relabel L ((ins OP_Function n 0)\<lparr>p3 := Some (P3Ptr (addr d)), p3type := P3_POINTER\<rparr>))
      (at_pc s i (rev vs @ st)) = Next (at_pc s i ([apply_function env d vs] @ st))"
    using assms(2) s safety_round_trip [of \<sigma>]
    by (simp add: exec_simps exec_function_def Let_def at_pc_store)
qed (simp_all add: P3_defs)

lemma code_list:
  assumes "\<forall>e \<in> set es. sqliteExprType e \<noteq> None \<and> code env \<sigma> (sqliteExprCode c e) [] [expr_value c env \<sigma> e]"
  shows "code env \<sigma> (sqliteExprCodeExprList c types es) zs (rev (list_value c env \<sigma> types es) @ zs)"
  using assms
proof (induction es arbitrary: zs)
  case Nil
  have "sqliteExprCodeExprList c types [] = Some" by (rule ext) simp
  then show ?case by (simp add: code_skip)
next
  case (Cons e es)
  let ?v = "expr_value c env \<sigma> e" and ?t = "if types then [type_name e] else []"
  have e: "sqliteExprType e \<noteq> None" "code env \<sigma> (sqliteExprCode c e) [] [?v]" using Cons.prems by auto
  have "code env \<sigma> (code_type types e) (?v # zs) (?t @ ?v # zs)"
    using code_frame [OF code_type_ok [OF e(1), of env \<sigma> types], of "?v # zs"] by (simp split: if_splits)
  moreover have "code env \<sigma> (sqliteExprCodeExprList c types es) (?t @ ?v # zs)
      (rev (list_value c env \<sigma> types es) @ ?t @ ?v # zs)"
    using Cons by simp
  ultimately have "code env \<sigma> (\<lambda>g. sqliteExprCode c e g \<bind> (\<lambda>g. code_type types e g \<bind> sqliteExprCodeExprList c types es))
      zs (rev (list_value c env \<sigma> types es) @ ?t @ ?v # zs)"
    using code_bind [OF code_push [OF e(2)] code_bind] by blast
  then show ?case by (cases types) (simp_all add: fun_eq_iff)
qed

lemma length_list_value: "length (list_value c env \<sigma> types es) = (if types then length es * 2 else length es)"
  by (induction es) auto

lemma code_function_ok:
  assumes "quiet env \<sigma>" "the_function c e = Some d"
    and "\<And>types. code env \<sigma> (args types) [] (rev (vs types))"
    and "\<And>types. length (vs types) = (let n = (case pList e of None \<Rightarrow> 0 | Some es \<Rightarrow> length es) in if types then n * 2 else n)"
  shows "code env \<sigma> (code_function c e args) [] [apply_function env d (vs (includeTypes d))]"
proof -
  let ?n = "case pList e of None \<Rightarrow> 0 | Some es \<Rightarrow> length es"
  obtain name where name: "getFunctionName e = Some name" "sqliteFindFunction (aFunc c) name (int ?n) = Some d"
    using assms(2) by (auto simp: the_function_def split: option.splits)
  have "code_function c e args = (\<lambda>g. args (includeTypes d) g \<bind>
      emit3 OP_Function (int (if includeTypes d then ?n * 2 else ?n)) 0 (Some (P3Ptr (addr d))) P3_POINTER)"
    using name by (auto simp: code_function_def fun_eq_iff Let_def)
  moreover have "int (if includeTypes d then ?n * 2 else ?n) = int (length (vs (includeTypes d)))"
    using assms(4) by (simp add: Let_def)
  ultimately show ?thesis
    using code_bind [OF assms(3) code_call [OF assms(1) refl]] by simp
qed

lemma code_between:
  assumes "code env \<sigma> fx [] [x]" "code env \<sigma> flo [] [lo]" "code env \<sigma> fhi [] [hi]"
  shows "code env \<sigma> (\<lambda>g. fx g \<bind> (\<lambda>g. emit OP_Dup 0 0 g \<bind> (\<lambda>g. flo g \<bind> (\<lambda>g. emit (OP_Cmp Ge_op) 0 0 g \<bind>
      (\<lambda>g. emit OP_Pull 1 0 g \<bind> (\<lambda>g. fhi g \<bind> (\<lambda>g. emit (OP_Cmp Le_op) 0 0 g \<bind> emit OP_And 0 0))))))) []
      [between (fl env) x lo hi]"
proof -
  let ?ge = "mem_bool (map_option (cmp_holds Ge_op) (compare_num (fl env) x lo))"
  let ?le = "mem_bool (map_option (cmp_holds Le_op) (compare_num (fl env) x hi))"
  have ge: "code env \<sigma> (emit (OP_Cmp Ge_op) 0 0) [lo, x, x] [?ge, x]"
    using code_frame [OF code_emit_arith(10), where zs = "[x]"] by simp
  have le: "code env \<sigma> (emit (OP_Cmp Le_op) 0 0) [hi, x, ?ge] [?le, ?ge]"
    using code_frame [OF code_emit_arith(10), where zs = "[?ge]"] by simp
  have "code env \<sigma> (emit OP_And 0 0) [?le, ?ge] [between (fl env) x lo hi]"
    unfolding between_def by (rule code_emit_arith)
  with ge le show ?thesis
    using code_bind [OF assms(1) code_bind [OF code_emit_stack(1) code_bind [OF code_push [OF assms(2)]
      code_bind [OF _ code_bind [OF code_emit_stack(3) code_bind [OF code_push [OF assms(3)] code_bind]]]]]]
    by blast
qed

subsection \<open>CASE\<close>

text \<open>The alternative that is taken, if there is one.\<close>

fun picked :: "ctx \<Rightarrow> 'r::linorder env \<Rightarrow> 'r store \<Rightarrow> 'r mem option \<Rightarrow> expr list \<Rightarrow> 'r mem option" where
  "picked c env \<sigma> base (w # t # es) =
     (if chosen (fl env) base (expr_value c env \<sigma> w) then Some (expr_value c env \<sigma> t)
      else picked c env \<sigma> base es)"
| "picked c env \<sigma> base _ = None"

lemma case_value_picked:
  "case_value c env \<sigma> base es d = (case picked c env \<sigma> base es of Some v \<Rightarrow> v | None \<Rightarrow> d)"
  by (induction c env \<sigma> base es rule: picked.induct) auto

definition base_stack :: "'r mem option \<Rightarrow> 'r mem list" where
  "base_stack base = (case base of None \<Rightarrow> [] | Some b \<Rightarrow> [b])"

definition alternatives ::
    "'r::linorder env \<Rightarrow> 'r store \<Rightarrow> 'r mem option \<Rightarrow> int \<Rightarrow> 'r mem option \<Rightarrow> opcode asm \<Rightarrow> opcode asm \<Rightarrow> bool" where
  "alternatives env \<sigma> base end_label v A B \<longleftrightarrow>
     (\<forall>P L s st. linked (length (sym A)) B P L \<longrightarrow> store s = \<sigma> \<longrightarrow>
        length (base_stack base) + length st \<le> Suc (length (sym A)) \<longrightarrow>
        runs env P (at_pc s (int (length (sym A))) (base_stack base @ st))
          (case v of
             None \<Rightarrow> at_pc s (int (length (sym B))) (base_stack base @ st)
           | Some v \<Rightarrow> at_pc s (L end_label) (v # st)))"

text \<open>The test of a condition: it falls through with the base popped, or jumps with the base kept.\<close>

definition test_code :: "bool \<Rightarrow> int \<Rightarrow> instr list" where
  "test_code base dest =
     (if base then [ins OP_Dup 1 1, ins (OP_Cmp Ne_op) 1 dest, ins OP_Pop 1 0] else [ins OP_IfNot 1 dest])"

lemma runs_test:
  assumes "\<And>i. i < length (test_code (base \<noteq> None) dest) \<Longrightarrow>
      n + i < length P \<and> P ! (n + i) = relabel L (test_code (base \<noteq> None) dest ! i)"
    and "\<forall>x \<ge> 0. L x = x" "0 < dest" "length (base_stack base) + length st \<le> n"
  shows "runs env P (at_pc s (int n) (w # base_stack base @ st))
    (if chosen (fl env) base w then at_pc s (int n + int (length (test_code (base \<noteq> None) dest))) st
     else at_pc s dest (base_stack base @ st))"
proof (cases base)
  case None
  note facts = assms(2-4) block_nth [OF assms(1), simplified test_code_def None, simplified]
  show ?thesis
    by (rule runs_into, (use None facts in \<open>simp add: exec_sims base_stack_def\<close>; fail))
      (use None facts in \<open>auto simp: chosen_def base_stack_def test_code_def add.commute\<close>)
next
  case (Some b)
  note facts = assms(2-4) block_nth [OF assms(1), simplified test_code_def Some, simplified]
  have p: "0 < dest \<Longrightarrow> L dest = dest" "dest \<noteq> 0" using assms(2,3) by auto
  consider (null) "compare_num (fl env) w b = None" | (ne) k where "compare_num (fl env) w b = Some k" "k \<noteq> 0"
    | (eq) "compare_num (fl env) w b = Some 0" by (cases "compare_num (fl env) w b") auto
  then show ?thesis
  proof cases
    case null
    show ?thesis
      by ((rule runs_into, (use null Some facts p in \<open>simp add: exec_sims base_stack_def\<close>; fail))+,
          use null Some in \<open>simp add: chosen_def base_stack_def\<close>)
  next
    case ne
    show ?thesis
      by ((rule runs_into, (use ne Some facts p in \<open>simp add: exec_sims base_stack_def cmp_holds_def\<close>; fail))+,
          use ne Some in \<open>simp add: chosen_def base_stack_def cmp_holds_def\<close>)
  next
    case eq
    show ?thesis
      by ((rule runs_into, (use eq Some facts p in \<open>simp add: exec_sims base_stack_def cmp_holds_def\<close>; fail))+,
          use eq Some in \<open>simp add: chosen_def base_stack_def cmp_holds_def test_code_def add.commute\<close>)
  qed
qed

lemma length_test_code: "length (test_code b d) = (if b then 3 else 1)"
  by (simp add: test_code_def)

lemma gens_test:
  assumes "gens (h (int (length (sym A) + (if b then 1 else 0)))) (app A (test_code b 0)) C"
  shows "gens (\<lambda>g. (if b then do {
             g \<leftarrow> emit OP_Dup 1 1 g;
             (j, g) \<leftarrow> emit_addr (OP_Cmp Ne_op) 1 0 g;
             g \<leftarrow> emit OP_Pop 1 0 g;
             Some (j, g) }
           else emit_addr OP_IfNot 1 0 g) \<bind> (\<lambda>(j, g). h j g)) A C"
proof (cases b)
  case True
  have "gens (\<lambda>g. emit OP_Dup 1 1 g \<bind> (\<lambda>g. emit_addr (OP_Cmp Ne_op) 1 0 g \<bind> (\<lambda>(j, g). emit OP_Pop 1 0 g \<bind> h j))) A C"
    by (rule gens_bind [OF gens_emit], rule gens_emit_addr, rule gens_bind [OF gens_emit])
      (use assms True in \<open>simp add: test_code_def\<close>)
  moreover have "(\<lambda>g. (emit OP_Dup 1 1 g \<bind> (\<lambda>g. emit_addr (OP_Cmp Ne_op) 1 0 g \<bind>
      (\<lambda>(j, g). emit OP_Pop 1 0 g \<bind> (\<lambda>g. Some (j, g))))) \<bind> (\<lambda>(j, g). h j g))
    = (\<lambda>g. emit OP_Dup 1 1 g \<bind> (\<lambda>g. emit_addr (OP_Cmp Ne_op) 1 0 g \<bind> (\<lambda>(j, g). emit OP_Pop 1 0 g \<bind> h j)))"
    by (auto simp: fun_eq_iff split: Option.bind_split)
  ultimately show ?thesis using True by simp
next
  case False
  then show ?thesis using gens_emit_addr [of h A OP_IfNot 1 0 C] assms by (simp add: test_code_def)
qed

lemma patch_test:
  "(xs @ test_code b 0 @ ys)[length xs + (if b then 1 else 0) :=
     ((xs @ test_code b 0 @ ys) ! (length xs + (if b then 1 else 0)))\<lparr>p2 := d\<rparr>] = xs @ test_code b d @ ys"
  by (simp add: test_code_def ins_def list_update_append nth_append)

lemma case_step_runs:
  assumes "\<not> interrupted (db \<sigma>)" "execs env \<sigma> [] [w] A B1" "grows A B1"
    and t: "execs env \<sigma> [] [v] (app B1 (test_code (base \<noteq> None) 0)) B3" "sym B3 = sym B1 @ test_code (base \<noteq> None) 0 @ ct"
    and lab: "lab B3 = lab B1 @ ls"
    and B5: "B5 = \<lparr>sym = sym B1 @ test_code (base \<noteq> None) d @ ct @ [ins OP_Goto 0 end_label], lab = lab B3\<rparr>"
    and d: "d = int (length (sym B5))"
    and l: "linked (length (sym A)) B5 P L" and s: "store s = \<sigma>"
    and st: "length (base_stack base) + length st \<le> Suc (length (sym A))"
  shows "runs env P (at_pc s (int (length (sym A))) (base_stack base @ st))
    (if chosen (fl env) base w then at_pc s (L end_label) (v # st) else at_pc s d (base_stack base @ st))"
proof -
  let ?n = "length (sym B1)" and ?T = "test_code (base \<noteq> None) d"
  have B1: "length (sym A) < ?n" using assms(2) by (simp add: execs_def)
  have "grows B1 B5" unfolding grows_def using B5 lab by simp
  then have "linked (length (sym A)) B1 P L" using linked_covers [OF l grows_covers] by blast
  from execsD [OF assms(2) this s] st
  have 1: "runs env P (at_pc s (int (length (sym A))) (base_stack base @ st)) (at_pc s (int ?n) (w # base_stack base @ st))"
    by simp
  have P: "?n + i < length P \<and> P ! (?n + i) = relabel L (?T ! i)" if "i < length ?T" for i
  proof -
    have "length (sym A) \<le> ?n + i" "?n + i < length (sym B5)" "sym B5 ! (?n + i) = ?T ! i"
      using that B1 B5 by (auto simp: nth_append)
    then show ?thesis using l unfolding linked_def by metis
  qed
  have L: "\<forall>x \<ge> 0. L x = x" using l by (simp add: linked_def)
  have d0: "0 < d" using d B5 by simp
  have st': "length (base_stack base) + length st \<le> ?n" using st B1 by linarith
  note 2 = runs_test [OF P L d0 st', of env s w]
  have "runs env P (at_pc s (int ?n + int (length ?T)) st) (at_pc s (L end_label) (v # st))"
  proof -
    let ?B2 = "app B1 (test_code (base \<noteq> None) 0)"
    have n2: "int (length (sym ?B2)) = int ?n + int (length ?T)" by (simp add: length_test_code)
    have c: "covers (length (sym ?B2)) B3 B5"
      unfolding covers_def using t(2) B5 by (auto simp: nth_append length_test_code)
    have "linked (length (sym ?B2)) B3 P L"
      by (rule linked_covers [OF l c]) (use B1 in simp)
    from execsD [OF t(1) this s] st'
    have "runs env P (at_pc s (int ?n + int (length ?T)) st) (at_pc s (int (length (sym B3))) (v # st))"
      unfolding n2 by (simp add: length_test_code)
    moreover have "runs env P (at_pc s (int (length (sym B3))) (v # st)) (at_pc s (L end_label) (v # st))"
    proof (rule runs_step [OF l])
      show "length (sym A) \<le> length (sym B3)" "length (sym B3) < length (sym B5)" "length (v # st) \<le> Suc (length (sym B3))"
        using B1 t(2) B5 st' by (auto simp: length_test_code)
      have "sym B5 ! length (sym B3) = ins OP_Goto 0 end_label"
        using t(2) B5 by (simp add: nth_append length_test_code)
      then show "exec_op env (relabel L (sym B5 ! length (sym B3))) (at_pc s (int (length (sym B3))) (v # st))
          = Next (at_pc s (L end_label - 1) (v # st))"
        using assms(1) s by (simp add: exec_simps exec_goto_def)
    qed simp
    ultimately show ?thesis by (rule runs_trans)
  qed
  then show ?thesis
    using runs_trans [OF 1 2] runs_trans by (auto split: if_splits)
qed

lemma case_loop_ok:
  assumes "\<not> interrupted (db \<sigma>)" "even (length es)"
    and "\<forall>e \<in> set es. code env \<sigma> (sqliteExprCode c e) [] [expr_value c env \<sigma> e]"
  shows "\<exists>B. gens (case_loop c (base \<noteq> None) end_label es) A B \<and> grows A B
    \<and> alternatives env \<sigma> base end_label (picked c env \<sigma> base es) A B"
  using assms(2,3)
proof (induction es arbitrary: A rule: induct_list012)
  case (3 w t es)
  let ?b = "base \<noteq> None" and ?w = "expr_value c env \<sigma> w" and ?t = "expr_value c env \<sigma> t"
  have cw: "code env \<sigma> (sqliteExprCode c w) [] [?w]" and ct: "code env \<sigma> (sqliteExprCode c t) [] [?t]"
    using "3.prems" by auto
  obtain B1 where B1: "gens (sqliteExprCode c w) A B1" "grows A B1" "execs env \<sigma> [] [?w] A B1"
    using cw by (rule codeE)
  let ?B2 = "app B1 (test_code ?b 0)"
  obtain B3 where B3: "gens (sqliteExprCode c t) ?B2 B3" "grows ?B2 B3" "execs env \<sigma> [] [?t] ?B2 B3"
    using ct by (rule codeE)
  from B3(2) obtain qs ls where qs: "sym B3 = sym B1 @ test_code ?b 0 @ qs" "lab B3 = lab B1 @ ls"
    by (auto simp: grows_def)
  let ?B4 = "app B3 [ins OP_Goto 0 end_label]"
  let ?d = "int (length (sym ?B4))" and ?j = "length (sym B1) + (if ?b then 1 else 0)"
  define B5 where "B5 = \<lparr>sym = sym B1 @ test_code ?b ?d @ qs @ [ins OP_Goto 0 end_label], lab = lab B3\<rparr>"
  have d: "?d = int (length (sym B5))" by (simp add: B5_def qs length_test_code)
  have A5: "grows A B5" using B1(2) qs(2) by (auto simp: grows_def B5_def)
  have s4: "sym ?B4 = sym B1 @ test_code ?b 0 @ qs @ [ins OP_Goto 0 end_label]" by (simp add: qs)
  have "?j < length (sym ?B4)" by (simp add: s4 length_test_code)
  then have "gens (change_p2 (int ?j) ?d) ?B4 (?B4\<lparr>sym := (sym ?B4)[?j := (sym ?B4 ! ?j)\<lparr>p2 := ?d\<rparr>]\<rparr>)"
    by (rule gens_change_p2) simp
  moreover have "(sym ?B4)[?j := (sym ?B4 ! ?j)\<lparr>p2 := ?d\<rparr>] = sym B5"
    unfolding s4 patch_test by (simp add: B5_def qs)
  then have "?B4\<lparr>sym := (sym ?B4)[?j := (sym ?B4 ! ?j)\<lparr>p2 := ?d\<rparr>]\<rparr> = B5"
    by (intro asm.equality) (simp_all add: B5_def)
  ultimately have p: "gens (change_p2 (int ?j) ?d) ?B4 B5" by simp
  obtain B6 where B6: "gens (case_loop c ?b end_label es) B5 B6" "grows B5 B6"
    "alternatives env \<sigma> base end_label (picked c env \<sigma> base es) B5 B6"
    using "3.IH"(1) [of B5] "3.prems" by auto
  have "gens (\<lambda>g. sqliteExprCode c t g \<bind> (\<lambda>g. emit OP_Goto 0 end_label g \<bind>
      (\<lambda>g. current_addr g \<bind> (\<lambda>a. change_p2 (int ?j) a g \<bind> case_loop c ?b end_label es)))) ?B2 B6"
    by (rule gens_bind [OF B3(1)], rule gens_bind [OF gens_emit], rule gens_current, rule gens_bind [OF p B6(1)])
  from gens_bind [OF B1(1) gens_test [where h = "\<lambda>j g. sqliteExprCode c t g \<bind> (\<lambda>g. emit OP_Goto 0 end_label g \<bind>
      (\<lambda>g. current_addr g \<bind> (\<lambda>a. change_p2 j a g \<bind> case_loop c ?b end_label es)))", OF this]]
  have "gens (case_loop c ?b end_label (w # t # es)) A B6" by (simp add: gens_def)
  moreover have "alternatives env \<sigma> base end_label (picked c env \<sigma> base (w # t # es)) A B6"
    unfolding alternatives_def
  proof (intro allI impI)
    fix P L and s :: "'a vm" and st :: "'a mem list"
    assume l: "linked (length (sym A)) B6 P L" and s: "store s = \<sigma>"
      and st: "length (base_stack base) + length st \<le> Suc (length (sym A))"
    note n = grows_length(1) [OF A5]
    have l5: "linked (length (sym A)) B5 P L" using linked_covers [OF l grows_covers [OF B6(2)]] by blast
    note run = case_step_runs [OF assms(1) B1(3,2) B3(3) qs B5_def d l5 s st]
    have l6: "linked (length (sym B5)) B6 P L" using linked_mono [OF l n] .
    have "length (base_stack base) + length st \<le> Suc (length (sym B5))" using st n by simp
    note rest = B6(3) [unfolded alternatives_def, rule_format, OF l6 s this, folded d]
    show "runs env P (at_pc s (int (length (sym A))) (base_stack base @ st))
        (case picked c env \<sigma> base (w # t # es) of None \<Rightarrow> at_pc s (int (length (sym B6))) (base_stack base @ st)
         | Some v \<Rightarrow> at_pc s (L end_label) (v # st))"
      using run runs_trans [OF run] rest by (cases "chosen (fl env) base ?w") auto
  qed
  ultimately show ?case using grows_trans [OF A5 B6(2)] by blast
qed (auto simp: gens_def alternatives_def)

lemma code_case_ok:
  assumes "\<not> interrupted (db \<sigma>)" "even (length es)"
    and "\<forall>e \<in> set es. code env \<sigma> (sqliteExprCode c e) [] [expr_value c env \<sigma> e]"
    and fb: "code env \<sigma> fb [] (base_stack base)" and fe: "code env \<sigma> fe [] [d]"
  shows "code env \<sigma> (\<lambda>g. make_label g \<bind> (\<lambda>(end_label, g). fb g \<bind> (\<lambda>g. case_loop c (base \<noteq> None) end_label es g \<bind>
      (\<lambda>g. (if base \<noteq> None then emit OP_Pop 1 0 g else Some g) \<bind> (\<lambda>g. fe g \<bind> resolve_label end_label))))) []
      [case_value c env \<sigma> base es d]"
  unfolding code_def
proof
  fix A :: "opcode asm"
  let ?k = "length (lab A)" and ?pop = "\<lambda>g. if base \<noteq> None then emit OP_Pop 1 0 g else Some g"
  let ?l = "-1 - int ?k" and ?A1 = "A\<lparr>lab := lab A @ [None]\<rparr>" and ?v = "picked c env \<sigma> base es"
  have pop: "code env \<sigma> ?pop (base_stack base) []"
    by (cases base) (simp_all add: base_stack_def code_skip code_emit_stack)
  obtain A2 where A2: "gens fb ?A1 A2" "grows ?A1 A2" "execs env \<sigma> [] (base_stack base) ?A1 A2" using fb by (rule codeE)
  obtain A3 where A3: "gens (case_loop c (base \<noteq> None) ?l es) A2 A3" "grows A2 A3" "alternatives env \<sigma> base ?l ?v A2 A3"
    using case_loop_ok [OF assms(1-3), of base ?l A2] by blast
  obtain A4 where A4: "gens ?pop A3 A4" "grows A3 A4" "execs env \<sigma> (base_stack base) [] A3 A4" using pop by (rule codeE)
  obtain A5 where A5: "gens fe A4 A5" "grows A4 A5" "execs env \<sigma> [] [d] A4 A5" using fe by (rule codeE)
  let ?B = "A5\<lparr>lab := (lab A5)[?k := Some (length (sym A5))]\<rparr>"
  have g15: "grows ?A1 A5" using grows_trans [OF A2(2) grows_trans [OF A3(2) grows_trans [OF A4(2) A5(2)]]] .
  then obtain qs ls where qs: "sym A5 = sym A @ qs" "lab A5 = lab A @ None # ls" by (auto simp: grows_def)
  have ne: "length (sym A4) < length (sym A5)" using A5(3) by (simp add: execs_def)
  have r: "gens (resolve_label ?l) A5 ?B" by (rule gens_resolve) (use qs ne in auto)
  have gens: "gens (\<lambda>g. make_label g \<bind> (\<lambda>(end_label, g). fb g \<bind> (\<lambda>g. case_loop c (base \<noteq> None) end_label es g \<bind>
      (\<lambda>g. ?pop g \<bind> (\<lambda>g. fe g \<bind> resolve_label end_label))))) A ?B"
    by (rule gens_label, rule gens_bind [OF A2(1)], rule gens_bind [OF A3(1)], rule gens_bind [OF A4(1)],
        rule gens_bind [OF A5(1) r])
  have grows: "grows A ?B" unfolding grows_def using qs by (simp add: list_update_append)
  have sizes: "length (sym A) + length (base_stack base) \<le> length (sym A2)" "length (sym A2) \<le> length (sym A3)"
    "length (sym A3) \<le> length (sym A4)"
    using A2(3) grows_length(1) [OF A3(2)] grows_length(1) [OF A4(2)] by (auto simp: execs_def)
  have "execs env \<sigma> [] [case_value c env \<sigma> base es d] A ?B"
    unfolding execs_def
  proof (intro conjI allI impI)
    show "length [case_value c env \<sigma> base es d] + length (sym A) \<le> length [] + length (sym ?B)"
      using ne sizes by simp
    fix P L and s :: "'a vm" and st :: "'a mem list"
    assume l: "linked (length (sym A)) ?B P L" and s: "store s = \<sigma>" and "length [] + length st \<le> Suc (length (sym A))"
    then have st: "length st \<le> Suc (length (sym A))" by simp
    have L: "L ?l = int (length (sym A5))" using l qs unfolding linked_def by simp
    have "lab A5 ! ?k = None" using qs by simp
    then have "covers (length (sym A)) A5 ?B" by (auto simp: covers_def) (metis nth_list_update_neq)
    then have l5: "linked (length (sym A)) A5 P L" using linked_covers [OF l] by blast
    have l4: "linked (length (sym A)) A4 P L" using linked_covers [OF l5 grows_covers [OF A5(2)]] by blast
    have l3: "linked (length (sym A)) A3 P L" using linked_covers [OF l4 grows_covers [OF A4(2)]] by blast
    have l2: "linked (length (sym ?A1)) A2 P L" using linked_covers [OF l3 grows_covers [OF A3(2)]] by simp
    have r2: "runs env P (at_pc s (int (length (sym A))) st) (at_pc s (int (length (sym A2))) (base_stack base @ st))"
      using execsD [OF A2(3) l2 s, of st] st by simp
    have l3': "linked (length (sym A2)) A3 P L" by (rule linked_mono [OF l3]) (use sizes in simp)
    have r3: "runs env P (at_pc s (int (length (sym A2))) (base_stack base @ st))
        (case ?v of None \<Rightarrow> at_pc s (int (length (sym A3))) (base_stack base @ st) | Some v \<Rightarrow> at_pc s (L ?l) (v # st))"
      by (rule A3(3) [unfolded alternatives_def, rule_format, OF l3' s]) (use st sizes in simp)
    have "runs env P (at_pc s (int (length (sym A3))) (base_stack base @ st)) (at_pc s (int (length (sym A5))) (d # st))"
    proof -
      have "linked (length (sym A3)) A4 P L" by (rule linked_mono [OF l4]) (use sizes in simp)
      from execsD [OF A4(3) this s, of st] have "runs env P (at_pc s (int (length (sym A3))) (base_stack base @ st)) (at_pc s (int (length (sym A4))) st)"
        using st sizes by simp
      moreover have "linked (length (sym A4)) A5 P L" by (rule linked_mono [OF l5]) (use sizes in simp)
      from execsD [OF A5(3) this s, of st] have "runs env P (at_pc s (int (length (sym A4))) st) (at_pc s (int (length (sym A5))) (d # st))"
        using st sizes by simp
      ultimately show ?thesis by (rule runs_trans)
    qed
    then show "runs env P (at_pc s (int (length (sym A))) ([] @ st)) (at_pc s (int (length (sym ?B))) ([case_value c env \<sigma> base es d] @ st))"
      using runs_trans [OF runs_trans [OF r2 r3]] runs_trans [OF r2 r3] L unfolding case_value_picked by (cases ?v) auto
  qed
  with gens grows show "\<exists>B. gens (\<lambda>g. make_label g \<bind> (\<lambda>(end_label, g). fb g \<bind> (\<lambda>g. case_loop c (base \<noteq> None) end_label es g \<bind>
      (\<lambda>g. ?pop g \<bind> (\<lambda>g. fe g \<bind> resolve_label end_label))))) A B
      \<and> grows A B \<and> execs env \<sigma> [] [case_value c env \<sigma> base es d] A B" by blast
qed

subsection \<open>The value of an expression\<close>

lemma list_ok_set: "list_ok c n es \<longleftrightarrow> (\<forall>e \<in> set es. expr_ok c n e)"
  by (induction es) auto

lemma expr_ok_type: "expr_ok c n e \<Longrightarrow> sqliteExprType e \<noteq> None"
  by (cases e) (simp add: node_ok_def)

lemma size_expr_list [termination_simp]: "e \<in> set es \<Longrightarrow> size e < Suc (size_list size es)"
  by (simp add: size_list_estimation' less_Suc_eq_le)

lemma node_subterms:
  assumes "expr_ok c n (Expr t dt l r xs tok tab col agg sel)"
    and "\<And>e. size e < size (Expr t dt l r xs tok tab col agg sel) \<Longrightarrow> expr_ok c n e \<Longrightarrow> Q e"
  shows "\<And>e. l = Some e \<Longrightarrow> Q e" "\<And>e. r = Some e \<Longrightarrow> Q e" "\<And>es e. xs = Some es \<Longrightarrow> e \<in> set es \<Longrightarrow> Q e"
proof -
  show "Q e" if "l = Some e" for e by (rule assms(2)) (use assms(1) that in auto)
  show "Q e" if "r = Some e" for e by (rule assms(2)) (use assms(1) that in auto)
  show "Q e" if "xs = Some es" "e \<in> set es" for es e
    by (rule assms(2)) (use assms(1) that size_expr_list [of e es] in \<open>auto simp: list_ok_set\<close>)
qed

declare sqliteExprType.simps [simp del]

lemma opt_code_fun [simp]: "opt_code c (Some e) = sqliteExprCode c e" "opt_code c None = Some"
  by (rule ext; simp)+

lemma node_ok_token:
  "expr_ok c n e \<Longrightarrow> op e \<in> {TK_FLOAT, TK_INTEGER} \<Longrightarrow> token e \<noteq> None"
  by (cases e) (auto simp: node_ok_def)

text \<open>The kinds of nodes, each with the values \<open>x\<close> and \<open>y\<close> of its operands.\<close>

lemma code_binary:
  assumes "code env \<sigma> (opt_code c l) [] [x]" "code env \<sigma> (opt_code c r) [] [y]"
    and "t \<in> {TK_PLUS, TK_MINUS, TK_STAR, TK_SLASH, TK_REM, TK_BITAND, TK_BITOR, TK_AND, TK_OR, TK_CONCAT}"
  shows "code env \<sigma> (sqliteExprCode c (Expr t dt l r xs tok tab col agg sel)) []
    [node_value c env \<sigma> (Expr t dt l r xs tok tab col agg sel) x y vs alt]"
proof -
  let ?oper = "if t = TK_CONCAT then OP_Concat else code_op t" and ?p = "if t = TK_CONCAT then 2 else 0"
  have "sqliteExprCode c (Expr t dt l r xs tok tab col agg sel)
      = (\<lambda>g. opt_code c l g \<bind> (\<lambda>g. opt_code c r g \<bind> emit ?oper ?p 0))"
    using assms(3) by (auto simp: fun_eq_iff compare_tk_def)
  moreover have "code env \<sigma> (emit ?oper ?p 0) [y, x]
      [node_value c env \<sigma> (Expr t dt l r xs tok tab col agg sel) x y vs alt]"
    using assms(3) by (auto simp: node_value_def code_op_def code_emit_arith)
  ultimately show ?thesis using code_two [OF assms(1,2)] by simp
qed

lemma code_shift:
  assumes "code env \<sigma> (opt_code c l) [] [x]" "code env \<sigma> (opt_code c r) [] [y]" "t \<in> {TK_LSHIFT, TK_RSHIFT}"
  shows "code env \<sigma> (sqliteExprCode c (Expr t dt l r xs tok tab col agg sel)) []
    [node_value c env \<sigma> (Expr t dt l r xs tok tab col agg sel) x y vs alt]"
proof -
  have "sqliteExprCode c (Expr t dt l r xs tok tab col agg sel)
      = (\<lambda>g. opt_code c r g \<bind> (\<lambda>g. opt_code c l g \<bind> emit (code_op t) 0 0))"
    using assms(3) by (auto simp: fun_eq_iff)
  moreover have "code env \<sigma> (emit (code_op t) 0 0) [x, y]
      [node_value c env \<sigma> (Expr t dt l r xs tok tab col agg sel) x y vs alt]"
    using assms(3) by (auto simp: node_value_def code_op_def code_emit_arith)
  ultimately show ?thesis using code_two [OF assms(2,1)] by simp
qed

lemma code_comparison:
  assumes "code env \<sigma> (opt_code c l) [] [x]" "code env \<sigma> (opt_code c r) [] [y]" "compare_tk t"
    and "sqliteExprType (Expr t dt l r xs tok tab col agg sel) \<noteq> None"
  shows "code env \<sigma> (sqliteExprCode c (Expr t dt l r xs tok tab col agg sel)) []
    [node_value c env \<sigma> (Expr t dt l r xs tok tab col agg sel) x y vs alt]"
proof -
  let ?e = "Expr t dt l r xs tok tab col agg sel"
  have op: "code_op t = OP_Cmp (cmp_of t)"
    using assms(3) by (auto simp: compare_tk_def code_op_def cmp_of_def)
  have "sqliteExprCode c ?e g = compare_op c ?e (code_op t) \<bind>
      (\<lambda>oper. opt_code c l g \<bind> (\<lambda>g. opt_code c r g \<bind> emit oper 0 0))" for g
    using assms(3) by (cases t) (simp_all add: compare_tk_def)
  then have "sqliteExprCode c ?e = (\<lambda>g. opt_code c l g \<bind> (\<lambda>g. opt_code c r g \<bind>
      emit (if text_compare c ?e then OP_StrCmp (cmp_of t) else OP_Cmp (cmp_of t)) 0 0))"
    unfolding op compare_op_eq [OF assms(4)] by (auto simp: fun_eq_iff)
  moreover have "node_value c env \<sigma> ?e x y vs alt
      = mem_bool (map_option (cmp_holds (cmp_of t)) (compare_mem (fl env) (text_compare c ?e) x y))"
    using assms(3) by (auto simp: compare_tk_def node_value_def)
  ultimately show ?thesis using code_compare [OF assms(1,2)] by simp
qed

lemma code_unary:
  assumes "code env \<sigma> (opt_code c l) [] [x]" "quiet env \<sigma>"
    and "t \<in> {TK_NOT, TK_BITNOT, TK_ISNULL, TK_NOTNULL, TK_UPLUS, TK_AS, TK_IN}"
  shows "code env \<sigma> (sqliteExprCode c (Expr t dt l r xs tok tab col agg sel)) []
    [node_value c env \<sigma> (Expr t dt l r xs tok tab col agg sel) x y vs alt]"
proof -
  let ?e = "Expr t dt l r xs tok tab col agg sel"
  have q: "\<not> interrupted (db \<sigma>)" using assms(2) by (simp add: quiet_def)
  note int1 = code_emit_push(2) [of env \<sigma> 1, simplified]
  consider "t \<in> {TK_NOT, TK_BITNOT}" | "t \<in> {TK_ISNULL, TK_NOTNULL}" | "t \<in> {TK_UPLUS, TK_AS}" | "t = TK_IN"
    using assms(3) by auto
  then show ?thesis
  proof cases
    case 1
    then have "sqliteExprCode c ?e = (\<lambda>g. opt_code c l g \<bind> emit (code_op t) 0 0)"
      by (auto simp: fun_eq_iff)
    moreover have "code env \<sigma> (emit (code_op t) 0 0) [x] [node_value c env \<sigma> ?e x y vs alt]"
      using 1 by (auto simp: node_value_def code_op_def code_emit_arith)
    ultimately show ?thesis using code_bind [OF assms(1)] by simp
  next
    case 2
    then have "sqliteExprCode c ?e = (\<lambda>g. emit OP_Integer 1 0 g \<bind> (\<lambda>g. opt_code c l g \<bind>
        (\<lambda>g. current_addr g \<bind> (\<lambda>a. emit (code_op t) 1 (a + 2) g \<bind> emit OP_AddImm (-1) 0))))"
      by (auto simp: fun_eq_iff)
    moreover have "code env \<sigma> (\<lambda>g. current_addr g \<bind> (\<lambda>a. emit (code_op t) 1 (a + 2) g \<bind> emit OP_AddImm (-1) 0))
        [x, mem_int 1] [node_value c env \<sigma> ?e x y vs alt]"
      using 2 code_nulltest [of "code_op t" _ x env \<sigma>] by (auto simp: node_value_def code_op_def)
    ultimately show ?thesis using code_bind [OF int1 code_bind [OF code_push [OF assms(1)]]] by simp
  next
    case 3
    then have "sqliteExprCode c ?e = opt_code c l" "node_value c env \<sigma> ?e x y vs alt = x"
      by (auto simp: fun_eq_iff node_value_def)
    then show ?thesis using assms(1) by simp
  next
    case 4
    then have "sqliteExprCode c ?e = (\<lambda>g. emit OP_Integer 1 0 g \<bind> (\<lambda>g. opt_code c l g \<bind> code_in (sel \<noteq> None) tab))"
      by (auto simp: fun_eq_iff)
    moreover have "code env \<sigma> (code_in (sel \<noteq> None) tab) [x, mem_int 1] [node_value c env \<sigma> ?e x y vs alt]"
      using 4 code_in_ok [OF q] by (simp add: node_value_def)
    ultimately show ?thesis using code_bind [OF int1 code_bind [OF code_push [OF assms(1)]]] by simp
  qed
qed

lemma node_okD:
  assumes "node_ok c n e"
  shows "op e \<in> {TK_STRING, TK_FLOAT, TK_INTEGER} \<Longrightarrow> token e \<noteq> None"
    "op e \<in> {TK_GLOB, TK_LIKE, TK_FUNCTION} \<Longrightarrow> the_function c e \<noteq> None"
    "op e = TK_SELECT \<Longrightarrow> 0 \<le> iColumn e \<and> iColumn e < int n"
    "op e = TK_AGG_FUNCTION \<Longrightarrow> 0 \<le> iAgg e" "op e = TK_COLUMN \<Longrightarrow> useAgg c \<Longrightarrow> 0 \<le> iAgg e"
  using assms unfolding node_ok_def by blast+

lemma code_leaf:
  assumes "node_ok c (length (aMem \<sigma>)) (Expr t dt l r xs tok tab col agg sel)"
    and "t \<in> {TK_COLUMN, TK_STRING, TK_FLOAT, TK_INTEGER, TK_NULL, TK_VARIABLE, TK_AGG_FUNCTION, TK_SELECT}"
  shows "code env \<sigma> (sqliteExprCode c (Expr t dt l r xs tok tab col agg sel)) []
    [node_value c env \<sigma> (Expr t dt l r xs tok tab col agg sel) x y vs alt]"
proof -
  let ?e = "Expr t dt l r xs tok tab col agg sel"
  consider "t = TK_COLUMN" | "t \<in> {TK_STRING, TK_FLOAT, TK_INTEGER}" | "t = TK_NULL" | "t = TK_VARIABLE"
    | "t = TK_AGG_FUNCTION" | "t = TK_SELECT"
    using assms(2) by auto
  then show ?thesis
  proof cases
    case 1
    then have "sqliteExprCode c ?e = code_column c tab col agg" by (simp add: fun_eq_iff)
    moreover have "node_value c env \<sigma> ?e x y vs alt = (if useAgg c then agg_get env agg
        else if 0 \<le> col then column env tab col else row_number env tab)"
      using 1 by (simp add: node_value_def)
    moreover have "0 \<le> agg" if "useAgg c" using node_okD(5) [OF assms(1)] 1 that by simp
    then have "code env \<sigma> (code_column c tab col agg) [] [if useAgg c then agg_get env agg
        else if 0 \<le> col then column env tab col else row_number env tab]" by (rule code_column_ok)
    ultimately show ?thesis by simp
  next
    case 2
    then obtain z where z: "tok = Some z" using node_okD(1) [OF assms(1)] by auto
    then have "sqliteExprCode c ?e = code_literal t (Some z)" using 2 by (auto simp: fun_eq_iff)
    then show ?thesis using 2 z code_literal_ok [of env \<sigma> t z] by (auto simp: node_value_def)
  next
    case 3
    then have "sqliteExprCode c ?e = emit OP_String 0 0" by (simp add: fun_eq_iff)
    then show ?thesis using 3 by (simp add: node_value_def code_emit_push)
  next
    case 4
    then have "sqliteExprCode c ?e = emit OP_Variable tab 0" by (simp add: fun_eq_iff)
    then show ?thesis using 4 by (simp add: node_value_def code_emit_push)
  next
    case 5
    then have "sqliteExprCode c ?e = emit OP_AggGet 0 agg" by (simp add: fun_eq_iff)
    then show ?thesis using 5 node_okD(4) [OF assms(1)] by (simp add: node_value_def code_emit_push)
  next
    case 6
    then have "sqliteExprCode c ?e = emit OP_MemLoad col 0" by (simp add: fun_eq_iff)
    then show ?thesis using 6 node_okD(3) [OF assms(1)] by (simp add: node_value_def code_emit_push)
  qed
qed

lemma code_minus:
  assumes "l = Some a" "op a \<in> {TK_FLOAT, TK_INTEGER} \<Longrightarrow> token a \<noteq> None"
    and "code env \<sigma> (sqliteExprCode c a) [] [x]" "t = TK_UMINUS"
  shows "code env \<sigma> (sqliteExprCode c (Expr t dt l r xs tok tab col agg sel)) []
    [node_value c env \<sigma> (Expr t dt l r xs tok tab col agg sel) x y vs alt]"
proof (cases "op a = TK_FLOAT \<or> op a = TK_INTEGER")
  case True
  then obtain z where "token a = Some z" using assms(2) by auto
  moreover have "sqliteExprCode c (Expr t dt l r xs tok tab col agg sel) = code_negated (op a) (token a)"
    using True assms(1,4) by (auto simp: fun_eq_iff)
  ultimately show ?thesis
    using True assms(1,4) code_negated_ok [of env \<sigma> "op a" z] by (auto simp: node_value_def Let_def)
next
  case False
  then have "sqliteExprCode c (Expr t dt l r xs tok tab col agg sel) = (\<lambda>g. sqliteExprCode c a g \<bind> emit OP_Negative 0 0)"
    using assms(1,4) by (auto simp: fun_eq_iff code_op_def)
  then show ?thesis
    using False assms(1,4) code_bind [OF assms(3) code_emit_arith(5)] by (simp add: node_value_def Let_def)
qed

lemma code_calls:
  assumes "quiet env \<sigma>" "the_function c (Expr t dt l r xs tok tab col agg sel) \<noteq> None" "t \<in> {TK_GLOB, TK_LIKE, TK_FUNCTION}"
    and "\<And>es. xs = Some es \<Longrightarrow> \<forall>e \<in> set es. sqliteExprType e \<noteq> None \<and> code env \<sigma> (sqliteExprCode c e) [] [expr_value c env \<sigma> e]"
  shows "code env \<sigma> (sqliteExprCode c (Expr t dt l r xs tok tab col agg sel)) []
    [node_value c env \<sigma> (Expr t dt l r xs tok tab col agg sel) x y
       (\<lambda>types. case xs of None \<Rightarrow> [] | Some es \<Rightarrow> list_value c env \<sigma> types es) alt]"
proof -
  let ?e = "Expr t dt l r xs tok tab col agg sel"
  let ?args = "\<lambda>types g. case xs of None \<Rightarrow> Some g | Some es \<Rightarrow> sqliteExprCodeExprList c types es g"
  let ?vs = "\<lambda>types. case xs of None \<Rightarrow> [] | Some es \<Rightarrow> list_value c env \<sigma> types es"
  obtain d where d: "the_function c ?e = Some d" using assms(2) by auto
  have args: "code env \<sigma> (?args types) [] (rev (?vs types))" for types
    using assms(4) code_list [of _ env \<sigma> c types "[]"] by (cases xs) (simp_all add: code_skip)
  have len: "length (?vs types) = (let n = (case pList ?e of None \<Rightarrow> 0 | Some es \<Rightarrow> length es) in if types then n * 2 else n)" for types
    by (cases xs) (simp_all add: length_list_value)
  have "sqliteExprCode c ?e = code_function c ?e ?args" using assms(3) by (auto simp: fun_eq_iff)
  moreover have "node_value c env \<sigma> ?e x y ?vs alt = apply_function env d (?vs (includeTypes d))"
    using assms(3) d by (auto simp: node_value_def Let_def)
  ultimately show ?thesis using code_function_ok [OF assms(1) d args len] by simp
qed

lemma code_between_node:
  assumes "code env \<sigma> (opt_code c l) [] [x]" "xs = Some es" "2 \<le> length es" "t = TK_BETWEEN"
    and "\<forall>e \<in> set es. code env \<sigma> (sqliteExprCode c e) [] [expr_value c env \<sigma> e]"
  shows "code env \<sigma> (sqliteExprCode c (Expr t dt l r xs tok tab col agg sel)) []
    [node_value c env \<sigma> (Expr t dt l r xs tok tab col agg sel) x y
       (\<lambda>types. case xs of None \<Rightarrow> [] | Some es \<Rightarrow> list_value c env \<sigma> types es) alt]"
proof -
  obtain lo hi rest where es: "es = lo # hi # rest" using assms(3) by (metis Suc_le_length_iff numeral_2_eq_2)
  then have "code env \<sigma> (sqliteExprCode c lo) [] [expr_value c env \<sigma> lo]" "code env \<sigma> (sqliteExprCode c hi) [] [expr_value c env \<sigma> hi]"
    using assms(5) by auto
  note between = code_between [OF assms(1) this]
  have "sqliteExprCode c (Expr t dt l r xs tok tab col agg sel) = (\<lambda>g. opt_code c l g \<bind> (\<lambda>g. emit OP_Dup 0 0 g \<bind>
      (\<lambda>g. sqliteExprCode c lo g \<bind> (\<lambda>g. emit (OP_Cmp Ge_op) 0 0 g \<bind> (\<lambda>g. emit OP_Pull 1 0 g \<bind>
      (\<lambda>g. sqliteExprCode c hi g \<bind> (\<lambda>g. emit (OP_Cmp Le_op) 0 0 g \<bind> emit OP_And 0 0)))))))"
    using assms(2,4) es by (simp add: fun_eq_iff)
  with between show ?thesis
    using assms(2,4) es by (simp add: node_value_def)
qed

lemma code_case_node:
  assumes "quiet env \<sigma>" "xs = Some es" "es \<noteq> []" "length es mod 2 = 0" "t = TK_CASE"
    and "l \<noteq> None \<Longrightarrow> code env \<sigma> (opt_code c l) [] [x]" "r \<noteq> None \<Longrightarrow> code env \<sigma> (opt_code c r) [] [y]"
    and es: "\<forall>e \<in> set es. code env \<sigma> (sqliteExprCode c e) [] [expr_value c env \<sigma> e]"
  shows "code env \<sigma> (sqliteExprCode c (Expr t dt l r xs tok tab col agg sel)) []
    [node_value c env \<sigma> (Expr t dt l r xs tok tab col agg sel) x y vs
       (\<lambda>base d. case xs of None \<Rightarrow> d | Some es \<Rightarrow> case_value c env \<sigma> base es d)]"
proof -
  let ?base = "if l = None then None else Some x" and ?d = "if r = None then mem_null else y"
  let ?fe = "\<lambda>g. if r \<noteq> None then opt_code c r g else emit OP_String 0 0 g"
  have q: "\<not> interrupted (db \<sigma>)" using assms(1) by (simp add: quiet_def)
  have even: "even (length es)" using assms(4) by presburger
  have fb: "code env \<sigma> (opt_code c l) [] (base_stack ?base)"
    using assms(6) by (cases l) (simp_all add: base_stack_def code_skip)
  have fe: "code env \<sigma> ?fe [] [?d]" using assms(7) by (cases r) (simp_all add: code_emit_push)
  have "sqliteExprCode c (Expr t dt l r xs tok tab col agg sel) = (\<lambda>g. make_label g \<bind> (\<lambda>(end_label, g).
      opt_code c l g \<bind> (\<lambda>g. case_loop c (?base \<noteq> None) end_label es g \<bind>
      (\<lambda>g. (if ?base \<noteq> None then emit OP_Pop 1 0 g else Some g) \<bind> (\<lambda>g. ?fe g \<bind> resolve_label end_label)))))"
    using assms(2-5) by (cases l) (simp_all add: fun_eq_iff)
  moreover have "node_value c env \<sigma> (Expr t dt l r xs tok tab col agg sel) x y vs
      (\<lambda>base d. case xs of None \<Rightarrow> d | Some es \<Rightarrow> case_value c env \<sigma> base es d) = case_value c env \<sigma> ?base es ?d"
    using assms(2-5) by (simp add: node_value_def)
  ultimately show ?thesis using code_case_ok [OF q even es fb fe] by (simp only:)
qed

lemma code_expr:
  assumes "quiet env \<sigma>"
  shows "expr_ok c (length (aMem \<sigma>)) e \<Longrightarrow> code env \<sigma> (sqliteExprCode c e) [] [expr_value c env \<sigma> e]"
proof (induction e rule: measure_induct_rule [of size])
  case (less e)
  obtain t dt l r xs tok tab col agg sel where e: "e = Expr t dt l r xs tok tab col agg sel" by (cases e)
  let ?Q = "\<lambda>e. sqliteExprType e \<noteq> None \<and> (op e \<in> {TK_FLOAT, TK_INTEGER} \<longrightarrow> token e \<noteq> None)
    \<and> code env \<sigma> (sqliteExprCode c e) [] [expr_value c env \<sigma> e]"
  have Q: "?Q e'" if "size e' < size (Expr t dt l r xs tok tab col agg sel)" "expr_ok c (length (aMem \<sigma>)) e'" for e'
    using less.IH [of e'] that e expr_ok_type [OF that(2)] node_ok_token [OF that(2)] by blast
  have sub: "\<And>a. l = Some a \<Longrightarrow> ?Q a" "\<And>a. r = Some a \<Longrightarrow> ?Q a" "\<And>es a. xs = Some es \<Longrightarrow> a \<in> set es \<Longrightarrow> ?Q a"
    using node_subterms [OF less.prems [unfolded e], of ?Q] Q by blast+
  have ok: "node_ok c (length (aMem \<sigma>)) (Expr t dt l r xs tok tab col agg sel)" using less.prems e by simp
  have l: "code env \<sigma> (opt_code c l) [] [opt_value c env \<sigma> l]" if "l \<noteq> None"
    using sub(1) that by auto
  have r: "code env \<sigma> (opt_code c r) [] [opt_value c env \<sigma> r]" if "r \<noteq> None"
    using sub(2) that by auto
  let ?v = "node_value c env \<sigma> (Expr t dt l r xs tok tab col agg sel) (opt_value c env \<sigma> l) (opt_value c env \<sigma> r)
    (\<lambda>types. case xs of None \<Rightarrow> [] | Some es \<Rightarrow> list_value c env \<sigma> types es)
    (\<lambda>base d. case xs of None \<Rightarrow> d | Some es \<Rightarrow> case_value c env \<sigma> base es d)"
  consider
      "t \<in> {TK_PLUS, TK_MINUS, TK_STAR, TK_SLASH, TK_REM, TK_BITAND, TK_BITOR, TK_AND, TK_OR, TK_CONCAT}"
    | "t \<in> {TK_LSHIFT, TK_RSHIFT}" | "compare_tk t"
    | "t \<in> {TK_NOT, TK_BITNOT, TK_ISNULL, TK_NOTNULL, TK_UPLUS, TK_AS, TK_IN}"
    | "t \<in> {TK_COLUMN, TK_STRING, TK_FLOAT, TK_INTEGER, TK_NULL, TK_VARIABLE, TK_AGG_FUNCTION, TK_SELECT}"
    | "t = TK_UMINUS" | "t \<in> {TK_GLOB, TK_LIKE, TK_FUNCTION}" | "t = TK_BETWEEN" | "t = TK_CASE"
    using ok by (cases t) (auto simp: node_ok_def compare_tk_def)
  then show ?case
    unfolding e expr_value.simps(1)
  proof cases
    case 1
    moreover from 1 ok have "l \<noteq> None" "r \<noteq> None" by (auto simp: node_ok_def)
    note code_binary [OF l [OF this(1)] r [OF this(2)]]
    ultimately show "code env \<sigma> (sqliteExprCode c (Expr t dt l r xs tok tab col agg sel)) [] [?v]" by blast
  next
    case 2
    moreover from 2 ok have "l \<noteq> None" "r \<noteq> None" by (auto simp: node_ok_def)
    note code_shift [OF l [OF this(1)] r [OF this(2)]]
    ultimately show "code env \<sigma> (sqliteExprCode c (Expr t dt l r xs tok tab col agg sel)) [] [?v]" by blast
  next
    case 3
    moreover from 3 ok have "l \<noteq> None" "r \<noteq> None" by (auto simp: node_ok_def compare_tk_def)
    note code_comparison [OF l [OF this(1)] r [OF this(2)]]
    ultimately show "code env \<sigma> (sqliteExprCode c (Expr t dt l r xs tok tab col agg sel)) [] [?v]"
      using expr_ok_type [OF less.prems] unfolding e by blast
  next
    case 4
    moreover from 4 ok have "l \<noteq> None" by (auto simp: node_ok_def)
    note code_unary [OF l [OF this] assms]
    ultimately show "code env \<sigma> (sqliteExprCode c (Expr t dt l r xs tok tab col agg sel)) [] [?v]" by blast
  next
    case 5
    then show "code env \<sigma> (sqliteExprCode c (Expr t dt l r xs tok tab col agg sel)) [] [?v]"
      by (rule code_leaf [OF ok])
  next
    case 6
    with ok obtain a where a: "l = Some a" by (auto simp: node_ok_def)
    note minus = code_minus [OF a _ _ 6] and s = sub(1) [OF a]
    show "code env \<sigma> (sqliteExprCode c (Expr t dt l r xs tok tab col agg sel)) [] [?v]"
      by (rule minus) (use s a in auto)
  next
    case 7
    moreover from 7 ok have "the_function c (Expr t dt l r xs tok tab col agg sel) \<noteq> None" by (auto simp: node_ok_def)
    note code_calls [OF assms this]
    ultimately show "code env \<sigma> (sqliteExprCode c (Expr t dt l r xs tok tab col agg sel)) [] [?v]"
      using sub(3) by blast
  next
    case 8
    with ok obtain es where es: "xs = Some es" "2 \<le> length es" "l \<noteq> None" by (auto simp: node_ok_def split: option.splits)
    show "code env \<sigma> (sqliteExprCode c (Expr t dt l r xs tok tab col agg sel)) [] [?v]"
      by (rule code_between_node [OF l [OF es(3)] es(1,2) 8]) (use sub(3) [OF es(1)] in blast)
  next
    case 9
    with ok obtain es where es: "xs = Some es" "es \<noteq> []" "length es mod 2 = 0"
      by (auto simp: node_ok_def split: option.splits)
    show "code env \<sigma> (sqliteExprCode c (Expr t dt l r xs tok tab col agg sel)) [] [?v]"
      by (rule code_case_node [OF assms es 9]) (use l r sub(3) [OF es(1)] in auto)
  qed
qed

end
