(* ===== verification/Expr_Jump.thy ===== *)
theory Expr_Jump
  imports Expr_Correct
begin

text \<open>
  The conditional jumps of \<open>sqliteExprIfTrue\<close> and \<open>sqliteExprIfFalse\<close>: they agree with the truth value of
  the expression, in the logic with three truth values.
\<close>

subsection \<open>Truth values\<close>

definition truth :: "'r float_ops \<Rightarrow> 'r mem \<Rightarrow> bool option" where
  "truth f m = (if m_null m then None else Some (Integerify f m \<noteq> 0))"

fun and3 :: "bool option \<Rightarrow> bool option \<Rightarrow> bool option" where
  "and3 (Some False) _ = Some False"
| "and3 _ (Some False) = Some False"
| "and3 (Some True) (Some True) = Some True"
| "and3 _ _ = None"

fun or3 :: "bool option \<Rightarrow> bool option \<Rightarrow> bool option" where
  "or3 (Some True) _ = Some True"
| "or3 _ (Some True) = Some True"
| "or3 (Some False) (Some False) = Some False"
| "or3 _ _ = None"

lemma truth_simps [simp]:
  "truth f mem_null = None" "truth f (mem_int i) = Some (i \<noteq> 0)" "truth f (mem_bool b) = b"
  by (auto simp: truth_def mem_null_def mem_int_def mem_bool_def Integerify_def split: option.splits)

lemma truth_logic:
  "truth f (op_logic f True x y) = and3 (truth f x) (truth f y)"
  "truth f (op_logic f False x y) = or3 (truth f x) (truth f y)"
  "truth f (op_not f x) = map_option Not (truth f x)"
proof -
  have lv: "logic_value f m = (case truth f m of None \<Rightarrow> 2 | Some b \<Rightarrow> if b then 0 else 1)" for m
    by (simp add: logic_value_def truth_def)
  show "truth f (op_logic f True x y) = and3 (truth f x) (truth f y)"
    by (cases "truth f x" rule: option.exhaust; cases "truth f y" rule: option.exhaust)
      (auto simp: op_logic_def lv and_logic_def Let_def)
  show "truth f (op_logic f False x y) = or3 (truth f x) (truth f y)"
    by (cases "truth f x" rule: option.exhaust; cases "truth f y" rule: option.exhaust)
      (auto simp: op_logic_def lv or_logic_def Let_def)
  show "truth f (op_not f x) = map_option Not (truth f x)"
    by (cases "m_null x") (auto simp: op_not_def truth_def mem_int_def Integerify_def)
qed

definition when_true :: "bool \<Rightarrow> bool option \<Rightarrow> bool" where
  "when_true jin b = (case b of None \<Rightarrow> jin | Some b \<Rightarrow> b)"

definition when_false :: "bool \<Rightarrow> bool option \<Rightarrow> bool" where
  "when_false jin b = (case b of None \<Rightarrow> jin | Some b \<Rightarrow> \<not> b)"

lemma bool3_cases: "a = None \<or> a = Some True \<or> a = Some False"
  by (cases a) auto

lemma when_logic:
  "when_true jin (and3 a b) \<longleftrightarrow> \<not> when_false (\<not> jin) a \<and> when_true jin b"
  "when_true jin (or3 a b) \<longleftrightarrow> when_true jin a \<or> when_true jin b"
  "when_false jin (and3 a b) \<longleftrightarrow> when_false jin a \<or> when_false jin b"
  "when_false jin (or3 a b) \<longleftrightarrow> \<not> when_true (\<not> jin) a \<and> when_false jin b"
  "when_true jin (map_option Not a) \<longleftrightarrow> when_false jin a"
  "when_false jin (map_option Not a) \<longleftrightarrow> when_true jin a"
  using bool3_cases [of a] bool3_cases [of b]
  by (elim disjE; simp add: when_true_def when_false_def)+

subsection \<open>Code that may jump\<close>

text \<open>
  Code from \<open>A\<close> to \<open>B\<close> that jumps to \<open>dest\<close> with the entries \<open>xs\<close> removed from the stack if \<open>b\<close> holds, and
  otherwise falls through with \<open>ys\<close> in their place.
\<close>

definition jexec ::
    "'r::linorder env \<Rightarrow> 'r store \<Rightarrow> 'r mem list \<Rightarrow> 'r mem list \<Rightarrow> int \<Rightarrow> bool \<Rightarrow> opcode asm \<Rightarrow> opcode asm \<Rightarrow> bool" where
  "jexec env \<sigma> xs ys dest b A B \<longleftrightarrow>
     length ys + length (sym A) \<le> length xs + length (sym B) \<and> length (sym A) < length (sym B) \<and>
     (\<forall>P L s st. linked (length (sym A)) B P L \<longrightarrow> store s = \<sigma> \<longrightarrow> length xs + length st \<le> Suc (length (sym A)) \<longrightarrow>
        L dest \<noteq> 0 \<longrightarrow>
        runs env P (at_pc s (int (length (sym A))) (xs @ st))
          (if b then at_pc s (L dest) st else at_pc s (int (length (sym B))) (ys @ st)))"

definition jcode ::
    "'r::linorder env \<Rightarrow> 'r store \<Rightarrow> (gen \<Rightarrow> gen option) \<Rightarrow> 'r mem list \<Rightarrow> 'r mem list \<Rightarrow> int \<Rightarrow> bool \<Rightarrow> bool" where
  "jcode env \<sigma> f xs ys dest b \<longleftrightarrow> (\<forall>A. \<exists>B. gens f A B \<and> grows A B \<and> jexec env \<sigma> xs ys dest b A B)"

lemma jcodeE:
  assumes "jcode env \<sigma> f xs ys dest b"
  obtains B where "gens f A B" "grows A B" "jexec env \<sigma> xs ys dest b A B"
  using assms unfolding jcode_def by blast

lemma jexecD:
  "jexec env \<sigma> xs ys dest b A B \<Longrightarrow> linked (length (sym A)) B P L \<Longrightarrow> store s = \<sigma> \<Longrightarrow>
   length xs + length st \<le> Suc (length (sym A)) \<Longrightarrow> L dest \<noteq> 0 \<Longrightarrow>
   runs env P (at_pc s (int (length (sym A))) (xs @ st))
     (if b then at_pc s (L dest) st else at_pc s (int (length (sym B))) (ys @ st))"
  unfolding jexec_def by blast

text \<open>Composition: plain code before a jump, and two jumps to the same place.\<close>

lemma jcode_pre:
  assumes "code env \<sigma> f xs ys" "jcode env \<sigma> h ys zs dest b"
  shows "jcode env \<sigma> (\<lambda>g. f g \<bind> h) xs zs dest b"
  unfolding jcode_def
proof
  fix A
  obtain B where B: "gens f A B" "grows A B" "execs env \<sigma> xs ys A B" using assms(1) by (rule codeE)
  obtain C where C: "gens h B C" "grows B C" "jexec env \<sigma> ys zs dest b B C" using assms(2) by (rule jcodeE)
  have size: "length ys + length (sym A) \<le> length xs + length (sym B)" using B(3) by (simp add: execs_def)
  have "jexec env \<sigma> xs zs dest b A C"
    unfolding jexec_def
  proof (intro conjI allI impI)
    show "length zs + length (sym A) \<le> length xs + length (sym C)" "length (sym A) < length (sym C)"
      using size C(3) grows_length(1) [OF B(2)] by (auto simp: jexec_def)
    fix P L and s :: "'a vm" and st :: "'a mem list"
    assume l: "linked (length (sym A)) C P L" and s: "store s = \<sigma>"
      and st: "length xs + length st \<le> Suc (length (sym A))" and d: "L dest \<noteq> 0"
    have "linked (length (sym A)) B P L" using linked_covers [OF l grows_covers [OF C(2)]] by blast
    note 1 = execsD [OF B(3) this s st]
    have "linked (length (sym B)) C P L" using linked_mono [OF l grows_length(1) [OF B(2)]] .
    from jexecD [OF C(3) this s _ d] st size
    show "runs env P (at_pc s (int (length (sym A))) (xs @ st))
        (if b then at_pc s (L dest) st else at_pc s (int (length (sym C))) (zs @ st))"
      by (intro runs_trans [OF 1]) simp
  qed
  then show "\<exists>C. gens (\<lambda>g. f g \<bind> h) A C \<and> grows A C \<and> jexec env \<sigma> xs zs dest b A C"
    using gens_bind [OF B(1) C(1)] grows_trans [OF B(2) C(2)] by blast
qed

lemma jcode_bind:
  assumes "jcode env \<sigma> f xs ys dest b1" "jcode env \<sigma> h ys zs dest b2"
  shows "jcode env \<sigma> (\<lambda>g. f g \<bind> h) xs zs dest (b1 \<or> b2)"
  unfolding jcode_def
proof
  fix A
  obtain B where B: "gens f A B" "grows A B" "jexec env \<sigma> xs ys dest b1 A B" using assms(1) by (rule jcodeE)
  obtain C where C: "gens h B C" "grows B C" "jexec env \<sigma> ys zs dest b2 B C" using assms(2) by (rule jcodeE)
  have size: "length ys + length (sym A) \<le> length xs + length (sym B)" using B(3) by (simp add: jexec_def)
  have "jexec env \<sigma> xs zs dest (b1 \<or> b2) A C"
    unfolding jexec_def
  proof (intro conjI allI impI)
    show "length zs + length (sym A) \<le> length xs + length (sym C)" "length (sym A) < length (sym C)"
      using size C(3) grows_length(1) [OF B(2)] by (auto simp: jexec_def)
    fix P L and s :: "'a vm" and st :: "'a mem list"
    assume l: "linked (length (sym A)) C P L" and s: "store s = \<sigma>"
      and st: "length xs + length st \<le> Suc (length (sym A))" and d: "L dest \<noteq> 0"
    have "linked (length (sym A)) B P L" using linked_covers [OF l grows_covers [OF C(2)]] by blast
    note 1 = jexecD [OF B(3) this s st d]
    have "linked (length (sym B)) C P L" using linked_mono [OF l grows_length(1) [OF B(2)]] .
    note 2 = jexecD [OF C(3) this s _ d, of st]
    show "runs env P (at_pc s (int (length (sym A))) (xs @ st))
        (if b1 \<or> b2 then at_pc s (L dest) st else at_pc s (int (length (sym C))) (zs @ st))"
      using 1 2 st size runs_trans [OF 1] by (cases b1) auto
  qed
  then show "\<exists>C. gens (\<lambda>g. f g \<bind> h) A C \<and> grows A C \<and> jexec env \<sigma> xs zs dest (b1 \<or> b2) A C"
    using gens_bind [OF B(1) C(1)] grows_trans [OF B(2) C(2)] by blast
qed

text \<open>A jump over another one, by a label.\<close>

lemma jcode_over:
  assumes "\<And>d2. jcode env \<sigma> (f d2) [] [] d2 b1" "jcode env \<sigma> h [] [] dest b2"
  shows "jcode env \<sigma> (\<lambda>g. make_label g \<bind> (\<lambda>(d2, g). f d2 g \<bind> (\<lambda>g. h g \<bind> resolve_label d2))) [] [] dest (\<not> b1 \<and> b2)"
  unfolding jcode_def
proof
  fix A :: "opcode asm"
  let ?k = "length (lab A)" and ?A1 = "A\<lparr>lab := lab A @ [None]\<rparr>"
  let ?l = "-1 - int ?k"
  obtain B where B: "gens (f ?l) ?A1 B" "grows ?A1 B" "jexec env \<sigma> [] [] ?l b1 ?A1 B" using assms(1) by (rule jcodeE)
  obtain C where C: "gens h B C" "grows B C" "jexec env \<sigma> [] [] dest b2 B C" using assms(2) by (rule jcodeE)
  let ?C = "C\<lparr>lab := (lab C)[?k := Some (length (sym C))]\<rparr>"
  obtain qs ls where qs: "sym C = sym A @ qs" "lab C = lab A @ None # ls"
    using grows_trans [OF B(2) C(2)] by (auto simp: grows_def)
  have size: "length (sym A) < length (sym B)" "length (sym B) < length (sym C)" using B(3) C(3) by (auto simp: jexec_def)
  have "gens (resolve_label ?l) C ?C" by (rule gens_resolve) (use qs size in auto)
  then have "gens (\<lambda>g. make_label g \<bind> (\<lambda>(d2, g). f d2 g \<bind> (\<lambda>g. h g \<bind> resolve_label d2))) A ?C"
    by (intro gens_label gens_bind [OF B(1)] gens_bind [OF C(1)])
  moreover have "grows A ?C" unfolding grows_def using qs by (simp add: list_update_append)
  moreover have "jexec env \<sigma> [] [] dest (\<not> b1 \<and> b2) A ?C"
    unfolding jexec_def
  proof (intro conjI allI impI)
    show "length [] + length (sym A) \<le> length [] + length (sym ?C)" "length (sym A) < length (sym ?C)" using size by auto
    fix P L and s :: "'a vm" and st :: "'a mem list"
    assume l: "linked (length (sym A)) ?C P L" and s: "store s = \<sigma>"
      and st: "length [] + length st \<le> Suc (length (sym A))" and d: "L dest \<noteq> 0"
    have L: "L ?l = int (length (sym C))" using l qs unfolding linked_def by simp
    have "lab C ! ?k = None" using qs by simp
    then have "covers (length (sym A)) C ?C" by (auto simp: covers_def) (metis nth_list_update_neq)
    then have lC: "linked (length (sym A)) C P L" using linked_covers [OF l] by blast
    have "linked (length (sym ?A1)) B P L" using linked_covers [OF lC grows_covers [OF C(2)]] by simp
    note 1 = jexecD [OF B(3) this s, of st, simplified]
    have "linked (length (sym B)) C P L" by (rule linked_mono [OF lC]) (use size in simp)
    note 2 = jexecD [OF C(3) this s _ d, of st, simplified]
    have 1: "runs env P (at_pc s (int (length (sym A))) st) (if b1 then at_pc s (int (length (sym C))) st else at_pc s (int (length (sym B))) st)"
    proof -
      have "sym C \<noteq> []" using size by auto
      then show ?thesis using 1 st L by (cases b1) auto
    qed
    show "runs env P (at_pc s (int (length (sym A))) ([] @ st))
        (if \<not> b1 \<and> b2 then at_pc s (L dest) st else at_pc s (int (length (sym ?C))) ([] @ st))"
      using 1 2 st size runs_trans [OF 1] by (cases b1) auto
  qed
  ultimately show "\<exists>B. gens (\<lambda>g. make_label g \<bind> (\<lambda>(d2, g). f d2 g \<bind> (\<lambda>g. h g \<bind> resolve_label d2))) A B
      \<and> grows A B \<and> jexec env \<sigma> [] [] dest (\<not> b1 \<and> b2) A B" by blast
qed

lemma jcode_block:
  assumes "\<And>A. gens f A (app A (qs (length (sym A))))"
    and "\<And>n. length ys \<le> length xs + length (qs n) \<and> 0 < length (qs n)"
    and "\<And>n P L s st. (\<And>i. i < length (qs n) \<Longrightarrow> n + i < length P \<and> P ! (n + i) = relabel L (qs n ! i)) \<Longrightarrow>
      (\<forall>x \<ge> 0. L x = x) \<Longrightarrow> store s = \<sigma> \<Longrightarrow> length xs + length st \<le> Suc n \<Longrightarrow> L dest \<noteq> 0 \<Longrightarrow>
      runs env P (at_pc s (int n) (xs @ st)) (if b then at_pc s (L dest) st else at_pc s (int (n + length (qs n))) (ys @ st))"
  shows "jcode env \<sigma> f xs ys dest b"
  unfolding jcode_def
proof
  fix A :: "opcode asm"
  let ?n = "length (sym A)"
  have "jexec env \<sigma> xs ys dest b A (app A (qs ?n))"
    unfolding jexec_def
  proof (intro conjI allI impI)
    show "length ys + ?n \<le> length xs + length (sym (app A (qs ?n)))" "?n < length (sym (app A (qs ?n)))"
      using assms(2) [of ?n] by auto
    fix P L and s :: "'a vm" and st :: "'a mem list"
    assume l: "linked ?n (app A (qs ?n)) P L" and s: "store s = \<sigma>"
      and st: "length xs + length st \<le> Suc ?n" and d: "L dest \<noteq> 0"
    have P: "?n + i < length P \<and> P ! (?n + i) = relabel L (qs ?n ! i)" if "i < length (qs ?n)" for i
    proof -
      have "?n \<le> ?n + i" "?n + i < length (sym (app A (qs ?n)))" "sym (app A (qs ?n)) ! (?n + i) = qs ?n ! i"
        using that by auto
      then show ?thesis using l unfolding linked_def by metis
    qed
    have L: "\<forall>x \<ge> 0. L x = x" using l by (simp add: linked_def)
    from assms(3) [OF P L s st d]
    show "runs env P (at_pc s (int ?n) (xs @ st))
        (if b then at_pc s (L dest) st else at_pc s (int (length (sym (app A (qs ?n))))) (ys @ st))"
      by (cases b) simp_all
  qed
  then show "\<exists>B. gens f A B \<and> grows A B \<and> jexec env \<sigma> xs ys dest b A B"
    using assms(1) grows_app by blast
qed

lemma jcode_emit:
  assumes "\<And>L s st i. (\<forall>x \<ge> 0. L x = x) \<Longrightarrow> store s = \<sigma> \<Longrightarrow> L dest \<noteq> 0 \<Longrightarrow>
      exec_op env (relabel L (ins oper x1 dest)) (at_pc s i (xs @ st)) = Next (at_pc s (if b then L dest - 1 else i) st)"
  shows "jcode env \<sigma> (emit oper x1 dest) xs [] dest b"
proof (rule jcode_block [where qs = "\<lambda>_. [ins oper x1 dest]"])
  fix n P L and s :: "'a vm" and st :: "'a mem list"
  let ?qs = "[ins oper x1 dest]"
  assume P: "\<And>i. i < length ?qs \<Longrightarrow> n + i < length P \<and> P ! (n + i) = relabel L (?qs ! i)"
    and L: "\<forall>x \<ge> 0. L x = x" and s: "store s = \<sigma>" and st: "length xs + length st \<le> Suc n" and d: "L dest \<noteq> 0"
  show "runs env P (at_pc s (int n) (xs @ st)) (if b then at_pc s (L dest) st else at_pc s (int (n + length ?qs)) ([] @ st))"
    by (rule runs_into) (use assms [OF L s d] P [of 0] st in \<open>auto simp: exec_step_def add.commute\<close>)
qed (use gens_emit in auto)

lemma when_flag [simp]: "(flag jin \<noteq> 0) = jin"
  by (simp add: flag_def)

lemma jcode_compare:
  "jcode env \<sigma> (emit (if txt then OP_StrCmp p else OP_Cmp p) (flag jin) dest) [y, x] [] dest
     (when_true jin (map_option (cmp_holds p) (compare_mem (fl env) txt x y)))"
  by (rule jcode_emit) (auto simp: exec_simps exec_cmp_def exec_compare_def jump_if_def when_true_def split: option.splits)

lemma jcode_if:
  "jcode env \<sigma> (emit OP_If (flag jin) dest) [x] [] dest (when_true jin (truth (fl env) x))"
  "jcode env \<sigma> (emit OP_IfNot (flag jin) dest) [x] [] dest (when_false jin (truth (fl env) x))"
  by (rule jcode_emit; auto simp: exec_simps exec_if_def jump_if_def when_true_def when_false_def truth_def)+

lemma jcode_null:
  "jcode env \<sigma> (emit OP_IsNull 1 dest) [x] [] dest (m_null x)"
  "jcode env \<sigma> (emit OP_NotNull 1 dest) [x] [] dest (\<not> m_null x)"
  by (rule jcode_emit; auto simp: exec_simps exec_isnull_def jump_if_def)+

lemma jcode_in:
  assumes "\<not> interrupted (db \<sigma>)"
    and "(oper, b) \<in> {(if sub then OP_Found else OP_SetFound, when_true jin (member env \<sigma> sub tab m)),
                        (if sub then OP_NotFound else OP_SetNotFound, when_false jin (member env \<sigma> sub tab m))}"
  shows "jcode env \<sigma> (jump_in oper tab dest jin) [m] [] dest b"
proof (rule jcode_block [where qs = "\<lambda>n. [ins OP_NotNull (-1) (int n + 3), ins OP_Pop 1 0,
    ins OP_Goto 0 (if jin then dest else int n + 4), ins oper tab dest]"])
  show "gens (jump_in oper tab dest jin) A (app A [ins OP_NotNull (- 1) (int (length (sym A)) + 3), ins OP_Pop 1 0,
      ins OP_Goto 0 (if jin then dest else int (length (sym A)) + 4), ins oper tab dest])" for A
    unfolding jump_in_def
    by (rule gens_current, rule gens_block, (rule gens_emit_next)+, rule gens_emit_end) simp
next
  fix n P L and s :: "'a vm" and st :: "'a mem list"
  let ?qs = "[ins OP_NotNull (-1) (int n + 3), ins OP_Pop 1 0,
    ins OP_Goto 0 (if jin then dest else int n + 4), ins oper tab dest]"
  assume P: "\<And>i. i < length ?qs \<Longrightarrow> n + i < length P \<and> P ! (n + i) = relabel L (?qs ! i)"
    and L: "\<forall>x \<ge> 0. L x = x" and s: "store s = \<sigma>" and st: "length [m] + length st \<le> Suc n" and d: "L dest \<noteq> 0"
  note facts = L st s d assms(1) block_nth [OF P, simplified]
  show "runs env P (at_pc s (int n) ([m] @ st)) (if b then at_pc s (L dest) st else at_pc s (int (n + length ?qs)) ([] @ st))"
  proof (cases "m_null m")
    case True
    then have b: "b = jin" using assms(2) by (auto simp: member_def when_true_def when_false_def)
    show ?thesis
      by (cases jin; (rule runs_into, (use True facts in \<open>simp add: exec_sims\<close>; fail))+,
          use b in \<open>simp add: add.commute\<close>)
  next
    case False
    consider (t) "oper = OP_Found" "b = found env tab (Stringify (fl env) m)"
      | (s) "oper = OP_SetFound" "b = set_found \<sigma> tab (Stringify (fl env) m)"
      | (nt) "oper = OP_NotFound" "b = (\<not> found env tab (Stringify (fl env) m))"
      | (ns) "oper = OP_SetNotFound" "b = (\<not> set_found \<sigma> tab (Stringify (fl env) m))"
      using assms(2) False by (auto simp: member_def when_true_def when_false_def split: if_splits)
    then show ?thesis
    proof cases
      case t
      show ?thesis
        by (cases b; (rule runs_into, (use False t facts in \<open>simp add: exec_sims\<close>; fail))+, simp add: add.commute)
    next
      case s
      show ?thesis
        by (cases b; (rule runs_into, (use False s facts in \<open>simp add: exec_sims\<close>; fail))+, simp add: add.commute)
    next
      case nt
      show ?thesis
        by (cases b; (rule runs_into, (use False nt facts in \<open>simp add: exec_sims\<close>; fail))+, simp add: add.commute)
    next
      case ns
      show ?thesis
        by (cases b; (rule runs_into, (use False ns facts in \<open>simp add: exec_sims\<close>; fail))+, simp add: add.commute)
    qed
  qed
qed simp_all

subsection \<open>BETWEEN\<close>

lemma when_compare:
  "\<not> when_true (\<not> jin) b \<longleftrightarrow> when_false jin b" "\<not> when_false (\<not> jin) b \<longleftrightarrow> when_true jin b"
  "when_true jin (map_option (cmp_holds Gt_op) k) \<longleftrightarrow> when_false jin (map_option (cmp_holds Le_op) k)"
  "when_true jin (map_option (cmp_holds Lt_op) k) \<longleftrightarrow> when_false jin (map_option (cmp_holds Ge_op) k)"
  by (auto simp: when_true_def when_false_def cmp_holds_def split: option.splits)

lemma jcode_below:
  assumes "\<not> interrupted (db \<sigma>)"
  shows "jcode env \<sigma> (\<lambda>g. current_addr g \<bind> (\<lambda>a. emit (OP_Cmp Ge_op) (flag (\<not> jin)) (a + 3) g \<bind>
      (\<lambda>g. emit OP_Pop 1 0 g \<bind> emit OP_Goto 0 dest))) [lo, x, x] [x] dest
      (when_false jin (map_option (cmp_holds Ge_op) (compare_num (fl env) x lo)))"
proof (rule jcode_block [where qs = "\<lambda>n. [ins (OP_Cmp Ge_op) (flag (\<not> jin)) (int n + 3), ins OP_Pop 1 0, ins OP_Goto 0 dest]"])
  show "gens (\<lambda>g. current_addr g \<bind> (\<lambda>a. emit (OP_Cmp Ge_op) (flag (\<not> jin)) (a + 3) g \<bind>
      (\<lambda>g. emit OP_Pop 1 0 g \<bind> emit OP_Goto 0 dest))) A
      (app A [ins (OP_Cmp Ge_op) (flag (\<not> jin)) (int (length (sym A)) + 3), ins OP_Pop 1 0, ins OP_Goto 0 dest])" for A
    by (rule gens_current, rule gens_block, (rule gens_emit_next)+, rule gens_emit_end) simp
next
  fix n P L and s :: "'a vm" and st :: "'a mem list"
  let ?qs = "[ins (OP_Cmp Ge_op) (flag (\<not> jin)) (int n + 3), ins OP_Pop 1 0, ins OP_Goto 0 dest]"
  let ?b = "when_true (\<not> jin) (map_option (cmp_holds Ge_op) (compare_num (fl env) x lo))"
  assume P: "\<And>i. i < length ?qs \<Longrightarrow> n + i < length P \<and> P ! (n + i) = relabel L (?qs ! i)"
    and L: "\<forall>x \<ge> 0. L x = x" and s: "store s = \<sigma>" and st: "length [lo, x, x] + length st \<le> Suc n" and d: "L dest \<noteq> 0"
  note facts = L st s d assms block_nth [OF P, simplified]
  have "runs env P (at_pc s (int n) ([lo, x, x] @ st))
      (if \<not> ?b then at_pc s (L dest) st else at_pc s (int (n + length ?qs)) ([x] @ st))"
  proof (cases "compare_num (fl env) x lo")
    case None
    show ?thesis
      by (cases jin; (rule runs_into, (use None facts in \<open>simp add: exec_sims flag_def\<close>; fail))+,
          use None in \<open>simp add: when_true_def add.commute\<close>)
  next
    case (Some k)
    show ?thesis
      by (cases "cmp_holds Ge_op k"; (rule runs_into, (use Some facts in \<open>simp add: exec_sims\<close>; fail))+,
          use Some in \<open>simp add: when_true_def add.commute\<close>)
  qed
  then show "runs env P (at_pc s (int n) ([lo, x, x] @ st))
      (if when_false jin (map_option (cmp_holds Ge_op) (compare_num (fl env) x lo)) then at_pc s (L dest) st
       else at_pc s (int (n + length ?qs)) ([x] @ st))"
    unfolding when_compare(1) .
qed simp_all

lemma jcode_false_between:
  assumes "code env \<sigma> (opt_code c l) [] [x]" "code env \<sigma> (sqliteExprCode c lo) [] [y]" "code env \<sigma> (sqliteExprCode c hi) [] [z]"
    and "\<not> interrupted (db \<sigma>)"
  shows "jcode env \<sigma> (false_between c l lo hi dest jin) [] [] dest (when_false jin (truth (fl env) (between (fl env) x y z)))"
proof -
  let ?ge = "map_option (cmp_holds Ge_op) (compare_num (fl env) x y)"
  let ?le = "map_option (cmp_holds Le_op) (compare_num (fl env) x z)"
  have gt: "jcode env \<sigma> (emit (OP_Cmp Gt_op) (flag jin) dest) [z, x] [] dest (when_false jin ?le)"
    using jcode_compare [of env \<sigma> False Gt_op jin dest z x] by (simp add: compare_mem_def when_compare)
  have "jcode env \<sigma> (\<lambda>g. (current_addr g \<bind> (\<lambda>a. emit (OP_Cmp Ge_op) (flag (\<not> jin)) (a + 3) g \<bind>
      (\<lambda>g. emit OP_Pop 1 0 g \<bind> emit OP_Goto 0 dest))) \<bind> (\<lambda>g. sqliteExprCode c hi g \<bind> emit (OP_Cmp Gt_op) (flag jin) dest))
      [y, x, x] [] dest (when_false jin ?ge \<or> when_false jin ?le)"
    by (rule jcode_bind [OF jcode_below [OF assms(4)] jcode_pre [OF code_push [OF assms(3)] gt]])
  then have "jcode env \<sigma> (\<lambda>g. opt_code c l g \<bind> (\<lambda>g. emit OP_Dup 0 0 g \<bind> (\<lambda>g. sqliteExprCode c lo g \<bind>
      (\<lambda>g. (current_addr g \<bind> (\<lambda>a. emit (OP_Cmp Ge_op) (flag (\<not> jin)) (a + 3) g \<bind>
      (\<lambda>g. emit OP_Pop 1 0 g \<bind> emit OP_Goto 0 dest))) \<bind> (\<lambda>g. sqliteExprCode c hi g \<bind> emit (OP_Cmp Gt_op) (flag jin) dest)))))
      [] [] dest (when_false jin ?ge \<or> when_false jin ?le)"
    by (rule jcode_pre [OF assms(1) jcode_pre [OF code_emit_stack(1) jcode_pre [OF code_push [OF assms(2)]]]])
  moreover have "false_between c l lo hi dest jin = (\<lambda>g. opt_code c l g \<bind> (\<lambda>g. emit OP_Dup 0 0 g \<bind> (\<lambda>g. sqliteExprCode c lo g \<bind>
      (\<lambda>g. (current_addr g \<bind> (\<lambda>a. emit (OP_Cmp Ge_op) (flag (\<not> jin)) (a + 3) g \<bind>
      (\<lambda>g. emit OP_Pop 1 0 g \<bind> emit OP_Goto 0 dest))) \<bind> (\<lambda>g. sqliteExprCode c hi g \<bind> emit (OP_Cmp Gt_op) (flag jin) dest)))))"
    by (auto simp: false_between_def fun_eq_iff)
  moreover have "when_false jin (truth (fl env) (between (fl env) x y z)) \<longleftrightarrow> when_false jin ?ge \<or> when_false jin ?le"
    by (simp add: between_def truth_logic when_logic)
  ultimately show ?thesis by simp
qed

lemma compare_step:
  assumes "linked n B P L" "n \<le> i" "i < length (sym B)" "Suc (Suc (length st)) \<le> Suc i"
    and "sym B ! i = ins (OP_Cmp p) (flag jin) dest" "L dest \<noteq> 0"
  shows "runs env P (at_pc s (int i) (y # x # st))
    (at_pc s (if when_true jin (map_option (cmp_holds p) (compare_num (fl env) x y)) then L dest else int (Suc i)) st)"
  by (rule runs_step [OF assms(1-3)])
    (use assms in \<open>auto simp: exec_simps exec_cmp_def exec_compare_def compare_mem_def jump_if_def when_true_def
       add.commute split: option.splits\<close>)

lemma true_between_runs:
  assumes B1: "execs env \<sigma> [] [y, x, x] A B1" and B3: "execs env \<sigma> [] [z] (app B1 [ins (OP_Cmp Lt_op) (flag (\<not> jin)) 0]) B3"
    and qs: "sym B3 = sym B1 @ ins (OP_Cmp Lt_op) (flag (\<not> jin)) 0 # qs" "lab B3 = lab B1 @ ls"
    and B6: "B6 = \<lparr>sym = sym B1 @ ins (OP_Cmp Lt_op) (flag (\<not> jin)) d # qs @
               [ins (OP_Cmp Le_op) (flag jin) dest, ins OP_Integer 0 0, ins OP_Pop 1 0], lab = lab B3\<rparr>"
    and d: "d = int (length (sym B3)) + 2"
    and l: "linked (length (sym A)) B6 P L" and s: "store s = \<sigma>" and st: "length st \<le> Suc (length (sym A))" and dest: "L dest \<noteq> 0"
  shows "runs env P (at_pc s (int (length (sym A))) st)
    (if \<not> when_true (\<not> jin) (map_option (cmp_holds Lt_op) (compare_num (fl env) x y))
        \<and> when_true jin (map_option (cmp_holds Le_op) (compare_num (fl env) x z))
     then at_pc s (L dest) st else at_pc s (int (length (sym B6))) st)"
proof -
  let ?k = "length (sym B1)" and ?m = "length (sym B3)"
  have k: "length (sym A) + 3 \<le> ?k" using B1 by (simp add: execs_def)
  have m: "Suc (Suc ?k) \<le> ?m" using B3 by (simp add: execs_def)
  have "grows B1 B6" unfolding grows_def using B6 qs by simp
  then have "linked (length (sym A)) B1 P L" using linked_covers [OF l grows_covers] by blast
  from execsD [OF B1 this s, of st] st
  have r1: "runs env P (at_pc s (int (length (sym A))) st) (at_pc s (int ?k) (y # x # x # st))" by simp
  have L: "L d = d" using l d unfolding linked_def by simp
  have r2: "runs env P (at_pc s (int ?k) (y # x # x # st))
      (at_pc s (if when_true (\<not> jin) (map_option (cmp_holds Lt_op) (compare_num (fl env) x y)) then d else int (Suc ?k)) (x # st))"
    by (rule compare_step [OF l, of ?k "x # st" Lt_op "\<not> jin" d env s y x, unfolded L])
      (use B6 k st d in auto)
  have len6: "length (sym B6) = ?m + 3" and at6: "sym B6 ! ?m = ins (OP_Cmp Le_op) (flag jin) dest"
    "sym B6 ! Suc ?m = ins OP_Integer 0 0" "sym B6 ! (?m + 2) = ins OP_Pop 1 0"
    using B6 qs by (simp_all add: nth_append)
  have r3: "runs env P (at_pc s (int (Suc ?k)) (x # st)) (at_pc s (int ?m) (z # x # st))"
  proof -
    have "covers (Suc ?k) B3 B6" unfolding covers_def using qs B6 by (auto simp: nth_append)
    then have "linked (length (sym (app B1 [ins (OP_Cmp Lt_op) (flag (\<not> jin)) 0]))) B3 P L"
      using linked_covers [OF l] k by simp
    from execsD [OF B3 this s, of "x # st"] show ?thesis using st k by (simp add: add.commute)
  qed
  have r4: "runs env P (at_pc s (int ?m) (z # x # st))
      (at_pc s (if when_true jin (map_option (cmp_holds Le_op) (compare_num (fl env) x z)) then L dest else int (Suc ?m)) st)"
    using compare_step [OF l, of ?m st Le_op jin dest env s z x] at6(1) len6 k m st dest by simp
  have r5: "runs env P (at_pc s (int (Suc ?m)) st) (at_pc s d (mem_int 0 # st))"
    by (rule runs_step [OF l]) (use at6(2) len6 k m st d in \<open>auto simp: exec_simps exec_integer_def add.commute\<close>)
  have r6: "runs env P (at_pc s d (w # st)) (at_pc s (int (length (sym B6))) st)" for w
  proof -
    have "runs env P (at_pc s (int (?m + 2)) (w # st)) (at_pc s (int (length (sym B6))) st)"
      by (rule runs_step [OF l]) (use at6(3) len6 k m st in \<open>auto simp: exec_simps exec_pop_def add.commute\<close>)
    then show ?thesis using d by (simp add: add.commute)
  qed
  let ?b1 = "when_true (\<not> jin) (map_option (cmp_holds Lt_op) (compare_num (fl env) x y))"
  let ?b2 = "when_true jin (map_option (cmp_holds Le_op) (compare_num (fl env) x z))"
  consider "?b1" | "\<not> ?b1" "?b2" | "\<not> ?b1" "\<not> ?b2" by blast
  then show ?thesis
  proof cases
    case 1
    then show ?thesis using runs_trans [OF r1 runs_trans [OF r2]] r6 by simp
  next
    case 2
    then show ?thesis using runs_trans [OF r1 runs_trans [OF r2]] runs_trans [OF r3 r4] by simp
  next
    case 3
    then show ?thesis using runs_trans [OF r1 runs_trans [OF r2]] runs_trans [OF r3 runs_trans [OF r4]] runs_trans [OF r5 r6] by simp
  qed
qed

lemma jcode_true_between:
  assumes "code env \<sigma> (opt_code c l) [] [x]" "code env \<sigma> (sqliteExprCode c lo) [] [y]" "code env \<sigma> (sqliteExprCode c hi) [] [z]"
  shows "jcode env \<sigma> (true_between c l lo hi dest jin) [] [] dest (when_true jin (truth (fl env) (between (fl env) x y z)))"
  unfolding jcode_def
proof
  fix A :: "opcode asm"
  let ?f = "\<lambda>g. opt_code c l g \<bind> (\<lambda>g. emit OP_Dup 0 0 g \<bind> sqliteExprCode c lo)"
  let ?q = "ins (OP_Cmp Lt_op) (flag (\<not> jin)) 0"
  have "code env \<sigma> ?f [] [y, x, x]"
    by (rule code_bind [OF assms(1) code_bind [OF code_emit_stack(1) code_push [OF assms(2)]]])
  then obtain B1 where B1: "gens ?f A B1" "grows A B1" "execs env \<sigma> [] [y, x, x] A B1" by (rule codeE)
  obtain B3 where B3: "gens (sqliteExprCode c hi) (app B1 [?q]) B3" "grows (app B1 [?q]) B3" "execs env \<sigma> [] [z] (app B1 [?q]) B3"
    using assms(3) by (rule codeE)
  from B3(2) obtain qs ls where qs: "sym B3 = sym B1 @ ?q # qs" "lab B3 = lab B1 @ ls" by (auto simp: grows_def)
  let ?B4 = "app B3 [ins (OP_Cmp Le_op) (flag jin) dest, ins OP_Integer 0 0]"
  define d where "d = int (length (sym B3)) + 2"
  define B5 where "B5 = \<lparr>sym = sym B1 @ ins (OP_Cmp Lt_op) (flag (\<not> jin)) d # qs @
      [ins (OP_Cmp Le_op) (flag jin) dest, ins OP_Integer 0 0], lab = lab B3\<rparr>"
  define B6 where "B6 = \<lparr>sym = sym B1 @ ins (OP_Cmp Lt_op) (flag (\<not> jin)) d # qs @
      [ins (OP_Cmp Le_op) (flag jin) dest, ins OP_Integer 0 0, ins OP_Pop 1 0], lab = lab B3\<rparr>"
  have d4: "int (length (sym ?B4)) = d" by (simp add: d_def)
  have "?B4\<lparr>sym := (sym ?B4)[length (sym B1) := (sym ?B4 ! length (sym B1))\<lparr>p2 := d\<rparr>]\<rparr> = B5"
    by (intro asm.equality) (simp_all add: B5_def qs ins_def)
  then have p: "gens (change_p2 (int (length (sym B1))) d) ?B4 B5"
    using gens_change_p2 [of "length (sym B1)" ?B4 d] by (simp add: qs d_def)
  have "app B5 [ins OP_Pop 1 0] = B6" by (intro asm.equality) (simp_all add: B5_def B6_def)
  then have pop: "gens (emit OP_Pop 1 0) B5 B6" using gens_emit [of OP_Pop 1 0 B5] by simp
  have tail: "gens (\<lambda>g. emit (OP_Cmp Le_op) (flag jin) dest g \<bind> (\<lambda>g. emit OP_Integer 0 0 g \<bind>
      (\<lambda>g. current_addr g \<bind> (\<lambda>b. change_p2 (int (length (sym B1))) b g \<bind> emit OP_Pop 1 0)))) B3 B6"
    by (rule gens_block, (rule gens_emit_next)+, rule gens_current)
      (use gens_bind [OF p pop] d4 in simp)
  have "gens (\<lambda>g. emit_addr (OP_Cmp Lt_op) (flag (\<not> jin)) 0 g \<bind> (\<lambda>(a, g). sqliteExprCode c hi g \<bind>
      (\<lambda>g. emit (OP_Cmp Le_op) (flag jin) dest g \<bind> (\<lambda>g. emit OP_Integer 0 0 g \<bind>
      (\<lambda>g. current_addr g \<bind> (\<lambda>b. change_p2 a b g \<bind> emit OP_Pop 1 0)))))) B1 B6"
    by (rule gens_emit_addr, rule gens_bind [OF B3(1) tail])
  from gens_bind [OF B1(1) this] have gens: "gens (true_between c l lo hi dest jin) A B6"
    by (simp add: gens_def true_between_def)
  have grows: "grows A B6" using B1(2) qs(2) by (auto simp: grows_def B6_def)
  have "when_true jin (truth (fl env) (between (fl env) x y z)) \<longleftrightarrow>
      \<not> when_true (\<not> jin) (map_option (cmp_holds Lt_op) (compare_num (fl env) x y)) \<and>
      when_true jin (map_option (cmp_holds Le_op) (compare_num (fl env) x z))"
    by (simp add: between_def truth_logic when_logic when_compare)
  moreover have "length (sym A) < length (sym B6)" using B1(3) by (simp add: B6_def execs_def)
  ultimately have "jexec env \<sigma> [] [] dest (when_true jin (truth (fl env) (between (fl env) x y z))) A B6"
    unfolding jexec_def using true_between_runs [OF B1(3) B3(3) qs B6_def d_def] by auto
  with gens grows show "\<exists>B. gens (true_between c l lo hi dest jin) A B \<and> grows A B \<and>
      jexec env \<sigma> [] [] dest (when_true jin (truth (fl env) (between (fl env) x y z))) A B" by blast
qed

subsection \<open>All conditions\<close>

definition negated_cmp :: "tk \<Rightarrow> cmp_op" where
  "negated_cmp t =
     (case t of TK_LT \<Rightarrow> Ge_op | TK_LE \<Rightarrow> Gt_op | TK_GT \<Rightarrow> Le_op | TK_GE \<Rightarrow> Lt_op | TK_NE \<Rightarrow> Eq_op | _ \<Rightarrow> Ne_op)"

lemma compare_tk_ops:
  assumes "compare_tk t"
  shows "true_op t = OP_Cmp (cmp_of t)" "false_op t = OP_Cmp (negated_cmp t)"
    "cmp_holds (negated_cmp t) k \<longleftrightarrow> \<not> cmp_holds (cmp_of t) k"
  using assms by (auto simp: compare_tk_def true_op_def false_op_def cmp_of_def negated_cmp_def cmp_holds_def)

lemma when_negated:
  "compare_tk t \<Longrightarrow> when_true jin (map_option (cmp_holds (negated_cmp t)) k) = when_false jin (map_option (cmp_holds (cmp_of t)) k)"
  by (auto simp: when_true_def when_false_def compare_tk_ops split: option.splits)

lemma jcode_comparison:
  assumes "code env \<sigma> (opt_code c l) [] [x]" "code env \<sigma> (opt_code c r) [] [y]" "compare_tk t"
    and "sqliteExprType (Expr t dt l r xs tok tab col agg sel) \<noteq> None"
  shows "jcode env \<sigma> (sqliteExprIfTrue c (Expr t dt l r xs tok tab col agg sel) dest jin) [] [] dest
      (when_true jin (truth (fl env) (node_value c env \<sigma> (Expr t dt l r xs tok tab col agg sel) x y vs alt)))"
    and "jcode env \<sigma> (sqliteExprIfFalse c (Expr t dt l r xs tok tab col agg sel) dest jin) [] [] dest
      (when_false jin (truth (fl env) (node_value c env \<sigma> (Expr t dt l r xs tok tab col agg sel) x y vs alt)))"
proof -
  let ?e = "Expr t dt l r xs tok tab col agg sel"
  let ?oper = "\<lambda>p. if text_compare c ?e then OP_StrCmp p else OP_Cmp p"
  let ?k = "compare_mem (fl env) (text_compare c ?e) x y"
  have j: "jcode env \<sigma> (\<lambda>g. opt_code c l g \<bind> (\<lambda>g. opt_code c r g \<bind> emit (?oper p) (flag jin) dest)) [] [] dest
      (when_true jin (map_option (cmp_holds p) ?k))" for p
    by (rule jcode_pre [OF assms(1) jcode_pre [OF code_push [OF assms(2)] jcode_compare]])
  have v: "node_value c env \<sigma> ?e x y vs alt = mem_bool (map_option (cmp_holds (cmp_of t)) ?k)"
    using assms(3) by (auto simp: compare_tk_def node_value_def)
  have t: "t \<noteq> TK_AND" "t \<noteq> TK_OR" "t \<noteq> TK_NOT" using assms(3) by (auto simp: compare_tk_def)
  have "sqliteExprIfTrue c ?e dest jin = (\<lambda>g. opt_code c l g \<bind> (\<lambda>g. opt_code c r g \<bind> emit (?oper (cmp_of t)) (flag jin) dest))"
    using t assms(3) compare_op_eq [OF assms(4)] by (auto simp: fun_eq_iff compare_tk_ops)
  then show "jcode env \<sigma> (sqliteExprIfTrue c ?e dest jin) [] [] dest (when_true jin (truth (fl env) (node_value c env \<sigma> ?e x y vs alt)))"
    using j [of "cmp_of t"] by (simp only: v truth_simps)
  have "sqliteExprIfFalse c ?e dest jin = (\<lambda>g. opt_code c l g \<bind> (\<lambda>g. opt_code c r g \<bind> emit (?oper (negated_cmp t)) (flag jin) dest))"
    using t assms(3) compare_op_eq [OF assms(4)] by (auto simp: fun_eq_iff compare_tk_ops)
  then show "jcode env \<sigma> (sqliteExprIfFalse c ?e dest jin) [] [] dest (when_false jin (truth (fl env) (node_value c env \<sigma> ?e x y vs alt)))"
    using j [of "negated_cmp t"] when_negated [OF assms(3)] by (simp only: v truth_simps)
qed

lemma jcode_unary:
  assumes "code env \<sigma> (opt_code c l) [] [x]" "quiet env \<sigma>" "t \<in> {TK_ISNULL, TK_NOTNULL, TK_IN}"
  shows "jcode env \<sigma> (sqliteExprIfTrue c (Expr t dt l r xs tok tab col agg sel) dest jin) [] [] dest
      (when_true jin (truth (fl env) (node_value c env \<sigma> (Expr t dt l r xs tok tab col agg sel) x y vs alt)))"
    and "jcode env \<sigma> (sqliteExprIfFalse c (Expr t dt l r xs tok tab col agg sel) dest jin) [] [] dest
      (when_false jin (truth (fl env) (node_value c env \<sigma> (Expr t dt l r xs tok tab col agg sel) x y vs alt)))"
proof -
  let ?e = "Expr t dt l r xs tok tab col agg sel" and ?sub = "sel \<noteq> None"
  have q: "\<not> interrupted (db \<sigma>)" using assms(2) by (simp add: quiet_def)
  define f where "f b = (if t = TK_IN then jump_in
      (if b then if ?sub then OP_Found else OP_SetFound else if ?sub then OP_NotFound else OP_SetNotFound) tab dest jin
      else emit (if b then true_op t else false_op t) 1 dest)" for b
  have "jcode env \<sigma> (f True) [x] [] dest (when_true jin (truth (fl env) (node_value c env \<sigma> ?e x y vs alt)))"
    using assms(3) jcode_in [OF q, of _ "when_true jin (member env \<sigma> ?sub tab x)" ?sub jin env tab x dest]
    by (auto simp: f_def true_op_def node_value_def jcode_null when_true_def)
  moreover have "jcode env \<sigma> (f False) [x] [] dest (when_false jin (truth (fl env) (node_value c env \<sigma> ?e x y vs alt)))"
    using assms(3) jcode_in [OF q, of _ "when_false jin (member env \<sigma> ?sub tab x)" ?sub jin env tab x dest]
    by (auto simp: f_def false_op_def node_value_def jcode_null when_false_def)
  moreover have "sqliteExprIfTrue c ?e dest jin = (\<lambda>g. opt_code c l g \<bind> f True)"
    "sqliteExprIfFalse c ?e dest jin = (\<lambda>g. opt_code c l g \<bind> f False)"
    using assms(3) by (auto simp: fun_eq_iff f_def compare_tk_def)
  ultimately show "jcode env \<sigma> (sqliteExprIfTrue c ?e dest jin) [] [] dest
      (when_true jin (truth (fl env) (node_value c env \<sigma> ?e x y vs alt)))"
    "jcode env \<sigma> (sqliteExprIfFalse c ?e dest jin) [] [] dest
      (when_false jin (truth (fl env) (node_value c env \<sigma> ?e x y vs alt)))"
    using jcode_pre [OF assms(1)] by simp_all
qed

definition jumps_ok :: "ctx \<Rightarrow> 'r::linorder env \<Rightarrow> 'r store \<Rightarrow> expr \<Rightarrow> bool" where
  "jumps_ok c env \<sigma> e \<longleftrightarrow>
     (\<forall>dest jin. jcode env \<sigma> (sqliteExprIfTrue c e dest jin) [] [] dest (when_true jin (truth (fl env) (expr_value c env \<sigma> e)))
               \<and> jcode env \<sigma> (sqliteExprIfFalse c e dest jin) [] [] dest (when_false jin (truth (fl env) (expr_value c env \<sigma> e))))"

lemma jumps_logic:
  assumes "jumps_ok c env \<sigma> a" "jumps_ok c env \<sigma> b"
  shows "jumps_ok c env \<sigma> (Expr TK_AND dt (Some a) (Some b) xs tok tab col agg sel)"
    and "jumps_ok c env \<sigma> (Expr TK_OR dt (Some a) (Some b) xs tok tab col agg sel)"
    and "jumps_ok c env \<sigma> (Expr TK_NOT dt (Some a) r xs tok tab col agg sel)"
proof -
  let ?a = "truth (fl env) (expr_value c env \<sigma> a)" and ?b = "truth (fl env) (expr_value c env \<sigma> b)"
  have ab: "jcode env \<sigma> (sqliteExprIfTrue c a dest jin) [] [] dest (when_true jin ?a)"
    "jcode env \<sigma> (sqliteExprIfFalse c a dest jin) [] [] dest (when_false jin ?a)"
    "jcode env \<sigma> (sqliteExprIfTrue c b dest jin) [] [] dest (when_true jin ?b)"
    "jcode env \<sigma> (sqliteExprIfFalse c b dest jin) [] [] dest (when_false jin ?b)" for dest jin
    using assms by (auto simp: jumps_ok_def)
  have v: "truth (fl env) (expr_value c env \<sigma> (Expr TK_AND dt (Some a) (Some b) xs tok tab col agg sel)) = and3 ?a ?b"
    "truth (fl env) (expr_value c env \<sigma> (Expr TK_OR dt (Some a) (Some b) xs tok tab col agg sel)) = or3 ?a ?b"
    "truth (fl env) (expr_value c env \<sigma> (Expr TK_NOT dt (Some a) r xs tok tab col agg sel)) = map_option Not ?a"
    by (simp_all add: node_value_def truth_logic)
  have over: "jcode env \<sigma> (\<lambda>g. make_label g \<bind> (\<lambda>(d2, g). sqliteExprIfFalse c a d2 (\<not> jin) g \<bind>
      (\<lambda>g. sqliteExprIfTrue c b dest jin g \<bind> resolve_label d2))) [] [] dest (when_true jin (and3 ?a ?b))"
    "jcode env \<sigma> (\<lambda>g. make_label g \<bind> (\<lambda>(d2, g). sqliteExprIfTrue c a d2 (\<not> jin) g \<bind>
      (\<lambda>g. sqliteExprIfFalse c b dest jin g \<bind> resolve_label d2))) [] [] dest (when_false jin (or3 ?a ?b))" for dest jin
    unfolding when_logic by (rule jcode_over [OF ab(2) ab(3)], rule jcode_over [OF ab(1) ab(4)])
  have both: "jcode env \<sigma> (\<lambda>g. sqliteExprIfTrue c a dest jin g \<bind> sqliteExprIfTrue c b dest jin) [] [] dest (when_true jin (or3 ?a ?b))"
    "jcode env \<sigma> (\<lambda>g. sqliteExprIfFalse c a dest jin g \<bind> sqliteExprIfFalse c b dest jin) [] [] dest (when_false jin (and3 ?a ?b))" for dest jin
    unfolding when_logic by (rule jcode_bind [OF ab(1) ab(3)], rule jcode_bind [OF ab(2) ab(4)])
  have t: "sqliteExprIfTrue c (Expr TK_AND dt (Some a) (Some b) xs tok tab col agg sel) dest jin
      = (\<lambda>g. make_label g \<bind> (\<lambda>(d2, g). sqliteExprIfFalse c a d2 (\<not> jin) g \<bind> (\<lambda>g. sqliteExprIfTrue c b dest jin g \<bind> resolve_label d2)))"
    "sqliteExprIfFalse c (Expr TK_AND dt (Some a) (Some b) xs tok tab col agg sel) dest jin
      = (\<lambda>g. sqliteExprIfFalse c a dest jin g \<bind> sqliteExprIfFalse c b dest jin)"
    "sqliteExprIfTrue c (Expr TK_OR dt (Some a) (Some b) xs tok tab col agg sel) dest jin
      = (\<lambda>g. sqliteExprIfTrue c a dest jin g \<bind> sqliteExprIfTrue c b dest jin)"
    "sqliteExprIfFalse c (Expr TK_OR dt (Some a) (Some b) xs tok tab col agg sel) dest jin
      = (\<lambda>g. make_label g \<bind> (\<lambda>(d2, g). sqliteExprIfTrue c a d2 (\<not> jin) g \<bind> (\<lambda>g. sqliteExprIfFalse c b dest jin g \<bind> resolve_label d2)))"
    "sqliteExprIfTrue c (Expr TK_NOT dt (Some a) r xs tok tab col agg sel) dest jin = sqliteExprIfFalse c a dest jin"
    "sqliteExprIfFalse c (Expr TK_NOT dt (Some a) r xs tok tab col agg sel) dest jin = sqliteExprIfTrue c a dest jin" for dest jin
    by (simp_all add: fun_eq_iff)
  show "jumps_ok c env \<sigma> (Expr TK_AND dt (Some a) (Some b) xs tok tab col agg sel)"
    unfolding jumps_ok_def v t using over(1) both(2) by blast
  show "jumps_ok c env \<sigma> (Expr TK_OR dt (Some a) (Some b) xs tok tab col agg sel)"
    unfolding jumps_ok_def v t using over(2) both(1) by blast
  show "jumps_ok c env \<sigma> (Expr TK_NOT dt (Some a) r xs tok tab col agg sel)"
    unfolding jumps_ok_def v t when_logic using ab(1,2) by blast
qed

lemma jumps_default:
  assumes "code env \<sigma> (sqliteExprCode c e) [] [expr_value c env \<sigma> e]"
    and "op e \<notin> {TK_AND, TK_OR, TK_NOT, TK_ISNULL, TK_NOTNULL, TK_IN, TK_BETWEEN}" "\<not> compare_tk (op e)"
  shows "jumps_ok c env \<sigma> e"
proof -
  obtain t dt l r xs tok tab col agg sel where e: "e = Expr t dt l r xs tok tab col agg sel" by (cases e)
  have "sqliteExprIfTrue c e dest jin = (\<lambda>g. sqliteExprCode c e g \<bind> emit OP_If (flag jin) dest)"
    "sqliteExprIfFalse c e dest jin = (\<lambda>g. sqliteExprCode c e g \<bind> emit OP_IfNot (flag jin) dest)" for dest jin
    using assms(2,3) unfolding e by (simp_all add: fun_eq_iff del: sqliteExprCode.simps)
  then show ?thesis
    unfolding jumps_ok_def using jcode_pre [OF assms(1) jcode_if(1)] jcode_pre [OF assms(1) jcode_if(2)] by (simp only:) blast
qed

lemma jumps_comparison:
  assumes "code env \<sigma> (opt_code c l) [] [opt_value c env \<sigma> l]" "code env \<sigma> (opt_code c r) [] [opt_value c env \<sigma> r]"
    and "compare_tk t" "sqliteExprType (Expr t dt l r xs tok tab col agg sel) \<noteq> None"
  shows "jumps_ok c env \<sigma> (Expr t dt l r xs tok tab col agg sel)"
  unfolding jumps_ok_def expr_value.simps(1) by (intro allI conjI jcode_comparison [OF assms])

lemma jumps_unary:
  assumes "code env \<sigma> (opt_code c l) [] [opt_value c env \<sigma> l]" "quiet env \<sigma>" "t \<in> {TK_ISNULL, TK_NOTNULL, TK_IN}"
  shows "jumps_ok c env \<sigma> (Expr t dt l r xs tok tab col agg sel)"
  unfolding jumps_ok_def expr_value.simps(1) by (intro allI conjI jcode_unary [OF assms])

lemma jumps_between:
  assumes "code env \<sigma> (opt_code c l) [] [opt_value c env \<sigma> l]"
    and "code env \<sigma> (sqliteExprCode c lo) [] [expr_value c env \<sigma> lo]" "code env \<sigma> (sqliteExprCode c hi) [] [expr_value c env \<sigma> hi]"
    and "\<not> interrupted (db \<sigma>)"
  shows "jumps_ok c env \<sigma> (Expr TK_BETWEEN dt l r (Some (lo # hi # es)) tok tab col agg sel)"
proof -
  let ?e = "Expr TK_BETWEEN dt l r (Some (lo # hi # es)) tok tab col agg sel"
  have "expr_value c env \<sigma> ?e = between (fl env) (opt_value c env \<sigma> l) (expr_value c env \<sigma> lo) (expr_value c env \<sigma> hi)"
    unfolding expr_value.simps(1) node_value_def by simp
  moreover have "sqliteExprIfTrue c ?e dest jin = true_between c l lo hi dest jin"
    "sqliteExprIfFalse c ?e dest jin = false_between c l lo hi dest jin" for dest jin
    by (simp_all add: fun_eq_iff compare_tk_def)
  ultimately show ?thesis
    unfolding jumps_ok_def
    using jcode_true_between [OF assms(1-3)] jcode_false_between [OF assms] by (simp only:) blast
qed

lemma jumps_expr:
  assumes "quiet env \<sigma>"
  shows "expr_ok c (length (aMem \<sigma>)) e \<Longrightarrow> jumps_ok c env \<sigma> e"
proof (induction e rule: measure_induct_rule [of size])
  case (less e)
  obtain t dt l r xs tok tab col agg sel where e: "e = Expr t dt l r xs tok tab col agg sel" by (cases e)
  let ?Q = "\<lambda>e. code env \<sigma> (sqliteExprCode c e) [] [expr_value c env \<sigma> e] \<and> jumps_ok c env \<sigma> e"
  have Q: "?Q e'" if "size e' < size (Expr t dt l r xs tok tab col agg sel)" "expr_ok c (length (aMem \<sigma>)) e'" for e'
    using less.IH [of e'] that e code_expr [OF assms that(2)] by blast
  have sub: "\<And>a. l = Some a \<Longrightarrow> ?Q a" "\<And>a. r = Some a \<Longrightarrow> ?Q a" "\<And>es a. xs = Some es \<Longrightarrow> a \<in> set es \<Longrightarrow> ?Q a"
    using node_subterms [OF less.prems [unfolded e], of ?Q] Q by blast+
  have ok: "node_ok c (length (aMem \<sigma>)) (Expr t dt l r xs tok tab col agg sel)" using less.prems e by simp
  have l: "code env \<sigma> (opt_code c l) [] [opt_value c env \<sigma> l]" if "l \<noteq> None" using sub(1) that by auto
  have r: "code env \<sigma> (opt_code c r) [] [opt_value c env \<sigma> r]" if "r \<noteq> None" using sub(2) that by auto
  consider "t \<in> {TK_AND, TK_OR}" | "t = TK_NOT" | "compare_tk t" | "t \<in> {TK_ISNULL, TK_NOTNULL, TK_IN}" | "t = TK_BETWEEN"
    | "op e \<notin> {TK_AND, TK_OR, TK_NOT, TK_ISNULL, TK_NOTNULL, TK_IN, TK_BETWEEN}" "\<not> compare_tk (op e)"
    unfolding e by fastforce
  then show ?case
  proof cases
    case 1
    then have "l \<noteq> None" "r \<noteq> None" using ok by (auto simp: node_ok_def)
    then obtain a b where ab: "l = Some a" "r = Some b" by blast
    note j = jumps_logic(1,2) [OF conjunct2 [OF sub(1) [OF ab(1)]] conjunct2 [OF sub(2) [OF ab(2)]]]
    from 1 consider "t = TK_AND" | "t = TK_OR" by blast
    then show ?thesis unfolding e ab by cases (simp_all only: j)
  next
    case 2
    then have "l \<noteq> None" using ok by (auto simp: node_ok_def)
    then obtain a where a: "l = Some a" by blast
    note j = conjunct2 [OF sub(1) [OF a]]
    show ?thesis unfolding e a 2 by (rule jumps_logic(3) [OF j j])
  next
    case 3
    then have "l \<noteq> None" "r \<noteq> None" using ok by (auto simp: node_ok_def compare_tk_def)
    then show ?thesis using expr_ok_type [OF less.prems] unfolding e by (intro jumps_comparison l r 3)
  next
    case 4
    then have "l \<noteq> None" using ok by (auto simp: node_ok_def)
    then show ?thesis unfolding e by (intro jumps_unary l assms 4)
  next
    case 5
    then have "l \<noteq> None" using ok by (auto simp: node_ok_def)
    moreover obtain lo hi es where xs: "xs = Some (lo # hi # es)"
      using ok 5 by (auto simp: node_ok_def Suc_le_length_iff numeral_2_eq_2 split: option.splits)
    moreover have "?Q lo" "?Q hi" by (rule sub(3) [OF xs], simp)+
    moreover have "\<not> interrupted (db \<sigma>)" using assms by (simp add: quiet_def)
    ultimately show ?thesis unfolding e 5 xs by (intro jumps_between l) (elim conjE, assumption)+
  next
    case 6
    then show ?thesis using jumps_default code_expr [OF assms less.prems] by blast
  qed
qed

end
