(* ===== verification/Expr_Program.thy ===== *)
theory Expr_Program
  imports Expr_Jump
begin

text \<open>
  Whole programs: the code that the generator puts into a new program, run by the interpreter, computes
  the value of the expression or takes the jump that its truth value asks for.
\<close>

definition new_gen :: gen where
  "new_gen = \<lparr>pVdbe = sqliteVdbeCreate, nErr = 0, zErr = None\<rparr>"

definition program :: "gen \<Rightarrow> instr list" where
  "program g = take (nOp (pVdbe g)) (aOp (pVdbe g))"

text \<open>The interpreter at the start of a program, with an empty stack.\<close>

definition start :: "'r store \<Rightarrow> 'r vm" where
  "start \<sigma> = \<lparr>pc = 0, stack = [], returnStack = [], store = \<sigma>, zErrMsg = None, errorAction = 0, rc = SQLITE_OK,
     halted = False\<rparr>"

text \<open>
  Two programs around a condition: a jump over an instruction that pushes 1.
\<close>

definition jump_true :: "ctx \<Rightarrow> expr \<Rightarrow> bool \<Rightarrow> gen \<Rightarrow> gen option" where
  "jump_true c e jin g = do {
     (d, g) \<leftarrow> make_label g;
     g \<leftarrow> sqliteExprIfTrue c e d jin g;
     g \<leftarrow> emit OP_Integer 1 0 g;
     resolve_label d g
   }"

definition jump_false :: "ctx \<Rightarrow> expr \<Rightarrow> bool \<Rightarrow> gen \<Rightarrow> gen option" where
  "jump_false c e jin g = do {
     (d, g) \<leftarrow> make_label g;
     g \<leftarrow> sqliteExprIfFalse c e d jin g;
     g \<leftarrow> emit OP_Integer 1 0 g;
     resolve_label d g
   }"

lemma runs_exec:
  assumes "runs env P s s'"
  shows "\<exists>n. sqliteVdbeExec env P n s = Next s'"
  using assms unfolding runs_def
proof (induction rule: converse_rtranclp_induct)
  case base
  have "sqliteVdbeExec env P 0 s' = Next s'" by simp
  then show ?case by blast
next
  case (step s t)
  then obtain n where "sqliteVdbeExec env P n t = Next s'" by blast
  with step(1) have "sqliteVdbeExec env P (Suc n) s = Next s'" by simp
  then show ?case by blast
qed

text \<open>The finished program is linked to what the assembler holds, by the addresses of the labels.\<close>

lemma linked_program:
  assumes "asm_rel (pVdbe g) B"
  shows "linked n B (program g) (target (lab B))"
proof -
  have "program g = assemble B" using assms unfolding asm_rel_def program_def by blast
  then show ?thesis by (auto simp: linked_def assemble_def relabel_def target_def)
qed

lemma asm_rel_new: "asm_rel (pVdbe new_gen) \<lparr>sym = [], lab = []\<rparr>"
  by (simp add: asm_rel_def sqliteVdbeCreate_def assemble_def new_gen_def)

lemma gens_new:
  assumes "gens f \<lparr>sym = [], lab = []\<rparr> B"
  obtains g where "f new_gen = Some g" "nErr g = 0" "linked n B (program g) (target (lab B))" "nOp (pVdbe g) = length (sym B)"
proof -
  from gensD [OF assms asm_rel_new] obtain g where g: "f new_gen = Some g" "asm_rel (pVdbe g) B" "nErr g = 0"
    by (auto simp: new_gen_def)
  then show ?thesis using that linked_program [OF g(2)] by (auto simp: asm_rel_def)
qed

lemma store_start [simp]: "store (start \<sigma>) = \<sigma>"
  by (simp add: start_def)

lemma runs_from_start:
  assumes "runs env P (at_pc (start \<sigma>) 0 []) (at_pc (start \<sigma>) k st)"
  shows "\<exists>n. sqliteVdbeExec env P n (start \<sigma>) = Next ((start \<sigma>)\<lparr>pc := k, stack := st\<rparr>)"
proof -
  have "at_pc (start \<sigma>) 0 [] = start \<sigma>" by (simp add: start_def at_pc_def)
  then show ?thesis using runs_exec [OF assms] unfolding at_pc_def by simp
qed


lemma jump_program:
  assumes "\<And>d. jcode env \<sigma> (f d) [] [] d b"
  shows "\<exists>g n. (make_label new_gen \<bind> (\<lambda>(d, g). f d g \<bind> (\<lambda>g. emit OP_Integer 1 0 g \<bind> resolve_label d))) = Some g \<and> nErr g = 0 \<and>
    sqliteVdbeExec env (program g) n (start \<sigma>) =
      Next ((start \<sigma>)\<lparr>pc := int (nOp (pVdbe g)), stack := if b then [] else [mem_int 1]\<rparr>)"
proof -
  let ?A = "\<lparr>sym = [], lab = []\<rparr> :: opcode asm" and ?A1 = "\<lparr>sym = [], lab = [None]\<rparr> :: opcode asm"
  let ?l = "-1 :: int" and ?q = "ins OP_Integer 1 0"
  obtain B where B: "gens (f ?l) ?A1 B" "grows ?A1 B" "jexec env \<sigma> [] [] ?l b ?A1 B" using assms by (rule jcodeE)
  let ?n = "length (sym B)"
  let ?C = "\<lparr>sym = sym B @ [?q], lab = (lab B)[0 := Some (Suc ?n)]\<rparr>"
  obtain ls where ls: "lab B = None # ls" using B(2) by (auto simp: grows_def)
  have "gens (resolve_label ?l) (app B [?q]) ?C"
    using gens_resolve [of 0 "app B [?q]"] ls by (cases B) simp
  then have "gens (\<lambda>g. f ?l g \<bind> (\<lambda>g. emit OP_Integer 1 0 g \<bind> resolve_label ?l)) ?A1 ?C"
    by (intro gens_bind [OF B(1)] gens_bind [OF gens_emit])
  then have "gens (\<lambda>g. make_label g \<bind> (\<lambda>(d, g). f d g \<bind> (\<lambda>g. emit OP_Integer 1 0 g \<bind> resolve_label d))) ?A ?C"
    using gens_label [of "\<lambda>d g. f d g \<bind> (\<lambda>g. emit OP_Integer 1 0 g \<bind> resolve_label d)" ?A ?C] by simp
  then obtain g where g: "(make_label new_gen \<bind> (\<lambda>(d, g). f d g \<bind> (\<lambda>g. emit OP_Integer 1 0 g \<bind> resolve_label d))) = Some g"
      "nErr g = 0" "linked 0 ?C (program g) (target (lab ?C))" "nOp (pVdbe g) = length (sym ?C)"
    by (rule gens_new)
  let ?L = "target (lab ?C)"
  have L: "?L ?l = int (Suc ?n)" using ls by (simp add: target_def)
  have "covers 0 B ?C" by (auto simp: covers_def nth_append ls nth_Cons split: nat.splits)
  then have "linked (length (sym ?A1)) B (program g) ?L" using linked_covers [OF g(3)] by simp
  from jexecD [OF B(3) this, of "start \<sigma>" "[]"] L
  have 1: "runs env (program g) (at_pc (start \<sigma>) 0 []) (if b then at_pc (start \<sigma>) (int (Suc ?n)) [] else at_pc (start \<sigma>) (int ?n) [])"
    by (cases b) simp_all
  have "runs env (program g) (at_pc (start \<sigma>) (int ?n) []) (at_pc (start \<sigma>) (int (Suc ?n)) [mem_int 1])"
    by (rule runs_step [OF g(3)]) (auto simp: exec_simps exec_integer_def add.commute)
  from runs_trans [OF 1] this
  have "runs env (program g) (at_pc (start \<sigma>) 0 []) (at_pc (start \<sigma>) (int (nOp (pVdbe g))) (if b then [] else [mem_int 1]))"
    using 1 g(4) by (cases b) simp_all
  from runs_from_start [OF this] show ?thesis using g(1,2) by blast
qed

text \<open>
  A sample machine, whose reals are the integers, and two expressions: \<open>2+3\<close>, and \<open>2 BETWEEN 1 AND NULL\<close>,
  whose truth value is unknown.
\<close>

definition sample_env :: "int env" where
  "sample_env = \<lparr>fl = \<lparr>f_atof = (\<lambda>_. 0), f_print = (\<lambda>_. []), f_of_int = id, f_to_int = word_of_int, f_add = (+), f_sub = (-),
     f_mul = (*), f_div = (div), f_neg = uminus\<rparr>, azVar = [], column = (\<lambda>_ _. mem_null), recno = (\<lambda>_. None),
     agg_get = (\<lambda>_. mem_null), found = (\<lambda>_ _. False), xFunc = (\<lambda>_ _. (mem_null, False)), error_string = (\<lambda>_. [])\<rparr>"

definition sample_store :: "int store" where
  "sample_store = \<lparr>aMem = [], aSet = [], db = \<lparr>magic = SQLITE_MAGIC_BUSY, interrupted = False, want_to_close = False, busy_vdbe = False\<rparr>\<rparr>"

definition sample_ctx :: ctx where
  "sample_ctx = \<lparr>useAgg = False, file_format = 4, aFunc = (\<lambda>_. []), ignoreJump = None\<rparr>"

definition sample_leaf :: "tk \<Rightarrow> cstring \<Rightarrow> expr" where
  "sample_leaf t z = Expr t 0 None None None (Some z) 0 0 0 None"

definition sample_sum :: expr where
  "sample_sum = Expr TK_PLUS 0 (Some (sample_leaf TK_INTEGER [50])) (Some (sample_leaf TK_INTEGER [51])) None None 0 0 0 None"

definition sample_between :: expr where
  "sample_between = Expr TK_BETWEEN 0 (Some (sample_leaf TK_INTEGER [50])) None
     (Some [sample_leaf TK_INTEGER [49], sample_leaf TK_NULL []]) None 0 0 0 None"

lemmas sample_defs = sample_ctx_def sample_leaf_def sample_sum_def sample_between_def sample_env_def sample_store_def

lemma quiet_sample: "quiet sample_env sample_store"
  by (simp add: quiet_def sample_env_def sample_store_def)

lemma sample_sum_ok: "expr_ok sample_ctx (length (aMem sample_store)) sample_sum"
  by (simp add: sample_defs node_ok_def sqliteExprType.simps numeric_tk_def)

lemma sample_between_ok: "expr_ok sample_ctx (length (aMem sample_store)) sample_between"
  by (simp add: sample_defs node_ok_def sqliteExprType.simps numeric_tk_def text_tk_def)

lemma sample_values:
  "expr_value sample_ctx sample_env sample_store sample_sum = mem_int 5"
  "expr_value sample_ctx sample_env sample_store sample_between = mem_null"
  by code_simp+






end
