(* ===== verification/Os_File.thy ===== *)
theory Os_File
  imports Prelude
begin

text \<open>
  The files of \<^verbatim>\<open>os.c\<close> on Unix: reading, writing, seeking, truncating, syncing, and the files the pager
  works with.

  A file is its bytes with the offset of the descriptor.  The pager has three: the database, the journal and
  the checkpoint journal; only the journal comes and goes while the pager runs, so \<open>jexists\<close> says whether its
  name is in the directory.  The kernel is not part of the sources: the \<open>k\<close>-th system call has the result that
  the environment \<open>sysenv\<close> gives for \<open>k\<close>, and \<open>clock\<close> counts the calls.  A write that fails has written the first
  \<open>room\<close> bytes.

  \<open>disklog\<close> is not part of the program: it collects what is on the disk after each call that changes a file, the
  last one first, so that the theorems can speak of a program that is killed between two calls.
\<close>

definition SQLITE_PERM :: int where "SQLITE_PERM = 3"
definition SQLITE_BUSY :: int where "SQLITE_BUSY = 5"
definition SQLITE_NOMEM :: int where "SQLITE_NOMEM = 7"
definition SQLITE_IOERR :: int where "SQLITE_IOERR = 10"
definition SQLITE_CORRUPT :: int where "SQLITE_CORRUPT = 11"
definition SQLITE_FULL :: int where "SQLITE_FULL = 13"
definition SQLITE_CANTOPEN :: int where "SQLITE_CANTOPEN = 14"
definition SQLITE_PROTOCOL :: int where "SQLITE_PROTOCOL = 15"

named_theorems rc_defs \<open>the values of the result codes\<close>

lemmas [rc_defs] =
  SQLITE_OK_def SQLITE_ERROR_def SQLITE_INTERNAL_def SQLITE_DONE_def SQLITE_PERM_def SQLITE_BUSY_def SQLITE_NOMEM_def
  SQLITE_IOERR_def SQLITE_CORRUPT_def SQLITE_FULL_def SQLITE_CANTOPEN_def SQLITE_PROTOCOL_def

datatype fid = DB | JRN | CKP

datatype syscall =
    Call_read fid | Call_write fid | Call_truncate fid | Call_size fid | Call_sync fid
  | Call_readlock | Call_writelock | Call_unlock | Call_open_excl fid | Call_open_read fid | Call_malloc

text \<open>
  \<open>result\<close> is 0 where a call succeeds; \<open>fresh\<close> is what the bytes of uninitialised memory hold, \<open>random32\<close> what
  \<open>sqliteRandomness\<close> returns and \<open>native32\<close> how the machine reads four bytes as an integer.
\<close>

record sysenv =
  result :: "nat \<Rightarrow> syscall \<Rightarrow> int"
  room :: "nat \<Rightarrow> nat"
  fresh :: "nat \<Rightarrow> nat \<Rightarrow> u8"
  random32 :: "nat \<Rightarrow> u32"
  native32 :: "u8 list \<Rightarrow> u32"

record ofile =
  content :: "u8 list"
  offs :: nat

type_synonym disk = "u8 list \<times> u8 list option"

record fs =
  files :: "fid \<Rightarrow> ofile"
  jexists :: bool
  clock :: nat
  disklog :: "disk list"

definition on_disk :: "'a fs_scheme \<Rightarrow> disk" where
  "on_disk s = (content (files s DB), if jexists s then Some (content (files s JRN)) else None)"

definition logged :: "'a fs_scheme \<Rightarrow> 'a fs_scheme" where
  "logged s = s\<lparr>disklog := on_disk s # disklog s\<rparr>"

definition tick :: "'a fs_scheme \<Rightarrow> 'a fs_scheme" where
  "tick s = s\<lparr>clock := Suc (clock s)\<rparr>"

definition set_file :: "fid \<Rightarrow> ofile \<Rightarrow> 'a fs_scheme \<Rightarrow> 'a fs_scheme" where
  "set_file f F s = s\<lparr>files := (files s)(f := F)\<rparr>"

text \<open>A call that only returns a result.\<close>

definition syscall :: "sysenv \<Rightarrow> syscall \<Rightarrow> 'a fs_scheme \<Rightarrow> int \<times> 'a fs_scheme" where
  "syscall e c s = (result e (clock s) c, tick s)"

text \<open>Writing beyond the end of a file fills the gap with zeros.\<close>

definition file_write :: "u8 list \<Rightarrow> nat \<Rightarrow> u8 list \<Rightarrow> u8 list" where
  "file_write c k bs = take k (c @ replicate (k - length c) 0) @ bs @ drop (k + length bs) c"

definition file_truncate :: "u8 list \<Rightarrow> nat \<Rightarrow> u8 list" where
  "file_truncate c n = take n (c @ replicate (n - length c) 0)"

definition sqliteOsRead :: "sysenv \<Rightarrow> fid \<Rightarrow> nat \<Rightarrow> 'a fs_scheme \<Rightarrow> int \<times> u8 list \<times> 'a fs_scheme" where
  "sqliteOsRead e f amt s =
     (let F = files s f; ok = (result e (clock s) (Call_read f) = SQLITE_OK);
          got = (if ok then take amt (drop (offs F) (content F)) else [])
      in (if length got = amt then SQLITE_OK else SQLITE_IOERR, got, tick (set_file f (F\<lparr>offs := offs F + length got\<rparr>) s)))"

definition sqliteOsWrite :: "sysenv \<Rightarrow> fid \<Rightarrow> u8 list \<Rightarrow> 'a fs_scheme \<Rightarrow> int \<times> 'a fs_scheme" where
  "sqliteOsWrite e f bs s =
     (let F = files s f; ok = (result e (clock s) (Call_write f) = SQLITE_OK);
          out = (if ok then bs else take (room e (clock s)) bs)
      in (if length out < length bs then SQLITE_FULL else SQLITE_OK,
          logged (tick (set_file f \<lparr>content = file_write (content F) (offs F) out, offs = offs F + length out\<rparr> s))))"

definition sqliteOsSeek :: "fid \<Rightarrow> nat \<Rightarrow> 'a fs_scheme \<Rightarrow> 'a fs_scheme" where
  "sqliteOsSeek f k s = set_file f ((files s f)\<lparr>offs := k\<rparr>) s"

definition sqliteOsSync :: "sysenv \<Rightarrow> fid \<Rightarrow> 'a fs_scheme \<Rightarrow> int \<times> 'a fs_scheme" where
  "sqliteOsSync e f s = (if result e (clock s) (Call_sync f) = SQLITE_OK then SQLITE_OK else SQLITE_IOERR, tick s)"

definition sqliteOsTruncate :: "sysenv \<Rightarrow> fid \<Rightarrow> nat \<Rightarrow> 'a fs_scheme \<Rightarrow> int \<times> 'a fs_scheme" where
  "sqliteOsTruncate e f n s =
     (if result e (clock s) (Call_truncate f) = SQLITE_OK
      then (SQLITE_OK, logged (tick (set_file f ((files s f)\<lparr>content := file_truncate (content (files s f)) n\<rparr>) s)))
      else (SQLITE_IOERR, tick s))"

definition sqliteOsFileSize :: "sysenv \<Rightarrow> fid \<Rightarrow> 'a fs_scheme \<Rightarrow> int \<times> nat \<times> 'a fs_scheme" where
  "sqliteOsFileSize e f s =
     (if result e (clock s) (Call_size f) = SQLITE_OK then (SQLITE_OK, length (content (files s f)), tick s)
      else (SQLITE_IOERR, 0, tick s))"

text \<open>
  The calls that make and remove the journal and the checkpoint journal.  Opening a file also allocates the structures of
  its locks; a file that is deleted on close is unlinked right after it is opened.
\<close>

definition open_exclusive :: "sysenv \<Rightarrow> fid \<Rightarrow> bool \<Rightarrow> 'a fs_scheme \<Rightarrow> int \<times> 'a fs_scheme" where
  "open_exclusive e f delFlag s =
     (if f = JRN \<and> jexists s then (SQLITE_CANTOPEN, s)
      else if result e (clock s) (Call_open_excl f) \<noteq> SQLITE_OK then (SQLITE_CANTOPEN, tick s)
      else if result e (Suc (clock s)) Call_malloc \<noteq> SQLITE_OK then (SQLITE_NOMEM, tick (tick s))
      else (SQLITE_OK,
            logged (tick (tick (set_file f \<lparr>content = [], offs = 0\<rparr> s\<lparr>jexists := (if f = JRN then \<not> delFlag else jexists s)\<rparr>)))))"

definition open_read_only :: "sysenv \<Rightarrow> fid \<Rightarrow> 'a fs_scheme \<Rightarrow> int \<times> 'a fs_scheme" where
  "open_read_only e f s =
     (if result e (clock s) (Call_open_read f) \<noteq> SQLITE_OK then (SQLITE_CANTOPEN, tick s)
      else if result e (Suc (clock s)) Call_malloc \<noteq> SQLITE_OK then (SQLITE_NOMEM, tick (tick s))
      else (SQLITE_OK, tick (tick (set_file f ((files s f)\<lparr>offs := 0\<rparr>) s))))"

definition delete_journal :: "'a fs_scheme \<Rightarrow> 'a fs_scheme" where
  "delete_journal s = logged (s\<lparr>jexists := False\<rparr>)"

subsection \<open>Contents of files\<close>

lemma length_file_write [simp]: "length (file_write c k bs) = max (length c) (k + length bs)"
  by (auto simp: file_write_def max_def min_def)

lemma length_file_truncate [simp]: "length (file_truncate c n) = n"
  by (simp add: file_truncate_def)

text \<open>The \<open>n\<close> bytes from \<open>k\<close> on, with zeros where the file has ended.\<close>

definition region :: "u8 list \<Rightarrow> nat \<Rightarrow> nat \<Rightarrow> u8 list" where
  "region c k n = map (\<lambda>i. zat c (k + i)) [0..<n]"

lemma length_region [simp]: "length (region c k n) = n"
  by (simp add: region_def)

lemma region_inside: "k + n \<le> length c \<Longrightarrow> region c k n = take n (drop k c)"
  by (rule nth_equalityI) (auto simp: region_def zat_def)

lemma region_outside: "length c \<le> k \<Longrightarrow> region c k n = replicate n 0"
  by (rule nth_equalityI) (auto simp: region_def zat_def)

lemma zat_file_write:
  "zat (file_write c k bs) i = (if k \<le> i \<and> i < k + length bs then bs ! (i - k) else zat c i)"
  by (auto simp: zat_def file_write_def nth_append min_def)

lemma zat_file_truncate: "zat (file_truncate c n) i = (if i < n then zat c i else 0)"
  by (auto simp: zat_def file_truncate_def nth_append)

lemma region_file_write_same: "region (file_write c k bs) k (length bs) = bs"
  by (rule nth_equalityI) (auto simp: region_def zat_file_write)

lemma region_file_write_other:
  "k + length bs \<le> j \<or> j + n \<le> k \<Longrightarrow> region (file_write c k bs) j n = region c j n"
  by (rule nth_equalityI) (auto simp: region_def zat_file_write)

lemma region_file_truncate: "j + n \<le> m \<Longrightarrow> region (file_truncate c m) j n = region c j n"
  by (rule nth_equalityI) (auto simp: region_def zat_file_truncate)

lemma file_write_append: "k = length c \<Longrightarrow> file_write c k bs = c @ bs"
  by (simp add: file_write_def)

end
