(* ===== verification/Row_Record.thy ===== *)
theory Row_Record
  imports Mem Os_File
begin

text \<open>
  The format of the rows of a table: \<open>OP_MakeRecord\<close> packs the values of a row into a record and
  \<open>OP_Column\<close> of \<^verbatim>\<open>vdbe.c\<close> takes a value out of it again.

  A record starts with the offsets of the fields and of its end, in one, two or three bytes each; a
  field is its string with the terminator, and a NULL takes no bytes.  Sizes and offsets are natural
  numbers, as they are bounded by the size of the record in memory.
\<close>

definition MAX_BYTES_PER_ROW :: nat where "MAX_BYTES_PER_ROW = 1048576"
definition SQLITE_TOOBIG :: int where "SQLITE_TOOBIG = 18"

subsection \<open>OP_MakeRecord\<close>

text \<open>The bytes of a field, and the number of bytes of all fields (\<open>nByte\<close> after the first loop).\<close>

definition field_bytes :: "'r float_ops \<Rightarrow> 'r mem \<Rightarrow> u8 list" where
  "field_bytes fl m = (if m_null m then [] else Stringify fl m @ [0])"

definition data_size :: "'r float_ops \<Rightarrow> 'r mem list \<Rightarrow> nat" where
  "data_size fl ms = sum_list (map (length \<circ> field_bytes fl) ms)"

definition index_width :: "nat \<Rightarrow> nat \<Rightarrow> nat" where
  "index_width nByte nField =
     (if nByte + nField + 1 < 256 then 1 else if nByte + 2 * nField + 2 < 65536 then 2 else 3)"

text \<open>The stores \<open>zNewRecord[j++] = addr & 0xff\<close> and the following ones.\<close>

definition index_bytes :: "nat \<Rightarrow> nat \<Rightarrow> u8 list" where
  "index_bytes idxWidth addr =
     [of_nat addr] @ (if idxWidth > 1 then [of_nat (addr div 256)] @ (if idxWidth > 2 then [of_nat (addr div 65536)] else []) else [])"

fun index_loop :: "'r float_ops \<Rightarrow> nat \<Rightarrow> nat \<Rightarrow> 'r mem list \<Rightarrow> u8 list" where
  "index_loop fl w addr [] = index_bytes w addr"
| "index_loop fl w addr (m # ms) = index_bytes w addr @ index_loop fl w (addr + length (field_bytes fl m)) ms"

text \<open>
  \<open>P2\<close> asks for the counter \<open>uniqueCnt\<close> in a record with a NULL; \<open>unique\<close> is the counter as bytes.  The result
  is an error code or the record and the counter.
\<close>

definition make_record ::
    "'r float_ops \<Rightarrow> nat \<Rightarrow> (u32 \<Rightarrow> u8 list) \<Rightarrow> u32 \<Rightarrow> 'r mem list \<Rightarrow> int + (u8 list \<times> u32)" where
  "make_record fl p2 bytes_of uniqueCnt ms =
     (let addUnique = (if list_ex m_null ms then p2 else 0);
          nField = length ms;
          nByte = data_size fl ms + (if addUnique \<noteq> 0 then 4 else 0);
          idxWidth = index_width nByte nField;
          nByte = nByte + idxWidth * (nField + 1)
      in if nByte > MAX_BYTES_PER_ROW then Inl SQLITE_TOOBIG
         else Inr (index_loop fl idxWidth (idxWidth * (nField + 1) + addUnique * 4) ms
                     @ (if addUnique \<noteq> 0 then bytes_of uniqueCnt else [])
                     @ concat (map (field_bytes fl) ms),
                   if addUnique \<noteq> 0 then uniqueCnt + 1 else uniqueCnt))"

subsection \<open>OP_Column\<close>

text \<open>
  The outcome: NULL, the bytes of a string with its terminator, an error, or a read of the header
  behind the end of the record.
\<close>

datatype column_result = Col_null | Col_string "u8 list" | Col_error int | Col_overrun

definition read_width :: "nat \<Rightarrow> nat" where
  "read_width payloadSize = (if payloadSize < 256 then 1 else if payloadSize < 65536 then 2 else 3)"

definition header_value :: "nat \<Rightarrow> u8 list \<Rightarrow> nat" where
  "header_value w aHdr =
     unat (aHdr ! 0) + (if w > 1 then unat (aHdr ! 1) * 256 + (if w > 2 then unat (aHdr ! 2) * 65536 else 0) else 0)"

definition read_column :: "u8 list \<Rightarrow> nat \<Rightarrow> column_result" where
  "read_column zRec p2 =
     (let payloadSize = length zRec; w = read_width payloadSize;
          aHdr = take (2 * w) (drop (w * p2) zRec);
          offset = header_value w aHdr; end = header_value w (drop w aHdr)
      in if payloadSize = 0 then Col_null
         else if payloadSize < w * (p2 + 1) then Col_error SQLITE_CORRUPT
         else if payloadSize < w * (p2 + 2) then Col_overrun
         else if end < offset \<or> end > payloadSize then Col_error SQLITE_CORRUPT
         else if end = offset then Col_null
         else Col_string (take (end - offset) (drop offset zRec)))"

subsection \<open>Reading what was written\<close>

lemma length_index_bytes: "w \<in> {1, 2, 3} \<Longrightarrow> length (index_bytes w a) = w"
  by (auto simp: index_bytes_def)

lemma header_value_index:
  assumes "w \<in> {1, 2, 3}" "a < 256 ^ w"
  shows "header_value w (index_bytes w a @ r) = a"
proof -
  have "a div 65536 mod 256 = a div 65536" if "w = 3" using assms(2) that by simp
  moreover have "a div 256 mod 256 = a div 256" if "w = 2" using assms(2) that by simp
  moreover have "a mod 256 + a div 256 mod 256 * 256 + a div 65536 * 65536 = a"
  proof -
    have "a = a div 256 * 256 + a mod 256" "a div 256 = a div 65536 * 256 + a div 256 mod 256"
      using div_mult_mod_eq [of a 256] div_mult_mod_eq [of "a div 256" 256] by (simp_all add: div_mult2_eq [symmetric])
    then show ?thesis by linarith
  qed
  moreover have "a mod 256 + a div 256 * 256 = a" by (simp add: mod_div_mult_eq)
  ultimately show ?thesis
    using assms by (auto simp: header_value_def index_bytes_def unat_of_nat)
qed

lemma index_loop_start: "\<exists>r. index_loop fl w a ms = index_bytes w a @ r"
  by (cases ms) auto

lemma length_index_loop: "w \<in> {1, 2, 3} \<Longrightarrow> length (index_loop fl w a ms) = w * (length ms + 1)"
  by (induction ms arbitrary: a) (auto simp: length_index_bytes)

lemma drop_index_loop:
  assumes "w \<in> {1, 2, 3}"
  shows "i \<le> length ms \<Longrightarrow>
    drop (w * i) (index_loop fl w a ms) = index_loop fl w (a + data_size fl (take i ms)) (drop i ms)"
proof (induction ms arbitrary: i a)
  case (Cons m ms)
  show ?case
  proof (cases i)
    case (Suc j)
    have "drop (w * i) (index_loop fl w a (m # ms)) = drop (w * j) (index_loop fl w (a + length (field_bytes fl m)) ms)"
      using length_index_bytes [OF assms, of a] Suc by simp
    then show ?thesis using Cons Suc by (simp add: data_size_def add.assoc)
  qed (simp add: data_size_def)
qed (simp add: data_size_def)

lemma take_index_loop:
  assumes "w \<in> {1, 2, 3}" "i < length ms"
  shows "take (2 * w) (drop (w * i) (index_loop fl w a ms @ rest)) =
    index_bytes w (a + data_size fl (take i ms)) @ index_bytes w (a + data_size fl (take (Suc i) ms))"
proof -
  let ?o = "a + data_size fl (take i ms)"
  have "w * i \<le> w * (length ms + 1)" using assms(2) by (intro mult_le_mono2) simp
  then have i: "w * i \<le> length (index_loop fl w a ms)" unfolding length_index_loop [OF assms(1)] .
  have "drop (w * i) (index_loop fl w a ms) = index_loop fl w ?o (ms ! i # drop (Suc i) ms)"
    using drop_index_loop [OF assms(1), of i ms] assms(2) by (simp add: Cons_nth_drop_Suc)
  moreover obtain r where "index_loop fl w (?o + length (field_bytes fl (ms ! i))) (drop (Suc i) ms)
      = index_bytes w (?o + length (field_bytes fl (ms ! i))) @ r" using index_loop_start by blast
  moreover have "data_size fl (take (Suc i) ms) = data_size fl (take i ms) + length (field_bytes fl (ms ! i))"
    using assms(2) by (simp add: data_size_def take_Suc_conv_app_nth)
  ultimately show ?thesis
    using i length_index_bytes [OF assms(1)] by (simp add: add.assoc)
qed

lemma data_size_split: "data_size fl (xs @ ys) = data_size fl xs + data_size fl ys"
  by (simp add: data_size_def)

lemma length_data: "length (concat (map (field_bytes fl) ms)) = data_size fl ms"
  by (simp add: data_size_def length_concat comp_def)

lemma take_data:
  assumes "i < length ms"
  shows "take (length (field_bytes fl (ms ! i))) (drop (data_size fl (take i ms)) (concat (map (field_bytes fl) ms)))
    = field_bytes fl (ms ! i)"
proof -
  have "ms = take i ms @ ms ! i # drop (Suc i) ms" using assms by (simp add: id_take_nth_drop)
  then have "concat (map (field_bytes fl) ms) = concat (map (field_bytes fl) (take i ms))
      @ field_bytes fl (ms ! i) @ concat (map (field_bytes fl) (drop (Suc i) ms))"
    by (metis concat.simps(2) concat_append list.simps(9) map_append)
  then show ?thesis using length_data [of fl "take i ms"] by simp
qed

lemma width_agrees:
  fixes nByte nField :: nat
  defines "w \<equiv> index_width nByte nField"
  shows "w \<in> {1, 2, 3}" "read_width (nByte + w * (nField + 1)) = w"
    "nByte + w * (nField + 1) \<le> MAX_BYTES_PER_ROW \<Longrightarrow> nByte + w * (nField + 1) < 256 ^ w"
  by (auto simp: w_def index_width_def read_width_def MAX_BYTES_PER_ROW_def)

text \<open>
  C8. Records can be read: \<open>OP_MakeRecord\<close> fails with \<open>SQLITE_TOOBIG\<close> or builds a record within the size
  limit from which \<open>OP_Column\<close> gives back every value, with its terminator, and NULL for a NULL, whatever the
  width of the offsets and whether or not a unique counter was added.
\<close>
theorem make_record_column:
  assumes "p2 \<le> 1" "\<And>n. length (bytes_of n) = 4"
  shows "make_record fl p2 bytes_of n ms = Inl SQLITE_TOOBIG \<and> data_size fl ms + 3 * length ms + 7 > MAX_BYTES_PER_ROW \<or>
    (\<exists>r n'. make_record fl p2 bytes_of n ms = Inr (r, n') \<and> length r \<le> MAX_BYTES_PER_ROW \<and>
      (\<forall>i < length ms. read_column r i =
         (if m_null (ms ! i) then Col_null else Col_string (Stringify fl (ms ! i) @ [0]))))"
proof -
  define au where "au = (if list_ex m_null ms then p2 else 0)"
  define extra where "extra = (if au \<noteq> 0 then bytes_of n else [])"
  have au: "au * 4 = length extra" "length extra = (if au \<noteq> 0 then 4 else 0)"
    using assms by (auto simp: au_def extra_def)
  define w where "w = index_width (data_size fl ms + length extra) (length ms)"
  note w = width_agrees [of "data_size fl ms + length extra" "length ms", folded w_def]
  define a where "a = w * (length ms + 1) + length extra"
  define r where "r = index_loop fl w a ms @ extra @ concat (map (field_bytes fl) ms)"
  define size where "size = data_size fl ms + length extra + w * (length ms + 1)"
  have len: "length r = size"
    by (simp add: r_def size_def length_data length_index_loop [OF w(1)])
  have mk: "make_record fl p2 bytes_of n ms =
      (if size > MAX_BYTES_PER_ROW then Inl SQLITE_TOOBIG else Inr (r, if au \<noteq> 0 then n + 1 else n))"
    unfolding make_record_def Let_def au_def [symmetric] au(2) [symmetric] w_def [symmetric] au(1)
    by (simp add: size_def r_def a_def extra_def)
  have col: "read_column r i = (if m_null (ms ! i) then Col_null else Col_string (Stringify fl (ms ! i) @ [0]))"
    if i: "i < length ms" and fits: "size \<le> MAX_BYTES_PER_ROW" for i
  proof -
    let ?o = "a + data_size fl (take i ms)" and ?f = "field_bytes fl (ms ! i)"
    have d: "data_size fl (take (Suc i) ms) = data_size fl (take i ms) + length ?f"
      using i by (simp add: data_size_def take_Suc_conv_app_nth)
    have "data_size fl (take (Suc i) ms) \<le> data_size fl ms"
      using data_size_split [of fl "take (Suc i) ms" "drop (Suc i) ms"] by simp
    then have e: "?o + length ?f \<le> size" using d by (simp add: a_def size_def)
    have small: "size < 256 ^ w" using w(3) fits by (simp add: size_def)
    have rw: "read_width (length r) = w" using w(2) len by (simp add: size_def)
    have h: "take (2 * w) (drop (w * i) r) = index_bytes w ?o @ index_bytes w (?o + length ?f)"
      unfolding r_def take_index_loop [OF w(1) i] d by (simp add: add.assoc)
    then have o: "header_value w (take (2 * w) (drop (w * i) r)) = ?o"
      using header_value_index [OF w(1)] e small by simp
    have e': "header_value w (drop w (take (2 * w) (drop (w * i) r))) = ?o + length ?f"
      using header_value_index [OF w(1), of _ "[]"] e small h length_index_bytes [OF w(1)] by simp
    have "w * (i + 2) \<le> w * (length ms + 1)" by (rule mult_le_mono2) (use i in simp)
    then have hdr: "\<not> size < w * (i + 2)" "\<not> size < w * (i + 1)" by (auto simp: size_def algebra_simps)
    have "take (length ?f) (drop ?o r) = ?f"
      using take_data [OF i, of fl] by (simp add: r_def a_def length_index_loop [OF w(1)])
    then have "read_column r i = (if ?f = [] then Col_null else Col_string ?f)"
      unfolding read_column_def Let_def rw o e' using hdr e len w(1) by (auto simp: size_def)
    then show ?thesis by (simp add: field_bytes_def)
  qed
  show ?thesis
  proof (cases "size > MAX_BYTES_PER_ROW")
    case True
    moreover have "w * (length ms + 1) \<le> 3 * (length ms + 1)" by (rule mult_le_mono1) (use w(1) in auto)
    ultimately show ?thesis using mk au(2) by (auto simp: size_def split: if_splits)
  next
    case False
    then show ?thesis using mk col len by auto
  qed
qed

text \<open>Sample operations in place of floating point.\<close>

definition sample_ops :: "int float_ops" where
  "sample_ops = \<lparr>f_atof = (\<lambda>z. int (length z)), f_print = (\<lambda>_. []), f_of_int = id, f_to_int = word_of_int, f_add = (+),
     f_sub = (-), f_mul = (*), f_div = (div), f_neg = uminus\<rparr>"

theorem make_record_column_witness:
  "(\<exists>r n'. make_record sample_ops 1 (\<lambda>_. [0, 0, 0, 0]) 0 [mem_null, mem_str [97, 98]] = Inr (r, n') \<and>
      read_column r 0 = Col_null \<and> read_column r 1 = Col_string [97, 98, 0])"
proof -
  have "data_size sample_ops [mem_null, mem_str [97, 98]] = 3"
    by (simp add: data_size_def field_bytes_def mem_null_def mem_str_def Stringify_def)
  then show ?thesis
    using make_record_column [of 1 "\<lambda>_. [0, 0, 0, 0]" sample_ops 0 "[mem_null, mem_str [97, 98]]"]
    by (auto simp: MAX_BYTES_PER_ROW_def less_Suc_eq mem_null_def mem_str_def Stringify_def)
qed

end
