(* ===== verification/Sorter.thy ===== *)
theory Sorter
  imports Row_Record "HOL-Library.Multiset"
begin

text \<open>
  The sorter of the virtual machine (\<open>struct Sorter\<close> of \<^verbatim>\<open>vdbeInt.h\<close>, \<open>Merge\<close> and the opcodes
  \<open>OP_SortMakeRec\<close>, \<open>OP_SortMakeKey\<close>, \<open>OP_SortPut\<close>, \<open>OP_Sort\<close>, \<open>OP_SortNext\<close> and \<open>OP_SortReset\<close> of
  \<^verbatim>\<open>vdbe.c\<close>): a merge sort on linked lists with an array of 30 buckets.

  A linked list of \<open>Sorter\<close> structures is a list and a null pointer the empty list; an operation is
  \<open>None\<close> where an assertion fails.  The stack holds values, and the records and keys that the sorter's
  opcodes build.
\<close>

record sorter =
  zKey :: "u8 list"
  pData :: "cstring option list"

definition NSORT :: nat where "NSORT = 30"

datatype 'r entry = Value "'r mem" | Record "cstring option list" | Key "u8 list"

record 'r sort_vm =
  sort_stack :: "'r entry list"
  pSort :: "sorter list"

subsection \<open>Operations\<close>

text \<open>
  The loop of \<open>Merge\<close>; \<open>cmp l r\<close> is \<open>sqliteSortCompare(pLeft->zKey, pRight->zKey)\<close>.
\<close>

fun Merge :: "('a \<Rightarrow> 'a \<Rightarrow> int option) \<Rightarrow> 'a list \<Rightarrow> 'a list \<Rightarrow> 'a list option" where
  "Merge cmp (l # ls) (r # rs) =
     (case cmp l r of
        None \<Rightarrow> None
      | Some c \<Rightarrow>
          if c \<le> 0 then map_option ((#) l) (Merge cmp ls (r # rs))
          else map_option ((#) r) (Merge cmp (l # ls) rs))"
| "Merge cmp ls [] = Some ls"
| "Merge cmp [] rs = Some rs"

text \<open>
  The inner loop of \<open>OP_Sort\<close> over the buckets from index \<open>i\<close> on: an empty bucket takes the list, a full
  one is merged with it and emptied, and the last bucket collects what is left.
\<close>

fun bucket_loop :: "('a \<Rightarrow> 'a \<Rightarrow> int option) \<Rightarrow> 'a list list \<Rightarrow> 'a list \<Rightarrow> 'a list list option" where
  "bucket_loop cmp [] elem = None"
| "bucket_loop cmp [b] elem = map_option (\<lambda>e. [e]) (Merge cmp b elem)"
| "bucket_loop cmp (b # c # bs) elem =
     (if b = [] then Some (elem # c # bs)
      else Option.bind (Merge cmp b elem) (\<lambda>e. map_option ((#) []) (bucket_loop cmp (c # bs) e)))"

fun sort_loop :: "('a \<Rightarrow> 'a \<Rightarrow> int option) \<Rightarrow> 'a list list \<Rightarrow> 'a list \<Rightarrow> 'a list list option" where
  "sort_loop cmp apSorter [] = Some apSorter"
| "sort_loop cmp apSorter (e # es) =
     Option.bind (bucket_loop cmp apSorter [e]) (\<lambda>apSorter. sort_loop cmp apSorter es)"

fun merge_all :: "('a \<Rightarrow> 'a \<Rightarrow> int option) \<Rightarrow> 'a list list \<Rightarrow> 'a list \<Rightarrow> 'a list option" where
  "merge_all cmp [] elem = Some elem"
| "merge_all cmp (b # bs) elem = Option.bind (Merge cmp b elem) (merge_all cmp bs)"

definition sort_list :: "('a \<Rightarrow> 'a \<Rightarrow> int option) \<Rightarrow> 'a list \<Rightarrow> 'a list option" where
  "sort_list cmp xs =
     Option.bind (sort_loop cmp (replicate NSORT []) xs) (\<lambda>apSorter. merge_all cmp apSorter [])"

definition exec_sort :: "(cstring \<Rightarrow> 'k::linorder) \<Rightarrow> 'r sort_vm \<Rightarrow> 'r sort_vm option" where
  "exec_sort atof s =
     map_option (\<lambda>l. s\<lparr>pSort := l\<rparr>)
       (sort_list (\<lambda>l r. sqliteSortCompare atof (zKey l) (zKey r)) (pSort s))"

text \<open>The values of the topmost entries, the lowest first; \<open>None\<close> is NULL.\<close>

fun arg_values :: "'r float_ops \<Rightarrow> 'r entry list \<Rightarrow> cstring option list option" where
  "arg_values fl [] = Some []"
| "arg_values fl (Value m # es) =
     map_option ((#) (if m_null m then None else Some (Stringify fl m))) (arg_values fl es)"
| "arg_values fl (_ # es) = None"

definition exec_sortmakerec :: "'r float_ops \<Rightarrow> nat \<Rightarrow> 'r sort_vm \<Rightarrow> 'r sort_vm option" where
  "exec_sortmakerec fl nField s =
     (if length (sort_stack s) < nField then None
      else map_option (\<lambda>vs. s\<lparr>sort_stack := Record vs # drop nField (sort_stack s)\<rparr>)
             (arg_values fl (rev (take nField (sort_stack s)))))"

text \<open>The loop of \<open>OP_SortMakeKey\<close> that fills \<open>zNewKey\<close>; \<open>k\<close> walks through \<open>P3\<close>.\<close>

fun key_loop :: "cstring \<Rightarrow> cstring option list \<Rightarrow> nat \<Rightarrow> u8 list" where
  "key_loop p3 [] k = [0]"
| "key_loop p3 (None # vs) k = 78 # 0 # key_loop p3 vs (k + 1)"
| "key_loop p3 (Some z # vs) k = zat p3 k # z @ [0] @ key_loop p3 vs (k + 1)"

definition exec_sortmakekey :: "'r float_ops \<Rightarrow> cstring \<Rightarrow> 'r sort_vm \<Rightarrow> 'r sort_vm option" where
  "exec_sortmakekey fl p3 s =
     (let nField = length p3
      in if length (sort_stack s) < nField then None
         else map_option (\<lambda>vs. s\<lparr>sort_stack := Key (key_loop p3 vs 0) # drop nField (sort_stack s)\<rparr>)
                (arg_values fl (rev (take nField (sort_stack s)))))"

definition exec_sortput :: "'r sort_vm \<Rightarrow> 'r sort_vm option" where
  "exec_sortput s =
     (case sort_stack s of
        Key k # Record d # st \<Rightarrow> Some (s\<lparr>sort_stack := st, pSort := \<lparr>zKey = k, pData = d\<rparr> # pSort s\<rparr>)
      | _ \<Rightarrow> None)"

text \<open>\<open>OP_SortNext\<close>: \<open>False\<close> is the jump to \<open>P2\<close>.\<close>

definition exec_sortnext :: "'r sort_vm \<Rightarrow> bool \<times> 'r sort_vm" where
  "exec_sortnext s =
     (case pSort s of
        e # es \<Rightarrow> (True, s\<lparr>pSort := es, sort_stack := Record (pData e) # sort_stack s\<rparr>)
      | [] \<Rightarrow> (False, s))"

definition sqliteVdbeSorterReset :: "'r sort_vm \<Rightarrow> 'r sort_vm" where
  "sqliteVdbeSorterReset s = s\<lparr>pSort := []\<rparr>"

subsection \<open>A merge sort for any comparison\<close>

text \<open>
  What the sorter relies on: a comparison function that is defined on the keys and is a comparator
  there.  The result is a stable sort: a sorted permutation that keeps the order of equal elements.
\<close>

locale sort_client = comparator cmp C for cmp :: "'a \<Rightarrow> 'a \<Rightarrow> int" and C +
  fixes compare :: "'a \<Rightarrow> 'a \<Rightarrow> int option"
  assumes compare_eq: "a \<in> C \<Longrightarrow> b \<in> C \<Longrightarrow> compare a b = Some (cmp a b)"
begin

abbreviation ordered :: "'a list \<Rightarrow> bool" where
  "ordered \<equiv> sorted_wrt (\<lambda>a b. cmp a b \<le> 0)"

abbreviation same :: "'a \<Rightarrow> 'a list \<Rightarrow> 'a list" where
  "same a \<equiv> filter (\<lambda>b. cmp a b = 0)"

definition sorts :: "'a list \<Rightarrow> 'a list \<Rightarrow> bool" where
  "sorts xs ys \<longleftrightarrow> mset ys = mset xs \<and> ordered ys \<and> (\<forall>a \<in> C. same a ys = same a xs)"

lemma sorts_set: "sorts xs ys \<Longrightarrow> set ys = set xs"
  unfolding sorts_def by (metis set_mset_mset)

lemma Merge_step:
  assumes "l \<in> C" "r \<in> C" "set ls \<subseteq> C" "set rs \<subseteq> C" "ordered (l # ls)" "ordered (r # rs)"
    and "cmp l r \<le> 0" "set ys = set ls \<union> set (r # rs)" "ordered ys"
  shows "ordered (l # ys)"
proof -
  have "cmp l b \<le> 0" if "b \<in> set rs" for b
    using cmp_trans [of l r b] assms that by auto
  then show ?thesis using assms by auto
qed

lemma Merge_step':
  assumes "l \<in> C" "r \<in> C" "set ls \<subseteq> C" "set rs \<subseteq> C" "ordered (l # ls)" "ordered (r # rs)"
    and "\<not> cmp l r \<le> 0" "set ys = set (l # ls) \<union> set rs" "ordered ys"
  shows "ordered (r # ys)"
proof -
  have rl: "cmp r l \<le> 0" using cmp_total [of l r] assms by auto
  have "cmp r b \<le> 0" if "b \<in> set ls" for b
    using cmp_trans [of r l b] assms that rl by auto
  then show ?thesis using assms rl by auto
qed

text \<open>An element after a smaller one is not equal to any element of the larger list.\<close>

lemma same_before:
  assumes "l \<in> C" "r \<in> C" "set ls \<subseteq> C" "ordered (l # ls)" "\<not> cmp l r \<le> 0" "a \<in> C" "cmp a r = 0"
  shows "same a (l # ls) = []"
proof -
  have "cmp a b \<noteq> 0" if "b \<in> set (l # ls)" for b
  proof
    assume ab: "cmp a b = 0"
    have b: "b \<in> C" using that assms by auto
    have "cmp l b \<le> 0" using that assms by auto
    moreover have "cmp b a \<le> 0" using cmp_eq_sym [OF assms(6) b ab] by simp
    ultimately have "cmp l a \<le> 0" using cmp_trans assms(1,6) b by blast
    then have "cmp l r \<le> 0" using cmp_trans [of l a r] assms by simp
    with assms(5) show False by simp
  qed
  then show ?thesis by (auto simp: filter_empty_conv)
qed

lemma Merge_sorts:
  assumes "set ls \<subseteq> C" "set rs \<subseteq> C" "ordered ls" "ordered rs"
  shows "\<exists>ys. Merge compare ls rs = Some ys \<and> mset ys = mset ls + mset rs \<and> ordered ys \<and>
    (\<forall>a \<in> C. same a ys = same a ls @ same a rs)"
  using assms
proof (induction c \<equiv> compare ls rs rule: Merge.induct)
  case (1 l ls r rs)
  then have c: "compare l r = Some (cmp l r)" using compare_eq [of l r] by simp
  show ?case
  proof (cases "cmp l r \<le> 0")
    case True
    then obtain ys where ys: "Merge compare ls (r # rs) = Some ys" "mset ys = mset ls + mset (r # rs)" "ordered ys"
        "\<forall>a \<in> C. same a ys = same a ls @ same a (r # rs)"
      using 1 c by auto
    have "set ys = set ls \<union> set (r # rs)" using ys(2) by (metis set_mset_mset set_mset_union)
    then have "ordered (l # ys)" using Merge_step [of l r ls rs ys] 1 True ys(3) by simp
    then show ?thesis using 1 c True ys by auto
  next
    case False
    then obtain ys where ys: "Merge compare (l # ls) rs = Some ys" "mset ys = mset (l # ls) + mset rs" "ordered ys"
        "\<forall>a \<in> C. same a ys = same a (l # ls) @ same a rs"
      using 1 c by auto
    have "set ys = set (l # ls) \<union> set rs" using ys(2) by (metis set_mset_mset set_mset_union)
    then have o: "ordered (r # ys)" using Merge_step' [of l r ls rs ys] 1 False ys(3) by simp
    have "same a (r # ys) = same a (l # ls) @ same a (r # rs)" if "a \<in> C" for a
      using same_before [of l r ls a] 1 False ys(4) that by auto
    with o show ?thesis using 1 c False ys by auto
  qed
qed auto

text \<open>
  The buckets hold the elements seen so far; those of a bucket with a higher index came first.
\<close>

definition gathered :: "'a list list \<Rightarrow> 'a list" where
  "gathered bs = concat (rev bs)"

definition buckets_ok :: "'a list \<Rightarrow> 'a list list \<Rightarrow> bool" where
  "buckets_ok xs bs \<longleftrightarrow>
     mset (gathered bs) = mset xs \<and> (\<forall>b \<in> set bs. ordered b) \<and> (\<forall>a \<in> C. same a (gathered bs) = same a xs)"

lemma gathered_simps [simp]: "gathered [] = []" "gathered (b # bs) = gathered bs @ b"
  by (simp_all add: gathered_def)

lemma bucket_loop_ok:
  assumes "bs \<noteq> []" "\<forall>b \<in> set bs. ordered b \<and> set b \<subseteq> C" "ordered elem" "set elem \<subseteq> C"
  shows "\<exists>cs. bucket_loop compare bs elem = Some cs \<and> length cs = length bs \<and>
    mset (gathered cs) = mset (gathered bs) + mset elem \<and> (\<forall>b \<in> set cs. ordered b) \<and>
    (\<forall>a \<in> C. same a (gathered cs) = same a (gathered bs) @ same a elem)"
  using assms
proof (induction c \<equiv> compare bs elem rule: bucket_loop.induct)
  case (2 b elem)
  then obtain e where "Merge compare b elem = Some e" "mset e = mset b + mset elem" "ordered e"
      "\<forall>a \<in> C. same a e = same a b @ same a elem"
    using Merge_sorts [of b elem] by auto
  then show ?case by auto
next
  case (3 b c bs elem)
  show ?case
  proof (cases "b = []")
    case True
    then show ?thesis using "3.prems" by simp
  next
    case False
    obtain e where e: "Merge compare b elem = Some e" "mset e = mset b + mset elem" "ordered e"
        "\<forall>a \<in> C. same a e = same a b @ same a elem"
      using Merge_sorts [of b elem] 3 by auto
    have "set e \<subseteq> C" using e(2) 3(3,5) by (metis Un_subset_iff list.set_intros(1) set_mset_mset set_mset_union)
    then obtain cs where "bucket_loop compare (c # bs) e = Some cs" "length cs = length (c # bs)"
        "mset (gathered cs) = mset (gathered (c # bs)) + mset e" "\<forall>b \<in> set cs. ordered b"
        "\<forall>a \<in> C. same a (gathered cs) = same a (gathered (c # bs)) @ same a e"
      using 3 e(1,3) False by auto
    then show ?thesis using e(1,2,4) False by (intro exI [of _ "[] # cs"]) simp
  qed
qed simp

lemma buckets_ok_set:
  assumes "buckets_ok xs bs" "set xs \<subseteq> C"
  shows "\<forall>b \<in> set bs. ordered b \<and> set b \<subseteq> C"
proof -
  have "set (gathered bs) = set xs" using assms(1) unfolding buckets_ok_def by (metis set_mset_mset)
  moreover have "set b \<subseteq> set (gathered bs)" if "b \<in> set bs" for b
    using that by (auto simp: gathered_def)
  ultimately show ?thesis using assms unfolding buckets_ok_def by blast
qed

lemma sort_loop_ok:
  assumes "bs \<noteq> []" "buckets_ok xs bs" "set xs \<subseteq> C" "set es \<subseteq> C"
  shows "\<exists>cs. sort_loop compare bs es = Some cs \<and> buckets_ok (xs @ es) cs"
  using assms
proof (induction es arbitrary: bs xs)
  case Nil
  then show ?case by simp
next
  case (Cons e es)
  have "\<forall>b \<in> set bs. ordered b \<and> set b \<subseteq> C" using Cons.prems by (intro buckets_ok_set)
  then obtain cs where cs: "bucket_loop compare bs [e] = Some cs" "length cs = length bs"
      "mset (gathered cs) = mset (gathered bs) + mset [e]" "\<forall>b \<in> set cs. ordered b"
      "\<forall>a \<in> C. same a (gathered cs) = same a (gathered bs) @ same a [e]"
    using bucket_loop_ok [OF Cons.prems(1), of "[e]"] Cons.prems(4) by auto
  then have "buckets_ok (xs @ [e]) cs" using Cons.prems(2) by (simp add: buckets_ok_def)
  moreover have "cs \<noteq> []" using cs(2) Cons.prems(1) by auto
  ultimately show ?case using Cons.IH [of cs "xs @ [e]"] Cons.prems cs(1) by simp
qed

lemma merge_all_ok:
  assumes "\<forall>b \<in> set bs. ordered b \<and> set b \<subseteq> C" "ordered elem" "set elem \<subseteq> C"
  shows "\<exists>ys. merge_all compare bs elem = Some ys \<and> sorts (gathered bs @ elem) ys"
  using assms
proof (induction bs arbitrary: elem)
  case Nil
  then show ?case by (simp add: sorts_def)
next
  case (Cons b bs)
  obtain e where e: "Merge compare b elem = Some e" "mset e = mset b + mset elem" "ordered e"
      "\<forall>a \<in> C. same a e = same a b @ same a elem"
    using Merge_sorts [of b elem] Cons.prems by auto
  have "set e \<subseteq> C" using e(2) Cons.prems by (metis Un_subset_iff list.set_intros(1) set_mset_mset set_mset_union)
  then obtain ys where "merge_all compare bs e = Some ys" "sorts (gathered bs @ e) ys"
    using Cons e(3) by (metis list.set_intros(2))
  then show ?case using e by (auto simp: sorts_def)
qed

text \<open>The sort always succeeds, whatever the number of elements.\<close>

lemma sort_list_sorts:
  assumes "set xs \<subseteq> C"
  shows "\<exists>ys. sort_list compare xs = Some ys \<and> sorts xs ys"
proof -
  have "buckets_ok [] (replicate NSORT [])"
    by (auto simp: buckets_ok_def gathered_def)
  then obtain bs where bs: "sort_loop compare (replicate NSORT []) xs = Some bs" "buckets_ok xs bs"
    using sort_loop_ok [of "replicate NSORT []" "[]" xs] assms by (auto simp: NSORT_def)
  from merge_all_ok [OF buckets_ok_set [OF bs(2) assms], of "[]"] obtain ys where "merge_all compare bs [] = Some ys" "sorts (gathered bs) ys"
    by auto
  then show ?thesis using bs by (auto simp: sort_list_def sorts_def buckets_ok_def)
qed

lemmas sort_list_stable = sort_list_sorts [unfolded sorts_def]

end

subsection \<open>The sorter on rows\<close>

text \<open>The sort commutes with a change of the representation of the elements.\<close>

lemma Merge_map:
  "Merge cmp (map f ls) (map f rs) = map_option (map f) (Merge (\<lambda>a b. cmp (f a) (f b)) ls rs)"
  by (induction "\<lambda>a b. cmp (f a) (f b)" ls rs rule: Merge.induct)
    (auto simp: option.map_comp o_def split: option.splits)

lemma bucket_loop_map:
  "bucket_loop cmp (map (map f) bs) (map f e) =
     map_option (map (map f)) (bucket_loop (\<lambda>a b. cmp (f a) (f b)) bs e)"
proof (induction "\<lambda>a b. cmp (f a) (f b)" bs e rule: bucket_loop.induct)
  case (3 b c bs e)
  then show ?case
    by (cases "Merge (\<lambda>a b. cmp (f a) (f b)) b e") (auto simp: Merge_map option.map_comp o_def)
qed (simp_all add: Merge_map option.map_comp o_def)

lemma sort_loop_map:
  "sort_loop cmp (map (map f) bs) (map f xs) =
     map_option (map (map f)) (sort_loop (\<lambda>a b. cmp (f a) (f b)) bs xs)"
proof (induction xs arbitrary: bs)
  case (Cons x xs)
  then show ?case
    using bucket_loop_map [of cmp f bs "[x]"]
    by (cases "bucket_loop (\<lambda>a b. cmp (f a) (f b)) bs [x]") auto
qed simp

lemma merge_all_map:
  "merge_all cmp (map (map f) bs) (map f e) = map_option (map f) (merge_all (\<lambda>a b. cmp (f a) (f b)) bs e)"
proof (induction bs arbitrary: e)
  case (Cons b bs)
  then show ?case by (cases "Merge (\<lambda>a b. cmp (f a) (f b)) b e") (auto simp: Merge_map)
qed simp

lemma sort_list_map:
  "sort_list cmp (map f xs) = map_option (map f) (sort_list (\<lambda>a b. cmp (f a) (f b)) xs)"
  using sort_loop_map [of cmp f "replicate NSORT []" xs] merge_all_map [of cmp f _ "[]"]
  by (cases "sort_loop (\<lambda>a b. cmp (f a) (f b)) (replicate NSORT []) xs") (auto simp: sort_list_def)

text \<open>
  A row: the values that are returned and those it is sorted by.  The keys of the rows compare as the
  rows do, column by column.
\<close>

type_synonym row = "cstring option list \<times> cstring option list"

definition row_elem :: "cstring \<Rightarrow> row \<Rightarrow> sorter" where
  "row_elem ds r = \<lparr>zKey = sort_key ds (snd r), pData = fst r\<rparr>"

definition row_compare :: "(cstring \<Rightarrow> 'k::linorder) \<Rightarrow> cstring \<Rightarrow> row \<Rightarrow> row \<Rightarrow> int" where
  "row_compare atof ds a b = lex_compare (sort_column atof) ds (snd a) (snd b)"

definition rows :: "cstring \<Rightarrow> row set" where
  "rows ds = {r. set ds \<subseteq> sort_dirs \<and> length (snd r) = length ds \<and> set (snd r) \<subseteq> sql_values}"

interpretation row_sort: sort_client "row_compare atof ds" "rows ds"
  "\<lambda>a b. sqliteSortCompare atof (zKey (row_elem ds a)) (zKey (row_elem ds b))"
proof -
  have "comparator (lex_compare (sort_column atof) ds) {xs. length xs = length ds \<and> set xs \<subseteq> sql_values}"
    by (rule comparator_lex) (rule comparator_sort_column)
  note swap = comparator.cmp_swap [OF this] and trans = comparator.cmp_trans [OF this]
  show "sort_client (row_compare atof ds) (rows ds)
      (\<lambda>a b. sqliteSortCompare atof (zKey (row_elem ds a)) (zKey (row_elem ds b)))"
  proof unfold_locales
    fix a b c assume a: "a \<in> rows ds" and b: "b \<in> rows ds"
    then show "row_compare atof ds a b < 0 \<longleftrightarrow> 0 < row_compare atof ds b a"
      using swap by (simp add: rows_def row_compare_def)
    show "sqliteSortCompare atof (zKey (row_elem ds a)) (zKey (row_elem ds b)) = Some (row_compare atof ds a b)"
      using a b unfolding sqliteSortCompare_def row_elem_def row_compare_def rows_def sorter.select_convs
      by (intro sort_compare_loop_key) auto
    assume "c \<in> rows ds" "row_compare atof ds a b \<le> 0" "row_compare atof ds b c \<le> 0"
    then show "row_compare atof ds a c \<le> 0"
      using a b trans [of "snd a" "snd b" "snd c"] by (simp add: rows_def row_compare_def)
  qed
qed

text \<open>
  The program around the sorter: each row is put on the stack, made into a record and a key and put
  into the sorter (\<open>pushOntoSorter\<close> of \<^verbatim>\<open>select.c\<close>); after the sort the records are taken out one by one.
\<close>

definition feed_row ::
    "'r float_ops \<Rightarrow> cstring \<Rightarrow> 'r mem list \<times> 'r mem list \<Rightarrow> 'r sort_vm \<Rightarrow> 'r sort_vm option" where
  "feed_row fl ds r s =
     Option.bind (exec_sortmakerec fl (length (fst r)) (s\<lparr>sort_stack := map Value (rev (fst r)) @ sort_stack s\<rparr>)) (\<lambda>s.
     Option.bind (exec_sortmakekey fl ds (s\<lparr>sort_stack := map Value (rev (snd r)) @ sort_stack s\<rparr>)) exec_sortput)"

fun feed ::
    "'r float_ops \<Rightarrow> cstring \<Rightarrow> ('r mem list \<times> 'r mem list) list \<Rightarrow> 'r sort_vm \<Rightarrow> 'r sort_vm option" where
  "feed fl ds [] s = Some s"
| "feed fl ds (r # rs) s = Option.bind (feed_row fl ds r s) (feed fl ds rs)"

function drain :: "'r sort_vm \<Rightarrow> cstring option list list" where
  "drain s =
     (case exec_sortnext s of
        (True, s') \<Rightarrow> (case sort_stack s' of Record d # st \<Rightarrow> d # drain (s'\<lparr>sort_stack := st\<rparr>) | _ \<Rightarrow> [])
      | (False, _) \<Rightarrow> [])"
  by pat_completeness auto
termination
  by (relation "measure (length \<circ> pSort)") (auto simp: exec_sortnext_def split: list.splits)

declare drain.simps [simp del]

definition sql_value :: "'r float_ops \<Rightarrow> 'r mem \<Rightarrow> cstring option" where
  "sql_value fl m = (if m_null m then None else Some (Stringify fl m))"

definition row_of :: "'r float_ops \<Rightarrow> 'r mem list \<times> 'r mem list \<Rightarrow> row" where
  "row_of fl r = (map (sql_value fl) (fst r), map (sql_value fl) (snd r))"

lemma arg_values_map [simp]: "arg_values fl (map Value ms) = Some (map (sql_value fl) ms)"
  by (induction ms) (simp_all add: sql_value_def)

lemma key_loop_sort_key:
  "k + length vs = length ds \<Longrightarrow> key_loop ds vs k = sort_key (drop k ds) vs"
proof (induction ds vs k rule: key_loop.induct)
  case (2 p3 vs k)
  then show ?case by (simp add: Cons_nth_drop_Suc [symmetric])
next
  case (3 p3 z vs k)
  then show ?case by (simp add: Cons_nth_drop_Suc [symmetric] zat_def)
qed simp

lemma feed_row_eq:
  assumes "length (snd r) = length ds"
  shows "feed_row fl ds r s = Some (s\<lparr>pSort := row_elem ds (row_of fl r) # pSort s\<rparr>)"
  using assms key_loop_sort_key [of 0 "map (sql_value fl) (snd r)" ds]
  by (simp add: feed_row_def exec_sortmakerec_def exec_sortmakekey_def exec_sortput_def row_elem_def row_of_def
      rev_map [symmetric])

lemma feed_eq:
  assumes "\<forall>r \<in> set rs. length (snd r) = length ds"
  shows "feed fl ds rs s = Some (s\<lparr>pSort := map (row_elem ds \<circ> row_of fl) (rev rs) @ pSort s\<rparr>)"
  using assms by (induction rs arbitrary: s) (simp_all add: feed_row_eq)

lemma drain_eq: "pSort s = es \<Longrightarrow> drain s = map pData es"
  by (induction es arbitrary: s; subst drain.simps) (simp_all add: exec_sortnext_def)

text \<open>
  C7. \<open>ORDER BY\<close>.  For any number of rows, whatever was put into the sorter comes out of it sorted:
  the operations never fail, every row comes out exactly once, the rows come out in the order of their
  keys, column by column in the direction of each column, and rows with equal keys come out in the
  reverse of the order they were put in.
\<close>
theorem sorter_sorts_rows:
  assumes "set ds \<subseteq> sort_dirs" "pSort s = []"
    and "\<forall>r \<in> set rs. length (snd r) = length ds \<and> (\<forall>m \<in> set (snd r). sql_value fl m \<in> sql_values)"
  shows "\<exists>s1 s2 ys. feed fl ds rs s = Some s1 \<and> exec_sort atof s1 = Some s2 \<and>
    drain s2 = map fst ys \<and> sort_stack s2 = sort_stack s \<and>
    mset ys = mset (map (row_of fl) rs) \<and>
    sorted_wrt (\<lambda>a b. row_compare atof ds a b \<le> 0) ys \<and>
    (\<forall>a \<in> rows ds. filter (\<lambda>b. row_compare atof ds a b = 0) ys =
                    filter (\<lambda>b. row_compare atof ds a b = 0) (rev (map (row_of fl) rs)))"
proof -
  let ?xs = "map (row_of fl) (rev rs)" and ?s1 = "s\<lparr>pSort := map (row_elem ds) (map (row_of fl) (rev rs))\<rparr>"
  have f: "feed fl ds rs s = Some ?s1"
    using feed_eq [of rs ds fl s] assms(2,3) by (simp add: comp_def)
  have "set ?xs \<subseteq> rows ds"
    using assms(1,3) by (auto simp: rows_def row_of_def)
  from row_sort.sort_list_stable [OF this, of atof]
  obtain ys where ys: "sort_list (\<lambda>a b. sqliteSortCompare atof (zKey (row_elem ds a)) (zKey (row_elem ds b))) ?xs = Some ys"
      "mset ys = mset ?xs" "sorted_wrt (\<lambda>a b. row_compare atof ds a b \<le> 0) ys"
      "\<forall>a \<in> rows ds. filter (\<lambda>b. row_compare atof ds a b = 0) ys = filter (\<lambda>b. row_compare atof ds a b = 0) ?xs"
    by blast
  have "exec_sort atof ?s1 = Some (s\<lparr>pSort := map (row_elem ds) ys\<rparr>)"
    using ys(1) sort_list_map [of "\<lambda>l r. sqliteSortCompare atof (zKey l) (zKey r)" "row_elem ds" ?xs]
    by (simp add: exec_sort_def)
  moreover have "drain (s\<lparr>pSort := map (row_elem ds) ys\<rparr>) = map fst ys"
    by (simp add: drain_eq [OF refl] row_elem_def)
  ultimately show ?thesis
    using f ys(2-) by (intro exI [of _ ?s1] exI [of _ "s\<lparr>pSort := map (row_elem ds) ys\<rparr>"] exI [of _ ys])
      (simp add: rev_map)
qed

theorem sorter_sorts_rows_witness:
  "\<exists>s1 s2 ys. feed sample_ops [68] [([mem_int 1], [mem_str [97]]), ([mem_int 2], [mem_str [98]])] \<lparr>sort_stack = [], pSort = []\<rparr> = Some s1 \<and>
     exec_sort length s1 = Some s2 \<and> drain s2 = map fst ys \<and>
     mset ys = {#([Some [49]], [Some [97]]), ([Some [50]], [Some [98]])#} \<and>
     sorted_wrt (\<lambda>a b. row_compare length [68] a b \<le> 0) ys"
proof -
  let ?rs = "[([mem_int 1], [mem_str [97]]), ([mem_int 2], [mem_str [98]])] :: (int mem list \<times> int mem list) list"
  have d: "set [68] \<subseteq> sort_dirs" by (simp add: sort_dirs_def)
  have v: "sql_value sample_ops (mem_str z) = Some z" "sql_value sample_ops (mem_int i) = Some (print_int i)" for z i
    by (simp_all add: sql_value_def mem_str_def mem_int_def Stringify_def)
  have "\<forall>r \<in> set ?rs. length (snd r) = length [68 :: u8] \<and> (\<forall>m \<in> set (snd r). sql_value sample_ops m \<in> sql_values)"
    by (simp add: v sql_values_def nul_free_def)
  moreover have "pSort \<lparr>sort_stack = [] :: int entry list, pSort = []\<rparr> = []" by simp
  moreover have "print_int 1 = [49]" "print_int 2 = [50]" by (simp_all add: print_int_def print_nat.simps)
  ultimately show ?thesis
    using sorter_sorts_rows [OF d, of "\<lparr>sort_stack = [], pSort = []\<rparr>" ?rs sample_ops length]
    by (auto simp: row_of_def v)
qed

end
