(* ===== verification/Keylist.thy ===== *)
theory Keylist
  imports Mem
begin

text \<open>
  The lists of row numbers of the virtual machine (\<open>struct Keylist\<close> of \<^verbatim>\<open>vdbeInt.h\<close> and the opcodes
  \<open>OP_ListWrite\<close>, \<open>OP_ListRewind\<close>, \<open>OP_ListRead\<close>, \<open>OP_ListReset\<close>, \<open>OP_ListPush\<close> and \<open>OP_ListPop\<close> of
  \<^verbatim>\<open>vdbe.c\<close>), which \<open>UPDATE\<close> and \<open>DELETE\<close> collect the affected rows in.

  The linked list of blocks is a list, the first block first.  The slots of a new block are
  uninitialised in the code and 0 here; they are written before they are read.
\<close>

record keylist =
  nKey :: nat
  nUsed :: nat
  nRead :: nat
  aKey :: "i32 list"

record list_vm =
  pList :: "keylist list"
  keylistStack :: "keylist list list"

subsection \<open>Operations\<close>

definition new_block :: keylist where
  "new_block = \<lparr>nKey = 1000, nUsed = 0, nRead = 0, aKey = replicate 1000 0\<rparr>"

text \<open>\<open>OP_ListWrite\<close>; \<open>None\<close> is a write outside the block.\<close>

definition list_write :: "i32 \<Rightarrow> keylist list \<Rightarrow> keylist list option" where
  "list_write v l =
     (let l = (case l of [] \<Rightarrow> [new_block] | k # _ \<Rightarrow> if nUsed k \<ge> nKey k then new_block # l else l)
      in case l of
           k # ks \<Rightarrow>
             if nUsed k < length (aKey k) then Some (k\<lparr>aKey := (aKey k)[nUsed k := v], nUsed := nUsed k + 1\<rparr> # ks)
             else None
         | [] \<Rightarrow> None)"

text \<open>The loop of \<open>OP_ListRewind\<close>.\<close>

fun rewind_loop :: "keylist list \<Rightarrow> keylist list \<Rightarrow> keylist list" where
  "rewind_loop rev_list [] = rev_list"
| "rewind_loop rev_list (k # ks) = rewind_loop (k # rev_list) ks"

definition list_rewind :: "keylist list \<Rightarrow> keylist list" where
  "list_rewind l = rewind_loop [] l"

text \<open>
  \<open>OP_ListRead\<close>: \<open>Inl\<close> is a failed assertion, \<open>Inr None\<close> the jump to \<open>P2\<close>, and otherwise the number that is
  pushed and the rest of the list.
\<close>

definition list_read :: "keylist list \<Rightarrow> unit + (i32 \<times> keylist list) option" where
  "list_read l =
     (case l of
        [] \<Rightarrow> Inr None
      | k # ks \<Rightarrow>
          if nRead k < nUsed k \<and> nRead k < nKey k \<and> nRead k < length (aKey k) then
            let v = aKey k ! nRead k; k' = k\<lparr>nRead := nRead k + 1\<rparr>
            in Inr (Some (v, if nRead k' \<ge> nUsed k' then ks else k' # ks))
          else Inl ())"

definition exec_listreset :: "list_vm \<Rightarrow> list_vm" where
  "exec_listreset s = s\<lparr>pList := []\<rparr>"

definition exec_listpush :: "list_vm \<Rightarrow> list_vm" where
  "exec_listpush s = s\<lparr>keylistStack := pList s # keylistStack s, pList := []\<rparr>"

definition exec_listpop :: "list_vm \<Rightarrow> list_vm option" where
  "exec_listpop s =
     (case keylistStack s of [] \<Rightarrow> None | l # ls \<Rightarrow> Some (s\<lparr>pList := l, keylistStack := ls\<rparr>))"

subsection \<open>Lists that are written, rewound and read\<close>

text \<open>
  What the programs rely on: \<open>written\<close> is what a list in the phase of writing holds, \<open>readable\<close> what is
  still to be read after the rewind.
\<close>

locale spool =
  fixes put_key :: "'a \<Rightarrow> 'l \<Rightarrow> 'l option"
    and flip :: "'l \<Rightarrow> 'l"
    and get_key :: "'l \<Rightarrow> 'e + ('a \<times> 'l) option"
    and written :: "'l \<Rightarrow> 'a list \<Rightarrow> bool"
    and readable :: "'l \<Rightarrow> 'a list \<Rightarrow> bool"
  assumes write_written: "written l vs \<Longrightarrow> \<exists>l'. put_key v l = Some l' \<and> written l' (vs @ [v])"
    and rewind_readable: "written l vs \<Longrightarrow> readable (flip l) vs"
    and read_Nil: "readable l [] \<Longrightarrow> get_key l = Inr None"
    and read_Cons: "readable l (v # vs) \<Longrightarrow> \<exists>l'. get_key l = Inr (Some (v, l')) \<and> readable l' vs"
begin

fun write_all :: "'a list \<Rightarrow> 'l \<Rightarrow> 'l option" where
  "write_all [] l = Some l"
| "write_all (v # vs) l = Option.bind (put_key v l) (write_all vs)"

text \<open>The loop of a program that reads until the jump, at most \<open>n\<close> times.\<close>

fun read_all :: "nat \<Rightarrow> 'l \<Rightarrow> 'a list option" where
  "read_all 0 l = None"
| "read_all (Suc n) l =
     (case get_key l of
        Inl _ \<Rightarrow> None
      | Inr None \<Rightarrow> Some []
      | Inr (Some (v, l')) \<Rightarrow> map_option ((#) v) (read_all n l'))"

lemma write_all_written: "written l us \<Longrightarrow> \<exists>l'. write_all vs l = Some l' \<and> written l' (us @ vs)"
proof (induction vs arbitrary: l us)
  case (Cons v vs)
  from write_written [OF Cons.prems, of v] obtain l1 where l1: "put_key v l = Some l1" "written l1 (us @ [v])" by blast
  from Cons.IH [OF l1(2)] l1(1) show ?case by auto
qed simp

lemma read_all_readable: "readable l vs \<Longrightarrow> length vs < n \<Longrightarrow> read_all n l = Some vs"
proof (induction vs arbitrary: l n)
  case Nil
  then show ?case by (cases n) (simp_all add: read_Nil)
next
  case (Cons v vs)
  from read_Cons [OF Cons.prems(1)] obtain l' where "get_key l = Inr (Some (v, l'))" "readable l' vs" by blast
  with Cons show ?case by (cases n) simp_all
qed

lemma spool_order:
  assumes "written l us" "length us + length vs < n"
  shows "\<exists>l'. write_all vs l = Some l' \<and> read_all n (flip l') = Some (us @ vs)"
  using write_all_written [OF assms(1), of vs] read_all_readable [OF rewind_readable] assms(2) by fastforce

end

text \<open>A block holds \<open>nUsed\<close> numbers in 1000 slots, of which \<open>nRead\<close> have been read; only the first can be half read.\<close>

definition block_ok :: "keylist \<Rightarrow> bool" where
  "block_ok k \<longleftrightarrow> nKey k = 1000 \<and> length (aKey k) = 1000 \<and> nRead k < nUsed k \<and> nUsed k \<le> 1000"

definition unread :: "keylist \<Rightarrow> i32 list" where
  "unread k = take (nUsed k - nRead k) (drop (nRead k) (aKey k))"

definition list_written :: "keylist list \<Rightarrow> i32 list \<Rightarrow> bool" where
  "list_written l vs \<longleftrightarrow> (\<forall>k \<in> set l. block_ok k \<and> nRead k = 0) \<and> concat (map unread (rev l)) = vs"

definition list_readable :: "keylist list \<Rightarrow> i32 list \<Rightarrow> bool" where
  "list_readable l vs \<longleftrightarrow> (\<forall>k \<in> set l. block_ok k) \<and> concat (map unread l) = vs"

lemma rewind_loop_rev: "rewind_loop acc l = rev l @ acc"
  by (induction l arbitrary: acc) simp_all

lemma unread_write:
  assumes "block_ok k \<or> k = new_block" "nRead k = 0" "nUsed k < nKey k"
  shows "unread (k\<lparr>aKey := (aKey k)[nUsed k := v], nUsed := nUsed k + 1\<rparr>) = unread k @ [v]"
proof -
  have "nUsed k < length (aKey k)" using assms by (auto simp: block_ok_def new_block_def)
  then show ?thesis using assms by (simp add: unread_def take_Suc_conv_app_nth)
qed

lemma unread_read:
  assumes "block_ok k"
  shows "unread k = aKey k ! nRead k # unread (k\<lparr>nRead := nRead k + 1\<rparr>)"
proof -
  have "drop (nRead k) (aKey k) = aKey k ! nRead k # drop (Suc (nRead k)) (aKey k)"
    by (rule Cons_nth_drop_Suc [symmetric]) (use assms in \<open>simp add: block_ok_def\<close>)
  moreover have "nUsed k - nRead k = Suc (nUsed k - Suc (nRead k))" using assms unfolding block_ok_def by linarith
  ultimately show ?thesis by (simp add: unread_def)
qed

lemma list_write_ok:
  assumes "list_written l vs"
  shows "\<exists>l'. list_write v l = Some l' \<and> list_written l' (vs @ [v])"
proof -
  define m where "m = (case l of [] \<Rightarrow> [new_block] | k # _ \<Rightarrow> if nUsed k \<ge> nKey k then new_block # l else l)"
  have "m \<noteq> []" by (auto simp: m_def split: list.splits)
  then obtain k ks where k: "m = k # ks" by (cases m) blast
  have ks: "\<forall>k \<in> set ks. block_ok k \<and> nRead k = 0" and kk: "block_ok k \<or> k = new_block" "nRead k = 0" "nUsed k < nKey k"
    and c: "concat (map unread (rev m)) = vs"
    using assms k by (auto simp: m_def list_written_def new_block_def unread_def split: list.splits if_splits)
  have "list_write v l = Some (k\<lparr>aKey := (aKey k)[nUsed k := v], nUsed := nUsed k + 1\<rparr> # ks)"
    using kk k unfolding list_write_def m_def [symmetric] by (auto simp: block_ok_def new_block_def)
  moreover have "block_ok (k\<lparr>aKey := (aKey k)[nUsed k := v], nUsed := nUsed k + 1\<rparr>)"
    using kk by (auto simp: block_ok_def new_block_def)
  ultimately show ?thesis
    using ks c k kk(2) unread_write [OF kk, of v] by (auto simp: list_written_def)
qed

lemma list_read_ok:
  assumes "list_readable l (v # vs)"
  shows "\<exists>l'. list_read l = Inr (Some (v, l')) \<and> list_readable l' vs"
proof -
  obtain k ks where l: "l = k # ks" using assms by (cases l) (auto simp: list_readable_def)
  then have k: "block_ok k" and v: "v # vs = aKey k ! nRead k # unread (k\<lparr>nRead := nRead k + 1\<rparr>) @ concat (map unread ks)"
    using assms unread_read [of k] by (auto simp: list_readable_def)
  show ?thesis
  proof (cases "nRead k + 1 \<ge> nUsed k")
    case True
    then have "unread (k\<lparr>nRead := nRead k + 1\<rparr>) = []" by (simp add: unread_def)
    then show ?thesis using True k v l assms by (simp add: list_read_def list_readable_def block_ok_def)
  next
    case False
    then show ?thesis using k v l assms by (simp add: list_read_def list_readable_def block_ok_def)
  qed
qed

interpretation keys: spool list_write list_rewind list_read list_written list_readable
proof unfold_locales
  fix l vs v
  show "list_written l vs \<Longrightarrow> \<exists>l'. list_write v l = Some l' \<and> list_written l' (vs @ [v])" by (rule list_write_ok)
  show "list_written l vs \<Longrightarrow> list_readable (list_rewind l) vs"
    by (simp add: list_written_def list_readable_def list_rewind_def rewind_loop_rev)
  show "list_readable l (v # vs) \<Longrightarrow> \<exists>l'. list_read l = Inr (Some (v, l')) \<and> list_readable l' vs" by (rule list_read_ok)
next
  fix l
  assume r: "list_readable l []"
  have "unread k \<noteq> []" if "block_ok k" for k using unread_read [OF that] by simp
  with r have "l = []" by (cases l) (auto simp: list_readable_def)
  then show "list_read l = Inr None" by (simp add: list_read_def)
qed

text \<open>
  The programs of \<open>UPDATE\<close> and \<open>DELETE\<close>: they write the row numbers, rewind the list and read it in a loop,
  and between a push and a pop a trigger does the same with a list of its own.
\<close>

definition write_list :: "i32 list \<Rightarrow> list_vm \<Rightarrow> list_vm option" where
  "write_list vs s = map_option (\<lambda>l. s\<lparr>pList := l\<rparr>) (keys.write_all vs (pList s))"

definition read_list :: "nat \<Rightarrow> list_vm \<Rightarrow> i32 list option" where
  "read_list n s = keys.read_all n (list_rewind (pList s))"

text \<open>
  C16. Lists of rows.  However many row numbers are written, and with a nested list between a push and a
  pop, no assertion fails, the loop that reads the list ends, and it reads exactly the numbers
  written, in the order of writing.
\<close>
theorem keylist_fifo:
  assumes "pList s = []"
  shows "\<exists>s1 s2 s3. write_list vs s = Some s1 \<and> write_list ws (exec_listpush s1) = Some s2 \<and>
    read_list (Suc (length ws)) s2 = Some ws \<and> exec_listpop s2 = Some s3 \<and>
    keylistStack s3 = keylistStack s \<and> read_list (Suc (length vs)) s3 = Some vs"
proof -
  have w: "list_written [] []" by (simp add: list_written_def)
  obtain l1 where l1: "keys.write_all vs [] = Some l1" "keys.read_all (Suc (length vs)) (list_rewind l1) = Some vs"
    using keys.spool_order [OF w, of vs "Suc (length vs)"] by auto
  obtain l2 where l2: "keys.write_all ws [] = Some l2" "keys.read_all (Suc (length ws)) (list_rewind l2) = Some ws"
    using keys.spool_order [OF w, of ws "Suc (length ws)"] by auto
  show ?thesis
    using assms l1 l2 by (simp add: write_list_def read_list_def exec_listpush_def exec_listpop_def)
qed

theorem keylist_fifo_witness:
  "\<exists>s1 s2 s3. write_list [7, 3] \<lparr>pList = [], keylistStack = []\<rparr> = Some s1 \<and> write_list [5] (exec_listpush s1) = Some s2 \<and>
    read_list 2 s2 = Some [5] \<and> exec_listpop s2 = Some s3 \<and> read_list 3 s3 = Some [7, 3]"
  using keylist_fifo [of "\<lparr>pList = [], keylistStack = []\<rparr>" "[7, 3]" "[5]"] by (auto simp: numeral_2_eq_2 numeral_3_eq_3)

end
