(* ===== verification/Values.thy ===== *)
theory Values
  imports Mem Expr
begin

text \<open>
  Properties of the values of the virtual machine: printing an integer and reading it back, the
  comparison of integers by their difference, and the range of integer constants.
\<close>

subsection \<open>Digits\<close>

lemma digit_value_append: "digit_value (a @ b) = digit_value a * 10 ^ length b + digit_value b"
  by (induction a) (simp_all add: algebra_simps power_add)

lemma digit_of_nat:
  assumes "n < 10"
  shows "isdigit (48 + of_nat n :: u8)" "unat (48 + of_nat n :: u8) = 48 + n"
proof -
  have "(48 + of_nat n :: u8) = of_nat (48 + n)" by simp
  then have "unat (48 + of_nat n :: u8) = (48 + n) mod 256" by (simp only: unat_of_nat) simp
  then show "unat (48 + of_nat n :: u8) = 48 + n" using assms by simp
  then show "isdigit (48 + of_nat n :: u8)" using assms by (simp add: isdigit_unat)
qed

lemma print_nat_digits:
  "list_all isdigit (print_nat n) \<and> digit_value (print_nat n) = n \<and> print_nat n \<noteq> []"
proof (induction n rule: print_nat.induct)
  case (1 n)
  show ?case
  proof (cases "n < 10")
    case True
    then show ?thesis using digit_of_nat [of n] by (simp add: print_nat.simps)
  next
    case False
    then show ?thesis using 1 digit_of_nat [of "n mod 10"] by (simp add: print_nat.simps [of n] digit_value_append)
  qed
qed

lemma length_print_nat: "n < 10 ^ k \<Longrightarrow> 0 < k \<Longrightarrow> length (print_nat n) \<le> k"
proof (induction n arbitrary: k rule: print_nat.induct)
  case (1 n)
  show ?case
  proof (cases "n < 10")
    case True
    then show ?thesis using 1 by (simp add: print_nat.simps)
  next
    case False
    with 1 obtain j where j: "k = Suc j" "0 < j" by (cases k; cases "k - 1") auto
    then have "n div 10 < 10 ^ j" using 1 by (simp add: less_mult_imp_div_less mult.commute)
    then show ?thesis using 1(1) [OF False, of j] j False by (simp add: print_nat.simps [of n])
  qed
qed

lemma toInt_loop_digits:
  "list_all isdigit d \<Longrightarrow> toInt_loop v d = v * 10 ^ length d + of_nat (digit_value d)"
proof (induction d arbitrary: v)
  case (Cons c d)
  have c: "48 \<le> unat c" "48 \<le> c" "c \<le> 57" using Cons.prems by (auto simp: isdigit_unat word_le_nat_alt)
  have "(ucast c :: i32) = of_nat (unat c)" by simp
  also have "\<dots> = of_nat (unat c - 48) + 48" using c(1) by (simp add: of_nat_diff)
  finally have "v * 10 + ucast c - 48 = v * 10 + of_nat (unat c - 48)" by simp
  then have "toInt_loop v (c # d) = (v * 10 + of_nat (unat c - 48)) * 10 ^ length d + of_nat (digit_value d)"
    using Cons c by (simp add: add_diff_eq)
  then show ?case by (simp add: distrib_right mult.assoc del: of_nat_diff)
qed simp

lemma toInt_digits:
  assumes "list_all isdigit d" "d \<noteq> []" "length d \<le> 10"
  shows "toInt d = (digit_value d \<le> 2147483647, of_nat (digit_value d))"
    and "toInt (45 # d) = (digit_value d \<le> 2147483647, - of_nat (digit_value d))"
proof -
  define m where "m = cstr ''2147483647''"
  have m: "list_all isdigit m" "length m = 10" "digit_value m = 2147483647" by (simp_all add: m_def isdigit_def)
  have tw: "takeWhile (\<lambda>c. 48 \<le> c \<and> c \<le> 57) d = d"
    using assms(1) by (auto simp: takeWhile_eq_all_conv list_all_iff isdigit_def)
  have "digit_value d < 10 ^ length d" using digit_value_bound [OF assms(1)] .
  moreover have "(10::nat) ^ length d \<le> 10 ^ 9" if "length d < 10" using that by (intro power_increasing) auto
  ultimately have small: "digit_value d \<le> 2147483647" if "length d < 10" using that by fastforce
  have cmp: "memcmp d m 10 \<le> 0 \<longleftrightarrow> digit_value d \<le> 2147483647" if "length d = 10"
    using memcmp_digits [OF assms(1) m(1), of "[]"] that m by simp
  have fits: "zat d (length d) = 0 \<and> 0 < length d \<and> (length d < 10 \<or> length d = 10 \<and> memcmp d m 10 \<le> 0)
      \<longleftrightarrow> digit_value d \<le> 2147483647"
    using assms(2,3) small cmp by (auto simp: zat_def)
  have hd: "zat d 0 \<noteq> 45" "zat d 0 \<noteq> 43" using assms(1,2) by (cases d; auto simp: isdigit_def)+
  note l = toInt_loop_digits [OF assms(1), of 0]
  show "toInt d = (digit_value d \<le> 2147483647, of_nat (digit_value d))"
    using hd l fits by (simp add: toInt_def Let_def tw m_def del: cstr_simps)
  show "toInt (45 # d) = (digit_value d \<le> 2147483647, - of_nat (digit_value d))"
    using l fits by (simp add: toInt_def Let_def tw m_def del: cstr_simps)
qed

text \<open>
  C38. Integers survive as text: \<open>Stringify\<close> followed by \<open>toInt\<close> gives back the integer, and \<open>toInt\<close> accepts the
  text as an integer unless it is the least integer, which it reads correctly but calls no integer.
\<close>
theorem toInt_Stringify:
  "toInt (Stringify fl (mem_int i)) = (sint i \<noteq> - 2147483648, i)"
proof -
  have b: "- 2147483648 \<le> sint i" "sint i \<le> 2147483647"
    using sint_greater_eq [of i] sint_less [of i] by simp_all
  define n where "n = nat \<bar>sint i\<bar>"
  have n: "n \<le> 2147483648" using b by (simp add: n_def nat_le_iff)
  note d = print_nat_digits [of n]
  have "length (print_nat n) \<le> 10" using length_print_nat [of n 10] n by simp
  note t = toInt_digits [of "print_nat n", OF _ _ this]
  have "Stringify fl (mem_int i) = (if sint i < 0 then 45 # print_nat n else print_nat n)"
    by (auto simp: Stringify_def mem_int_def print_int_def n_def)
  moreover have "(of_nat n :: i32) = (if sint i < 0 then - i else i)"
  proof (cases "sint i < 0")
    case True
    then have "int n = - sint i" by (simp add: n_def)
    then have "(of_int (int n) :: i32) = of_int (- sint i)" by simp
    then show ?thesis using True by simp
  next
    case False
    then have "int n = sint i" by (simp add: n_def)
    then have "(of_int (int n) :: i32) = of_int (sint i)" by simp
    then show ?thesis using False by simp
  qed
  moreover have "n \<le> 2147483647 \<longleftrightarrow> sint i \<noteq> - 2147483648" using b by (auto simp: n_def nat_le_iff abs_if)
  ultimately show ?thesis using t d by auto
qed

subsection \<open>Comparison by difference\<close>

lemma sint_diff_32:
  fixes a b :: i32
  shows "sint (b - a) = (if sint b - sint a < - 2147483648 then sint b - sint a + 4294967296
    else if sint b - sint a \<ge> 2147483648 then sint b - sint a - 4294967296 else sint b - sint a)"
proof -
  let ?d = "sint b - sint a"
  have bounds: "- 2147483648 \<le> sint a" "sint a < 2147483648" "- 2147483648 \<le> sint b" "sint b < 2147483648"
    using sint_greater_eq [of a] sint_less [of a] sint_greater_eq [of b] sint_less [of b] by simp_all
  have "sint (b - a) = (?d + 2147483648) mod 4294967296 - 2147483648"
    by (simp add: sint_word_ariths(2) signed_take_bit_eq_take_bit_shift take_bit_eq_mod)
  moreover consider "?d < - 2147483648" | "- 2147483648 \<le> ?d" "?d < 2147483648" | "?d \<ge> 2147483648" by linarith
  then have "(?d + 2147483648) mod 4294967296 = (if ?d < - 2147483648 then ?d + 2147483648 + 4294967296
      else if ?d \<ge> 2147483648 then ?d + 2147483648 - 4294967296 else ?d + 2147483648)"
  proof cases
    case 1
    have "(?d + 2147483648) mod 4294967296 = (?d + 2147483648 + 4294967296) mod 4294967296" by (rule mod_add_self2 [symmetric])
    also have "\<dots> = ?d + 2147483648 + 4294967296" using 1 bounds by (intro mod_pos_pos_trivial) linarith+
    finally show ?thesis using 1 by simp
  next
    case 2
    then show ?thesis by (simp add: mod_pos_pos_trivial)
  next
    case 3
    have "(?d + 2147483648) mod 4294967296 = (?d + 2147483648 - 4294967296) mod 4294967296" by (rule minus_mod_self2 [symmetric])
    also have "\<dots> = ?d + 2147483648 - 4294967296" using 3 bounds by (intro mod_pos_pos_trivial) linarith+
    finally show ?thesis using 3 by simp
  qed
  ultimately show ?thesis by simp
qed

text \<open>
  C39. Comparing integers.  The opcodes compare two integers by the sign of their 32-bit difference.
  Equality is always decided correctly; the order is correct exactly when the difference fits in 32
  bits, and is reversed otherwise.
\<close>
theorem compare_num_integers:
  "\<exists>c. compare_num fl (mem_int b) (mem_int a) = Some c \<and>
     (cmp_holds Eq_op c \<longleftrightarrow> a = b) \<and>
     (if - 2147483648 \<le> sint b - sint a \<and> sint b - sint a < 2147483648
      then sgn c = sgn (sint b - sint a) else sgn c = - sgn (sint b - sint a))"
proof -
  have "compare_num fl (mem_int b) (mem_int a) = Some (sint (b - a))"
    by (simp add: compare_num_def mem_int_def)
  moreover have "sint (b - a) = 0 \<longleftrightarrow> a = b" by (metis eq_iff_diff_eq_0 signed_0 sint_0 signed_eq_0_iff)
  moreover have "- 2147483648 \<le> sint a" "sint a < 2147483648" "- 2147483648 \<le> sint b" "sint b < 2147483648"
    using sint_greater_eq [of a] sint_less [of a] sint_greater_eq [of b] sint_less [of b] by simp_all
  ultimately show ?thesis by (auto simp: cmp_holds_def sint_diff_32 sgn_if)
qed

subsection \<open>Integer constants\<close>

lemma atoi_bound:
  assumes "sqliteFitsIn32Bits z"
  shows "- 2147483647 \<le> atoi z \<and> atoi z \<le> 2147483647"
proof -
  let ?d = "takeWhile isdigit (skip_sign z)"
  have "digit_value ?d < 10 ^ length ?d"
    by (rule digit_value_bound) (auto simp: list_all_iff dest: set_takeWhileD)
  moreover have "(10::nat) ^ length ?d \<le> 10 ^ 9" if "length ?d < 10" using that by (intro power_increasing) auto
  ultimately have "digit_value ?d \<le> 2147483647" using assms by (fastforce simp: sqliteFitsIn32Bits_iff Let_def)
  then show ?thesis by (simp add: atoi_def Let_def)
qed

text \<open>
  Constant integers: whenever \<open>sqliteExprIsInteger\<close> recognises a constant, its value and its negation
  fit in 32 bits, so neither \<open>atoi\<close> nor the sign change overflows.
\<close>
theorem sqliteExprIsInteger_bounds:
  "sqliteExprIsInteger e = Some v \<Longrightarrow> - 2147483647 \<le> v \<and> v \<le> 2147483647"
proof (induction e arbitrary: v rule: sqliteExprIsInteger.induct)
  case (1 t dt l r xs tok tab col agg sel)
  show ?case
  proof (cases t)
    case TK_INTEGER
    then show ?thesis using 1(3) atoi_bound by (auto split: option.splits if_splits)
  next
    case TK_STRING
    then show ?thesis using 1(3) atoi_bound by (auto split: option.splits if_splits)
  next
    case TK_UPLUS
    then show ?thesis using "1.IH" "1.prems" by (auto split: option.splits)
  next
    case TK_UMINUS
    then show ?thesis using "1.IH" "1.prems" by (force split: option.splits)
  qed (use 1(3) in simp_all)
qed

theorem sqliteExprIsInteger_bounds_witness:
  "sqliteExprIsInteger (Expr TK_UMINUS 0 (Some (Expr TK_INTEGER 0 None None None (Some (cstr ''42'')) 0 0 0 None)) None None None 0 0 0 None)
     = Some (- 42) \<and> - 2147483647 \<le> (- 42 :: int) \<and> (- 42 :: int) \<le> 2147483647"
proof -
  have "sqliteExprIsInteger (Expr TK_UMINUS 0 (Some (Expr TK_INTEGER 0 None None None (Some (cstr ''42'')) 0 0 0 None)) None None None 0 0 0 None)
      = Some (- 42)"
    by (simp add: sqliteFitsIn32Bits_iff skip_sign_def isdigit_def atoi_def)
  with sqliteExprIsInteger_bounds [OF this] show ?thesis by blast
qed

end
