(* ===== verification/Vdbe_Type.thy ===== *)
theory Vdbe_Type
  imports Vdbe
begin

text \<open>
  A type invariant of the interpreter: a value that is NULL has no other representation, in every entry
  of the stack and every memory cell, whatever program runs, and an instruction adds at most one entry
  to the stack.
\<close>

definition mem_ok :: "'r mem \<Rightarrow> bool" where
  "mem_ok m \<longleftrightarrow> (m_null m \<longrightarrow> m_int m = None \<and> m_real m = None \<and> m_str m = None)"

definition env_ok :: "'r env \<Rightarrow> bool" where
  "env_ok env \<longleftrightarrow> (\<forall>i j. mem_ok (column env i j)) \<and> (\<forall>i. mem_ok (agg_get env i)) \<and> (\<forall>f args. mem_ok (fst (xFunc env f args)))"

definition vm_ok :: "nat \<Rightarrow> 'r vm \<Rightarrow> bool" where
  "vm_ok n s \<longleftrightarrow> length (stack s) \<le> n \<and> (\<forall>m \<in> set (stack s). mem_ok m) \<and> (\<forall>m \<in> set (aMem (store s)). mem_ok m)"

fun result_ok :: "nat \<Rightarrow> 'r result \<Rightarrow> bool" where
  "result_ok n (Next s) = vm_ok n s"
| "result_ok n (Return c s) = (vm_ok n s \<and> (c = SQLITE_ERROR \<or> c = SQLITE_DONE))"
| "result_ok n Fault = True"

named_theorems mem_ok_intros \<open>operators that respect the type of values\<close>

lemma mem_ok_basic [simp]:
  "mem_ok mem_null" "mem_ok (mem_int i)" "mem_ok (mem_real r)" "mem_ok (mem_str z)" "mem_ok (mem_bool b)" "mem_ok zero_mem"
  by (auto simp: mem_ok_def mem_null_def mem_int_def mem_real_def mem_str_def mem_bool_def zero_mem_def split: option.splits)

lemma mem_ok_ops [simp]:
  "mem_ok (op_arith f a x y)" "mem_ok (op_bits f b x y)" "mem_ok (op_logic f c x y)" "mem_ok (op_concat f sep ms)"
  by (simp_all add: op_arith_def op_bits_def op_logic_def op_concat_def Let_def split: option.splits)

lemma mem_ok_unary:
  "mem_ok m \<Longrightarrow> mem_ok (op_not f m)" "mem_ok m \<Longrightarrow> mem_ok (op_bitnot f m)" "mem_ok m \<Longrightarrow> mem_ok (op_negative f m)"
  "mem_ok m \<Longrightarrow> mem_ok (op_abs f m)"
  by (simp_all add: op_not_def op_bitnot_def op_negative_def op_abs_def Let_def split: option.splits)

lemma mem_ok_string: "mem_ok m \<Longrightarrow> mem_ok (stringified f m)" "mem_ok m \<Longrightarrow> mem_ok (mismatch_mem f m)"
  by (simp_all add: stringified_def) (auto simp: mismatch_mem_def mem_ok_def split: option.splits)

lemma mem_ok_addimm: "mem_ok m \<Longrightarrow> mem_ok (op_addimm f k m)"
  by (auto simp: op_addimm_def split: option.splits) (simp add: mem_ok_def)

lemma mem_ok_convert:
  "op_forceint f strict m = Some m' \<Longrightarrow> mem_ok m'" "op_mustbeint f m = Some m' \<Longrightarrow> mem_ok m'"
  by (auto simp: op_forceint_def op_mustbeint_def Let_def split: if_splits option.splits)

lemma mem_ok_variable [simp]: "mem_ok (variable vs k)" "mem_ok (row_number env i)"
  by (auto simp: variable_def row_number_def Let_def split: option.splits)

lemma stringify_prefix_ok: "\<forall>m \<in> set ms. mem_ok m \<Longrightarrow> m \<in> set (stringify_prefix f ms) \<Longrightarrow> mem_ok m"
  by (induction ms) (auto split: if_splits intro: mem_ok_string)

lemma length_stringify_prefix [simp]: "length (stringify_prefix f ms) = length ms"
  by (induction ms) auto

lemma vm_ok_simps [simp]:
  "vm_ok n (s\<lparr>pc := i\<rparr>) = vm_ok n s" "vm_ok n (s\<lparr>returnStack := r\<rparr>) = vm_ok n s" "vm_ok n (s\<lparr>zErrMsg := e\<rparr>) = vm_ok n s"
  "vm_ok n (s\<lparr>rc := i\<rparr>) = vm_ok n s" "vm_ok n (s\<lparr>errorAction := i\<rparr>) = vm_ok n s" "vm_ok n (s\<lparr>halted := b\<rparr>) = vm_ok n s"
  "vm_ok n (s\<lparr>store := (store s)\<lparr>db := g\<rparr>\<rparr>) = vm_ok n s" "vm_ok n (s\<lparr>store := (store s)\<lparr>aSet := a\<rparr>\<rparr>) = vm_ok n s"
  "vm_ok n (jump q s) = vm_ok n s" "vm_ok n (jump_if b q s) = vm_ok n s"
  by (simp_all add: vm_ok_def jump_def jump_if_def)

lemma vm_ok_mono: "vm_ok n s \<Longrightarrow> n \<le> m \<Longrightarrow> vm_ok m s"
  by (simp add: vm_ok_def)

lemma vm_ok_push: "vm_ok n s \<Longrightarrow> mem_ok m \<Longrightarrow> vm_ok (Suc n) (push m s)"
  by (simp add: vm_ok_def push_def)

lemma vm_ok_pop: "vm_ok n s \<Longrightarrow> vm_ok n (popStack k s)"
  by (auto simp: vm_ok_def popStack_def dest: in_set_dropD)

lemma halt_ok:
  "vm_ok n s \<Longrightarrow> result_ok n (abort_due_to_interrupt env s)" "vm_ok n s \<Longrightarrow> result_ok n (vdbe_halt env k s)"
  "vm_ok n s \<Longrightarrow> result_ok n (abort_due_to_error env k s)"
  by (simp_all add: abort_due_to_interrupt_def vdbe_halt_def abort_due_to_error_def interrupt_db_def)

lemma with_tos_ok:
  assumes "vm_ok n s" "\<And>m s. vm_ok (n - 1) s \<Longrightarrow> 0 < n \<Longrightarrow> mem_ok m \<Longrightarrow> result_ok k (f m s)"
  shows "result_ok k (with_tos s f)"
  using assms by (cases "stack s") (auto simp: with_tos_def vm_ok_def)

lemma with_two_ok:
  assumes "vm_ok n s" "\<And>x y s. vm_ok (n - 2) s \<Longrightarrow> 2 \<le> n \<Longrightarrow> mem_ok x \<Longrightarrow> mem_ok y \<Longrightarrow> result_ok k (f x y s)"
  shows "result_ok k (with_two s f)"
  using assms by (auto simp: with_two_def vm_ok_def split: list.splits)

lemma next_push_ok: "vm_ok j s \<Longrightarrow> mem_ok m \<Longrightarrow> Suc j \<le> n \<Longrightarrow> result_ok n (Next (push m s))"
  using vm_ok_push vm_ok_mono by (metis result_ok.simps(1))

lemma up_ok: "vm_ok (n - Suc 0) s \<Longrightarrow> vm_ok (Suc n) s" "vm_ok (n - 2) s \<Longrightarrow> vm_ok (Suc n) s"
  by (auto simp: vm_ok_def)

lemma up_push_ok:
  "vm_ok (n - Suc 0) s \<Longrightarrow> mem_ok m \<Longrightarrow> vm_ok (Suc n) (push m s)" "vm_ok (n - 2) s \<Longrightarrow> mem_ok m \<Longrightarrow> vm_ok (Suc n) (push m s)"
  by (auto simp: vm_ok_def push_def)

subsection \<open>Every opcode\<close>

lemma control_ok:
  assumes "vm_ok n s"
  shows "result_ok (Suc n) (exec_goto env q s)" "result_ok (Suc n) (exec_gosub q s)" "result_ok (Suc n) (exec_return s)"
    "result_ok (Suc n) (exec_halt q s)"
  using vm_ok_mono [OF assms, of "Suc n"] halt_ok
  by (auto simp: exec_goto_def exec_gosub_def exec_return_def exec_halt_def Let_def split: list.splits option.splits p3val.splits)

lemma stack_ok:
  assumes "vm_ok n s"
  shows "result_ok (Suc n) (exec_integer q s)" "result_ok (Suc n) (exec_string q s)" "result_ok (Suc n) (exec_pop q s)"
    "result_ok (Suc n) (exec_dup q s)" "result_ok (Suc n) (exec_pull q s)" "result_ok (Suc n) (exec_push q s)"
    "result_ok (Suc n) (exec_isnull neg q s)"
proof -
  have up: "vm_ok (Suc n) s" using assms by (rule vm_ok_mono) simp
  have str: "mem_ok ((mem_int i)\<lparr>m_str := z\<rparr>)" for i z by (simp add: mem_ok_def mem_int_def)
  show "result_ok (Suc n) (exec_integer q s)" "result_ok (Suc n) (exec_string q s)"
    using vm_ok_push [OF assms] str by (auto simp: exec_integer_def exec_string_def split: option.splits p3val.splits)
  show "result_ok (Suc n) (exec_pop q s)" "result_ok (Suc n) (exec_isnull neg q s)"
    using up vm_ok_pop [OF up] by (simp_all add: exec_pop_def exec_isnull_def Let_def)
  have all: "\<forall>m \<in> set (stack s). mem_ok m" using assms by (simp add: vm_ok_def)
  have nth: "mem_ok (stack s ! k)" if "k < length (stack s)" for k using all that by simp
  show "result_ok (Suc n) (exec_dup q s)"
    using vm_ok_push [OF assms nth] by (simp add: exec_dup_def)
  have "vm_ok (Suc n) (s\<lparr>stack := st\<rparr>)" if "set st \<subseteq> set (stack s)" "length st \<le> length (stack s)" for st
    using assms that by (auto simp: vm_ok_def)
  note sub = this
  show "result_ok (Suc n) (exec_pull q s)"
  proof -
    have "vm_ok (Suc n) (s\<lparr>stack := stack s ! k # take k (stack s) @ drop (Suc k) (stack s)\<rparr>)" if "k < length (stack s)" for k
      by (rule sub) (use that set_take_subset [of k "stack s"] set_drop_subset [of "Suc k" "stack s"] in auto)
    then show ?thesis by (simp add: exec_pull_def Let_def)
  qed
  show "result_ok (Suc n) (exec_push q s)"
  proof -
    have "vm_ok (Suc n) (s\<lparr>stack := tl ((stack s)[k := hd (stack s)])\<rparr>)" if "stack s \<noteq> []" for k
    proof (rule sub)
      have "set ((stack s)[k := hd (stack s)]) \<subseteq> set (stack s)"
        using set_update_subset_insert [of "stack s" k "hd (stack s)"] hd_in_set [OF that] by auto
      moreover have "set (tl l) \<subseteq> set l" for l :: "'a mem list" by (cases l) auto
      ultimately show "set (tl ((stack s)[k := hd (stack s)])) \<subseteq> set (stack s)" by blast
    qed simp
    then show ?thesis by (cases "stack s = []") (simp_all add: exec_push_def)
  qed
qed

lemma concat_ok:
  assumes "vm_ok n s"
  shows "result_ok (Suc n) (exec_concat env q s)"
proof -
  let ?k = "nat (p1 q)"
  have "mem_ok m" if "m \<in> set (stringify_prefix f (rev (take ?k (stack s))))" for m f
    using stringify_prefix_ok [OF _ that] assms by (auto simp: vm_ok_def dest: in_set_takeD)
  then show ?thesis
    using assms by (auto simp: exec_concat_def vm_ok_def Let_def dest: in_set_dropD)
qed

lemma function_ok:
  assumes "vm_ok n s" "env_ok env"
  shows "result_ok (Suc n) (exec_function env q s)"
proof -
  let ?f = "\<lambda>g. s\<lparr>store := (store s)\<lparr>db := g\<rparr>\<rparr>"
  have up: "vm_ok (Suc n) s" using vm_ok_mono [OF assms(1)] by simp
  have r: "vm_ok (Suc n) (push m (popStack k (?f g)))" if "xFunc env h args = (m, err)" for h args k g m err
  proof -
    have "mem_ok m" using assms(2) that unfolding env_ok_def by (metis fst_conv)
    then show ?thesis by (intro vm_ok_push vm_ok_pop) (simp_all add: assms(1))
  qed
  obtain b1 g1 where 1: "sqliteSafetyOff (db (store s)) = (b1, g1)" by fastforce
  obtain b2 g2 where 2: "sqliteSafetyOn g1 = (b2, g2)" by fastforce
  show ?thesis
  proof (cases "p3 q")
    case (Some v)
    then show ?thesis
    proof (cases v)
      case (P3Ptr h)
      obtain m err where 3: "xFunc env h (map (\<lambda>m. if m_null m then None else Some (Stringify (fl env) m))
          (rev (take (nat (p1 q)) (stack s)))) = (m, err)" by fastforce
      show ?thesis
        unfolding exec_function_def Let_def Some P3Ptr
        by (simp add: 1 2 3 halt_ok up r [OF 3])
    qed (simp add: exec_function_def Let_def)
  qed (simp add: exec_function_def Let_def)
qed

lemma convert_ok:
  assumes "vm_ok n s"
  shows "result_ok (Suc n) (exec_forceint env q s)" "result_ok (Suc n) (exec_mustbeint env q s)"
proof -
  show "result_ok (Suc n) (exec_forceint env q s)"
    unfolding exec_forceint_def
    by (rule with_tos_ok [OF assms]) (auto simp: mem_ok_convert up_ok up_push_ok split: option.splits)
  show "result_ok (Suc n) (exec_mustbeint env q s)"
    unfolding exec_mustbeint_def Let_def
    by (rule with_tos_ok [OF assms])
      (auto simp: mem_ok_convert mem_ok_string up_ok up_push_ok halt_ok split: option.splits)
qed

lemma compare_ok:
  assumes "vm_ok n s"
  shows "result_ok (Suc n) (exec_cmp env txt c q s)" "result_ok (Suc n) (exec_if env neg q s)"
    "result_ok (Suc n) (exec_setfound env neg q s)" "result_ok (Suc n) (exec_found env neg q s)"
proof -
  show "result_ok (Suc n) (exec_cmp env txt c q s)"
    unfolding exec_cmp_def exec_compare_def
    by (rule with_two_ok [OF assms]) (auto simp: up_ok up_push_ok)
  show "result_ok (Suc n) (exec_if env neg q s)" "result_ok (Suc n) (exec_setfound env neg q s)"
    "result_ok (Suc n) (exec_found env neg q s)"
    unfolding exec_if_def exec_setfound_def exec_found_def
    by (rule with_tos_ok [OF assms]; auto simp: up_ok)+
qed

lemma cells_ok:
  assumes "vm_ok n s"
  shows "result_ok (Suc n) (exec_memstore q s)" "result_ok (Suc n) (exec_memload q s)" "result_ok (Suc n) (exec_memincr q s)"
    "result_ok (Suc n) (exec_setinsert env q s)"
proof -
  show "result_ok (Suc n) (exec_memload q s)"
    using assms by (auto simp: exec_memload_def vm_ok_def push_def)
  show "result_ok (Suc n) (exec_memincr q s)"
    using assms by (auto simp: exec_memincr_def vm_ok_def jump_if_def jump_def Let_def split: option.splits
        dest!: set_update_subset_insert [THEN subsetD])
  show "result_ok (Suc n) (exec_setinsert env q s)"
    unfolding exec_setinsert_def Let_def
    using assms vm_ok_mono [OF assms, of "Suc n"]
    by (auto split: option.splits p3val.splits intro!: with_tos_ok [OF assms] simp: up_ok)
  show "result_ok (Suc n) (exec_memstore q s)"
    using assms by (auto simp: exec_memstore_def with_tos_def vm_ok_def Let_def split: list.splits
        dest!: set_update_subset_insert [THEN subsetD])
qed

lemma exec_op_ok:
  assumes "vm_ok n s" "env_ok env"
  shows "result_ok (Suc n) (exec_op env q s)"
proof -
  have push: "result_ok (Suc n) (Next (push m s))" if "mem_ok m" for m using next_push_ok [OF assms(1) that] by simp
  have two: "result_ok (Suc n) (with_two s (\<lambda>x y s. Next (push (h x y) s)))" if "\<And>x y. mem_ok (h x y)" for h
    by (rule with_two_ok [OF assms(1)]) (simp add: that up_push_ok)
  have one: "result_ok (Suc n) (with_tos s (\<lambda>x s. Next (push (h x) s)))" if "\<And>x. mem_ok x \<Longrightarrow> mem_ok (h x)" for h
    by (rule with_tos_ok [OF assms(1)]) (simp add: that up_push_ok)
  have self: "result_ok (Suc n) (Next s)" using vm_ok_mono [OF assms(1)] by simp
  note all = control_ok [OF assms(1)] stack_ok [OF assms(1)] concat_ok [OF assms(1)] function_ok [OF assms]
    convert_ok [OF assms(1)] compare_ok [OF assms(1)] cells_ok [OF assms(1)] self
  note pushed = push [of "variable (azVar env) (p1 q)"] push [of "column env (p1 q) (p2 q)"] push [of "row_number env (p1 q)"]
    push [of "agg_get env (p2 q)"]
  note rest = pushed two [of "op_arith (fl env) _"] two [of "op_bits (fl env) _"] two [of "op_logic (fl env) _"]
    one [of "op_addimm (fl env) _"] one [of "op_negative (fl env)"] one [of "op_abs (fl env)"] one [of "op_not (fl env)"]
    one [of "op_bitnot (fl env)"]
  have e: "mem_ok (column env i j)" "mem_ok (agg_get env i)" for i j using assms(2) by (simp_all add: env_ok_def)
  show ?thesis
    unfolding exec_op_def
    by (cases "opcode q") (simp_all add: all [simplified] rest [simplified] mem_ok_unary mem_ok_addimm e vm_ok_push [OF assms(1)])
qed

lemma exec_step_ok:
  assumes "vm_ok n s" "env_ok env"
  shows "result_ok (Suc n) (exec_step env ops s)"
  using exec_op_ok [OF assms, of "ops ! nat (pc s)"]
  by (auto simp: exec_step_def split: result.splits)


text \<open>A sample run: \<open>1 + NULL\<close>.\<close>

definition sample_prog :: "instr list" where
  "sample_prog = map (\<lambda>(oper, x1). \<lparr>opcode = oper, p1 = x1, p2 = 0, p3 = None, p3type = P3_NOTUSED\<rparr>)
     [(OP_Integer, 1), (OP_String, 0), (OP_Arith Add_op, 0), (OP_Halt, 0)]"

definition null_env :: "int env" where
  "null_env = \<lparr>fl = \<lparr>f_atof = (\<lambda>_. 0), f_print = (\<lambda>_. []), f_of_int = id, f_to_int = word_of_int, f_add = (+), f_sub = (-),
     f_mul = (*), f_div = (div), f_neg = uminus\<rparr>, azVar = [], column = (\<lambda>_ _. mem_null), recno = (\<lambda>_. None),
     agg_get = (\<lambda>_. mem_null), found = (\<lambda>_ _. False), xFunc = (\<lambda>_ _. (mem_null, False)), error_string = (\<lambda>_. [])\<rparr>"

definition first_state :: "int vm" where
  "first_state = \<lparr>pc = 0, stack = [], returnStack = [], store = \<lparr>aMem = [], aSet = [], db = \<lparr>magic = SQLITE_MAGIC_BUSY,
     interrupted = False, want_to_close = False, busy_vdbe = False\<rparr>\<rparr>, zErrMsg = None, errorAction = 0, rc = SQLITE_OK, halted = False\<rparr>"


end
