(* ===== verification/Aggregate.thy ===== *)
theory Aggregate
  imports Expr
begin

text \<open>
  The analysis of aggregate queries, \<open>sqliteExprAnalyzeAggregates\<close> of \<^verbatim>\<open>expr.c\<close>: every column and every call of an
  aggregate function gets a slot in \<open>pParse->aAgg\<close>.

  The analysis sets \<open>iAgg\<close> in the nodes of the tree; the model returns the tree with the field set.  An
  entry of \<open>aAgg\<close> points to the node that made it, which is a copy of that node here.  Allocation does not fail, so
  that the number of errors is always 0.
\<close>

record aggexpr =
  isAgg :: bool
  aggExpr :: expr
  aggFunc :: "funcdef option"

definition with_iAgg :: "nat \<Rightarrow> expr \<Rightarrow> expr" where
  "with_iAgg i e = Expr (op e) (dataType e) (pLeft e) (pRight e) (pList e) (token e) (iTable e) (iColumn e) (int i) (pSelect e)"

text \<open>The search loops: the first entry that matches, or the number of entries.\<close>

definition same_column :: "expr \<Rightarrow> aggexpr \<Rightarrow> bool" where
  "same_column e a \<longleftrightarrow> \<not> isAgg a \<and> iTable (aggExpr a) = iTable e \<and> iColumn (aggExpr a) = iColumn e"

definition same_call :: "expr \<Rightarrow> aggexpr \<Rightarrow> bool" where
  "same_call e a \<longleftrightarrow> isAgg a \<and> sqliteExprCompare (aggExpr a) e"

definition slot :: "('a \<Rightarrow> bool) \<Rightarrow> 'a list \<Rightarrow> nat" where
  "slot P xs = length (takeWhile (\<lambda>x. \<not> P x) xs)"

definition analyze_column :: "expr \<Rightarrow> aggexpr list \<Rightarrow> expr \<times> aggexpr list" where
  "analyze_column e aAgg =
     (let i = slot (same_column e) aAgg; e' = with_iAgg i e
      in (e', if i \<ge> length aAgg then aAgg @ [\<lparr>isAgg = False, aggExpr = e', aggFunc = None\<rparr>] else aAgg))"

definition analyze_call :: "(cstring \<Rightarrow> funcdef list) \<Rightarrow> expr \<Rightarrow> aggexpr list \<Rightarrow> expr \<times> aggexpr list" where
  "analyze_call aFunc e aAgg =
     (let i = slot (same_call e) aAgg; e' = with_iAgg i e;
          n = (case pList e of None \<Rightarrow> 0 | Some es \<Rightarrow> int (length es))
      in (e', if i \<ge> length aAgg
              then aAgg @ [\<lparr>isAgg = True, aggExpr = e', aggFunc = Option.bind (token e) (\<lambda>z. sqliteFindFunction aFunc z n)\<rparr>]
              else aAgg))"

fun sqliteExprAnalyzeAggregates :: "(cstring \<Rightarrow> funcdef list) \<Rightarrow> expr \<Rightarrow> aggexpr list \<Rightarrow> expr \<times> aggexpr list" and
    opt_analyze :: "(cstring \<Rightarrow> funcdef list) \<Rightarrow> expr option \<Rightarrow> aggexpr list \<Rightarrow> expr option \<times> aggexpr list" and
    list_analyze :: "(cstring \<Rightarrow> funcdef list) \<Rightarrow> expr list \<Rightarrow> aggexpr list \<Rightarrow> expr list \<times> aggexpr list" where
  "sqliteExprAnalyzeAggregates aFunc (Expr t dt l r xs tok tab col agg sel) aAgg =
     (if t = TK_COLUMN then analyze_column (Expr t dt l r xs tok tab col agg sel) aAgg
      else if t = TK_AGG_FUNCTION then analyze_call aFunc (Expr t dt l r xs tok tab col agg sel) aAgg
      else
        let (l', aAgg) = opt_analyze aFunc l aAgg;
            (r', aAgg) = opt_analyze aFunc r aAgg;
            (xs', aAgg) = (case xs of None \<Rightarrow> (None, aAgg)
                           | Some es \<Rightarrow> (let (es', aAgg) = list_analyze aFunc es aAgg in (Some es', aAgg)))
        in (Expr t dt l' r' xs' tok tab col agg sel, aAgg))"
| "opt_analyze aFunc None aAgg = (None, aAgg)"
| "opt_analyze aFunc (Some e) aAgg = (let (e', aAgg) = sqliteExprAnalyzeAggregates aFunc e aAgg in (Some e', aAgg))"
| "list_analyze aFunc [] aAgg = ([], aAgg)"
| "list_analyze aFunc (e # es) aAgg =
     (let (e', aAgg) = sqliteExprAnalyzeAggregates aFunc e aAgg; (es', aAgg) = list_analyze aFunc es aAgg in (e' # es', aAgg))"

subsection \<open>Every node finds its entry\<close>

text \<open>The node has the index of an entry for it.\<close>

definition entry_ok :: "aggexpr list \<Rightarrow> expr \<Rightarrow> bool" where
  "entry_ok aAgg e \<longleftrightarrow> 0 \<le> iAgg e \<and> iAgg e < int (length aAgg) \<and>
     (if op e = TK_COLUMN then \<not> isAgg (aAgg ! nat (iAgg e)) \<and> iTable (aggExpr (aAgg ! nat (iAgg e))) = iTable e \<and>
                              iColumn (aggExpr (aAgg ! nat (iAgg e))) = iColumn e
      else isAgg (aAgg ! nat (iAgg e)) \<and> (sqliteExprCompare (aggExpr (aAgg ! nat (iAgg e))) e \<or> aggExpr (aAgg ! nat (iAgg e)) = e))"

fun resolved_expr :: "aggexpr list \<Rightarrow> expr \<Rightarrow> bool" and
    resolved_opt :: "aggexpr list \<Rightarrow> expr option \<Rightarrow> bool" and
    resolved_list :: "aggexpr list \<Rightarrow> expr list \<Rightarrow> bool" where
  "resolved_expr aAgg (Expr t dt l r xs tok tab col agg sel) =
     (if t = TK_COLUMN \<or> t = TK_AGG_FUNCTION then entry_ok aAgg (Expr t dt l r xs tok tab col agg sel)
      else resolved_opt aAgg l \<and> resolved_opt aAgg r \<and> (case xs of None \<Rightarrow> True | Some es \<Rightarrow> resolved_list aAgg es))"
| "resolved_opt aAgg None = True"
| "resolved_opt aAgg (Some e) = resolved_expr aAgg e"
| "resolved_list aAgg [] = True"
| "resolved_list aAgg (e # es) = (resolved_expr aAgg e \<and> resolved_list aAgg es)"

text \<open>The tree without the fields the analysis sets.\<close>

fun erase :: "expr \<Rightarrow> expr" and erase_opt :: "expr option \<Rightarrow> expr option" and erase_list :: "expr list \<Rightarrow> expr list" where
  "erase (Expr t dt l r xs tok tab col agg sel) =
     (if t = TK_COLUMN \<or> t = TK_AGG_FUNCTION then Expr t dt l r xs tok tab col 0 sel
      else Expr t dt (erase_opt l) (erase_opt r) (case xs of None \<Rightarrow> None | Some es \<Rightarrow> Some (erase_list es)) tok tab col agg sel)"
| "erase_opt None = None"
| "erase_opt (Some e) = Some (erase e)"
| "erase_list [] = []"
| "erase_list (e # es) = erase e # erase_list es"

text \<open>No column has two entries.\<close>

definition columns_distinct :: "aggexpr list \<Rightarrow> bool" where
  "columns_distinct aAgg \<longleftrightarrow> distinct (map (\<lambda>a. (iTable (aggExpr a), iColumn (aggExpr a))) (filter (\<lambda>a. \<not> isAgg a) aAgg))"

definition extends :: "aggexpr list \<Rightarrow> aggexpr list \<Rightarrow> bool" where
  "extends a b \<longleftrightarrow> (\<exists>c. b = a @ c)"

lemma extends_refl [simp]: "extends a a" and extends_trans: "extends a b \<Longrightarrow> extends b c \<Longrightarrow> extends a c"
  by (auto simp: extends_def)

lemma slot_found: "slot P xs < length xs \<Longrightarrow> P (xs ! slot P xs)"
  unfolding slot_def using nth_length_takeWhile [of "\<lambda>x. \<not> P x" xs] by simp

lemma slot_not_found: "slot P xs \<ge> length xs \<Longrightarrow> slot P xs = length xs \<and> (\<forall>x \<in> set xs. \<not> P x)"
proof -
  assume "slot P xs \<ge> length xs"
  then have len: "length (takeWhile (\<lambda>x. \<not> P x) xs) = length xs"
    unfolding slot_def using length_takeWhile_le [of "\<lambda>x. \<not> P x" xs] by simp
  then have "takeWhile (\<lambda>x. \<not> P x) xs = xs" using takeWhile_eq_take [of "\<lambda>x. \<not> P x" xs] by simp
  then show ?thesis using len unfolding slot_def by (metis takeWhile_eq_all_conv)
qed

lemma entry_ok_extends:
  assumes "entry_ok a e" "extends a b"
  shows "entry_ok b e"
proof -
  obtain c where b: "b = a @ c" using assms(2) by (auto simp: extends_def)
  have "nat (iAgg e) < length a" using assms(1) by (auto simp: entry_ok_def)
  then have "b ! nat (iAgg e) = a ! nat (iAgg e)" by (simp add: b nth_append)
  then show ?thesis using assms(1) by (auto simp: entry_ok_def b)
qed

lemma resolved_extends:
  "resolved_expr a e \<Longrightarrow> extends a b \<Longrightarrow> resolved_expr b e"
  "resolved_opt a oe \<Longrightarrow> extends a b \<Longrightarrow> resolved_opt b oe"
  "resolved_list a es \<Longrightarrow> extends a b \<Longrightarrow> resolved_list b es"
  by (induction a e and a oe and a es rule: resolved_expr_resolved_opt_resolved_list.induct)
    (auto simp: entry_ok_extends split: if_splits option.splits)

lemma with_iAgg_simps [simp]:
  "op (with_iAgg i e) = op e" "iAgg (with_iAgg i e) = int i" "iTable (with_iAgg i e) = iTable e" "iColumn (with_iAgg i e) = iColumn e"
  "same_column (with_iAgg i e) a = same_column e a" "sqliteExprCompare e1 (with_iAgg i e) = sqliteExprCompare e1 e"
  by (cases e; cases e1; simp add: with_iAgg_def same_column_def; fail)+

lemma analyze_column_ok:
  assumes "analyze_column e a = (e', b)" "op e = TK_COLUMN" "columns_distinct a"
  shows "extends a b" "entry_ok b e'" "columns_distinct b"
proof -
  let ?i = "slot (same_column e) a"
  have "extends a b \<and> entry_ok b e' \<and> columns_distinct b"
  proof (cases "?i < length a")
    case True
    then show ?thesis using assms slot_found [OF True] by (auto simp: analyze_column_def entry_ok_def same_column_def Let_def)
  next
    case False
    let ?x = "\<lparr>isAgg = False, aggExpr = with_iAgg ?i e, aggFunc = None\<rparr>"
    have i: "?i = length a" "\<forall>x \<in> set a. \<not> same_column e x" using slot_not_found [of a "same_column e"] False by auto
    have b: "b = a @ [?x]" "e' = with_iAgg ?i e" using assms(1) False by (auto simp: analyze_column_def Let_def)
    have "columns_distinct b" using assms(3) i(2) by (auto simp: columns_distinct_def b same_column_def)
    moreover have "entry_ok b e'" using assms(2) i(1) by (simp add: b entry_ok_def same_column_def)
    ultimately show ?thesis by (simp add: b extends_def)
  qed
  then show "extends a b" "entry_ok b e'" "columns_distinct b" by blast+
qed

lemma analyze_call_ok:
  assumes "analyze_call aFunc e a = (e', b)" "op e = TK_AGG_FUNCTION" "columns_distinct a"
  shows "extends a b" "entry_ok b e'" "columns_distinct b"
proof -
  let ?i = "slot (same_call e) a"
  have "extends a b \<and> entry_ok b e' \<and> columns_distinct b"
  proof (cases "?i < length a")
    case True
    then show ?thesis using assms slot_found [OF True] by (auto simp: analyze_call_def entry_ok_def same_call_def Let_def)
  next
    case False
    then have i: "?i = length a" using slot_not_found [of a "same_call e"] by auto
    define f where "f = Option.bind (token e) (\<lambda>z. sqliteFindFunction aFunc z (case pList e of None \<Rightarrow> 0 | Some es \<Rightarrow> int (length es)))"
    have b: "b = a @ [\<lparr>isAgg = True, aggExpr = with_iAgg ?i e, aggFunc = f\<rparr>]" "e' = with_iAgg ?i e"
      using assms(1) False unfolding analyze_call_def Let_def f_def [symmetric] by auto
    have "columns_distinct b" using assms(3) by (simp add: columns_distinct_def b)
    moreover have "entry_ok b e'" using assms(2) i by (simp add: b entry_ok_def)
    ultimately show ?thesis by (simp add: b extends_def)
  qed
  then show "extends a b" "entry_ok b e'" "columns_distinct b" by blast+
qed

lemma analyze_op [simp]: "op (fst (analyze_column e a)) = op e" "op (fst (analyze_call f e a)) = op e"
  by (simp_all add: analyze_column_def analyze_call_def Let_def)

lemma resolved_node: "op e = TK_COLUMN \<or> op e = TK_AGG_FUNCTION \<Longrightarrow> resolved_expr b e = entry_ok b e"
  by (cases e) simp

lemma erase_with_iAgg: "op e = TK_COLUMN \<or> op e = TK_AGG_FUNCTION \<Longrightarrow> erase (with_iAgg i e) = erase e"
  by (cases e) (simp add: with_iAgg_def)

lemma analyze_ok:
  "columns_distinct a \<Longrightarrow> sqliteExprAnalyzeAggregates f e a = (e', b) \<Longrightarrow>
     extends a b \<and> resolved_expr b e' \<and> columns_distinct b \<and> erase e' = erase e"
  "columns_distinct a \<Longrightarrow> opt_analyze f oe a = (oe', b) \<Longrightarrow>
     extends a b \<and> resolved_opt b oe' \<and> columns_distinct b \<and> erase_opt oe' = erase_opt oe"
  "columns_distinct a \<Longrightarrow> list_analyze f es a = (es', b) \<Longrightarrow>
     extends a b \<and> resolved_list b es' \<and> columns_distinct b \<and> erase_list es' = erase_list es"
proof (induction f e a and f oe a and f es a arbitrary: e' b and oe' b and es' b
    rule: sqliteExprAnalyzeAggregates_opt_analyze_list_analyze.induct)
  case (1 f t dt l r xs tok tab col agg sel a)
  let ?e = "Expr t dt l r xs tok tab col agg sel"
  consider (c) "t = TK_COLUMN" | (f) "t = TK_AGG_FUNCTION" | (o) "t \<noteq> TK_COLUMN" "t \<noteq> TK_AGG_FUNCTION" by blast
  then show ?case
  proof cases
    case c
    then have a: "analyze_column ?e a = (e', b)" using "1.prems" by simp
    then have "e' = with_iAgg (slot (same_column ?e) a) ?e" by (simp add: analyze_column_def Let_def)
    then show ?thesis
      using analyze_column_ok [OF a _ "1.prems"(1)] c resolved_node [of e' b] erase_with_iAgg [of ?e] by simp
  next
    case f
    then have a: "analyze_call f ?e a = (e', b)" using "1.prems" by simp
    then have "e' = with_iAgg (slot (same_call ?e) a) ?e" by (simp add: analyze_call_def Let_def)
    then show ?thesis
      using analyze_call_ok [OF a _ "1.prems"(1)] f resolved_node [of e' b] erase_with_iAgg [of ?e] by simp
  next
    case o
    obtain l' a1 where l: "opt_analyze f l a = (l', a1)" by fastforce
    obtain r' a2 where r: "opt_analyze f r a1 = (r', a2)" by fastforce
    have L: "extends a a1" "resolved_opt a1 l'" "columns_distinct a1" "erase_opt l' = erase_opt l"
      using "1.IH"(1) [OF o "1.prems"(1) l] by blast+
    have R: "extends a1 a2" "resolved_opt a2 r'" "columns_distinct a2" "erase_opt r' = erase_opt r"
      using "1.IH"(2) [OF o l [symmetric] refl L(3) r] by blast+
    show ?thesis
    proof (cases xs)
      case None
      then show ?thesis
        using "1.prems"(2) o l r L R resolved_extends(2) [OF L(2) R(1)] extends_trans [OF L(1) R(1)] by auto
    next
      case (Some es)
      obtain es' a3 where x: "list_analyze f es a2 = (es', a3)" by fastforce
      have X: "extends a2 a3" "resolved_list a3 es'" "columns_distinct a3" "erase_list es' = erase_list es"
        using "1.IH"(3) [OF o l [symmetric] refl r [symmetric] refl Some R(3) x] by blast+
      have "extends a a3" using extends_trans L(1) R(1) X(1) by blast
      moreover have "resolved_opt a3 l'" "resolved_opt a3 r'"
        using resolved_extends(2) L(2) R(2) extends_trans [OF R(1) X(1)] X(1) by blast+
      ultimately show ?thesis using "1.prems"(2) o l r x L R X Some by auto
    qed
  qed
next
  case (3 f e a)
  then show ?case by (auto split: prod.splits)
next
  case (5 f e es a)
  obtain e1 a1 where e: "sqliteExprAnalyzeAggregates f e a = (e1, a1)" by fastforce
  obtain es1 a2 where es: "list_analyze f es a1 = (es1, a2)" by fastforce
  have E: "extends a a1" "resolved_expr a1 e1" "columns_distinct a1" "erase e1 = erase e"
    using "5.IH"(1) [OF "5.prems"(1) e] by blast+
  have S: "extends a1 a2" "resolved_list a2 es1" "columns_distinct a2" "erase_list es1 = erase_list es"
    using "5.IH"(2) [OF e [symmetric] refl E(3) es] by blast+
  have "resolved_expr a2 e1" using resolved_extends(1) [OF E(2) S(1)] .
  then show ?case using "5.prems"(2) e es E S extends_trans [OF E(1) S(1)] by auto
qed auto

text \<open>
  C17. Aggregates: the analysis keeps the entries that are there, so indices given out before stay valid; it
  gives every column and every aggregate call outside of other calls the index of an entry for the
  same column, or for a call that compares equal; no column ever has two entries; and nothing else
  in the tree changes.
\<close>
theorem sqliteExprAnalyzeAggregates_correct:
  assumes "columns_distinct a" "sqliteExprAnalyzeAggregates f e a = (e', b)"
  shows "(\<exists>c. b = a @ c) \<and> resolved_expr b e' \<and> columns_distinct b \<and> erase e' = erase e"
  using analyze_ok(1) [OF assms] by (simp add: extends_def)

definition sample_col :: "int \<Rightarrow> expr" where
  "sample_col k = Expr TK_COLUMN 0 None None None None 0 k 0 None"

definition sample_plus :: "expr \<Rightarrow> expr \<Rightarrow> expr" where
  "sample_plus x y = Expr TK_PLUS 0 (Some x) (Some y) None None 0 0 0 None"

theorem sqliteExprAnalyzeAggregates_correct_witness:
  "\<exists>e' b. sqliteExprAnalyzeAggregates (\<lambda>_. []) (sample_plus (sample_col 3) (sample_plus (sample_col 4) (sample_col 3))) [] = (e', b) \<and>
     length b = 2 \<and> resolved_expr b e' \<and> columns_distinct b"
proof -
  let ?e = "sample_plus (sample_col 3) (sample_plus (sample_col 4) (sample_col 3))"
  obtain e' b where r: "sqliteExprAnalyzeAggregates (\<lambda>_. []) ?e [] = (e', b)" by fastforce
  moreover have "length (snd (sqliteExprAnalyzeAggregates (\<lambda>_. []) ?e [])) = 2"
    by (simp add: sample_plus_def sample_col_def analyze_column_def slot_def same_column_def with_iAgg_def Let_def)
  moreover have "columns_distinct []" by (simp add: columns_distinct_def)
  from sqliteExprAnalyzeAggregates_correct [OF this r] have "resolved_expr b e'" "columns_distinct b" by blast+
  ultimately show ?thesis by auto
qed


end
