(* ===== verification/Pager.thy ===== *)
theory Pager
  imports Os_File "HOL-Library.Monad_Syntax"
begin

text \<open>
  The pager, \<^verbatim>\<open>pager.c\<close>: the page cache, the rollback journal and the checkpoint journal.

  A page is known by its number: the hash table leads from the number to the page, and a client holds pointers only
  to pages in use, which keep their number.  The list of all pages is \<open>pAll\<close>; the free list, from \<open>pFirst\<close> to \<open>pLast\<close>,
  and the list of pages in the checkpoint journal are lists of numbers.  The two arrays with a bit for each page are
  lists of booleans.  An operation is \<open>None\<close> where an assertion fails, a null pointer is followed or an array is
  accessed outside of its bounds.

  The journal format is 3, as everywhere but in tests.  Not modelled: the codec, which is not compiled in, the
  destructor of pages, and the counters of cache hits.
\<close>

unbundle bit_operations_syntax

subsection \<open>Data\<close>

definition SQLITE_PAGE_SIZE :: nat where "SQLITE_PAGE_SIZE = 1024"

definition SQLITE_UNLOCK :: nat where "SQLITE_UNLOCK = 0"
definition SQLITE_READLOCK :: nat where "SQLITE_READLOCK = 1"
definition SQLITE_WRITELOCK :: nat where "SQLITE_WRITELOCK = 2"

lemmas lock_defs = SQLITE_UNLOCK_def SQLITE_READLOCK_def SQLITE_WRITELOCK_def

record pghdr =
  pgno :: nat
  pgRef :: nat
  inJournal :: bool
  inCkpt :: bool
  dirty :: bool
  pgSync :: bool
  pgAlways :: bool
  pgData :: "u8 list"
  pgExtra :: "u8 list"

record pager = fs +
  zFilename :: cstring
  zDirectory :: cstring
  zJournal :: cstring
  dbSize :: int
  origDbSize :: int
  ckptSize :: int
  ckptJSize :: nat
  nRec :: nat
  cksumInit :: u32
  ckptNRec :: nat
  nExtra :: nat
  nPage :: nat
  nRef :: nat
  mxPage :: nat
  journalOpen :: bool
  journalStarted :: bool
  useJournal :: bool
  ckptOpen :: bool
  ckptInUse :: bool
  ckptAutoopen :: bool
  noSync :: bool
  fullSync :: bool
  state :: nat
  errMask :: u8
  tempFile :: bool
  readOnly :: bool
  needSync :: bool
  dirtyFile :: bool
  alwaysRollback :: bool
  aInJournal :: "bool list option"
  aInCkpt :: "bool list option"
  pFree :: "nat list"
  pFirstSynced :: "nat option"
  pAll :: "pghdr list"
  pCkpt :: "nat list"

definition PAGER_ERR_FULL :: u8 where "PAGER_ERR_FULL = 0x01"
definition PAGER_ERR_MEM :: u8 where "PAGER_ERR_MEM = 0x02"
definition PAGER_ERR_LOCK :: u8 where "PAGER_ERR_LOCK = 0x04"
definition PAGER_ERR_CORRUPT :: u8 where "PAGER_ERR_CORRUPT = 0x08"
definition PAGER_ERR_DISK :: u8 where "PAGER_ERR_DISK = 0x10"

definition aJournalMagic1 :: "u8 list" where "aJournalMagic1 = [0xd9, 0xd5, 0x05, 0xf9, 0x20, 0xa1, 0x63, 0xd4]"
definition aJournalMagic2 :: "u8 list" where "aJournalMagic2 = [0xd9, 0xd5, 0x05, 0xf9, 0x20, 0xa1, 0x63, 0xd5]"
definition aJournalMagic3 :: "u8 list" where "aJournalMagic3 = [0xd9, 0xd5, 0x05, 0xf9, 0x20, 0xa1, 0x63, 0xd6]"

definition JOURNAL_HDR_SZ :: "nat \<Rightarrow> nat" where
  "JOURNAL_HDR_SZ X = 8 + 4 + (if X \<ge> 3 then 2 * 4 else 0)"

definition JOURNAL_PG_SZ :: "nat \<Rightarrow> nat" where
  "JOURNAL_PG_SZ X = SQLITE_PAGE_SIZE + 4 + (if X \<ge> 3 then 4 else 0)"

definition guard :: "bool \<Rightarrow> unit option" where
  "guard b = (if b then Some () else None)"

lemma guard_bind [simp]: "(guard b \<bind> f = Some y) = (b \<and> f () = Some y)" "(guard b \<bind> f = None) = (b \<longrightarrow> f () = None)"
  by (auto simp: guard_def)

lemma guard_True [simp]: "guard True \<bind> f = f ()"
  by (simp add: guard_def)

subsection \<open>Integers in the journal\<close>

definition be32 :: "u32 \<Rightarrow> u8 list" where
  "be32 v = [ucast (drop_bit 24 v), ucast (drop_bit 16 v), ucast (drop_bit 8 v), ucast v]"

definition of_be32 :: "u8 list \<Rightarrow> u32" where
  "of_be32 ac = (push_bit 24 (ucast (ac ! 0)) OR push_bit 16 (ucast (ac ! 1))) OR (push_bit 8 (ucast (ac ! 2)) OR ucast (ac ! 3))"

definition read32bits :: "sysenv \<Rightarrow> nat \<Rightarrow> fid \<Rightarrow> pager \<Rightarrow> int \<times> u32 \<times> pager" where
  "read32bits e format f s =
     (let (rc, ac, s) = sqliteOsRead e f 4 s
      in (rc, if rc = SQLITE_OK \<and> format > 1 then of_be32 ac else native32 e ac, s))"

definition write32bits :: "sysenv \<Rightarrow> fid \<Rightarrow> u32 \<Rightarrow> pager \<Rightarrow> int \<times> pager" where
  "write32bits e f val s = sqliteOsWrite e f (be32 val) s"

subsection \<open>Pages\<close>

definition pager_errcode :: "pager \<Rightarrow> int" where
  "pager_errcode s =
     (let rc = SQLITE_OK;
          rc = (if errMask s AND PAGER_ERR_LOCK \<noteq> 0 then SQLITE_PROTOCOL else rc);
          rc = (if errMask s AND PAGER_ERR_DISK \<noteq> 0 then SQLITE_IOERR else rc);
          rc = (if errMask s AND PAGER_ERR_FULL \<noteq> 0 then SQLITE_FULL else rc);
          rc = (if errMask s AND PAGER_ERR_MEM \<noteq> 0 then SQLITE_NOMEM else rc)
      in if errMask s AND PAGER_ERR_CORRUPT \<noteq> 0 then SQLITE_CORRUPT else rc)"

definition pager_lookup :: "pager \<Rightarrow> nat \<Rightarrow> pghdr option" where
  "pager_lookup s n = find (\<lambda>p. pgno p = n) (pAll s)"

definition set_page :: "nat \<Rightarrow> (pghdr \<Rightarrow> pghdr) \<Rightarrow> pager \<Rightarrow> pager" where
  "set_page n g s = s\<lparr>pAll := map (\<lambda>p. if pgno p = n then g p else p) (pAll s)\<rparr>"

definition page_add_to_ckpt_list :: "nat \<Rightarrow> pager \<Rightarrow> pager option" where
  "page_add_to_ckpt_list n s =
     do { p \<leftarrow> pager_lookup s n;
          Some (if inCkpt p then s else set_page n (\<lambda>p. p\<lparr>inCkpt := True\<rparr>) (s\<lparr>pCkpt := n # pCkpt s\<rparr>)) }"

definition page_remove_from_ckpt_list :: "nat \<Rightarrow> pager \<Rightarrow> pager option" where
  "page_remove_from_ckpt_list n s =
     do { p \<leftarrow> pager_lookup s n;
          if inCkpt p
          then do { guard (n \<in> set (pCkpt s));
                    Some (set_page n (\<lambda>p. p\<lparr>inCkpt := False\<rparr>) (s\<lparr>pCkpt := remove1 n (pCkpt s)\<rparr>)) }
          else Some s }"

text \<open>The bits of \<open>aInJournal\<close> and \<open>aInCkpt\<close>.\<close>

definition test_bit_of :: "bool list option \<Rightarrow> nat \<Rightarrow> bool option" where
  "test_bit_of a n = do { bs \<leftarrow> a; guard (n < length bs); Some (bs ! n) }"

definition set_bit_of :: "bool list option \<Rightarrow> nat \<Rightarrow> bool list option" where
  "set_bit_of a n = do { bs \<leftarrow> a; guard (n < length bs); Some (bs[n := True]) }"

definition new_bits :: "int \<Rightarrow> bool list" where
  "new_bits n = replicate (8 * nat (n div 8 + 1)) False"

subsection \<open>Leaving a transaction\<close>

definition sqlitepager_ckpt_commit :: "pager \<Rightarrow> pager option" where
  "sqlitepager_ckpt_commit s =
     (if ckptInUse s
      then do { guard (\<forall>n \<in> set (pCkpt s). \<exists>p \<in> set (pAll s). pgno p = n \<and> inCkpt p);
                let s = sqliteOsSeek CKP 0 s;
                Some (s\<lparr>ckptNRec := 0, ckptInUse := False, aInCkpt := None,
                        pAll := map (\<lambda>p. if pgno p \<in> set (pCkpt s) then p\<lparr>inCkpt := False\<rparr> else p) (pAll s), pCkpt := [],
                        ckptAutoopen := False\<rparr>) }
      else Some (s\<lparr>ckptAutoopen := False\<rparr>))"

definition pager_unwritelock :: "sysenv \<Rightarrow> pager \<Rightarrow> (int \<times> pager) option" where
  "pager_unwritelock e s =
     (if state s < SQLITE_WRITELOCK then Some (SQLITE_OK, s)
      else do {
        s \<leftarrow> sqlitepager_ckpt_commit s;
        let s = s\<lparr>ckptOpen := False\<rparr>;
        s \<leftarrow> (if journalOpen s
              then Some ((delete_journal (s\<lparr>journalOpen := False\<rparr>))
                     \<lparr>aInJournal := None, pAll := map (\<lambda>p. p\<lparr>inJournal := False, dirty := False, pgSync := False\<rparr>) (pAll s)\<rparr>)
              else do { guard (\<not> dirtyFile s \<or> \<not> useJournal s); Some s });
        let (rc, s) = syscall e Call_readlock s;
        Some (rc, s\<lparr>state := (if rc = SQLITE_OK then SQLITE_READLOCK else SQLITE_UNLOCK)\<rparr>) })"

definition pager_cksum :: "pager \<Rightarrow> nat \<Rightarrow> u32" where
  "pager_cksum s n = cksumInit s + of_nat n"

text \<open>The comparison with \<open>(unsigned)pPager->dbSize\<close> takes a negative size for a large one.\<close>

definition pager_playback_one_page :: "sysenv \<Rightarrow> fid \<Rightarrow> nat \<Rightarrow> pager \<Rightarrow> (int \<times> pager) option" where
  "pager_playback_one_page e jfd format s =
     (let (rc, no, s) = read32bits e format jfd s; n = unat no
      in if rc \<noteq> SQLITE_OK then Some (rc, s)
      else let (rc, aData, s) = sqliteOsRead e jfd SQLITE_PAGE_SIZE s
      in if rc \<noteq> SQLITE_OK then Some (rc, s)
      else if n = 0 then Some (SQLITE_DONE, s)
      else if int n > dbSize s mod 2 ^ 32 then Some (SQLITE_OK, s)
      else let (rc, cksum, s) = (if format \<ge> 3 then read32bits e format jfd s else (SQLITE_OK, pager_cksum s n, s))
      in if rc \<noteq> SQLITE_OK then Some (rc, s)
      else if format \<ge> 3 \<and> pager_cksum s n \<noteq> cksum then Some (SQLITE_DONE, s)
      else let s = sqliteOsSeek DB ((n - 1) * SQLITE_PAGE_SIZE) s;
               (rc, s) = sqliteOsWrite e DB aData s
      in case pager_lookup s n of None \<Rightarrow> Some (rc, s)
         | Some p \<Rightarrow>
             do { guard (pgRef p = 0 \<or> n = 1);
                  Some (rc, set_page n (\<lambda>p. p\<lparr>pgData := aData, pgExtra := replicate (nExtra s) 0, dirty := False, pgSync := False\<rparr>) s) })"

text \<open>The loops that play back a number of pages and stop at the first result that is not \<open>SQLITE_OK\<close>.\<close>

fun playback_pages :: "sysenv \<Rightarrow> fid \<Rightarrow> nat \<Rightarrow> nat \<Rightarrow> pager \<Rightarrow> (int \<times> pager) option" where
  "playback_pages e jfd format 0 s = Some (SQLITE_OK, s)"
| "playback_pages e jfd format (Suc k) s =
     do { (rc, s) \<leftarrow> pager_playback_one_page e jfd format s;
          if rc = SQLITE_OK then playback_pages e jfd format k s else Some (rc, s) }"

text \<open>The loop that reads dirty pages back from the database.\<close>

definition refetch_page :: "sysenv \<Rightarrow> nat \<Rightarrow> pager \<Rightarrow> int \<times> pager" where
  "refetch_page e n s =
     (let (rc, zBuf, s) = (if int n \<le> origDbSize s
                           then sqliteOsRead e DB SQLITE_PAGE_SIZE (sqliteOsSeek DB (SQLITE_PAGE_SIZE * (n - 1)) s)
                           else (SQLITE_OK, replicate SQLITE_PAGE_SIZE 0, s))
      in if rc \<noteq> SQLITE_OK then (rc, s)
         else (SQLITE_OK, set_page n (\<lambda>p. (if pgRef p = 0 \<or> zBuf \<noteq> pgData p
                                           then p\<lparr>pgData := zBuf, pgExtra := replicate (nExtra s) 0\<rparr> else p)
                                             \<lparr>pgSync := False, dirty := False\<rparr>) s))"

fun refetch :: "sysenv \<Rightarrow> nat list \<Rightarrow> pager \<Rightarrow> int \<times> pager" where
  "refetch e [] s = (SQLITE_OK, s)"
| "refetch e (n # ns) s =
     (case pager_lookup s n of
        Some p \<Rightarrow>
          if dirty p then let (rc, s) = refetch_page e n s in if rc \<noteq> SQLITE_OK then (rc, s) else refetch e ns s
          else refetch e ns s
      | None \<Rightarrow> refetch e ns s)"

definition journal_header :: "sysenv \<Rightarrow> bool \<Rightarrow> nat \<Rightarrow> nat \<Rightarrow> pager \<Rightarrow> (int \<times> int \<times> pager) option" where
  "journal_header e useJournalSize format szJ s =
     (if format \<ge> 3
      then let (rc, n, s) = read32bits e format JRN s
        in if rc \<noteq> SQLITE_OK then Some (rc, 0, s)
        else let (rc, c, s) = read32bits e format JRN s; s = s\<lparr>cksumInit := c\<rparr>
        in if rc \<noteq> SQLITE_OK then Some (rc, 0, s)
        else Some (SQLITE_OK, if n = 0xffffffff \<or> useJournalSize then int ((szJ - JOURNAL_HDR_SZ 3) div JOURNAL_PG_SZ 3) else sint n, s)
      else do { let n = (szJ - JOURNAL_HDR_SZ 2) div JOURNAL_PG_SZ 2;
                guard (n * JOURNAL_PG_SZ 2 + JOURNAL_HDR_SZ 2 = szJ);
                Some (SQLITE_OK, int n, s) })"

text \<open>The body of \<open>pager_playback\<close> up to the label \<open>end_playback\<close>.\<close>

definition playback_body :: "sysenv \<Rightarrow> bool \<Rightarrow> pager \<Rightarrow> (int \<times> pager) option" where
  "playback_body e useJournalSize s =
     do {
       guard (journalOpen s);
       let s = sqliteOsSeek JRN 0 s;
       let (rc, szJ, s) = sqliteOsFileSize e JRN s;
       if rc \<noteq> SQLITE_OK then Some (rc, s)
       else if szJ < 8 + 4 then Some (SQLITE_OK, s)
       else do {
         let (rc, aMagic, s) = sqliteOsRead e JRN 8 s;
         let format = (if aMagic = aJournalMagic3 then 3 else if aMagic = aJournalMagic2 then 2 else if aMagic = aJournalMagic1 then 1 else 0);
         if rc \<noteq> SQLITE_OK \<or> format = 0 then Some (SQLITE_PROTOCOL, s)
         else if format \<ge> 3 \<and> szJ < 8 + 3 * 4 then Some (SQLITE_OK, s)
         else do {
           (rc, n, s) \<leftarrow> journal_header e useJournalSize format szJ s;
           if rc \<noteq> SQLITE_OK then Some (rc, s)
           else do {
             let (rc, mxPg, s) = read32bits e format JRN s;
             if rc \<noteq> SQLITE_OK then Some (rc, s)
             else do {
               guard (origDbSize s = 0 \<or> origDbSize s = uint mxPg);
               let (rc, s) = sqliteOsTruncate e DB (SQLITE_PAGE_SIZE * unat mxPg) s;
               if rc \<noteq> SQLITE_OK then Some (rc, s)
               else do {
                 (rc, s) \<leftarrow> playback_pages e JRN format (nat n) (s\<lparr>dbSize := sint mxPg\<rparr>);
                 if rc = SQLITE_OK \<or> rc = SQLITE_DONE then Some (refetch e (map pgno (pAll s)) s) else Some (rc, s) } } } } } }"

definition pager_playback :: "sysenv \<Rightarrow> bool \<Rightarrow> pager \<Rightarrow> (int \<times> pager) option" where
  "pager_playback e useJournalSize s =
     do { (rc, s) \<leftarrow> playback_body e useJournalSize s;
          if rc \<noteq> SQLITE_OK
          then do { (_, s) \<leftarrow> pager_unwritelock e s;
                    Some (SQLITE_CORRUPT, s\<lparr>errMask := errMask s OR PAGER_ERR_CORRUPT\<rparr>) }
          else pager_unwritelock e s }"

definition sqlitepager_rollback :: "sysenv \<Rightarrow> pager \<Rightarrow> (int \<times> pager) option" where
  "sqlitepager_rollback e s =
     (if \<not> dirtyFile s \<or> \<not> journalOpen s
      then do { (rc, s) \<leftarrow> pager_unwritelock e s; Some (rc, s\<lparr>dbSize := - 1\<rparr>) }
      else if errMask s \<noteq> 0 \<and> errMask s \<noteq> PAGER_ERR_FULL
      then do { (_, s) \<leftarrow> (if state s \<ge> SQLITE_WRITELOCK then pager_playback e True s else Some (SQLITE_OK, s));
                Some (pager_errcode s, s) }
      else if state s \<noteq> SQLITE_WRITELOCK then Some (SQLITE_OK, s)
      else do { (rc, s) \<leftarrow> pager_playback e True s;
                let (rc, s) = (if rc \<noteq> SQLITE_OK then (SQLITE_CORRUPT, s\<lparr>errMask := errMask s OR PAGER_ERR_CORRUPT\<rparr>) else (rc, s));
                Some (rc, s\<lparr>dbSize := - 1\<rparr>) })"

definition pager_reset :: "sysenv \<Rightarrow> pager \<Rightarrow> pager option" where
  "pager_reset e s =
     do {
       let s = s\<lparr>pFree := [], pFirstSynced := None, pAll := [], nPage := 0\<rparr>;
       (_, s) \<leftarrow> (if state s \<ge> SQLITE_WRITELOCK then sqlitepager_rollback e s else Some (SQLITE_OK, s));
       let (_, s) = syscall e Call_unlock s;
       guard (\<not> journalOpen s);
       Some (s\<lparr>state := SQLITE_UNLOCK, dbSize := - 1, nRef := 0\<rparr>) }"

subsection \<open>Settings\<close>

definition sqlitepager_set_cachesize :: "int \<Rightarrow> pager \<Rightarrow> pager" where
  "sqlitepager_set_cachesize mx s =
     (let s = (if mx \<ge> 0
               then (let s = s\<lparr>noSync := tempFile s\<rparr> in if \<not> noSync s then s\<lparr>needSync := False\<rparr> else s)
               else s\<lparr>noSync := True\<rparr>);
          mx = \<bar>mx\<bar>
      in if mx > 10 then s\<lparr>mxPage := nat mx\<rparr> else s)"

definition sqlitepager_set_safety_level :: "int \<Rightarrow> pager \<Rightarrow> pager" where
  "sqlitepager_set_safety_level level s =
     (let s = s\<lparr>noSync := level = 1 \<or> tempFile s, fullSync := level = 3 \<and> \<not> tempFile s\<rparr>
      in if \<not> noSync s then s\<lparr>needSync := False\<rparr> else s)"

text \<open>A temporary file is tried up to eight times.\<close>

fun opentemp_loop :: "nat \<Rightarrow> sysenv \<Rightarrow> fid \<Rightarrow> pager \<Rightarrow> int \<times> pager" where
  "opentemp_loop 0 e f s = (SQLITE_OK, s)"
| "opentemp_loop (Suc cnt) e f s =
     (let (rc, s) = open_exclusive e f True s in if cnt > 0 \<and> rc \<noteq> SQLITE_OK then opentemp_loop cnt e f s else (rc, s))"

definition sqlitepager_opentemp :: "sysenv \<Rightarrow> fid \<Rightarrow> pager \<Rightarrow> int \<times> pager" where
  "sqlitepager_opentemp e f s = opentemp_loop 8 e f s"

text \<open>The directory of a file: the name up to the last slash, without it.\<close>

fun slash_index :: "cstring \<Rightarrow> nat \<Rightarrow> nat" where
  "slash_index z 0 = 0"
| "slash_index z (Suc i) = (if zat z i = of_char CHR ''/'' then Suc i else slash_index z i)"

definition directory_of :: "cstring \<Rightarrow> cstring" where
  "directory_of z = (let i = slash_index z (length z) in if i > 0 then take (i - 1) z else z)"

text \<open>
  The new pager of \<open>sqlitepager_open\<close>, once the file with the full name \<open>z\<close> is open.  \<open>files\<close> are the files the
  name leads to and \<open>jexists\<close> whether there is a journal.
\<close>

definition sqlitepager_open :: "cstring \<Rightarrow> bool \<Rightarrow> bool \<Rightarrow> int \<Rightarrow> nat \<Rightarrow> bool \<Rightarrow> fs \<Rightarrow> pager" where
  "sqlitepager_open z temp ro mx ext useJ d =
     \<lparr>files = files d, jexists = jexists d, clock = clock d, disklog = disklog d,
      zFilename = z, zDirectory = directory_of z, zJournal = z @ cstr ''-journal'',
      dbSize = - 1, origDbSize = 0, ckptSize = 0, ckptJSize = 0, nRec = 0, cksumInit = 0, ckptNRec = 0, nExtra = ext,
      nPage = 0, nRef = 0, mxPage = (if mx > 5 then nat mx else 10),
      journalOpen = False, journalStarted = False, useJournal = useJ, ckptOpen = False, ckptInUse = False, ckptAutoopen = False,
      noSync = temp \<or> \<not> useJ, fullSync = False, state = SQLITE_UNLOCK, errMask = 0, tempFile = temp, readOnly = ro,
      needSync = False, dirtyFile = False, alwaysRollback = False, aInJournal = None, aInCkpt = None,
      pFree = [], pFirstSynced = None, pAll = [], pCkpt = []\<rparr>"

definition sqlitepager_pagecount :: "sysenv \<Rightarrow> pager \<Rightarrow> int \<times> pager" where
  "sqlitepager_pagecount e s =
     (if dbSize s \<ge> 0 then (dbSize s, s)
      else let (rc, n, s) = sqliteOsFileSize e DB s
        in if rc \<noteq> SQLITE_OK then (0, s\<lparr>errMask := errMask s OR PAGER_ERR_DISK\<rparr>)
           else let n = int (n div SQLITE_PAGE_SIZE)
             in (n, if state s \<noteq> SQLITE_UNLOCK then s\<lparr>dbSize := n\<rparr> else s))"

subsection \<open>The free list\<close>

text \<open>The first page of a part of the free list that needs no sync.\<close>

definition first_synced :: "pager \<Rightarrow> nat list \<Rightarrow> nat option" where
  "first_synced s ns = find (\<lambda>n. case pager_lookup s n of Some p \<Rightarrow> \<not> pgSync p | None \<Rightarrow> False) ns"

definition after :: "nat \<Rightarrow> nat list \<Rightarrow> nat list" where
  "after n ns = tl (dropWhile (\<lambda>k. k \<noteq> n) ns)"

definition unlink_free :: "nat \<Rightarrow> pager \<Rightarrow> pager" where
  "unlink_free n s =
     (let s = (if pFirstSynced s = Some n then s\<lparr>pFirstSynced := first_synced s (after n (pFree s))\<rparr> else s)
      in s\<lparr>pFree := remove1 n (pFree s)\<rparr>)"

definition page_ref :: "nat \<Rightarrow> pager \<Rightarrow> pager option" where
  "page_ref n s =
     do { p \<leftarrow> pager_lookup s n;
          let s = (if pgRef p = 0 then let s = unlink_free n s in s\<lparr>nRef := Suc (nRef s)\<rparr> else s);
          Some (set_page n (\<lambda>p. p\<lparr>pgRef := Suc (pgRef p)\<rparr>) s) }"

definition sqlitepager_ref :: "nat \<Rightarrow> pager \<Rightarrow> (int \<times> pager) option" where
  "sqlitepager_ref n s = do { s \<leftarrow> page_ref n s; Some (SQLITE_OK, s) }"

definition sqlitepager_unref :: "sysenv \<Rightarrow> nat \<Rightarrow> pager \<Rightarrow> (int \<times> pager) option" where
  "sqlitepager_unref e n s =
     do {
       p \<leftarrow> pager_lookup s n;
       guard (pgRef p > 0);
       let s = set_page n (\<lambda>p. p\<lparr>pgRef := pgRef p - 1\<rparr>) s;
       if pgRef p = 1
       then do {
         let s = s\<lparr>pFree := pFree s @ [n]\<rparr>;
         let s = (if \<not> pgSync p \<and> pFirstSynced s = None then s\<lparr>pFirstSynced := Some n\<rparr> else s);
         guard (nRef s > 0);
         let s = s\<lparr>nRef := nRef s - 1\<rparr>;
         s \<leftarrow> (if nRef s = 0 then pager_reset e s else Some s);
         Some (SQLITE_OK, s) }
       else Some (SQLITE_OK, s) }"

definition sqlitepager_lookup :: "nat \<Rightarrow> pager \<Rightarrow> (bool \<times> pager) option" where
  "sqlitepager_lookup n s =
     do { guard (n \<noteq> 0);
          if errMask s AND NOT PAGER_ERR_FULL \<noteq> 0 then Some (False, s)
          else case pager_lookup s n of
            None \<Rightarrow> Some (False, s)
          | Some p \<Rightarrow> do { s \<leftarrow> page_ref n s; Some (True, s) } }"

subsection \<open>Writing to the database\<close>

definition syncJournal :: "sysenv \<Rightarrow> pager \<Rightarrow> (int \<times> pager) option" where
  "syncJournal e s =
     (if needSync s
      then do {
        (rc, s) \<leftarrow>
          (if \<not> tempFile s
           then do {
             guard (journalOpen s);
             let (rc, jSz, s) = sqliteOsFileSize e JRN s;
             if rc \<noteq> SQLITE_OK then Some (rc, s)
             else do {
               guard (nRec s * JOURNAL_PG_SZ 3 + JOURNAL_HDR_SZ 3 = jSz);
               let (rc, s) = (if fullSync s then sqliteOsSync e JRN s else (SQLITE_OK, s));
               if rc \<noteq> SQLITE_OK then Some (rc, s)
               else let (rc, s) = write32bits e JRN (of_nat (nRec s)) (sqliteOsSeek JRN 8 s)
                 in if rc \<noteq> SQLITE_OK then Some (rc, s)
                 else let s = sqliteOsSeek JRN (JOURNAL_HDR_SZ 3 + nRec s * JOURNAL_PG_SZ 3) s;
                          (rc, s) = sqliteOsSync e JRN s
                   in if rc \<noteq> SQLITE_OK then Some (rc, s)
                   else Some (SQLITE_OK, s\<lparr>journalStarted := True\<rparr>) } }
           else Some (SQLITE_OK, s));
        if rc \<noteq> SQLITE_OK then Some (rc, s)
        else Some (SQLITE_OK, s\<lparr>needSync := False, pAll := map (\<lambda>p. p\<lparr>pgSync := False\<rparr>) (pAll s),
                                pFirstSynced := (case pFree s of [] \<Rightarrow> None | n # _ \<Rightarrow> Some n)\<rparr>) }
      else do {
        guard (\<forall>p \<in> set (pAll s). \<not> pgSync p);
        guard (pFirstSynced s = (case pFree s of [] \<Rightarrow> None | n # _ \<Rightarrow> Some n));
        Some (SQLITE_OK, s) })"

fun pager_write_pagelist :: "sysenv \<Rightarrow> nat list \<Rightarrow> pager \<Rightarrow> (int \<times> pager) option" where
  "pager_write_pagelist e [] s = Some (SQLITE_OK, s)"
| "pager_write_pagelist e (n # ns) s =
     do { p \<leftarrow> pager_lookup s n;
          guard (dirty p);
          let (rc, s) = sqliteOsWrite e DB (pgData p) (sqliteOsSeek DB ((n - 1) * SQLITE_PAGE_SIZE) s);
          if rc \<noteq> SQLITE_OK then Some (rc, s)
          else pager_write_pagelist e ns (set_page n (\<lambda>p. p\<lparr>dirty := False\<rparr>) s) }"

definition pager_get_all_dirty_pages :: "pager \<Rightarrow> nat list" where
  "pager_get_all_dirty_pages s = rev (map pgno (filter dirty (pAll s)))"

definition sqlitepager_truncate :: "sysenv \<Rightarrow> nat \<Rightarrow> pager \<Rightarrow> (int \<times> pager) option" where
  "sqlitepager_truncate e n s =
     (let s = (if dbSize s < 0 then snd (sqlitepager_pagecount e s) else s)
      in if errMask s \<noteq> 0 then Some (pager_errcode s, s)
      else if int n \<ge> dbSize s mod 2 ^ 32 then Some (SQLITE_OK, s)
      else do { (_, s) \<leftarrow> syncJournal e s;
                let (rc, s) = sqliteOsTruncate e DB (SQLITE_PAGE_SIZE * n) s;
                Some (rc, if rc = SQLITE_OK then s\<lparr>dbSize := int n\<rparr> else s) })"

definition sqlitepager_close :: "sysenv \<Rightarrow> pager \<Rightarrow> (int \<times> fs) option" where
  "sqlitepager_close e s =
     do { s \<leftarrow> (if state s = SQLITE_WRITELOCK
               then do { (_, s) \<leftarrow> sqlitepager_rollback e s;
                         let (_, s) = syscall e Call_unlock s;
                         guard (\<not> journalOpen s);
                         Some s }
               else if state s = SQLITE_READLOCK then Some (snd (syscall e Call_unlock s))
               else Some s);
          guard (\<not> journalOpen s);
          Some (SQLITE_OK, fs.truncate s) }"

subsection \<open>Getting a page\<close>

text \<open>The lock, and the playback of a journal that another process has left behind.\<close>

definition get_lock :: "sysenv \<Rightarrow> pager \<Rightarrow> (int \<times> pager) option" where
  "get_lock e s =
     (let (rc, s) = syscall e Call_readlock s
      in if rc \<noteq> SQLITE_OK then Some (rc, s)
      else let s = s\<lparr>state := SQLITE_READLOCK\<rparr>
      in if useJournal s \<and> jexists s
         then let (rc, s) = syscall e Call_writelock s
           in if rc \<noteq> SQLITE_OK
              then let (rc', s) = syscall e Call_unlock s in Some (if rc' \<noteq> SQLITE_OK then SQLITE_INTERNAL else rc, s)
              else let s = s\<lparr>state := SQLITE_WRITELOCK\<rparr>; (rc, s) = open_read_only e JRN s
                in if rc \<noteq> SQLITE_OK
                   then do { let (rc, s) = syscall e Call_unlock s; guard (rc = SQLITE_OK); Some (SQLITE_BUSY, s) }
                   else pager_playback e False (s\<lparr>journalOpen := True, journalStarted := False\<rparr>)
         else Some (SQLITE_OK, s))"

text \<open>A structure for the page: a new one, or one from the free list, whose old page is written first if it is dirty.\<close>

definition new_page :: "sysenv \<Rightarrow> nat \<Rightarrow> pager \<Rightarrow> (int \<times> pager) option" where
  "new_page e n s =
     (let (rc, s) = syscall e Call_malloc s
      in if rc \<noteq> SQLITE_OK
         then do { (_, s) \<leftarrow> pager_unwritelock e s; Some (SQLITE_NOMEM, s\<lparr>errMask := errMask s OR PAGER_ERR_MEM\<rparr>) }
         else Some (SQLITE_OK,
                s\<lparr>pAll := \<lparr>pgno = n, pgRef = 0, inJournal = False, inCkpt = False, dirty = False, pgSync = False, pgAlways = False,
                          pgData = map (fresh e (clock s)) [0..<SQLITE_PAGE_SIZE], pgExtra = []\<rparr> # pAll s, nPage := Suc (nPage s)\<rparr>))"

definition rename_page :: "nat \<Rightarrow> nat \<Rightarrow> pager \<Rightarrow> pager" where
  "rename_page n n' s =
     s\<lparr>pAll := map (\<lambda>p. if pgno p = n then p\<lparr>pgno := n'\<rparr> else p) (pAll s),
       pCkpt := map (\<lambda>k. if k = n then n' else k) (pCkpt s)\<rparr>"

definition recycle_page :: "sysenv \<Rightarrow> nat \<Rightarrow> pager \<Rightarrow> (int \<times> pager) option" where
  "recycle_page e n s =
     do {
       (rc, s) \<leftarrow> (if pFirstSynced s = None then syncJournal e s else Some (SQLITE_OK, s));
       if rc \<noteq> SQLITE_OK
       then do { (_, s) \<leftarrow> sqlitepager_rollback e s; Some (SQLITE_IOERR, s) }
       else do {
         old \<leftarrow> (case pFirstSynced s of Some k \<Rightarrow> Some k | None \<Rightarrow> (case pFree s of [] \<Rightarrow> None | k # _ \<Rightarrow> Some k));
         p \<leftarrow> pager_lookup s old;
         guard (pgRef p = 0);
         (rc, s) \<leftarrow> (if dirty p then do { guard (\<not> pgSync p); pager_write_pagelist e [old] s } else Some (SQLITE_OK, s));
         if rc \<noteq> SQLITE_OK
         then do { (_, s) \<leftarrow> sqlitepager_rollback e s; Some (SQLITE_IOERR, s) }
         else do {
           let s = (if pgAlways p then s\<lparr>alwaysRollback := True\<rparr> else s);
           guard (old \<in> set (pFree s));
           Some (SQLITE_OK, rename_page old n (unlink_free old s)) } } }"

text \<open>The flags of the page, and its data from the database.\<close>

definition page_flags :: "nat \<Rightarrow> pager \<Rightarrow> pager option" where
  "page_flags n s =
     do {
       inj \<leftarrow> (if aInJournal s \<noteq> None \<and> int n \<le> origDbSize s
               then do { guard (journalOpen s); test_bit_of (aInJournal s) n } else Some False);
       let s = set_page n (\<lambda>p. p\<lparr>inJournal := inj, pgSync := False\<rparr>) s;
       ick \<leftarrow> (if aInCkpt s \<noteq> None \<and> int n \<le> ckptSize s then test_bit_of (aInCkpt s) n else Some False);
       s \<leftarrow> (if ick then page_add_to_ckpt_list n s else page_remove_from_ckpt_list n s);
       Some (set_page n (\<lambda>p. p\<lparr>dirty := False, pgRef := 1, pgExtra := replicate (nExtra s) 0\<rparr>) (s\<lparr>nRef := Suc (nRef s)\<rparr>)) }"

text \<open>
  A read that fails leaves in the buffer what it has read.  The product \<open>pgno*SQLITE_PAGE_SIZE\<close> that the size of the
  file is compared with has 32 bits.
\<close>

definition page_fill :: "sysenv \<Rightarrow> nat \<Rightarrow> pager \<Rightarrow> (int \<times> pager) option" where
  "page_fill e n s =
     (let s = (if dbSize s < 0 then snd (sqlitepager_pagecount e s) else s)
      in if errMask s \<noteq> 0
         then do { (_, s) \<leftarrow> sqlitepager_unref e n s; Some (pager_errcode s, s) }
         else if dbSize s < int n
         then Some (SQLITE_OK, set_page n (\<lambda>p. p\<lparr>pgData := replicate SQLITE_PAGE_SIZE 0\<rparr>) s)
         else let (rc, got, s) = sqliteOsRead e DB SQLITE_PAGE_SIZE (sqliteOsSeek DB ((n - 1) * SQLITE_PAGE_SIZE) s);
                  s = set_page n (\<lambda>p. p\<lparr>pgData := got @ drop (length got) (pgData p)\<rparr>) s
           in if rc = SQLITE_OK then Some (SQLITE_OK, s)
           else let (rc', fileSize, s) = sqliteOsFileSize e DB s
             in if rc' \<noteq> SQLITE_OK \<or> fileSize \<ge> n * SQLITE_PAGE_SIZE mod 2 ^ 32
                then do { (_, s) \<leftarrow> sqlitepager_unref e n s; Some (rc, s) }
                else Some (SQLITE_OK, set_page n (\<lambda>p. p\<lparr>pgData := replicate SQLITE_PAGE_SIZE 0\<rparr>) s))"

definition get_miss :: "sysenv \<Rightarrow> nat \<Rightarrow> pager \<Rightarrow> (int \<times> pager) option" where
  "get_miss e n s =
     do { (rc, s) \<leftarrow> (if nPage s < mxPage s \<or> pFree s = [] then new_page e n s else recycle_page e n s);
          if rc \<noteq> SQLITE_OK then Some (rc, s)
          else do { s \<leftarrow> page_flags n s; page_fill e n s } }"

definition sqlitepager_get :: "sysenv \<Rightarrow> nat \<Rightarrow> pager \<Rightarrow> (int \<times> pager) option" where
  "sqlitepager_get e n s =
     do {
       guard (n \<noteq> 0);
       if errMask s AND NOT PAGER_ERR_FULL \<noteq> 0 then Some (pager_errcode s, s)
       else if nRef s = 0
       then do { (rc, s) \<leftarrow> get_lock e s; if rc \<noteq> SQLITE_OK then Some (rc, s) else get_miss e n s }
       else case pager_lookup s n of
         None \<Rightarrow> get_miss e n s
       | Some p \<Rightarrow> do { s \<leftarrow> page_ref n s; Some (SQLITE_OK, s) } }"

subsection \<open>Transactions\<close>

definition sqlitepager_ckpt_begin :: "sysenv \<Rightarrow> pager \<Rightarrow> (int \<times> pager) option" where
  "sqlitepager_ckpt_begin e s =
     (if \<not> journalOpen s then Some (SQLITE_OK, s\<lparr>ckptAutoopen := True\<rparr>)
      else do {
        guard (\<not> ckptInUse s);
        let (rc, s) = syscall e Call_malloc s;
        if rc \<noteq> SQLITE_OK then Some (SQLITE_NOMEM, snd (syscall e Call_readlock s))
        else do {
          let s = s\<lparr>aInCkpt := Some (new_bits (dbSize s))\<rparr>;
          let (rc, sz, s) = sqliteOsFileSize e JRN s;
          if rc \<noteq> SQLITE_OK then Some (rc, s\<lparr>aInCkpt := None\<rparr>)
          else do {
            guard (sz = nRec s * JOURNAL_PG_SZ 3 + JOURNAL_HDR_SZ 3);
            let s = s\<lparr>ckptJSize := nRec s * JOURNAL_PG_SZ 3 + JOURNAL_HDR_SZ 3, ckptSize := dbSize s\<rparr>;
            let (rc, s) = (if \<not> ckptOpen s then sqlitepager_opentemp e CKP s else (SQLITE_OK, s));
            if rc \<noteq> SQLITE_OK then Some (rc, s\<lparr>aInCkpt := None\<rparr>)
            else Some (SQLITE_OK,
                   (if \<not> ckptOpen s then s\<lparr>ckptOpen := True, ckptNRec := 0\<rparr> else s)\<lparr>ckptInUse := True\<rparr>) } } })"

text \<open>The header of a new journal.\<close>

definition write_header :: "sysenv \<Rightarrow> pager \<Rightarrow> int \<times> pager" where
  "write_header e s =
     (let (rc, s) = sqliteOsWrite e JRN aJournalMagic3 s;
          (rc, s) = (if rc = SQLITE_OK then write32bits e JRN (if noSync s then 0xffffffff else 0) s else (rc, s));
          (rc, s) = (if rc = SQLITE_OK
                     then let s = s\<lparr>cksumInit := random32 e (clock s)\<rparr> in write32bits e JRN (cksumInit s) s else (rc, s))
      in if rc = SQLITE_OK then write32bits e JRN (of_int (dbSize s)) s else (rc, s))"

definition pager_open_journal :: "sysenv \<Rightarrow> pager \<Rightarrow> (int \<times> pager) option" where
  "pager_open_journal e s =
     do {
       guard (state s = SQLITE_WRITELOCK);
       guard (\<not> journalOpen s);
       guard (useJournal s);
       let (_, s) = sqlitepager_pagecount e s;
       let (rc, s) = syscall e Call_malloc s;
       if rc \<noteq> SQLITE_OK
       then Some (SQLITE_NOMEM, (snd (syscall e Call_readlock s))\<lparr>aInJournal := None, state := SQLITE_READLOCK\<rparr>)
       else do {
         let s = s\<lparr>aInJournal := Some (new_bits (dbSize s))\<rparr>;
         let (rc, s) = open_exclusive e JRN (tempFile s) s;
         if rc \<noteq> SQLITE_OK
         then Some (SQLITE_CANTOPEN, (snd (syscall e Call_readlock s))\<lparr>aInJournal := None, state := SQLITE_READLOCK\<rparr>)
         else do {
           let s = s\<lparr>journalOpen := True, journalStarted := False, needSync := False, alwaysRollback := False, nRec := 0\<rparr>;
           if errMask s \<noteq> 0 then Some (pager_errcode s, s)
           else do {
             let s = s\<lparr>origDbSize := dbSize s\<rparr>;
             let (rc, s) = write_header e s;
             (rc, s) \<leftarrow> (if ckptAutoopen s \<and> rc = SQLITE_OK then sqlitepager_ckpt_begin e s else Some (rc, s));
             if rc \<noteq> SQLITE_OK
             then do { (rc, s) \<leftarrow> pager_unwritelock e s; Some (if rc = SQLITE_OK then SQLITE_FULL else rc, s) }
             else Some (SQLITE_OK, s) } } } }"

definition sqlitepager_begin :: "sysenv \<Rightarrow> nat \<Rightarrow> pager \<Rightarrow> (int \<times> pager) option" where
  "sqlitepager_begin e n s =
     do {
       p \<leftarrow> pager_lookup s n;
       guard (pgRef p > 0);
       guard (state s \<noteq> SQLITE_UNLOCK);
       if state s = SQLITE_READLOCK
       then do {
         guard (aInJournal s = None);
         let (rc, s) = syscall e Call_writelock s;
         if rc \<noteq> SQLITE_OK then Some (rc, s)
         else do {
           let s = s\<lparr>state := SQLITE_WRITELOCK, dirtyFile := False\<rparr>;
           if useJournal s \<and> \<not> tempFile s then pager_open_journal e s else Some (SQLITE_OK, s) } }
       else Some (SQLITE_OK, s) }"

text \<open>The record of a page in the journal and in the checkpoint journal.\<close>

definition journal_record :: "pager \<Rightarrow> nat \<Rightarrow> u8 list \<Rightarrow> u8 list" where
  "journal_record s n aData = be32 (of_nat n) @ aData @ be32 (pager_cksum s n)"

definition ckpt_record :: "nat \<Rightarrow> u8 list \<Rightarrow> u8 list" where
  "ckpt_record n aData = be32 (of_nat n) @ aData"

text \<open>The part of \<open>sqlitepager_write\<close> that writes the page to the journal; the boolean tells that the routine returns.\<close>

definition write_journal :: "sysenv \<Rightarrow> nat \<Rightarrow> pager \<Rightarrow> (bool \<times> int \<times> pager) option" where
  "write_journal e n s =
     do {
       p \<leftarrow> pager_lookup s n;
       if \<not> inJournal p \<and> useJournal s
       then do {
         (ret, rc, s) \<leftarrow>
           (if int n \<le> origDbSize s
            then do {
              let (rc, s) = sqliteOsWrite e JRN (journal_record s n (pgData p)) s;
              if rc \<noteq> SQLITE_OK
              then do { (_, s) \<leftarrow> sqlitepager_rollback e s; Some (True, rc, s\<lparr>errMask := errMask s OR PAGER_ERR_FULL\<rparr>) }
              else do {
                a \<leftarrow> set_bit_of (aInJournal s) n;
                let s = set_page n (\<lambda>p. p\<lparr>pgSync := \<not> noSync s, inJournal := True\<rparr>) (s\<lparr>nRec := Suc (nRec s), aInJournal := Some a\<rparr>);
                s \<leftarrow> (if ckptInUse s
                      then do { c \<leftarrow> set_bit_of (aInCkpt s) n; page_add_to_ckpt_list n (s\<lparr>aInCkpt := Some c\<rparr>) }
                      else Some s);
                Some (False, SQLITE_OK, s) } }
            else Some (False, SQLITE_OK, set_page n (\<lambda>p. p\<lparr>pgSync := \<not> journalStarted s \<and> \<not> noSync s\<rparr>) s));
         if ret then Some (True, rc, s)
         else do { p \<leftarrow> pager_lookup s n; Some (False, SQLITE_OK, if pgSync p then s\<lparr>needSync := True\<rparr> else s) } }
       else Some (False, SQLITE_OK, s) }"

text \<open>The part that writes it to the checkpoint journal.\<close>

definition write_ckpt :: "sysenv \<Rightarrow> nat \<Rightarrow> pager \<Rightarrow> (bool \<times> int \<times> pager) option" where
  "write_ckpt e n s =
     do {
       p \<leftarrow> pager_lookup s n;
       if ckptInUse s \<and> \<not> inCkpt p \<and> int n \<le> ckptSize s
       then do {
         guard (inJournal p \<or> int n > origDbSize s);
         let (rc, s) = sqliteOsWrite e CKP (ckpt_record n (pgData p)) s;
         if rc \<noteq> SQLITE_OK
         then do { (_, s) \<leftarrow> sqlitepager_rollback e s; Some (True, rc, s\<lparr>errMask := errMask s OR PAGER_ERR_FULL\<rparr>) }
         else do {
           c \<leftarrow> set_bit_of (aInCkpt s) n;
           s \<leftarrow> page_add_to_ckpt_list n (s\<lparr>ckptNRec := Suc (ckptNRec s), aInCkpt := Some c\<rparr>);
           Some (False, SQLITE_OK, s) } }
       else Some (False, SQLITE_OK, s) }"

definition sqlitepager_write :: "sysenv \<Rightarrow> nat \<Rightarrow> pager \<Rightarrow> (int \<times> pager) option" where
  "sqlitepager_write e n s =
     do {
       p \<leftarrow> pager_lookup s n;
       if errMask s \<noteq> 0 then Some (pager_errcode s, s)
       else if readOnly s then Some (SQLITE_PERM, s)
       else do {
         let s = set_page n (\<lambda>p. p\<lparr>dirty := True\<rparr>) s;
         if inJournal p \<and> (inCkpt p \<or> \<not> ckptInUse s) then Some (SQLITE_OK, s\<lparr>dirtyFile := True\<rparr>)
         else do {
           guard (state s \<noteq> SQLITE_UNLOCK);
           (rc, s) \<leftarrow> sqlitepager_begin e n s;
           if rc \<noteq> SQLITE_OK then Some (rc, s)
           else do {
             guard (state s = SQLITE_WRITELOCK);
             (rc, s) \<leftarrow> (if \<not> journalOpen s \<and> useJournal s then pager_open_journal e s else Some (SQLITE_OK, s));
             if rc \<noteq> SQLITE_OK then Some (rc, s)
             else do {
               guard (journalOpen s \<or> \<not> useJournal s);
               (ret, rc, s) \<leftarrow> write_journal e n (s\<lparr>dirtyFile := True\<rparr>);
               if ret then Some (rc, s)
               else do {
                 (ret, rc, s) \<leftarrow> write_ckpt e n s;
                 if ret then Some (rc, s)
                 else Some (rc, if dbSize s < int n then s\<lparr>dbSize := int n\<rparr> else s) } } } } } }"

definition sqlitepager_iswriteable :: "nat \<Rightarrow> pager \<Rightarrow> bool option" where
  "sqlitepager_iswriteable n s = map_option dirty (pager_lookup s n)"

text \<open>What a client does to a page that it may write: it replaces the data.\<close>

definition store_page :: "nat \<Rightarrow> u8 list \<Rightarrow> pager \<Rightarrow> pager" where
  "store_page n d s = set_page n (\<lambda>p. p\<lparr>pgData := d\<rparr>) s"

definition sqlitepager_overwrite :: "sysenv \<Rightarrow> nat \<Rightarrow> u8 list \<Rightarrow> pager \<Rightarrow> (int \<times> pager) option" where
  "sqlitepager_overwrite e n d s =
     do { (rc, s) \<leftarrow> sqlitepager_get e n s;
          if rc = SQLITE_OK
          then do { (rc, s) \<leftarrow> sqlitepager_write e n s;
                    let s = (if rc = SQLITE_OK then store_page n d s else s);
                    (_, s) \<leftarrow> sqlitepager_unref e n s;
                    Some (rc, s) }
          else Some (rc, s) }"

definition sqlitepager_dont_write :: "nat \<Rightarrow> pager \<Rightarrow> pager option" where
  "sqlitepager_dont_write n s =
     do { p \<leftarrow> pager_lookup s n;
          let s = set_page n (\<lambda>p. p\<lparr>pgAlways := True\<rparr>) s;
          Some (if dirty p \<and> \<not> ckptInUse s \<and> \<not> (dbSize s = int n \<and> origDbSize s < dbSize s)
                then set_page n (\<lambda>p. p\<lparr>dirty := False\<rparr>) s else s) }"

definition sqlitepager_dont_rollback :: "nat \<Rightarrow> pager \<Rightarrow> pager option" where
  "sqlitepager_dont_rollback n s =
     do {
       p \<leftarrow> pager_lookup s n;
       if state s \<noteq> SQLITE_WRITELOCK \<or> \<not> journalOpen s \<or> pgAlways p \<or> alwaysRollback s then Some s
       else do {
         s \<leftarrow> (if \<not> inJournal p \<and> int n \<le> origDbSize s
               then do {
                 a \<leftarrow> set_bit_of (aInJournal s) n;
                 let s = set_page n (\<lambda>p. p\<lparr>inJournal := True\<rparr>) (s\<lparr>aInJournal := Some a\<rparr>);
                 if ckptInUse s
                 then do { c \<leftarrow> set_bit_of (aInCkpt s) n; page_add_to_ckpt_list n (s\<lparr>aInCkpt := Some c\<rparr>) }
                 else Some s }
               else Some s);
         p \<leftarrow> pager_lookup s n;
         if ckptInUse s \<and> \<not> inCkpt p \<and> int n \<le> ckptSize s
         then do {
           guard (inJournal p \<or> int n > origDbSize s);
           c \<leftarrow> set_bit_of (aInCkpt s) n;
           page_add_to_ckpt_list n (s\<lparr>aInCkpt := Some c\<rparr>) }
         else Some s } }"

text \<open>The label \<open>commit_abort\<close>.\<close>

definition commit_abort :: "sysenv \<Rightarrow> pager \<Rightarrow> (int \<times> pager) option" where
  "commit_abort e s =
     do { (rc, s) \<leftarrow> sqlitepager_rollback e s; Some (if rc = SQLITE_OK then SQLITE_FULL else rc, s) }"

definition sqlitepager_commit :: "sysenv \<Rightarrow> pager \<Rightarrow> (int \<times> pager) option" where
  "sqlitepager_commit e s =
     (if errMask s = PAGER_ERR_FULL then commit_abort e s
      else if errMask s \<noteq> 0 then Some (pager_errcode s, s)
      else if state s \<noteq> SQLITE_WRITELOCK then Some (SQLITE_ERROR, s)
      else if \<not> dirtyFile s
      then do { guard (\<not> needSync s); (rc, s) \<leftarrow> pager_unwritelock e s; Some (rc, s\<lparr>dbSize := - 1\<rparr>) }
      else do {
        guard (journalOpen s);
        (rc, s) \<leftarrow> syncJournal e s;
        if rc \<noteq> SQLITE_OK then commit_abort e s
        else do {
          let ns = pager_get_all_dirty_pages s;
          (rc, s) \<leftarrow> (if ns = [] then Some (SQLITE_OK, s)
                      else do { (rc, s) \<leftarrow> pager_write_pagelist e ns s;
                                Some (if rc = SQLITE_OK \<and> \<not> noSync s then sqliteOsSync e DB s else (rc, s)) });
          if rc \<noteq> SQLITE_OK then commit_abort e s
          else do { (rc, s) \<leftarrow> pager_unwritelock e s; Some (rc, s\<lparr>dbSize := - 1\<rparr>) } } })"

subsection \<open>Checkpoints\<close>

definition pager_ckpt_playback :: "sysenv \<Rightarrow> pager \<Rightarrow> (int \<times> pager) option" where
  "pager_ckpt_playback e s =
     do {
       let (_, s) = sqliteOsTruncate e DB (SQLITE_PAGE_SIZE * nat (ckptSize s)) s;
       let s = s\<lparr>dbSize := ckptSize s\<rparr>;
       guard (ckptInUse s \<and> journalOpen s);
       let s = sqliteOsSeek CKP 0 s;
       (rc, s) \<leftarrow> playback_pages e CKP 2 (ckptNRec s) s;
       guard (rc \<noteq> SQLITE_DONE);
       (rc, s) \<leftarrow>
         (if rc \<noteq> SQLITE_OK then Some (rc, s)
          else do {
            let s = sqliteOsSeek JRN (ckptJSize s) s;
            let (rc, szJ, s) = sqliteOsFileSize e JRN s;
            if rc \<noteq> SQLITE_OK then Some (rc, s)
            else do { (rc, s) \<leftarrow> playback_pages e JRN 3 ((szJ - ckptJSize s) div JOURNAL_PG_SZ 3) s;
                      guard (rc \<noteq> SQLITE_DONE);
                      Some (rc, s) } });
       Some (if rc \<noteq> SQLITE_OK then (SQLITE_CORRUPT, s\<lparr>errMask := errMask s OR PAGER_ERR_CORRUPT\<rparr>) else (rc, s)) }"

definition sqlitepager_ckpt_rollback :: "sysenv \<Rightarrow> pager \<Rightarrow> (int \<times> pager) option" where
  "sqlitepager_ckpt_rollback e s =
     do { (rc, s) \<leftarrow> (if ckptInUse s
                     then do { (rc, s) \<leftarrow> pager_ckpt_playback e s; s \<leftarrow> sqlitepager_ckpt_commit s; Some (rc, s) }
                     else Some (SQLITE_OK, s));
          Some (rc, s\<lparr>ckptAutoopen := False\<rparr>) }"

end
