(* ===== verification/Pager_Journal.thy ===== *)
theory Pager_Journal
  imports Pager
begin

text \<open>
  The rollback journal: what is in a journal of format 3, and that playing it back restores the database.

  The theorems on transactions hold for an environment in which every system call succeeds (\<open>reliable\<close>); a program that
  is killed is a state of the disk in \<open>disklog\<close>.
\<close>

definition reliable :: "sysenv \<Rightarrow> bool" where
  "reliable e \<longleftrightarrow> (\<forall>k c. result e k c = SQLITE_OK)"

lemma reliable_result [simp]: "reliable e \<Longrightarrow> result e k c = SQLITE_OK"
  by (simp add: reliable_def)

subsection \<open>Integers\<close>

lemma length_be32 [simp]: "length (be32 v) = 4"
  by (simp add: be32_def)

lemma of_be32_be32 [simp]: "of_be32 (be32 v) = v"
proof (rule bit_word_eqI)
  fix n assume "n < LENGTH(32)"
  then consider "n < 8" | "8 \<le> n" "n < 16" | "16 \<le> n" "n < 24" | "24 \<le> n" "n < 32" by fastforce
  then show "bit (of_be32 (be32 v)) n = bit v n"
    by cases (auto simp: of_be32_def be32_def bit_simps)
qed

subsection \<open>Pages of a file\<close>

abbreviation N :: nat where "N \<equiv> SQLITE_PAGE_SIZE"

lemma page_size_pos [simp]: "0 < N" "N \<noteq> 0"
  by (simp_all add: SQLITE_PAGE_SIZE_def)

text \<open>Page \<open>n\<close> of a file; a page behind its end is zero.\<close>

definition dbpage :: "u8 list \<Rightarrow> nat \<Rightarrow> u8 list" where
  "dbpage c n = region c ((n - 1) * N) N"

lemma length_dbpage [simp]: "length (dbpage c n) = N"
  by (simp add: dbpage_def)

lemma dbpage_zero: "0 < n \<Longrightarrow> length c \<le> (n - 1) * N \<Longrightarrow> dbpage c n = replicate N 0"
  by (simp add: dbpage_def region_outside)

lemma page_end: "0 < n \<Longrightarrow> (n - 1) * N + N = n * N"
  by (cases n) simp_all

lemma dbpage_take: "0 < n \<Longrightarrow> n * N \<le> length c \<Longrightarrow> take N (drop ((n - 1) * N) c) = dbpage c n"
  unfolding dbpage_def by (rule region_inside [symmetric]) (simp only: page_end)

lemma dbpage_write:
  assumes "0 < n" "0 < i" "length d = N"
  shows "dbpage (file_write c ((n - 1) * N) d) i = (if i = n then d else dbpage c i)"
proof (cases "i = n")
  case True
  then show ?thesis using region_file_write_same [of c "(n - 1) * N" d] assms by (simp add: dbpage_def)
next
  case False
  then have "n * N \<le> (i - 1) * N \<or> i * N \<le> (n - 1) * N" using assms
    by (metis Suc_leI Suc_pred' linorder_neqE_nat mult_le_mono1 not_less_eq_eq)
  then have "(n - 1) * N + length d \<le> (i - 1) * N \<or> (i - 1) * N + N \<le> (n - 1) * N" by (simp only: page_end assms)
  then show ?thesis using False by (simp add: dbpage_def region_file_write_other)
qed

lemma dbpage_truncate: "0 < i \<Longrightarrow> i \<le> n \<Longrightarrow> dbpage (file_truncate c (N * n)) i = dbpage c i"
  using mult_le_mono1 [of i n N] page_end [of i] unfolding dbpage_def by (intro region_file_truncate) (simp add: mult.commute)

lemma file_eq_pages:
  assumes "length a = N * n" "length b = N * n" "\<And>i. 0 < i \<Longrightarrow> i \<le> n \<Longrightarrow> dbpage a i = dbpage b i"
  shows "a = b"
proof (rule nth_equalityI)
  fix j assume j: "j < length a"
  let ?i = "Suc (j div N)"
  have "j div N < n" using j assms(1) by (simp add: less_mult_imp_div_less mult.commute)
  then have "dbpage a ?i ! (j mod N) = dbpage b ?i ! (j mod N)" using assms(3) [of ?i] by simp
  then have "zat a (j div N * N + j mod N) = zat b (j div N * N + j mod N)"
    by (simp add: dbpage_def region_def)
  then show "a ! j = b ! j" using j assms by (simp add: zat_def)
qed (use assms in simp)

subsection \<open>System calls that succeed\<close>

lemma file_selectors [simp]:
  "files (set_file f F s) = (files s)(f := F)" "files (tick s) = files s" "files (logged s) = files s"
  "jexists (set_file f F s) = jexists s" "jexists (tick s) = jexists s" "jexists (logged s) = jexists s"
  "disklog (set_file f F s) = disklog s" "disklog (tick s) = disklog s" "disklog (logged s) = on_disk s # disklog s"
  by (simp_all add: set_file_def tick_def logged_def)

lemma os_read_ok:
  assumes "reliable e" "offs (files s f) + amt \<le> length (content (files s f))"
  shows "sqliteOsRead e f amt s =
    (SQLITE_OK, take amt (drop (offs (files s f)) (content (files s f))),
     s\<lparr>files := (files s)(f := (files s f)\<lparr>offs := offs (files s f) + amt\<rparr>), clock := Suc (clock s)\<rparr>)"
proof -
  have "length (take amt (drop (offs (files s f)) (content (files s f)))) = amt" using assms(2) by simp
  then show ?thesis using assms(1) by (simp add: sqliteOsRead_def Let_def tick_def set_file_def del: length_take)
qed

lemma os_write_ok:
  assumes "reliable e"
  shows "sqliteOsWrite e f bs s =
    (SQLITE_OK, logged (s\<lparr>files := (files s)(f := \<lparr>content = file_write (content (files s f)) (offs (files s f)) bs,
                                             offs = offs (files s f) + length bs\<rparr>), clock := Suc (clock s)\<rparr>))"
  using assms by (simp add: sqliteOsWrite_def Let_def tick_def set_file_def)

lemma os_size_ok: "reliable e \<Longrightarrow> sqliteOsFileSize e f s = (SQLITE_OK, length (content (files s f)), s\<lparr>clock := Suc (clock s)\<rparr>)"
  by (simp add: sqliteOsFileSize_def tick_def)

lemma os_sync_ok: "reliable e \<Longrightarrow> sqliteOsSync e f s = (SQLITE_OK, s\<lparr>clock := Suc (clock s)\<rparr>)"
  by (simp add: sqliteOsSync_def tick_def)

lemma os_truncate_ok:
  "reliable e \<Longrightarrow> sqliteOsTruncate e f n s =
    (SQLITE_OK, logged (s\<lparr>files := (files s)(f := (files s f)\<lparr>content := file_truncate (content (files s f)) n\<rparr>), clock := Suc (clock s)\<rparr>))"
  by (simp add: sqliteOsTruncate_def tick_def set_file_def)

lemma os_call_ok: "reliable e \<Longrightarrow> syscall e c s = (SQLITE_OK, s\<lparr>clock := Suc (clock s)\<rparr>)"
  by (simp add: syscall_def tick_def)

lemma os_open_excl_ok:
  "reliable e \<Longrightarrow> \<not> jexists s \<Longrightarrow> open_exclusive e JRN False s =
    (SQLITE_OK, logged (s\<lparr>files := (files s)(JRN := \<lparr>content = [], offs = 0\<rparr>), jexists := True, clock := Suc (Suc (clock s))\<rparr>))"
  by (simp add: open_exclusive_def tick_def set_file_def)

lemma os_open_read_ok:
  "reliable e \<Longrightarrow> open_read_only e f s = (SQLITE_OK, s\<lparr>files := (files s)(f := (files s f)\<lparr>offs := 0\<rparr>), clock := Suc (Suc (clock s))\<rparr>)"
  by (simp add: open_read_only_def tick_def set_file_def)

lemma os_seek: "sqliteOsSeek f k s = s\<lparr>files := (files s)(f := (files s f)\<lparr>offs := k\<rparr>)\<rparr>"
  by (simp add: sqliteOsSeek_def set_file_def)

lemmas os_ok = os_write_ok os_size_ok os_sync_ok os_truncate_ok os_call_ok os_seek os_open_read_ok

lemma read32_ok:
  assumes "reliable e" "offs (files s f) + 4 \<le> length (content (files s f))" "1 < format"
  shows "read32bits e format f s =
    (SQLITE_OK, of_be32 (take 4 (drop (offs (files s f)) (content (files s f)))),
     s\<lparr>files := (files s)(f := (files s f)\<lparr>offs := offs (files s f) + 4\<rparr>), clock := Suc (clock s)\<rparr>)"
  using assms by (simp add: read32bits_def os_read_ok)

subsection \<open>Pages in the cache\<close>

definition numbered :: "pager \<Rightarrow> bool" where
  "numbered s \<longleftrightarrow> distinct (map pgno (pAll s))"

lemma lookup_mem: "pager_lookup s n = Some p \<Longrightarrow> p \<in> set (pAll s) \<and> pgno p = n"
  by (auto simp: pager_lookup_def find_Some_iff)

lemma lookup_iff: "numbered s \<Longrightarrow> pager_lookup s n = Some p \<longleftrightarrow> p \<in> set (pAll s) \<and> pgno p = n"
proof (rule iffI)
  assume n: "numbered s" and p: "p \<in> set (pAll s) \<and> pgno p = n"
  then obtain q where q: "pager_lookup s n = Some q" by (cases "pager_lookup s n") (auto simp: pager_lookup_def find_None_iff)
  then have "q \<in> set (pAll s)" "pgno q = pgno p" using lookup_mem p by auto
  then have "q = p" using n p unfolding numbered_def by (meson distinct_map inj_onD)
  then show "pager_lookup s n = Some p" using q by simp
qed (rule lookup_mem)

lemma lookup_None: "pager_lookup s n = None \<longleftrightarrow> n \<notin> pgno ` set (pAll s)"
  by (auto simp: pager_lookup_def find_None_iff)

lemma page_lookup_cong: "pAll s = pAll s' \<Longrightarrow> pager_lookup s n = pager_lookup s' n"
  by (simp add: pager_lookup_def)

subsection \<open>The contents of a journal\<close>

definition jheader :: "u32 \<Rightarrow> u32 \<Rightarrow> nat \<Rightarrow> u8 list" where
  "jheader h c n = aJournalMagic3 @ be32 h @ be32 c @ be32 (of_nat n)"

definition jrecord :: "u32 \<Rightarrow> u8 list \<Rightarrow> nat \<Rightarrow> u8 list" where
  "jrecord c D n = be32 (of_nat n) @ dbpage D n @ be32 (c + of_nat n)"

text \<open>The journal for a database \<open>D\<close> of \<open>n\<close> pages with the records of the pages \<open>J\<close>.\<close>

definition jcontent :: "u32 \<Rightarrow> u32 \<Rightarrow> nat \<Rightarrow> u8 list \<Rightarrow> nat list \<Rightarrow> u8 list" where
  "jcontent h c n D J = jheader h c n @ concat (map (jrecord c D) J)"

lemma length_jheader [simp]: "length (jheader h c n) = 20"
  by (simp add: jheader_def aJournalMagic3_def)

lemma length_jrecord [simp]: "length (jrecord c D n) = N + 8"
  by (simp add: jrecord_def)

lemma length_jrecords [simp]: "length (concat (map (jrecord c D) J)) = length J * (N + 8)"
  by (induction J) simp_all

lemma length_jcontent [simp]: "length (jcontent h c n D J) = 20 + length J * (N + 8)"
  by (simp add: jcontent_def)

lemma journal_sizes [simp]: "JOURNAL_HDR_SZ 3 = 20" "JOURNAL_PG_SZ 3 = N + 8"
  by (simp_all add: JOURNAL_HDR_SZ_def JOURNAL_PG_SZ_def)

text \<open>Page numbers are bounded so that the size of the database fits in 32 bits.\<close>

definition max_pages :: nat where "max_pages = 2 ^ 22"

lemma of_nat_page: "n < max_pages \<Longrightarrow> unat (of_nat n :: u32) = n" "n < max_pages \<Longrightarrow> uint (of_nat n :: u32) = int n"
  "n < max_pages \<Longrightarrow> sint (of_nat n :: u32) = int n"
proof -
  assume n: "n < max_pages"
  show u: "unat (of_nat n :: u32) = n" using n by (simp add: max_pages_def unat_of_nat take_bit_nat_eq_self)
  then show i: "uint (of_nat n :: u32) = int n" by (metis uint_nat)
  show "sint (of_nat n :: u32) = int n" using i n by (simp add: sint_uint signed_take_bit_int_eq_self max_pages_def)
qed

subsection \<open>Playing back one record\<close>

definition restored :: "nat \<Rightarrow> u8 list \<Rightarrow> pghdr \<Rightarrow> pghdr" where
  "restored x D p = p\<lparr>pgData := dbpage D (pgno p), pgExtra := replicate x 0, dirty := False, pgSync := False\<rparr>"

lemma restored_simps [simp]:
  "pgno (restored x D p) = pgno p" "pgRef (restored x D p) = pgRef p" "inJournal (restored x D p) = inJournal p"
  "inCkpt (restored x D p) = inCkpt p" "pgData (restored x D p) = dbpage D (pgno p)" "\<not> dirty (restored x D p)"
  "\<not> pgSync (restored x D p)" "restored x D (restored x D p) = restored x D p"
  by (simp_all add: restored_def)

definition restore_pages :: "u8 list \<Rightarrow> nat set \<Rightarrow> pager \<Rightarrow> pager" where
  "restore_pages D A s = s\<lparr>pAll := map (\<lambda>p. if pgno p \<in> A then restored (nExtra s) D p else p) (pAll s)\<rparr>"

lemma restore_none: "(\<And>p. p \<in> set (pAll t) \<Longrightarrow> pgno p \<notin> A) \<Longrightarrow> restore_pages D A t = t"
proof -
  assume "\<And>p. p \<in> set (pAll t) \<Longrightarrow> pgno p \<notin> A"
  then have "map (\<lambda>p. if pgno p \<in> A then restored (nExtra t) D p else p) (pAll t) = pAll t" by (intro map_idI) auto
  then show ?thesis unfolding restore_pages_def by simp
qed

definition put_page :: "nat \<Rightarrow> u8 list \<Rightarrow> u8 list \<Rightarrow> u8 list" where
  "put_page n d c = file_write c ((n - 1) * N) d"

lemma dbpage_put_page:
  "0 < n \<Longrightarrow> 0 < i \<Longrightarrow> length d = N \<Longrightarrow> dbpage (put_page n d c) i = (if i = n then d else dbpage c i)"
  unfolding put_page_def by (rule dbpage_write)

lemma length_put_page: "0 < n \<Longrightarrow> length d = N \<Longrightarrow> length (put_page n d c) = max (length c) (n * N)"
  using page_end [of n] by (simp add: put_page_def)

lemma take_drop_append: "length a = k \<Longrightarrow> length b = m \<Longrightarrow> take m (drop k (a @ b @ c)) = b"
  by simp

lemma drop_append_plus: "length a = k \<Longrightarrow> drop (k + m) (a @ b) = drop m b"
  by simp

lemma playback_one:
  assumes rel: "reliable e" and n: "0 < n" "n \<le> m" "m < max_pages" and sz: "dbSize s = int m" and c: "cksumInit s = c"
    and jc: "content (files s JRN) = pre @ jrecord c D n @ post" and jo: "offs (files s JRN) = length pre"
    and use: "\<forall>p \<in> set (pAll s). pgno p = n \<longrightarrow> pgRef p = 0 \<or> n = 1"
  shows "\<exists>k. pager_playback_one_page e JRN 3 s =
    Some (SQLITE_OK, restore_pages D {n} (s\<lparr>
      files := (files s)(JRN := (files s JRN)\<lparr>offs := length pre + (8 + N)\<rparr>,
                         DB := \<lparr>content = put_page n (dbpage D n) (content (files s DB)), offs = n * N\<rparr>),
      clock := k,
      disklog := (put_page n (dbpage D n) (content (files s DB)), if jexists s then Some (content (files s JRN)) else None) # disklog s\<rparr>))"
proof -
  let ?j = "files s JRN"
  have num: "take 4 (drop (length pre) (content ?j)) = be32 (of_nat n)"
    and dat: "take N (drop (length pre + 4) (content ?j)) = dbpage D n"
    and chk: "take 4 (drop (length pre + (4 + N)) (content ?j)) = be32 (c + of_nat n)"
    and len: "length pre + 4 + N + 4 \<le> length (content ?j)"
    by (simp_all add: jc jrecord_def)
  have unum: "unat (of_nat n :: u32) = n" using n by (intro of_nat_page) simp
  have msz: "int m mod 4294967296 = int m" using n(3) by (simp add: max_pages_def)
  have off: "(n - Suc 0) * N + N = n * N" using page_end [OF n(1)] by simp
  show ?thesis
  proof (cases "pager_lookup s n")
    case None
    then have "restore_pages D {n} t = t" if "pAll t = pAll s" for t
      using that by (intro restore_none) (auto simp: lookup_None)
    then show ?thesis using None rel n len
      by (simp add: pager_playback_one_page_def read32_ok os_read_ok os_ok jo num dat chk unum msz sz c Let_def pager_cksum_def pager_lookup_def
           logged_def on_disk_def put_page_def off add.assoc exI [of _ "Suc (Suc (Suc (Suc (clock s))))"])
  next
    case (Some p)
    then have "pgRef p = 0 \<or> n = 1" using use lookup_mem by blast
    then show ?thesis using Some rel n len
      by (simp add: pager_playback_one_page_def read32_ok os_read_ok os_ok jo num dat chk unum msz sz c Let_def pager_cksum_def pager_lookup_def
           logged_def on_disk_def put_page_def off add.assoc restore_pages_def set_page_def restored_def exI [of _ "Suc (Suc (Suc (Suc (clock s))))"])
  qed
qed

subsection \<open>Playing back the records of a journal\<close>

lemma restore_restore: "restore_pages D A (restore_pages D B s) = restore_pages D (A \<union> B) s"
  by (simp add: restore_pages_def comp_def cong: map_cong)

lemma restore_pages_update:
  "restore_pages D A (s\<lparr>files := F, clock := k, disklog := L\<rparr>) = (restore_pages D A s)\<lparr>files := F, clock := k, disklog := L\<rparr>"
  by (simp add: restore_pages_def)

lemma restore_pages_simps [simp]:
  "files (restore_pages D A s) = files s" "jexists (restore_pages D A s) = jexists s" "clock (restore_pages D A s) = clock s"
  "disklog (restore_pages D A s) = disklog s" "dbSize (restore_pages D A s) = dbSize s" "cksumInit (restore_pages D A s) = cksumInit s"
  "nExtra (restore_pages D A s) = nExtra s"
  by (simp_all add: restore_pages_def)

lemma restore_pages_use:
  "(\<forall>p \<in> set (pAll (restore_pages D A s)). pgno p \<in> B \<longrightarrow> pgRef p = 0 \<or> pgno p = 1) =
   (\<forall>p \<in> set (pAll s). pgno p \<in> B \<longrightarrow> pgRef p = 0 \<or> pgno p = 1)"
proof -
  have p: "pAll (restore_pages D A s) = map (\<lambda>p. if pgno p \<in> A then restored (nExtra s) D p else p) (pAll s)"
    by (simp add: restore_pages_def)
  show ?thesis unfolding p list.set_map ball_simps by auto
qed

text \<open>What the playback of the pages \<open>K\<close> does to the state, and what it leaves on the disk on the way.\<close>

definition played :: "u8 list \<Rightarrow> nat set \<Rightarrow> pager \<Rightarrow> pager \<Rightarrow> bool" where
  "played D K s s' \<longleftrightarrow> (\<exists>F k L. s' = (restore_pages D K s)\<lparr>files := F, clock := k, disklog := L @ disklog s\<rparr> \<and>
     content (F JRN) = content (files s JRN) \<and> F CKP = files s CKP \<and>
     (\<forall>i > 0. dbpage (content (F DB)) i = (if i \<in> K then dbpage D i else dbpage (content (files s DB)) i)) \<and>
     (\<forall>d \<in> set L. snd d = snd (on_disk s) \<and>
        (\<forall>i > 0. dbpage (fst d) i = dbpage (content (files s DB)) i \<or> i \<in> K \<and> dbpage (fst d) i = dbpage D i)))"

lemma playback_loop:
  assumes rel: "reliable e" and m: "m < max_pages" and sz: "dbSize s = int m" and c: "cksumInit s = c"
    and K: "\<forall>n \<in> set K. 0 < n \<and> n \<le> m"
    and jc: "content (files s JRN) = pre @ concat (map (jrecord c D) K) @ post" and jo: "offs (files s JRN) = length pre"
    and use: "\<forall>p \<in> set (pAll s). pgno p \<in> set K \<longrightarrow> pgRef p = 0 \<or> pgno p = 1"
    and db: "N * m \<le> length (content (files s DB))"
  shows "\<exists>s'. playback_pages e JRN 3 (length K) s = Some (SQLITE_OK, s') \<and> played D (set K) s s' \<and>
    length (content (files s' DB)) = length (content (files s DB)) \<and>
    offs (files s' JRN) = length pre + length (concat (map (jrecord c D) K))"
  using sz c K jc jo use db
proof (induction K arbitrary: s pre)
  case Nil
  have "restore_pages D {} s = s" by (rule restore_none) simp
  then have "played D {} s s"
    unfolding played_def by (intro exI [of _ "files s"] exI [of _ "clock s"] exI [of _ "[]"]) simp
  then show ?case using Nil.prems by simp
next
  case (Cons n K)
  let ?db = "put_page n (dbpage D n) (content (files s DB))"
  let ?j = "if jexists s then Some (content (files s JRN)) else None"
  let ?F = "(files s)(JRN := (files s JRN)\<lparr>offs := length pre + (8 + N)\<rparr>, DB := \<lparr>content = ?db, offs = n * N\<rparr>)"
  have n: "0 < n" "n \<le> m" using Cons.prems by auto
  have "\<forall>p \<in> set (pAll s). pgno p = n \<longrightarrow> pgRef p = 0 \<or> n = 1" using Cons.prems by auto
  moreover have "content (files s JRN) = pre @ jrecord c D n @ concat (map (jrecord c D) K) @ post" using Cons.prems by simp
  ultimately obtain k where one: "pager_playback_one_page e JRN 3 s =
      Some (SQLITE_OK, restore_pages D {n} (s\<lparr>files := ?F, clock := k, disklog := (?db, ?j) # disklog s\<rparr>))"
    using playback_one [OF rel n m Cons.prems(1,2) _ Cons.prems(5)] by blast
  define s1 where "s1 = restore_pages D {n} (s\<lparr>files := ?F, clock := k, disklog := (?db, ?j) # disklog s\<rparr>)"
  have dbp: "dbpage ?db i = (if i = n then dbpage D n else dbpage (content (files s DB)) i)" if "0 < i" for i
    using n(1) that by (simp add: dbpage_put_page)
  have "n * N \<le> length (content (files s DB))"
    using order_trans [OF mult_le_mono2 [OF n(2)] Cons.prems(7)] by (simp only: mult.commute)
  then have len: "length ?db = length (content (files s DB))" using n(1) by (simp add: length_put_page)
  have "\<exists>s'. playback_pages e JRN 3 (length K) s1 = Some (SQLITE_OK, s') \<and> played D (set K) s1 s' \<and>
    length (content (files s' DB)) = length (content (files s1 DB)) \<and>
    offs (files s' JRN) = length (pre @ jrecord c D n) + length (concat (map (jrecord c D) K))"
  proof (rule Cons.IH)
    show "\<forall>p \<in> set (pAll s1). pgno p \<in> set K \<longrightarrow> pgRef p = 0 \<or> pgno p = 1"
      using Cons.prems(6) unfolding s1_def restore_pages_use by simp
  qed (use Cons.prems len in \<open>simp_all add: s1_def\<close>)
  then obtain s' where r: "playback_pages e JRN 3 (length K) s1 = Some (SQLITE_OK, s')" "played D (set K) s1 s'"
    "length (content (files s' DB)) = length (content (files s1 DB))"
    "offs (files s' JRN) = length pre + length (concat (map (jrecord c D) (n # K)))" by auto
  obtain F k' L where s': "s' = (restore_pages D (set K) s1)\<lparr>files := F, clock := k', disklog := L @ disklog s1\<rparr>"
    "content (F JRN) = content (files s1 JRN)" "F CKP = files s1 CKP"
    "\<forall>i > 0. dbpage (content (F DB)) i = (if i \<in> set K then dbpage D i else dbpage (content (files s1 DB)) i)"
    "\<forall>d \<in> set L. snd d = snd (on_disk s1) \<and>
      (\<forall>i > 0. dbpage (fst d) i = dbpage (content (files s1 DB)) i \<or> i \<in> set K \<and> dbpage (fst d) i = dbpage D i)"
    using r(2) unfolding played_def by blast
  have "played D (set (n # K)) s s'"
    unfolding played_def
  proof (intro exI [of _ F] exI [of _ k'] exI [of _ "L @ [(?db, ?j)]"] conjI)
    show "s' = (restore_pages D (set (n # K)) s)\<lparr>files := F, clock := k', disklog := (L @ [(?db, ?j)]) @ disklog s\<rparr>"
      unfolding s'(1) s1_def restore_pages_update restore_restore [symmetric] by (simp add: restore_restore)
    show "\<forall>i > 0. dbpage (content (F DB)) i = (if i \<in> set (n # K) then dbpage D i else dbpage (content (files s DB)) i)"
      using s'(4) dbp by (simp add: s1_def)
    have "dbpage (fst d) i = dbpage (content (files s DB)) i \<or> i \<in> set (n # K) \<and> dbpage (fst d) i = dbpage D i"
      if d: "d \<in> set L" "0 < i" for d i
    proof -
      have "dbpage (fst d) i = dbpage ?db i \<or> i \<in> set K \<and> dbpage (fst d) i = dbpage D i" using s'(5) d by (simp add: s1_def)
      then show ?thesis using dbp [OF d(2)] by (cases "i = n") auto
    qed
    moreover have "\<forall>d \<in> set L. snd d = snd (on_disk s)" using s'(5) by (simp add: s1_def on_disk_def)
    ultimately show "\<forall>d \<in> set (L @ [(?db, ?j)]). snd d = snd (on_disk s) \<and>
        (\<forall>i > 0. dbpage (fst d) i = dbpage (content (files s DB)) i \<or> i \<in> set (n # K) \<and> dbpage (fst d) i = dbpage D i)"
      using dbp by (auto simp: on_disk_def)
  qed (use s'(2,3) in \<open>simp_all add: s1_def\<close>)
  moreover have "length (content (files s' DB)) = length (content (files s DB))" using r(3) len by (simp add: s1_def)
  moreover have "playback_pages e JRN 3 (length (n # K)) s = Some (SQLITE_OK, s')" using one r(1) by (simp add: s1_def)
  ultimately show ?case using r(4) by blast
qed

subsection \<open>Reading dirty pages back\<close>

definition refetched :: "nat \<Rightarrow> u8 list \<Rightarrow> pghdr \<Rightarrow> pghdr" where
  "refetched x D p = (if pgRef p = 0 \<or> dbpage D (pgno p) \<noteq> pgData p
                      then p\<lparr>pgData := dbpage D (pgno p), pgExtra := replicate x 0\<rparr> else p)\<lparr>pgSync := False, dirty := False\<rparr>"

lemma refetched_simps [simp]:
  "pgno (refetched x D p) = pgno p" "pgRef (refetched x D p) = pgRef p" "inJournal (refetched x D p) = inJournal p"
  "inCkpt (refetched x D p) = inCkpt p" "pgData (refetched x D p) = dbpage D (pgno p)" "\<not> dirty (refetched x D p)"
  "\<not> pgSync (refetched x D p)"
  by (simp_all add: refetched_def)

definition refetch_pages :: "u8 list \<Rightarrow> nat set \<Rightarrow> pager \<Rightarrow> pager" where
  "refetch_pages D A s = s\<lparr>pAll := map (\<lambda>p. if pgno p \<in> A \<and> dirty p then refetched (nExtra s) D p else p) (pAll s)\<rparr>"

lemma refetch_pages_update:
  "refetch_pages D A (s\<lparr>files := F, clock := k\<rparr>) = (refetch_pages D A s)\<lparr>files := F, clock := k\<rparr>"
  by (simp add: refetch_pages_def)

lemma refetch_page_ok:
  assumes rel: "reliable e" and D: "content (files s DB) = D" "length D = N * m" and o: "origDbSize s = int m"
    and n: "0 < n" and d: "\<forall>p \<in> set (pAll s). pgno p = n \<longrightarrow> dirty p"
  shows "\<exists>F k. refetch_page e n s = (SQLITE_OK, refetch_pages D {n} (s\<lparr>files := F, clock := k\<rparr>)) \<and>
    (\<forall>f. content (F f) = content (files s f))"
proof -
  have pg: "set_page n (\<lambda>p. (if pgRef p = 0 \<or> dbpage D n \<noteq> pgData p then p\<lparr>pgData := dbpage D n, pgExtra := replicate (nExtra t) 0\<rparr> else p)
      \<lparr>pgSync := False, dirty := False\<rparr>) t = refetch_pages D {n} t" if "pAll t = pAll s" for t
    using d that by (auto simp: set_page_def refetch_pages_def refetched_def intro!: arg_cong [of _ _ "\<lambda>x. t\<lparr>pAll := x\<rparr>"])
  show ?thesis
  proof (cases "n \<le> m")
    case True
    have "n * N \<le> length D" using mult_le_mono2 [OF True, of N] by (simp only: D(2) mult.commute)
    then have "take N (drop (N * (n - 1)) D) = dbpage D n" "N * (n - 1) + N \<le> length D"
      using dbpage_take [OF n] page_end [OF n] by (simp_all add: mult.commute)
    then have "refetch_page e n s = (SQLITE_OK, refetch_pages D {n} (s\<lparr>
        files := (files s)(DB := (files s DB)\<lparr>offs := N * (n - 1) + N\<rparr>), clock := Suc (clock s)\<rparr>))"
      using True rel o D by (simp add: refetch_page_def os_seek os_read_ok pg)
    then show ?thesis by fastforce
  next
    case False
    then have "m \<le> n - 1" by simp
    then have "length D \<le> (n - 1) * N" using mult_le_mono2 [of m "n - 1" N] by (simp only: D(2) mult.commute)
    then have z: "dbpage D n = replicate N 0" by (intro dbpage_zero n)
    have "refetch_page e n s = (SQLITE_OK, refetch_pages D {n} (s\<lparr>files := files s, clock := clock s\<rparr>))"
      using False o pg [of s] unfolding z by (simp add: refetch_page_def)
    then show ?thesis by blast
  qed
qed

lemma refetch_none: "(\<And>p. p \<in> set (pAll t) \<Longrightarrow> pgno p \<in> A \<Longrightarrow> \<not> dirty p) \<Longrightarrow> refetch_pages D A t = t"
proof -
  assume "\<And>p. p \<in> set (pAll t) \<Longrightarrow> pgno p \<in> A \<Longrightarrow> \<not> dirty p"
  then have "map (\<lambda>p. if pgno p \<in> A \<and> dirty p then refetched (nExtra t) D p else p) (pAll t) = pAll t" by (intro map_idI) auto
  then show ?thesis unfolding refetch_pages_def by simp
qed

lemma refetch_refetch: "refetch_pages D A (refetch_pages D B s) = refetch_pages D (A \<union> B) s"
proof -
  have "(\<lambda>p. if pgno p \<in> A \<and> dirty p then refetched (nExtra s) D p else p) \<circ> (\<lambda>p. if pgno p \<in> B \<and> dirty p then refetched (nExtra s) D p else p)
      = (\<lambda>p. if pgno p \<in> A \<union> B \<and> dirty p then refetched (nExtra s) D p else p)" by auto
  then show ?thesis by (simp add: refetch_pages_def cong: if_cong)
qed

lemma refetch_pages_simps [simp]:
  "files (refetch_pages D A s) = files s" "map pgno (pAll (refetch_pages D A s)) = map pgno (pAll s)"
  "origDbSize (refetch_pages D A s) = origDbSize s" "nExtra (refetch_pages D A s) = nExtra s"
  by (auto simp: refetch_pages_def)

lemma refetch_ok:
  assumes rel: "reliable e" and D: "length D = N * m"
    and s: "content (files s DB) = D" "origDbSize s = int m" "numbered s" "\<forall>n \<in> set ns. 0 < n"
  shows "\<exists>F k. refetch e ns s = (SQLITE_OK, refetch_pages D (set ns) (s\<lparr>files := F, clock := k\<rparr>)) \<and>
    (\<forall>f. content (F f) = content (files s f))"
  using s
proof (induction ns arbitrary: s)
  case Nil
  have "refetch_pages D {} (s\<lparr>files := files s, clock := clock s\<rparr>) = s" by (subst refetch_none) simp_all
  then show ?case by (metis list.set(1) refetch.simps(1))
next
  case (Cons n ns)
  show ?case
  proof (cases "\<exists>p. pager_lookup s n = Some p \<and> dirty p")
    case True
    then obtain p where p: "pager_lookup s n = Some p" "dirty p" by blast
    then have "\<forall>q \<in> set (pAll s). pgno q = n \<longrightarrow> dirty q" using Cons.prems(3) by (metis lookup_iff option.inject)
    then obtain F k where F: "refetch_page e n s = (SQLITE_OK, refetch_pages D {n} (s\<lparr>files := F, clock := k\<rparr>))"
      "\<forall>f. content (F f) = content (files s f)"
      using refetch_page_ok [OF rel Cons.prems(1) D Cons.prems(2), of n] Cons.prems(4) by auto
    let ?t = "refetch_pages D {n} (s\<lparr>files := F, clock := k\<rparr>)"
    have "numbered ?t" using Cons.prems(3) by (simp add: numbered_def)
    then obtain F' k' where r: "refetch e ns ?t = (SQLITE_OK, refetch_pages D (set ns) (?t\<lparr>files := F', clock := k'\<rparr>))"
      "\<forall>f. content (F' f) = content (files ?t f)"
      using Cons.IH [of ?t] Cons.prems F(2) by auto
    have "refetch_pages D (set ns) (?t\<lparr>files := F', clock := k'\<rparr>) = refetch_pages D (set (n # ns)) (s\<lparr>files := F', clock := k'\<rparr>)"
      by (simp add: refetch_pages_update refetch_refetch)
    then show ?thesis using r F p by (intro exI [of _ F'] exI [of _ k']) simp
  next
    case False
    obtain F k where r: "refetch e ns s = (SQLITE_OK, refetch_pages D (set ns) (s\<lparr>files := F, clock := k\<rparr>))"
      "\<forall>f. content (F f) = content (files s f)" using Cons.IH [of s] Cons.prems by auto
    have "refetch_pages D {n} s = s" using False Cons.prems(3) by (intro refetch_none) (auto simp: lookup_iff)
    then have "refetch_pages D (set ns) (s\<lparr>files := F, clock := k\<rparr>) = refetch_pages D (set (n # ns)) (s\<lparr>files := F, clock := k\<rparr>)"
      using refetch_refetch [of D "set ns" "{n}" s] by (simp add: refetch_pages_update)
    then show ?thesis using r False by (intro exI [of _ F] exI [of _ k]) (auto split: option.splits)
  qed
qed

subsection \<open>Playing back a journal\<close>

definition reverted :: "u8 list \<Rightarrow> nat set \<Rightarrow> pager \<Rightarrow> pager" where
  "reverted D K s = refetch_pages D UNIV (restore_pages D K s)"

text \<open>How many records of a journal are played back when it is found with the count \<open>h\<close> in its header.\<close>

definition jcount :: "u32 \<Rightarrow> nat list \<Rightarrow> nat" where
  "jcount h J = (if h = 0xffffffff then length J else unat h)"

definition count_ok :: "u32 \<Rightarrow> nat list \<Rightarrow> bool" where
  "count_ok h J \<longleftrightarrow> h = 0xffffffff \<or> unat h \<le> length J \<and> unat h < max_pages"

text \<open>The part of the pages outside of \<open>K\<close> is the one of \<open>D\<close>.\<close>

definition agrees :: "nat \<Rightarrow> u8 list \<Rightarrow> nat set \<Rightarrow> u8 list \<Rightarrow> bool" where
  "agrees m D K c \<longleftrightarrow> (\<forall>i. 0 < i \<and> i \<le> m \<and> i \<notin> K \<longrightarrow> dbpage c i = dbpage D i)"

text \<open>Every page has moved to its contents in \<open>D\<close> or not at all.\<close>

definition toward :: "nat \<Rightarrow> u8 list \<Rightarrow> u8 list \<Rightarrow> u8 list \<Rightarrow> bool" where
  "toward m D c x \<longleftrightarrow> (\<forall>R. agrees m D R c \<longrightarrow> agrees m D R x)"

lemma toward_trans: "toward m D c x \<Longrightarrow> toward m D x y \<Longrightarrow> toward m D c y"
  by (simp add: toward_def)

lemma sint_count: "unat h < max_pages \<Longrightarrow> sint (h :: u32) = int (unat h)"
  using of_nat_page(3) [of "unat h"] by simp

lemma jcontent_parts:
  "take 8 (jcontent h c m D J) = aJournalMagic3" "take 4 (drop 8 (jcontent h c m D J)) = be32 h"
  "take 4 (drop 12 (jcontent h c m D J)) = be32 c" "take 4 (drop 16 (jcontent h c m D J)) = be32 (of_nat m)"
  by (simp_all add: jcontent_def jheader_def aJournalMagic3_def)

lemma jcontent_split: "jcontent h c m D J = jheader h c m @ concat (map (jrecord c D) (take q J)) @ concat (map (jrecord c D) (drop q J))"
  unfolding jcontent_def by (metis append_take_drop_id concat_append map_append)

lemma playback_pages_ok:
  assumes rel: "reliable e" and m: "m < max_pages" and D: "length D = N * m"
    and s: "dbSize s = int m" "cksumInit s = c" "content (files s JRN) = jcontent h c m D J @ g" "offs (files s JRN) = 20"
    and K: "\<forall>n \<in> set J. 0 < n \<and> n \<le> m" "q \<le> length J"
    and use: "\<forall>p \<in> set (pAll s). pgno p \<in> set (take q J) \<longrightarrow> pgRef p = 0 \<or> pgno p = 1"
    and db: "length (content (files s DB)) = N * m" "agrees m D (set (take q J)) (content (files s DB))"
  shows "\<exists>F k L. playback_pages e JRN 3 q s =
      Some (SQLITE_OK, (restore_pages D (set (take q J)) s)\<lparr>files := F, clock := k, disklog := L @ disklog s\<rparr>) \<and>
    content (F JRN) = content (files s JRN) \<and> content (F DB) = D \<and>
    (\<forall>d \<in> set L. snd d = snd (on_disk s) \<and> toward m D (content (files s DB)) (fst d))"
proof -
  let ?K = "take q J"
  have K': "\<forall>n \<in> set ?K. 0 < n \<and> n \<le> m" using K by (meson in_set_takeD)
  have q: "length ?K = q" using K by simp
  obtain s' where r: "playback_pages e JRN 3 q s = Some (SQLITE_OK, s')" "played D (set ?K) s s'"
    "length (content (files s' DB)) = N * m"
    using playback_loop [OF rel m s(1,2) K', where D = D and pre = "jheader h c m" and post = "concat (map (jrecord c D) (drop q J)) @ g"]
      s(3,4) use db(1) jcontent_split [of h c m D J q] unfolding q by auto
  obtain F k L where s': "s' = (restore_pages D (set ?K) s)\<lparr>files := F, clock := k, disklog := L @ disklog s\<rparr>"
    "content (F JRN) = content (files s JRN)"
    "\<forall>i > 0. dbpage (content (F DB)) i = (if i \<in> set ?K then dbpage D i else dbpage (content (files s DB)) i)"
    "\<forall>d \<in> set L. snd d = snd (on_disk s) \<and>
      (\<forall>i > 0. dbpage (fst d) i = dbpage (content (files s DB)) i \<or> i \<in> set ?K \<and> dbpage (fst d) i = dbpage D i)"
    using r(2) unfolding played_def by blast
  have "content (F DB) = D"
  proof (rule file_eq_pages)
    show "length (content (F DB)) = N * m" using r(3) by (simp add: s'(1))
    show "dbpage (content (F DB)) i = dbpage D i" if "0 < i" "i \<le> m" for i
      using s'(3) db(2) that by (simp add: agrees_def)
  qed (rule D)
  moreover have "toward m D (content (files s DB)) (fst d)" if "d \<in> set L" for d
    using s'(4) that unfolding toward_def agrees_def by metis
  ultimately show ?thesis using r(1) s' by blast
qed

lemma journal_header_ok:
  assumes "reliable e" "content (files s JRN) = jcontent h c m D J @ g" "offs (files s JRN) = 8" "count_ok h J"
    "q = (if u then length J else jcount h J)" "u \<or> h = 0xffffffff \<Longrightarrow> length g < N + 8"
  shows "journal_header e u 3 (20 + length J * (N + 8) + length g) s =
    Some (SQLITE_OK, int q, s\<lparr>files := (files s)(JRN := (files s JRN)\<lparr>offs := 16\<rparr>), clock := Suc (Suc (clock s)), cksumInit := c\<rparr>)"
proof -
  have "(if h = 0xffffffff \<or> u then int ((20 + length J * (N + 8) + length g - 20) div (N + 8)) else sint h) = int q"
    using assms(4-6) by (auto simp: jcount_def count_ok_def sint_count)
  then show ?thesis using assms(1-3) by (auto simp: journal_header_def read32_ok jcontent_parts split: if_splits)
qed

lemma playback_body_ok:
  assumes rel: "reliable e" and o: "journalOpen s" and j: "content (files s JRN) = jcontent h c m D J @ g"
    and tail: "u \<or> h = 0xffffffff \<Longrightarrow> length g < N + 8" and m: "m < max_pages" and D: "length D = N * m" and K: "\<forall>n \<in> set J. 0 < n \<and> n \<le> m" and cnt: "count_ok h J"
    and q: "q = (if u then length J else jcount h J)"
    and orig: "origDbSize s = 0 \<or> origDbSize s = int m" "pAll s = [] \<or> origDbSize s = int m"
    and cache: "numbered s" "\<forall>p \<in> set (pAll s). 0 < pgno p"
      "\<forall>p \<in> set (pAll s). pgno p \<in> set (take q J) \<longrightarrow> pgRef p = 0 \<or> pgno p = 1"
    and db: "agrees m D (set (take q J)) (content (files s DB))"
  shows "\<exists>F k L. playback_body e u s =
      Some (SQLITE_OK, (reverted D (set (take q J)) s)\<lparr>files := F, clock := k, disklog := L @ disklog s, cksumInit := c, dbSize := int m\<rparr>) \<and>
    content (F DB) = D \<and> content (F JRN) = content (files s JRN) \<and>
    (\<forall>d \<in> set L. snd d = snd (on_disk s) \<and> toward m D (content (files s DB)) (fst d))"
proof -
  let ?K = "set (take q J)"
  let ?db = "file_truncate (content (files s DB)) (N * m)"
  define t where "t = s\<lparr>cksumInit := c, files := (files s)(JRN := (files s JRN)\<lparr>offs := 20\<rparr>, DB := (files s DB)\<lparr>content := ?db\<rparr>),
    clock := Suc (Suc (Suc (Suc (Suc (Suc (clock s)))))), disklog := (?db, snd (on_disk s)) # disklog s, dbSize := int m\<rparr>"
  have q': "q \<le> length J" using q cnt by (auto simp: jcount_def count_ok_def)
  have mm: "uint (of_nat m :: u32) = int m" "unat (of_nat m :: u32) = m" "sint (of_nat m :: u32) = int m"
    using of_nat_page m by simp_all
  have tow: "toward m D (content (files s DB)) ?db" by (simp add: toward_def agrees_def dbpage_truncate)
  have agr: "agrees m D ?K ?db" using db by (simp add: agrees_def dbpage_truncate)
  have body: "playback_body e u s =
      do { (rc, s) \<leftarrow> playback_pages e JRN 3 q t;
           if rc = SQLITE_OK \<or> rc = SQLITE_DONE then Some (refetch e (map pgno (pAll s)) s) else Some (rc, s) }"
    using rel o orig(1) unfolding playback_body_def t_def
    by (simp add: os_ok os_read_ok read32_ok j jcontent_parts Let_def mm journal_header_ok [OF rel _ _ cnt q tail] logged_def on_disk_def)
  obtain F k L where pl: "playback_pages e JRN 3 q t =
      Some (SQLITE_OK, (restore_pages D ?K t)\<lparr>files := F, clock := k, disklog := L @ disklog t\<rparr>)"
    "content (F JRN) = content (files t JRN)" "content (F DB) = D"
    "\<forall>d \<in> set L. snd d = snd (on_disk t) \<and> toward m D ?db (fst d)"
    using playback_pages_ok [OF rel m D, where s = t and h = h and c = c and J = J and q = q and g = g] K q' cache(3) agr j by (auto simp: t_def)
  define t' where "t' = (restore_pages D ?K t)\<lparr>files := F, clock := k, disklog := L @ disklog t\<rparr>"
  have nos: "map pgno (pAll t') = map pgno (pAll s)" by (auto simp: t'_def restore_pages_def t_def)
  have "\<exists>F' k'. refetch e (map pgno (pAll t')) t' = (SQLITE_OK, refetch_pages D (set (map pgno (pAll t'))) (t'\<lparr>files := F', clock := k'\<rparr>)) \<and>
      (\<forall>f. content (F' f) = content (files t' f))"
  proof (cases "pAll s = []")
    case True
    then have "pAll t' = []" using nos by simp
    then have "refetch_pages D {} t' = t'" by (intro refetch_none) simp
    then show ?thesis using \<open>pAll t' = []\<close> by (intro exI [of _ "files t'"] exI [of _ "clock t'"]) simp
  next
    case False
    show ?thesis
    proof (rule refetch_ok [OF rel D])
      show "origDbSize t' = int m" using False orig(2) by (simp add: t'_def t_def restore_pages_def)
      show "numbered t'" using cache(1) by (simp add: numbered_def nos)
      show "\<forall>n \<in> set (map pgno (pAll t')). 0 < n" using cache(2) unfolding nos by simp
    qed (use pl(3) in \<open>simp add: t'_def\<close>)
  qed
  then obtain F' k' where rf: "refetch e (map pgno (pAll t')) t' =
      (SQLITE_OK, refetch_pages D (set (map pgno (pAll t'))) (t'\<lparr>files := F', clock := k'\<rparr>))"
    "\<forall>f. content (F' f) = content (files t' f)" by blast
  have uni: "refetch_pages D (set (map pgno (pAll t'))) (t'\<lparr>files := F', clock := k'\<rparr>) = refetch_pages D UNIV (t'\<lparr>files := F', clock := k'\<rparr>)"
    by (simp add: refetch_pages_def cong: map_cong)
  have st: "refetch_pages D UNIV (t'\<lparr>files := F', clock := k'\<rparr>) = (reverted D ?K s)\<lparr>files := F', clock := k',
      disklog := (L @ [(?db, snd (on_disk s))]) @ disklog s, cksumInit := c, dbSize := int m\<rparr>"
    by (simp add: t'_def t_def reverted_def refetch_pages_def restore_pages_def)
  have "playback_body e u s = Some (SQLITE_OK, (reverted D ?K s)\<lparr>files := F', clock := k',
      disklog := (L @ [(?db, snd (on_disk s))]) @ disklog s, cksumInit := c, dbSize := int m\<rparr>)"
    unfolding body pl(1) t'_def [symmetric] using rf(1) unfolding uni st by simp
  moreover have "content (F' DB) = D" "content (F' JRN) = content (files s JRN)"
    using rf(2) pl(2,3) by (simp_all add: t'_def t_def)
  moreover have "\<forall>d \<in> set (L @ [(?db, snd (on_disk s))]). snd d = snd (on_disk s) \<and> toward m D (content (files s DB)) (fst d)"
    using pl(4) tow toward_trans [OF tow] by (auto simp: t_def on_disk_def)
  ultimately show ?thesis by blast
qed

end
