(* ===== verification/Pager_Recover.thy ===== *)
theory Pager_Recover
  imports Pager_Journal
begin

text \<open>
  Recovery: the states of the disk that a program can leave behind when it is killed, and that the next program that
  opens the database restores the contents it had before the transaction.
\<close>

subsection \<open>Giving up the write lock\<close>

definition clean :: "pghdr \<Rightarrow> pghdr" where
  "clean p = p\<lparr>inJournal := False, dirty := False, pgSync := False\<rparr>"

lemma clean_simps [simp]:
  "pgno (clean p) = pgno p" "pgRef (clean p) = pgRef p" "inCkpt (clean p) = inCkpt p" "pgData (clean p) = pgData p"
  "\<not> inJournal (clean p)" "\<not> dirty (clean p)" "\<not> pgSync (clean p)"
  by (simp_all add: clean_def)

definition unlocked :: "pager \<Rightarrow> pager" where
  "unlocked s = s\<lparr>ckptAutoopen := False, ckptOpen := False, journalOpen := False, jexists := False, aInJournal := None,
                  pAll := map clean (pAll s), state := SQLITE_READLOCK\<rparr>"

lemma unwritelock_ok:
  assumes "reliable e" "state s = SQLITE_WRITELOCK" "\<not> ckptInUse s" "journalOpen s"
  shows "pager_unwritelock e s =
    Some (SQLITE_OK, (unlocked s)\<lparr>clock := Suc (clock s), disklog := (content (files s DB), None) # disklog s\<rparr>)"
  using assms
  by (simp add: pager_unwritelock_def sqlitepager_ckpt_commit_def delete_journal_def logged_def on_disk_def os_call_ok unlocked_def
      clean_def [abs_def] Let_def)

subsection \<open>Playback\<close>

lemma pager_playback_ok:
  assumes rel: "reliable e" and o: "journalOpen s" and j: "content (files s JRN) = jcontent h c m D J @ g"
    and tail: "u \<or> h = 0xffffffff \<Longrightarrow> length g < N + 8" and m: "m < max_pages" and D: "length D = N * m"
    and K: "\<forall>n \<in> set J. 0 < n \<and> n \<le> m" and cnt: "count_ok h J"
    and q: "q = (if u then length J else jcount h J)"
    and orig: "origDbSize s = 0 \<or> origDbSize s = int m" "pAll s = [] \<or> origDbSize s = int m"
    and cache: "numbered s" "\<forall>p \<in> set (pAll s). 0 < pgno p"
      "\<forall>p \<in> set (pAll s). pgno p \<in> set (take q J) \<longrightarrow> pgRef p = 0 \<or> pgno p = 1"
    and db: "agrees m D (set (take q J)) (content (files s DB))"
    and lock: "state s = SQLITE_WRITELOCK" "\<not> ckptInUse s"
  shows "\<exists>F k L. pager_playback e u s = Some (SQLITE_OK, (unlocked (reverted D (set (take q J)) s))
      \<lparr>files := F, clock := k, disklog := (D, None) # L @ disklog s, cksumInit := c, dbSize := int m\<rparr>) \<and>
    content (F DB) = D \<and> (\<forall>d \<in> set L. snd d = snd (on_disk s) \<and> toward m D (content (files s DB)) (fst d))"
proof -
  obtain F k L where b: "playback_body e u s = Some (SQLITE_OK, (reverted D (set (take q J)) s)
      \<lparr>files := F, clock := k, disklog := L @ disklog s, cksumInit := c, dbSize := int m\<rparr>)"
    "content (F DB) = D" "\<forall>d \<in> set L. snd d = snd (on_disk s) \<and> toward m D (content (files s DB)) (fst d)"
    using playback_body_ok [OF rel o j tail m D K cnt q orig cache db] by blast
  let ?s = "(reverted D (set (take q J)) s)\<lparr>files := F, clock := k, disklog := L @ disklog s, cksumInit := c, dbSize := int m\<rparr>"
  have "state ?s = SQLITE_WRITELOCK" "\<not> ckptInUse ?s" "journalOpen ?s"
    using lock o by (simp_all add: reverted_def refetch_pages_def restore_pages_def)
  from unwritelock_ok [OF rel this] have "pager_playback e u s =
      Some (SQLITE_OK, (unlocked ?s)\<lparr>clock := Suc (clock ?s), disklog := (content (files ?s DB), None) # disklog ?s\<rparr>)"
    using b(1) by (simp add: pager_playback_def)
  moreover have "(unlocked ?s)\<lparr>clock := Suc (clock ?s), disklog := (content (files ?s DB), None) # disklog ?s\<rparr> =
      (unlocked (reverted D (set (take q J)) s))
      \<lparr>files := F, clock := Suc k, disklog := (D, None) # L @ disklog s, cksumInit := c, dbSize := int m\<rparr>"
    using b(2) by (simp add: unlocked_def)
  ultimately show ?thesis using b(2,3) by auto
qed

subsection \<open>What a killed program leaves\<close>

text \<open>
  The database is \<open>D\<close>, or there is a journal that leads back to \<open>D\<close>: the beginning of a header, while the database is
  still untouched, or a header with a number of records of pages of \<open>D\<close>, of which those the header counts cover every
  page of the database that may have changed.  Behind the records there may be anything, except that the number of
  records is found from the size of the file if the header does not say it.
\<close>

definition safe :: "u8 list \<Rightarrow> disk \<Rightarrow> bool" where
  "safe D d \<longleftrightarrow> (\<exists>m. length D = N * m \<and> m < max_pages \<and>
     (case snd d of None \<Rightarrow> fst d = D
      | Some j \<Rightarrow> fst d = D \<and> (\<exists>h c k. k < 20 \<and> j = take k (jheader h c m)) \<or>
          (\<exists>h c J g. j = jcontent h c m D J @ g \<and> (h = 0xffffffff \<longrightarrow> length g < N + 8) \<and> (\<forall>n \<in> set J. 0 < n \<and> n \<le> m) \<and>
             count_ok h J \<and> agrees m D (set (take (jcount h J) J)) (fst d))))"

lemma safe_none: "length D = N * m \<Longrightarrow> m < max_pages \<Longrightarrow> safe D (D, None)"
  by (auto simp: safe_def)

lemma safe_header: "length D = N * m \<Longrightarrow> m < max_pages \<Longrightarrow> k < 20 \<Longrightarrow> safe D (D, Some (take k (jheader h c m)))"
  unfolding safe_def by auto

lemma safe_full:
  assumes "length D = N * m" "m < max_pages" "h = 0xffffffff \<longrightarrow> length g < N + 8" "\<forall>n \<in> set J. 0 < n \<and> n \<le> m" "count_ok h J"
    "agrees m D (set (take (jcount h J) J)) (fst d)" "snd d = Some (jcontent h c m D J @ g)"
  shows "safe D d"
proof -
  have "\<exists>h' c' J' g'. jcontent h c m D J @ g = jcontent h' c' m D J' @ g' \<and> (h' = 0xffffffff \<longrightarrow> length g' < N + 8) \<and>
      (\<forall>n \<in> set J'. 0 < n \<and> n \<le> m) \<and> count_ok h' J' \<and> agrees m D (set (take (jcount h' J') J')) (fst d)"
    using assms(3-6) by blast
  then show ?thesis unfolding safe_def using assms(1,2,7) by (intro exI [of _ m]) simp
qed

text \<open>A pager that has nothing in memory and no transaction.\<close>

definition at_rest :: "pager \<Rightarrow> bool" where
  "at_rest s \<longleftrightarrow> useJournal s \<and> \<not> tempFile s \<and> \<not> readOnly s \<and> errMask s = 0 \<and> \<not> ckptInUse s \<and> \<not> ckptOpen s \<and> \<not> ckptAutoopen s \<and>
     pCkpt s = [] \<and> aInCkpt s = None \<and> \<not> journalOpen s \<and> aInJournal s = None \<and> pAll s = [] \<and> pFree s = [] \<and> pFirstSynced s = None \<and>
     nPage s = 0 \<and> nRef s = 0 \<and> dbSize s = - 1 \<and> 0 < mxPage s"

lemma unlocked_at_rest:
  "at_rest s \<Longrightarrow> unlocked (reverted D K (s\<lparr>state := a, journalOpen := True, journalStarted := b\<rparr>)) =
     s\<lparr>state := SQLITE_READLOCK, journalStarted := b, jexists := False\<rparr>"
  by (simp add: at_rest_def unlocked_def reverted_def refetch_pages_def restore_pages_def)

text \<open>A header that is not complete is ignored.\<close>

lemma playback_prefix:
  assumes rel: "reliable e" and o: "journalOpen s" and j: "content (files s JRN) = take k (jheader h c m)" "k < 20"
  shows "\<exists>F k'. playback_body e u s = Some (SQLITE_OK, s\<lparr>files := F, clock := k'\<rparr>) \<and> content (F DB) = content (files s DB)"
proof (cases "k < 12")
  case True
  then show ?thesis using rel o j
    by (simp add: playback_body_def os_ok) (fastforce intro: exI [of _ "(files s)(JRN := (files s JRN)\<lparr>offs := 0\<rparr>)"])
next
  case False
  then have "take 8 (content (files s JRN)) = aJournalMagic3" using j by (simp add: jheader_def aJournalMagic3_def)
  then have "playback_body e u s = Some (SQLITE_OK, s\<lparr>files := (files s)(JRN := (files s JRN)\<lparr>offs := 8\<rparr>), clock := Suc (Suc (clock s))\<rparr>)"
    using False rel o j(2) by (simp add: playback_body_def os_ok os_read_ok j(1) min_def)
  then show ?thesis by fastforce
qed

lemma get_lock_recovers:
  assumes rel: "reliable e" and rest: "at_rest s" and sf: "safe D (on_disk s)" and orig: "origDbSize s = 0 \<or> \<not> jexists s"
  shows "\<exists>F k L c z b. get_lock e s = Some (SQLITE_OK, s\<lparr>state := SQLITE_READLOCK, journalStarted := b, jexists := False, files := F,
      clock := k, disklog := L @ disklog s, cksumInit := c, dbSize := z\<rparr>) \<and>
    content (F DB) = D \<and> (\<forall>d \<in> set L. safe D d) \<and> (z = - 1 \<or> int N * z = int (length D))"
proof -
  obtain m where m: "length D = N * m" "m < max_pages" using sf by (auto simp: safe_def)
  have Dn: "safe D (D, None)" using m by (auto simp: safe_def)
  show ?thesis
  proof (cases "jexists s")
    case False
    then have "content (files s DB) = D" using sf by (auto simp: safe_def on_disk_def)
    moreover have "get_lock e s = Some (SQLITE_OK, s\<lparr>state := SQLITE_READLOCK, journalStarted := journalStarted s, jexists := False,
        files := files s, clock := Suc (clock s), disklog := [] @ disklog s, cksumInit := cksumInit s, dbSize := - 1\<rparr>)"
      using False rel rest by (simp add: get_lock_def os_ok at_rest_def)
    ultimately show ?thesis by fastforce
  next
    case True
    define t where "t = s\<lparr>state := SQLITE_WRITELOCK, files := (files s)(JRN := (files s JRN)\<lparr>offs := 0\<rparr>),
      clock := Suc (Suc (Suc (Suc (clock s)))), journalOpen := True, journalStarted := False\<rparr>"
    have gl: "get_lock e s = pager_playback e False t"
      using True rel rest by (simp add: get_lock_def os_ok at_rest_def t_def)
    have t: "journalOpen t" "state t = SQLITE_WRITELOCK" "\<not> ckptInUse t" "pAll t = []" "origDbSize t = 0" "numbered t"
      "files t JRN = (files s JRN)\<lparr>offs := 0\<rparr>" "files t DB = files s DB" "disklog t = disklog s" "on_disk t = on_disk s" "cksumInit t = cksumInit s"
      using rest orig True by (simp_all add: t_def at_rest_def numbered_def on_disk_def)
    consider (hdr) h c k where "content (files s DB) = D" "k < 20" "content (files s JRN) = take k (jheader h c m)"
      | (full) h c J g where "content (files s JRN) = jcontent h c m D J @ g" "h = 0xffffffff \<longrightarrow> length g < N + 8"
          "\<forall>n \<in> set J. 0 < n \<and> n \<le> m" "count_ok h J" "agrees m D (set (take (jcount h J) J)) (content (files s DB))"
      using sf True m by (auto simp: safe_def on_disk_def)
    then show ?thesis
    proof cases
      case hdr
      obtain F k' where b: "playback_body e False t = Some (SQLITE_OK, t\<lparr>files := F, clock := k'\<rparr>)" "content (F DB) = D"
        using playback_prefix [OF rel t(1), of k h c m False] hdr t by auto
      have "pager_playback e False t = Some (SQLITE_OK, (unlocked (t\<lparr>files := F, clock := k'\<rparr>))\<lparr>clock := Suc k', disklog := (D, None) # disklog t\<rparr>)"
        using unwritelock_ok [OF rel, of "t\<lparr>files := F, clock := k'\<rparr>"] b t by (simp add: pager_playback_def)
      moreover have "(unlocked (t\<lparr>files := F, clock := k'\<rparr>))\<lparr>clock := Suc k', disklog := (D, None) # disklog t\<rparr> =
          s\<lparr>state := SQLITE_READLOCK, journalStarted := False, jexists := False, files := F,
            clock := Suc k', disklog := [(D, None)] @ disklog s, cksumInit := cksumInit s, dbSize := - 1\<rparr>"
        using rest by (simp add: t_def unlocked_def at_rest_def)
      ultimately show ?thesis unfolding gl using b(2) Dn
        by (intro exI [of _ F] exI [of _ "Suc k'"] exI [of _ "[(D, None)]"] exI [of _ "cksumInit s"] exI [of _ "- 1"] exI [of _ False]) simp
    next
      case full
      let ?K = "set (take (jcount h J) J)"
      obtain F k L where p: "pager_playback e False t = Some (SQLITE_OK, (unlocked (reverted D ?K t))
          \<lparr>files := F, clock := k, disklog := (D, None) # L @ disklog t, cksumInit := c, dbSize := int m\<rparr>)"
        "content (F DB) = D" "\<forall>d \<in> set L. snd d = snd (on_disk t) \<and> toward m D (content (files t DB)) (fst d)"
        using pager_playback_ok [OF rel t(1), of h c m D J g False "jcount h J"] full t m by auto
      have "safe D d" if "d \<in> set L" for d
        using safe_full [OF m full(2-4)] p(3) full(1,5) that True by (simp add: t(8,10) toward_def) (simp add: on_disk_def)
      then have "\<forall>d \<in> set ((D, None) # L). safe D d" using Dn by simp
      moreover have "(unlocked (reverted D ?K t))\<lparr>files := F, clock := k, disklog := (D, None) # L @ disklog t, cksumInit := c, dbSize := int m\<rparr> =
          s\<lparr>state := SQLITE_READLOCK, journalStarted := False, jexists := False, files := F,
            clock := k, disklog := ((D, None) # L) @ disklog s, cksumInit := c, dbSize := int m\<rparr>"
        using rest by (simp add: t_def unlocked_def at_rest_def reverted_def refetch_pages_def restore_pages_def)
      ultimately show ?thesis unfolding gl using p(1,2) m(1)
        by (intro exI [of _ F] exI [of _ k] exI [of _ "(D, None) # L"] exI [of _ c] exI [of _ "int m"] exI [of _ False]) simp
    qed
  qed
qed

end
