(* ===== verification/Pager_Trans.thy ===== *)
theory Pager_Trans
  imports Pager_Recover
begin

text \<open>
  Transactions: the pager refines a store of pages with one transaction at a time.

  The specification knows the committed database, the current contents of the pages, the pages a client holds pointers
  to and the ones it may write.  The relation between a store and a pager is the invariant of the pager.
\<close>

subsection \<open>Specification\<close>

text \<open>
  After a rollback the client lets go of its pages before it starts anew: \<open>pager_playback\<close> resets the \<open>needSync\<close> flags of
  the pages, but neither \<open>needSync\<close> of the pager nor \<open>pFirstSynced\<close>.
\<close>

datatype phase = Resting | Reading | Writing | Rolled_back

record store =
  phase :: phase
  committed :: "u8 list"
  current :: "nat \<Rightarrow> u8 list"
  pages :: nat
  refs :: "nat list"
  writable :: "nat set"

datatype pager_op =
    Get nat | Ref nat | Unref nat | Begin nat | Write nat | Store nat "u8 list" | Commit | Rollback
  | Pagecount | Cache_size int | Safety_level int

definition bytes :: "(nat \<Rightarrow> u8 list) \<Rightarrow> nat \<Rightarrow> u8 list" where
  "bytes C m = concat (map (\<lambda>i. C (Suc i)) [0..<m])"

definition revert :: "phase \<Rightarrow> store \<Rightarrow> store" where
  "revert ph a = a\<lparr>phase := ph, current := dbpage (committed a), pages := length (committed a) div N, writable := {}\<rparr>"

text \<open>
  What a client may ask for.  When it rolls back it holds at most the first page, which is part of the database or which it
  may write: another page may keep the contents of the transaction in the cache.
\<close>

fun legal :: "pager_op \<Rightarrow> store \<Rightarrow> bool" where
  "legal (Get n) a = (0 < n \<and> n < max_pages \<and> (phase a = Rolled_back \<longrightarrow> n \<in> set (refs a)))"
| "legal (Ref n) a = (n \<in> set (refs a))"
| "legal (Unref n) a = (n \<in> set (refs a))"
| "legal (Begin n) a = (n \<in> set (refs a) \<and> phase a \<noteq> Rolled_back)"
| "legal (Write n) a = (n \<in> set (refs a) \<and> phase a \<noteq> Rolled_back)"
| "legal (Store n d) a = (n \<in> writable a \<and> length d = N)"
| "legal Commit a = True"
| "legal Rollback a = (phase a = Writing \<longrightarrow> set (refs a) \<subseteq> {1} \<and> (committed a = [] \<longrightarrow> 1 \<in> writable a))"
| "legal Pagecount a = (phase a \<noteq> Resting)"
| "legal (Cache_size mx) a = (phase a \<noteq> Writing)"
| "legal (Safety_level level) a = (phase a \<noteq> Writing)"

fun spec_step :: "pager_op \<Rightarrow> store \<Rightarrow> store" where
  "spec_step (Get n) a = a\<lparr>phase := (if phase a = Resting then Reading else phase a), refs := n # refs a\<rparr>"
| "spec_step (Ref n) a = a\<lparr>refs := n # refs a\<rparr>"
| "spec_step (Unref n) a =
     (let a = a\<lparr>refs := remove1 n (refs a)\<rparr>
      in if refs a = [] then revert Resting a
         else if n \<in> set (refs a) then a else a\<lparr>writable := writable a - {n}\<rparr>)"
| "spec_step (Begin n) a = a\<lparr>phase := Writing\<rparr>"
| "spec_step (Write n) a = a\<lparr>phase := Writing, pages := max (pages a) n, writable := insert n (writable a)\<rparr>"
| "spec_step (Store n d) a = a\<lparr>current := (current a)(n := d)\<rparr>"
| "spec_step Commit a =
     (if phase a = Writing then a\<lparr>phase := Reading, committed := bytes (current a) (pages a), writable := {}\<rparr> else a)"
| "spec_step Rollback a = (if phase a = Writing then revert Rolled_back a else a)"
| "spec_step _ a = a"

fun spec_rc :: "pager_op \<Rightarrow> store \<Rightarrow> int" where
  "spec_rc Commit a = (if phase a = Writing then SQLITE_OK else SQLITE_ERROR)"
| "spec_rc Pagecount a = int (pages a)"
| "spec_rc _ a = SQLITE_OK"

fun pager_step :: "sysenv \<Rightarrow> pager_op \<Rightarrow> pager \<Rightarrow> (int \<times> pager) option" where
  "pager_step e (Get n) s = sqlitepager_get e n s"
| "pager_step e (Ref n) s = sqlitepager_ref n s"
| "pager_step e (Unref n) s = sqlitepager_unref e n s"
| "pager_step e (Begin n) s = sqlitepager_begin e n s"
| "pager_step e (Write n) s = sqlitepager_write e n s"
| "pager_step e (Store n d) s = Some (SQLITE_OK, store_page n d s)"
| "pager_step e Commit s = sqlitepager_commit e s"
| "pager_step e Rollback s = sqlitepager_rollback e s"
| "pager_step e Pagecount s = Some (sqlitepager_pagecount e s)"
| "pager_step e (Cache_size mx) s = Some (SQLITE_OK, sqlitepager_set_cachesize mx s)"
| "pager_step e (Safety_level level) s = Some (SQLITE_OK, sqlitepager_set_safety_level level s)"

subsection \<open>Changing one page\<close>

lemma set_page_selectors [simp]:
  "files (set_page n g s) = files s" "jexists (set_page n g s) = jexists s" "clock (set_page n g s) = clock s"
  "disklog (set_page n g s) = disklog s" "dbSize (set_page n g s) = dbSize s" "origDbSize (set_page n g s) = origDbSize s"
  "nRec (set_page n g s) = nRec s" "cksumInit (set_page n g s) = cksumInit s" "nExtra (set_page n g s) = nExtra s"
  "nPage (set_page n g s) = nPage s" "nRef (set_page n g s) = nRef s" "mxPage (set_page n g s) = mxPage s"
  "journalOpen (set_page n g s) = journalOpen s" "journalStarted (set_page n g s) = journalStarted s"
  "useJournal (set_page n g s) = useJournal s" "ckptOpen (set_page n g s) = ckptOpen s" "ckptInUse (set_page n g s) = ckptInUse s"
  "ckptAutoopen (set_page n g s) = ckptAutoopen s" "noSync (set_page n g s) = noSync s" "fullSync (set_page n g s) = fullSync s"
  "state (set_page n g s) = state s" "errMask (set_page n g s) = errMask s" "tempFile (set_page n g s) = tempFile s"
  "readOnly (set_page n g s) = readOnly s" "needSync (set_page n g s) = needSync s" "dirtyFile (set_page n g s) = dirtyFile s"
  "aInJournal (set_page n g s) = aInJournal s" "aInCkpt (set_page n g s) = aInCkpt s" "pFree (set_page n g s) = pFree s"
  "pFirstSynced (set_page n g s) = pFirstSynced s" "pCkpt (set_page n g s) = pCkpt s" "on_disk (set_page n g s) = on_disk s"
  "length (pAll (set_page n g s)) = length (pAll s)"
  by (simp_all add: set_page_def on_disk_def)

lemma ball_set_page [simp]:
  "(\<forall>p \<in> set (pAll (set_page n g s)). P p) = (\<forall>p \<in> set (pAll s). P (if pgno p = n then g p else p))"
  unfolding set_page_def by (simp del: if_image_distrib)

lemma bex_set_page [simp]:
  "(\<exists>p \<in> set (pAll (set_page n g s)). P p) = (\<exists>p \<in> set (pAll s). P (if pgno p = n then g p else p))"
  unfolding set_page_def by (simp del: if_image_distrib)

lemma numbers_set_page: "(\<And>p. pgno (g p) = pgno p) \<Longrightarrow> map pgno (pAll (set_page n g s)) = map pgno (pAll s)"
  by (auto simp: set_page_def)

lemma numbered_set_page: "(\<And>p. pgno (g p) = pgno p) \<Longrightarrow> numbered (set_page n g s) = numbered s"
  by (simp add: numbered_def numbers_set_page)

lemma find_map_pgno:
  "(\<And>p. pgno (g p) = pgno p) \<Longrightarrow>
   find (\<lambda>p. pgno p = k) (map (\<lambda>p. if pgno p = n then g p else p) ps) =
   map_option (\<lambda>p. if pgno p = n then g p else p) (find (\<lambda>p. pgno p = k) ps)"
  by (induction ps) auto

lemma lookup_set_page:
  "(\<And>p. pgno (g p) = pgno p) \<Longrightarrow>
   pager_lookup (set_page n g s) k = map_option (\<lambda>p. if pgno p = n then g p else p) (pager_lookup s k)"
  by (simp add: pager_lookup_def set_page_def find_map_pgno)

lemma first_synced_cong:
  assumes "\<And>k. map_option pgSync (pager_lookup s k) = map_option pgSync (pager_lookup t k)"
  shows "first_synced s ns = first_synced t ns"
proof -
  have "(case pager_lookup s k of Some p \<Rightarrow> \<not> pgSync p | None \<Rightarrow> False) = (case pager_lookup t k of Some p \<Rightarrow> \<not> pgSync p | None \<Rightarrow> False)" for k
    using assms [of k] by (auto split: option.splits)
  then show ?thesis by (simp add: first_synced_def)
qed

lemma first_synced_set_page:
  assumes "\<And>p. pgno (g p) = pgno p" "\<And>p. pgSync (g p) = pgSync p"
  shows "first_synced (set_page n g s) ns = first_synced s ns"
  by (rule first_synced_cong) (use assms in \<open>auto simp: lookup_set_page option.map_comp comp_def intro!: map_option_cong\<close>)

subsection \<open>The free list\<close>

lemma find_remove1:
  assumes "distinct xs"
  shows "find P (remove1 n xs) = (if find P xs = Some n then find P (after n xs) else find P xs)"
  using assms
proof (induction xs)
  case (Cons x xs)
  show ?case
  proof (cases "x = n")
    case True
    then have "remove1 n xs = xs" "find P xs \<noteq> Some n" using Cons.prems by (auto simp: remove1_idem find_Some_iff)
    then show ?thesis using True by (simp add: after_def)
  next
    case False
    then show ?thesis using Cons by (auto simp: after_def)
  qed
qed (simp add: after_def)

definition free_ok :: "pager \<Rightarrow> bool" where
  "free_ok s \<longleftrightarrow> pFirstSynced s = first_synced s (pFree s)"

lemma unlink_free_fields: "unlink_free n s = s\<lparr>pFirstSynced := pFirstSynced (unlink_free n s), pFree := remove1 n (pFree s)\<rparr>"
  by (simp add: unlink_free_def Let_def)

lemma unlink_free_ok: "free_ok s \<Longrightarrow> distinct (pFree s) \<Longrightarrow> free_ok (unlink_free n s)"
  by (simp add: free_ok_def unlink_free_def Let_def first_synced_def find_remove1 pager_lookup_def)

end
