(* ===== verification/Pager_Inv.thy ===== *)
theory Pager_Inv
  imports Pager_Trans
begin

text \<open>
  The invariant of the pager in each phase, and the parts of the operations that only concern the cache: pointers to
  pages, the free list, and taking a page into memory.
\<close>

subsection \<open>Invariant\<close>

definition static :: "pager \<Rightarrow> bool" where
  "static s \<longleftrightarrow> useJournal s \<and> \<not> tempFile s \<and> \<not> readOnly s \<and> errMask s = 0 \<and> \<not> ckptInUse s \<and> \<not> ckptOpen s \<and> \<not> ckptAutoopen s \<and>
     pCkpt s = [] \<and> aInCkpt s = None \<and> 0 < mxPage s \<and> (\<forall>p \<in> set (pAll s). \<not> inCkpt p)"

definition cache_ok :: "nat list \<Rightarrow> pager \<Rightarrow> bool" where
  "cache_ok rs s \<longleftrightarrow> numbered s \<and> (\<forall>p \<in> set (pAll s). 0 < pgno p \<and> pgno p < max_pages \<and> length (pgData p) = N) \<and>
     (\<forall>p \<in> set (pAll s). pgRef p = count_list rs (pgno p)) \<and> set rs \<subseteq> pgno ` set (pAll s) \<and> nPage s = length (pAll s) \<and>
     distinct (pFree s) \<and> set (pFree s) = pgno ` set (pAll s) - set rs \<and> nRef s = card (set rs)"

definition size_ok :: "u8 list \<Rightarrow> nat \<Rightarrow> bool" where
  "size_ok D m \<longleftrightarrow> length D = N * m \<and> m < max_pages"

text \<open>The cache agrees with the current contents of the pages, and so does the file where the cache is not dirty.\<close>

definition view_ok :: "store \<Rightarrow> pager \<Rightarrow> bool" where
  "view_ok a s \<longleftrightarrow> (\<forall>p \<in> set (pAll s). pgData p = current a (pgno p)) \<and>
     (\<forall>n > 0. (\<forall>p \<in> set (pAll s). pgno p = n \<longrightarrow> \<not> dirty p) \<longrightarrow> dbpage (content (files s DB)) n = current a n)"

text \<open>The pages that a client holds have the current contents.\<close>

definition held_ok :: "store \<Rightarrow> pager \<Rightarrow> bool" where
  "held_ok a s \<longleftrightarrow> (\<forall>p \<in> set (pAll s). pgno p \<in> set (refs a) \<longrightarrow> pgData p = current a (pgno p))"

definition reading_inv :: "store \<Rightarrow> pager \<Rightarrow> bool" where
  "reading_inv a s \<longleftrightarrow> state s = SQLITE_READLOCK \<and> \<not> journalOpen s \<and> \<not> jexists s \<and> aInJournal s = None \<and>
     content (files s DB) = committed a \<and> size_ok (committed a) (pages a) \<and> (dbSize s = - 1 \<or> dbSize s = int (pages a)) \<and>
     (\<forall>p \<in> set (pAll s). \<not> dirty p \<and> \<not> inJournal p \<and> \<not> pgSync p) \<and> writable a = {}"

text \<open>The journal holds the pages \<open>J\<close> of the committed database \<open>D\<close>, and its header counts those before the last sync.\<close>

definition journal_inv :: "u8 list \<Rightarrow> nat \<Rightarrow> u32 \<Rightarrow> nat list \<Rightarrow> pager \<Rightarrow> bool" where
  "journal_inv D m h J s \<longleftrightarrow> state s = SQLITE_WRITELOCK \<and> journalOpen s \<and> jexists s \<and> origDbSize s = int m \<and> size_ok D m \<and>
     content (files s JRN) = jcontent h (cksumInit s) m D J \<and> offs (files s JRN) = 20 + length J * (N + 8) \<and>
     nRec s = length J \<and> distinct J \<and> (\<forall>n \<in> set J. 0 < n \<and> n \<le> m) \<and> count_ok h J \<and>
     (\<exists>bs. aInJournal s = Some bs \<and> m < length bs \<and> (\<forall>i \<le> m. bs ! i = (i \<in> set J))) \<and>
     (\<forall>p \<in> set (pAll s). inJournal p = (pgno p \<in> set J)) \<and>
     (noSync s \<longrightarrow> h = 0xffffffff \<and> \<not> needSync s) \<and> (\<not> noSync s \<longrightarrow> h \<noteq> 0xffffffff) \<and>
     (\<not> needSync s \<longrightarrow> jcount h J = length J \<and> (\<forall>p \<in> set (pAll s). \<not> pgSync p)) \<and>
     (\<forall>i \<in> set J - set (take (jcount h J) J). \<exists>p \<in> set (pAll s). pgno p = i \<and> pgSync p) \<and>
     agrees m D (set (take (jcount h J) J)) (content (files s DB))"

definition file_inv :: "u8 list \<Rightarrow> nat \<Rightarrow> nat list \<Rightarrow> nat \<Rightarrow> pager \<Rightarrow> bool" where
  "file_inv D m J k s \<longleftrightarrow> dbSize s = int k \<and> m \<le> k \<and> k < max_pages \<and> N dvd length (content (files s DB)) \<and>
     N * m \<le> length (content (files s DB)) \<and> length (content (files s DB)) \<le> N * k \<and>
     (\<forall>p \<in> set (pAll s). dirty p \<longrightarrow> pgno p \<le> k \<and> (pgno p \<le> m \<longrightarrow> pgno p \<in> set J)) \<and>
     (length (content (files s DB)) = N * k \<or> (\<exists>p \<in> set (pAll s). pgno p = k \<and> dirty p)) \<and>
     (\<not> dirtyFile s \<longrightarrow> J = [] \<and> \<not> needSync s \<and> (\<forall>p \<in> set (pAll s). \<not> dirty p) \<and> content (files s DB) = D)"

definition writing_inv :: "store \<Rightarrow> pager \<Rightarrow> bool" where
  "writing_inv a s \<longleftrightarrow> (\<exists>m h J. journal_inv (committed a) m h J s \<and> file_inv (committed a) m J (pages a) s) \<and>
     (\<forall>n \<in> writable a. n \<in> set (refs a) \<and> (\<exists>p \<in> set (pAll s). pgno p = n \<and> dirty p))"

fun phase_inv :: "phase \<Rightarrow> store \<Rightarrow> pager \<Rightarrow> bool" where
  "phase_inv Resting a s = (at_rest s \<and> state s = SQLITE_UNLOCK \<and> safe (committed a) (on_disk s) \<and> (origDbSize s = 0 \<or> \<not> jexists s) \<and> refs a = [] \<and>
     (\<forall>n > 0. current a n = dbpage (committed a) n) \<and> size_ok (committed a) (pages a) \<and> writable a = {})"
| "phase_inv Reading a s = (static s \<and> cache_ok (refs a) s \<and> view_ok a s \<and> reading_inv a s \<and> refs a \<noteq> [] \<and> free_ok s)"
| "phase_inv Rolled_back a s = (static s \<and> cache_ok (refs a) s \<and> held_ok a s \<and> reading_inv a s \<and> refs a \<noteq> [])"
| "phase_inv Writing a s = (static s \<and> cache_ok (refs a) s \<and> view_ok a s \<and> writing_inv a s \<and> refs a \<noteq> [] \<and> free_ok s)"

definition pager_inv :: "store \<Rightarrow> pager \<Rightarrow> bool" where
  "pager_inv a s \<longleftrightarrow> phase_inv (phase a) a s"

subsection \<open>Invariants depend on parts of the state\<close>

text \<open>What the invariants on the files read of a page.\<close>

definition pview :: "pghdr \<Rightarrow> nat \<times> bool \<times> bool \<times> bool \<times> u8 list \<times> bool" where
  "pview p = (pgno p, inJournal p, dirty p, pgSync p, pgData p, inCkpt p)"

text \<open>Two states that differ only in pointers to pages and in the free list.\<close>

definition same_files :: "pager \<Rightarrow> pager \<Rightarrow> bool" where
  "same_files s t \<longleftrightarrow> map pview (pAll t) = map pview (pAll s) \<and>
     useJournal t = useJournal s \<and> tempFile t = tempFile s \<and> readOnly t = readOnly s \<and> errMask t = errMask s
     \<and> ckptInUse t = ckptInUse s \<and> ckptOpen t = ckptOpen s \<and> ckptAutoopen t = ckptAutoopen s \<and> pCkpt t =
     pCkpt s \<and> aInCkpt t = aInCkpt s \<and> mxPage t = mxPage s \<and> files t = files s \<and> state t = state s \<and>
     journalOpen t = journalOpen s \<and> jexists t = jexists s \<and> aInJournal t = aInJournal s \<and> dbSize t = dbSize s
     \<and> origDbSize t = origDbSize s \<and> cksumInit t = cksumInit s \<and> nRec t = nRec s \<and> noSync t = noSync s
     \<and> needSync t = needSync s \<and> dirtyFile t = dirtyFile s"

lemma map_ball:
  assumes "map f xs = map f ys" "\<And>p q. f p = f q \<Longrightarrow> P p = P q"
  shows "(\<forall>p \<in> set xs. P p) = (\<forall>p \<in> set ys. P p)" "(\<exists>p \<in> set xs. P p) = (\<exists>p \<in> set ys. P p)"
proof -
  have "(\<forall>p \<in> set xs. P p) = (\<forall>p \<in> set ys. P p) \<and> (\<exists>p \<in> set xs. P p) = (\<exists>p \<in> set ys. P p)"
    using assms(1)
  proof (induction xs arbitrary: ys)
    case (Cons x xs)
    then obtain y ys' where y: "ys = y # ys'" "f x = f y" "map f xs = map f ys'" by auto
    then show ?case using Cons.IH [OF y(3)] assms(2) [OF y(2)] by simp
  qed simp
  then show "(\<forall>p \<in> set xs. P p) = (\<forall>p \<in> set ys. P p)" "(\<exists>p \<in> set xs. P p) = (\<exists>p \<in> set ys. P p)" by blast+
qed

lemma same_files_inv:
  assumes "same_files s t"
  shows "static t = static s" "view_ok a t = view_ok a s" "held_ok a t = held_ok a s" "reading_inv a t = reading_inv a s"
    "journal_inv D m h J t = journal_inv D m h J s" "file_inv D m J k t = file_inv D m J k s" "writing_inv a t = writing_inv a s"
proof -
  have v: "map pview (pAll t) = map pview (pAll s)" and f: "useJournal t = useJournal s" "tempFile t = tempFile s" "readOnly t = readOnly s" "errMask t = errMask s" "ckptInUse t =
    ckptInUse s" "ckptOpen t = ckptOpen s" "ckptAutoopen t = ckptAutoopen s" "pCkpt t = pCkpt s" "aInCkpt t = aInCkpt s"
    "mxPage t = mxPage s" "files t = files s" "state t = state s" "journalOpen t = journalOpen s" "jexists t = jexists s"
    "aInJournal t = aInJournal s" "dbSize t = dbSize s" "origDbSize t = origDbSize s" "cksumInit t = cksumInit s" "nRec t =
    nRec s" "noSync t = noSync s" "needSync t = needSync s" "dirtyFile t = dirtyFile s"
    using assms by (simp_all add: same_files_def)
  have b0: "(\<forall>p \<in> set (pAll t). \<not> inCkpt p) = (\<forall>p \<in> set (pAll s). \<not> inCkpt p)"
    by (rule map_ball(1) [OF v]) (auto simp: pview_def)
  have b1: "(\<forall>p \<in> set (pAll t). pgData p = current a (pgno p)) = (\<forall>p \<in> set (pAll s). pgData p = current a (pgno p))"
    by (rule map_ball(1) [OF v]) (auto simp: pview_def)
  have b2: "(\<forall>p \<in> set (pAll t). pgno p = n \<longrightarrow> \<not> dirty p) = (\<forall>p \<in> set (pAll s). pgno p = n \<longrightarrow> \<not> dirty p)" for n
    by (rule map_ball(1) [OF v]) (auto simp: pview_def)
  have b3: "(\<forall>p \<in> set (pAll t). \<not> dirty p \<and> \<not> inJournal p \<and> \<not> pgSync p) = (\<forall>p \<in> set (pAll s). \<not> dirty p \<and> \<not> inJournal p \<and> \<not> pgSync p)"
    by (rule map_ball(1) [OF v]) (auto simp: pview_def)
  have b4: "(\<forall>p \<in> set (pAll t). inJournal p = (pgno p \<in> set J)) = (\<forall>p \<in> set (pAll s). inJournal p = (pgno p \<in> set J))" for J
    by (rule map_ball(1) [OF v]) (auto simp: pview_def)
  have b5: "(\<forall>p \<in> set (pAll t). \<not> pgSync p) = (\<forall>p \<in> set (pAll s). \<not> pgSync p)"
    by (rule map_ball(1) [OF v]) (auto simp: pview_def)
  have b6: "(\<exists>p \<in> set (pAll t). pgno p = n \<and> pgSync p) = (\<exists>p \<in> set (pAll s). pgno p = n \<and> pgSync p)" for n
    by (rule map_ball(2) [OF v]) (auto simp: pview_def)
  have b7: "(\<forall>p \<in> set (pAll t). dirty p \<longrightarrow> pgno p \<le> k \<and> (pgno p \<le> m \<longrightarrow> pgno p \<in> set J)) = (\<forall>p \<in> set (pAll s). dirty p \<longrightarrow> pgno p \<le> k \<and> (pgno p \<le> m \<longrightarrow> pgno p \<in> set J))" for k m J
    by (rule map_ball(1) [OF v]) (auto simp: pview_def)
  have b8: "(\<forall>p \<in> set (pAll t). \<not> dirty p) = (\<forall>p \<in> set (pAll s). \<not> dirty p)"
    by (rule map_ball(1) [OF v]) (auto simp: pview_def)
  have b9: "(\<exists>p \<in> set (pAll t). pgno p = n \<and> dirty p) = (\<exists>p \<in> set (pAll s). pgno p = n \<and> dirty p)" for n
    by (rule map_ball(2) [OF v]) (auto simp: pview_def)
  have b10: "(\<forall>p \<in> set (pAll t). pgno p \<in> set (refs a) \<longrightarrow> pgData p = current a (pgno p)) =
      (\<forall>p \<in> set (pAll s). pgno p \<in> set (refs a) \<longrightarrow> pgData p = current a (pgno p))"
    by (rule map_ball(1) [OF v]) (auto simp: pview_def)
  note b = b0 b1 b2 b3 b4 b5 b6 b7 b8 b9 b10
  show "static t = static s" by (simp only: static_def f b)
  show "view_ok a t = view_ok a s" by (simp only: view_ok_def f b)
  show "held_ok a t = held_ok a s" by (simp only: held_ok_def b)
  show "reading_inv a t = reading_inv a s" by (simp only: reading_inv_def f b)
  have ji: "journal_inv D m h J t = journal_inv D m h J s" for D m h J by (simp only: journal_inv_def f b)
  have fi: "file_inv D m J k t = file_inv D m J k s" for D m J k by (simp only: file_inv_def f b)
  show "journal_inv D m h J t = journal_inv D m h J s" "file_inv D m J k t = file_inv D m J k s" by (rule ji, rule fi)
  show "writing_inv a t = writing_inv a s" by (simp only: writing_inv_def ji fi b)
qed

lemma same_files_trans: "same_files r s \<Longrightarrow> same_files s t \<Longrightarrow> same_files r t"
  by (simp add: same_files_def)

lemma pview_set_page: "(\<And>p. pview (g p) = pview p) \<Longrightarrow> map pview (pAll (set_page n g s)) = map pview (pAll s)"
  by (auto simp: set_page_def)

lemma same_files_set_page: "(\<And>p. pview (g p) = pview p) \<Longrightarrow> same_files s (set_page n g s)"
  by (simp add: same_files_def pview_set_page)

lemma same_files_free: "same_files s (s\<lparr>pFree := F, pFirstSynced := x, nRef := k\<rparr>)" "same_files s (s\<lparr>pFree := F\<rparr>)"
  "same_files s (s\<lparr>pFirstSynced := x\<rparr>)" "same_files s (s\<lparr>nRef := k\<rparr>)"
  by (simp_all add: same_files_def)

lemma unlink_free_simps [simp]:
  "pAll (unlink_free n s) = pAll s" "pFree (unlink_free n s) = remove1 n (pFree s)" "nRef (unlink_free n s) = nRef s"
  "nPage (unlink_free n s) = nPage s"
  by (simp_all add: unlink_free_def Let_def)

lemma same_files_unlink: "same_files s (unlink_free n s)"
  by (simp add: same_files_def unlink_free_def Let_def)

subsection \<open>Pointers to pages\<close>

lemma cache_lookup:
  assumes "cache_ok rs s" "n \<in> pgno ` set (pAll s)"
  obtains p where "pager_lookup s n = Some p" "p \<in> set (pAll s)" "pgno p = n" "pgRef p = count_list rs n" "0 < n" "length (pgData p) = N"
proof -
  obtain p where p: "p \<in> set (pAll s)" "pgno p = n" using assms(2) by auto
  then show ?thesis using assms(1) that [of p] by (auto simp: cache_ok_def lookup_iff)
qed

lemma count_zero: "count_list xs n = 0 \<longleftrightarrow> n \<notin> set xs"
  by (simp add: count_list_0_iff)

lemma pnos_set_page: "(\<And>p. pgno (g p) = pgno p) \<Longrightarrow> pgno ` set (pAll (set_page n g s)) = pgno ` set (pAll s)"
  using numbers_set_page [of g n s] by (metis list.set_map)

lemma page_ref_ok:
  assumes c: "cache_ok rs s" and n: "n \<in> pgno ` set (pAll s)"
  shows "\<exists>t. page_ref n s = Some t \<and> same_files s t \<and> cache_ok (n # rs) t \<and> (free_ok s \<longrightarrow> free_ok t)"
proof -
  obtain p where p: "pager_lookup s n = Some p" "p \<in> set (pAll s)" "pgno p = n" "pgRef p = count_list rs n"
    using cache_lookup [OF c n] by blast
  define u where "u = (if pgRef p = 0 then let s = unlink_free n s in s\<lparr>nRef := Suc (nRef s)\<rparr> else s)"
  let ?g = "\<lambda>p. p\<lparr>pgRef := Suc (pgRef p)\<rparr>"
  have r: "page_ref n s = Some (set_page n ?g u)" by (simp add: page_ref_def p u_def)
  have su: "same_files s u"
    using same_files_trans [OF same_files_unlink same_files_free(4)] by (auto simp: u_def Let_def same_files_def)
  moreover have "same_files u (set_page n ?g u)" by (rule same_files_set_page) (simp add: pview_def)
  ultimately have sf: "same_files s (set_page n ?g u)" by (rule same_files_trans)
  have d: "distinct (pFree s)" using c by (simp add: cache_ok_def)
  have u: "pAll u = pAll s" "pFree u = (if n \<in> set rs then pFree s else remove1 n (pFree s))"
    "nRef u = (if n \<in> set rs then nRef s else Suc (nRef s))" "nPage u = nPage s"
    unfolding u_def p(4) count_zero Let_def by simp_all
  have "cache_ok (n # rs) (set_page n ?g u)"
    using c n p(2,3) d unfolding cache_ok_def
    by (auto simp: numbers_set_page pnos_set_page u numbered_def insert_absorb)
  moreover have "free_ok (set_page n ?g u)" if "free_ok s"
  proof -
    have "free_ok (s\<lparr>nRef := k\<rparr>) = free_ok s" for k and s :: pager by (simp add: free_ok_def first_synced_def pager_lookup_def)
    then have "free_ok u" using unlink_free_ok [OF that d, of n] that by (simp add: u_def Let_def)
    then show ?thesis by (simp add: free_ok_def first_synced_set_page)
  qed
  ultimately show ?thesis using r sf by blast
qed

lemma find_snoc: "find P (xs @ [x]) = (case find P xs of None \<Rightarrow> if P x then Some x else None | Some y \<Rightarrow> Some y)"
  by (induction xs) auto

lemma unref_ok:
  assumes c: "cache_ok rs s" and n: "n \<in> set rs" "remove1 n rs \<noteq> []"
  shows "\<exists>t. sqlitepager_unref e n s = Some (SQLITE_OK, t) \<and> same_files s t \<and> cache_ok (remove1 n rs) t \<and>
    (free_ok s \<longrightarrow> free_ok t) \<and> disklog t = disklog s"
proof -
  have "n \<in> pgno ` set (pAll s)" using c n by (auto simp: cache_ok_def)
  then obtain p where p: "pager_lookup s n = Some p" "p \<in> set (pAll s)" "pgno p = n" "pgRef p = count_list rs n"
    using cache_lookup [OF c] by blast
  have pos: "0 < pgRef p" using n p(4) count_zero [of rs n] by simp
  let ?g = "\<lambda>p. p\<lparr>pgRef := pgRef p - 1\<rparr>"
  have cnt: "count_list (remove1 n rs) k = (if k = n then count_list rs n - 1 else count_list rs k)" for k
    by (induction rs) (auto simp: count_list_0_iff)
  have gs: "same_files s (set_page n ?g s)" by (rule same_files_set_page) (simp add: pview_def)
  show ?thesis
  proof (cases "pgRef p = 1")
    case True
    have one: "n \<notin> set (remove1 n rs)" using cnt [of n] True p(4) count_zero [of "remove1 n rs" n] by simp
    have "x \<in> set (remove1 n rs) \<longleftrightarrow> x \<in> set rs - {n}" for x using one by (cases "x = n") auto
    then have st: "set (remove1 n rs) = set rs - {n}" by blast
    define t where "t = (set_page n ?g s)\<lparr>pFree := pFree s @ [n],
      pFirstSynced := (if \<not> pgSync p \<and> pFirstSynced s = None then Some n else pFirstSynced s), nRef := nRef s - 1\<rparr>"
    have nr: "nRef s = Suc (card (set rs - {n}))" using c card_Suc_Diff1 [OF _ n(1)] by (simp only: cache_ok_def finite_set)
    have "set rs - {n} \<noteq> {}" using n(2) st by (metis set_empty)
    then have "0 < nRef s" "nRef s - 1 \<noteq> 0" using nr by simp_all
    then have r: "sqlitepager_unref e n s = Some (SQLITE_OK, t)"
      using True by (simp add: sqlitepager_unref_def p(1) t_def Let_def)
    have "same_files (set_page n ?g s) t" unfolding t_def by (rule same_files_free)
    then have sf: "same_files s t" by (rule same_files_trans [OF gs])
    have "cache_ok (remove1 n rs) t"
      using c p(2,3) nr n(1) unfolding cache_ok_def t_def
      by (auto simp: numbered_def numbers_set_page pnos_set_page st cnt)
    moreover have "free_ok t" if "free_ok s"
    proof -
      have "pager_lookup t k = pager_lookup (set_page n ?g s) k" for k by (rule page_lookup_cong) (simp add: t_def)
      then have "first_synced t ns = first_synced s ns" for ns
        by (intro first_synced_cong) (auto simp: lookup_set_page option.map_comp comp_def intro!: map_option_cong)
      then show ?thesis using that p(1) by (auto simp: free_ok_def t_def first_synced_def find_snoc split: option.splits)
    qed
    moreover have "disklog t = disklog s" by (simp add: t_def)
    ultimately show ?thesis using r sf by blast
  next
    case False
    then have in2: "n \<in> set (remove1 n rs)" using cnt [of n] p(4) pos count_zero [of "remove1 n rs" n] by simp
    have "x \<in> set (remove1 n rs) \<longleftrightarrow> x \<in> set rs" for x using in2 n(1) by (cases "x = n") auto
    then have st: "set (remove1 n rs) = set rs" by blast
    have r: "sqlitepager_unref e n s = Some (SQLITE_OK, set_page n ?g s)"
      using False pos by (simp add: sqlitepager_unref_def p(1) Let_def)
    have "cache_ok (remove1 n rs) (set_page n ?g s)"
      using c unfolding cache_ok_def st by (auto simp: numbered_def numbers_set_page pnos_set_page cnt)
    then show ?thesis using r gs by (auto simp: free_ok_def first_synced_set_page)
  qed
qed

subsection \<open>Filling a page\<close>

definition loaded :: "bool \<Rightarrow> u8 list \<Rightarrow> nat \<Rightarrow> pghdr \<Rightarrow> pghdr" where
  "loaded b d x p = p\<lparr>inJournal := b, pgSync := False, dirty := False, pgRef := 1, pgExtra := replicate x 0, pgData := d\<rparr>"

lemma loaded_simps [simp]:
  "pgno (loaded b d x p) = pgno p" "pgRef (loaded b d x p) = 1" "inJournal (loaded b d x p) = b" "inCkpt (loaded b d x p) = inCkpt p"
  "\<not> dirty (loaded b d x p)" "\<not> pgSync (loaded b d x p)" "pgData (loaded b d x p) = d"
  by (simp_all add: loaded_def)

lemma set_page_set_page: "(\<And>p. pgno (g p) = pgno p) \<Longrightarrow> set_page n f (set_page n g s) = set_page n (\<lambda>p. f (g p)) s"
  by (auto simp: set_page_def comp_def intro!: arg_cong [of _ _ "\<lambda>x. s\<lparr>pAll := x\<rparr>"])

lemma page_flags_ok:
  assumes "pager_lookup s n = Some p" "\<not> inCkpt p" "aInCkpt s = None"
    and "aInJournal s \<noteq> None \<Longrightarrow> journalOpen s \<and> (\<exists>bs. aInJournal s = Some bs \<and> (int n \<le> origDbSize s \<longrightarrow> n < length bs \<and> bs ! n = b))"
    and "\<not> (aInJournal s \<noteq> None \<and> int n \<le> origDbSize s) \<Longrightarrow> \<not> b"
  shows "page_flags n s = Some (set_page n (\<lambda>p. p\<lparr>inJournal := b, pgSync := False, dirty := False, pgRef := 1, pgExtra := replicate (nExtra s) 0\<rparr>)
    (s\<lparr>nRef := Suc (nRef s)\<rparr>))"
proof -
  have b: "(if aInJournal s \<noteq> None \<and> int n \<le> origDbSize s then do { guard (journalOpen s); test_bit_of (aInJournal s) n } else Some False) = Some b"
    using assms(4,5) by (auto simp: test_bit_of_def)
  have up: "(set_page n g s)\<lparr>nRef := k\<rparr> = set_page n g (s\<lparr>nRef := k\<rparr>)" for g k by (simp add: set_page_def)
  show ?thesis
    unfolding page_flags_def b using assms(1-3)
    by (simp add: page_remove_from_ckpt_list_def lookup_set_page up set_page_set_page)
qed

lemma page_fill_ok:
  assumes rel: "reliable e" and em: "errMask s = 0" and n: "0 < n" "n < max_pages"
    and len: "\<forall>p \<in> set (pAll s). length (pgData p) = N" and st: "state s \<noteq> SQLITE_UNLOCK"
    and db: "N dvd length (content (files s DB))" "dbSize s < 0 \<or> length (content (files s DB)) \<le> N * nat (dbSize s)"
  shows "\<exists>F k. page_fill e n s = Some (SQLITE_OK, set_page n (\<lambda>p. p\<lparr>pgData := dbpage (content (files s DB)) n\<rparr>)
      (s\<lparr>dbSize := (if dbSize s < 0 then int (length (content (files s DB)) div N) else dbSize s), files := F, clock := k\<rparr>)) \<and>
    F JRN = files s JRN \<and> content (F DB) = content (files s DB)"
proof -
  let ?c = "content (files s DB)"
  define u where "u = (if dbSize s < 0 then snd (sqlitepager_pagecount e s) else s)"
  define z where "z = (if dbSize s < 0 then int (length ?c div N) else dbSize s)"
  have "u = s\<lparr>dbSize := z, clock := (if dbSize s < 0 then Suc (clock s) else clock s)\<rparr>"
    using rel st by (simp add: u_def z_def sqlitepager_pagecount_def os_size_ok Let_def)
  then obtain k where u: "u = s\<lparr>dbSize := z, clock := k\<rparr>" by blast
  have z: "0 \<le> z" "length ?c \<le> N * nat z" using db by (auto simp: z_def)
  obtain L where L: "length ?c = N * L" using db(1) by blast
  have fill: "page_fill e n s =
     (if z < int n then Some (SQLITE_OK, set_page n (\<lambda>p. p\<lparr>pgData := replicate N 0\<rparr>) u)
         else let (rc, got, s) = sqliteOsRead e DB N (sqliteOsSeek DB ((n - 1) * N) u);
                  s = set_page n (\<lambda>p. p\<lparr>pgData := got @ drop (length got) (pgData p)\<rparr>) s
           in if rc = SQLITE_OK then Some (SQLITE_OK, s)
           else let (rc', fileSize, s) = sqliteOsFileSize e DB s
             in if rc' \<noteq> SQLITE_OK \<or> fileSize \<ge> n * N mod 2 ^ 32
                then do { (_, s) \<leftarrow> sqlitepager_unref e n s; Some (rc, s) }
                else Some (SQLITE_OK, set_page n (\<lambda>p. p\<lparr>pgData := replicate N 0\<rparr>) s))"
    unfolding page_fill_def u_def [symmetric] using em by (simp add: u)
  have cong: "set_page n (\<lambda>p. p\<lparr>pgData := d @ drop N (pgData p)\<rparr>) t = set_page n (\<lambda>p. p\<lparr>pgData := d\<rparr>) t" if "pAll t = pAll s" for d t
    using that len by (auto simp: set_page_def intro!: arg_cong [of _ _ "\<lambda>x. t\<lparr>pAll := x\<rparr>"])
  have up: "(set_page n g s)\<lparr>clock := k\<rparr> = set_page n g (s\<lparr>clock := k\<rparr>)" for g k and s :: pager by (simp add: set_page_def)
  consider (new) "z < int n" | (inside) "int n \<le> z" "n \<le> L" | (hole) "int n \<le> z" "L \<le> n - 1" by linarith
  then show ?thesis
  proof cases
    case new
    then have "nat z \<le> n - 1" by simp
    then have "length ?c \<le> N * (n - 1)" by (intro order_trans [OF z(2) mult_le_mono2])
    then have "length ?c \<le> (n - 1) * N" by (simp only: mult.commute)
    then have "dbpage ?c n = replicate N 0" by (intro dbpage_zero n)
    then show ?thesis using fill new u by (intro exI [of _ "files s"] exI [of _ k]) (simp add: z_def)
  next
    case inside
    have "n * N \<le> length ?c" using L inside(2) by simp
    then have c: "take N (drop ((n - 1) * N) ?c) = dbpage ?c n" "(n - 1) * N + N \<le> length ?c"
      using dbpage_take [OF n(1)] page_end [OF n(1)] by simp_all
    then show ?thesis using inside(1) rel
      unfolding fill u z_def [symmetric]
      by (intro exI [of _ "(files s)(DB := (files s DB)\<lparr>offs := (n - 1) * N + N\<rparr>)"] exI [of _ "Suc k"]) (simp add: os_seek os_read_ok cong)
  next
    case hole
    then have "length ?c \<le> N * (n - 1)" unfolding L by (intro mult_le_mono2)
    then have "length ?c \<le> (n - 1) * N" by (simp only: mult.commute)
    then have d: "drop ((n - 1) * N) ?c = []" "dbpage ?c n = replicate N 0" using dbpage_zero [OF n(1)] by simp_all
    have "n * N < 2 ^ 32" using n(2) by (simp add: SQLITE_PAGE_SIZE_def max_pages_def)
    moreover have "L < n" using hole n(1) by linarith
    ultimately have sz: "\<not> n * N mod 2 ^ 32 \<le> length ?c" using L by (simp add: mult.commute)
    have rd: "sqliteOsRead e DB N (sqliteOsSeek DB ((n - 1) * N) u) =
        (SQLITE_IOERR, [], u\<lparr>files := (files s)(DB := (files s DB)\<lparr>offs := (n - 1) * N\<rparr>), clock := Suc (clock u)\<rparr>)"
      using d(1) rel by (simp add: sqliteOsRead_def os_seek Let_def u tick_def set_file_def)
    show ?thesis using hole(1) sz d(2) rel
      unfolding fill rd Let_def prod.case z_def [symmetric]
      by (intro exI [of _ "(files s)(DB := (files s DB)\<lparr>offs := (n - 1) * N\<rparr>)"] exI [of _ "Suc (Suc k)"])
        (simp add: os_size_ok u set_page_set_page up rc_defs)
  qed
qed

subsection \<open>Replacing a page in the cache\<close>

text \<open>
  The state \<open>t\<close> has a new page \<open>f\<close> in the place of the pages \<open>X\<close> of \<open>s\<close> (at most one), which were free and had nothing to be
  written.
\<close>

definition replaced :: "pghdr \<Rightarrow> nat set \<Rightarrow> pager \<Rightarrow> pager \<Rightarrow> bool" where
  "replaced f X s t \<longleftrightarrow> numbered t \<and> set (pAll t) = insert f {p \<in> set (pAll s). pgno p \<notin> X} \<and> nPage t = length (pAll t) \<and>
     pgno f \<notin> pgno ` set (pAll s) \<and> 0 < pgno f \<and> pgno f < max_pages \<and> pgRef f = 1 \<and> \<not> dirty f \<and> \<not> pgSync f \<and> \<not> inCkpt f \<and>
     pgData f = dbpage (content (files s DB)) (pgno f) \<and>
     (\<forall>p \<in> set (pAll s). pgno p \<in> X \<longrightarrow> \<not> dirty p \<and> \<not> pgSync p \<and> pgRef p = 0) \<and>
     distinct (pFree t) \<and> set (pFree t) = set (pFree s) - X \<and> nRef t = Suc (nRef s) \<and>
     content (files t DB) = content (files s DB) \<and> files t JRN = files s JRN \<and> (dbSize t = dbSize s \<or> dbSize s = - 1) \<and>
     useJournal t = useJournal s \<and> tempFile t = tempFile s \<and> readOnly t = readOnly s \<and> errMask t = errMask s \<and>
     ckptInUse t = ckptInUse s \<and> ckptOpen t = ckptOpen s \<and> ckptAutoopen t = ckptAutoopen s \<and> pCkpt t = pCkpt s \<and>
     aInCkpt t = aInCkpt s \<and> mxPage t = mxPage s \<and> state t = state s \<and> journalOpen t = journalOpen s \<and> jexists t = jexists s \<and>
     aInJournal t = aInJournal s \<and> origDbSize t = origDbSize s \<and> cksumInit t = cksumInit s \<and> nRec t = nRec s \<and>
     noSync t = noSync s \<and> needSync t = needSync s \<and> dirtyFile t = dirtyFile s"

lemma replacedD:
  assumes "replaced f X s t"
  shows "numbered t" "set (pAll t) = insert f {p \<in> set (pAll s). pgno p \<notin> X}" "nPage t = length (pAll t)"
    "pgno f \<notin> pgno ` set (pAll s)" "0 < pgno f" "pgno f < max_pages" "pgRef f = 1" "\<not> dirty f" "\<not> pgSync f" "\<not> inCkpt f"
    "pgData f = dbpage (content (files s DB)) (pgno f)"
    "\<forall>p \<in> set (pAll s). pgno p \<in> X \<longrightarrow> \<not> dirty p \<and> \<not> pgSync p \<and> pgRef p = 0"
    "distinct (pFree t)" "set (pFree t) = set (pFree s) - X" "nRef t = Suc (nRef s)" "dbSize t = dbSize s \<or> dbSize s = - 1"
  by (insert assms, unfold replaced_def) (elim conjE, assumption)+

lemma replaced_fields:
  assumes "replaced f X s t"
  shows "content (files t DB) = content (files s DB)" "files t JRN = files s JRN"
    "useJournal t = useJournal s" "tempFile t = tempFile s" "readOnly t = readOnly s" "errMask t = errMask s" "ckptInUse t =
    ckptInUse s" "ckptOpen t = ckptOpen s" "ckptAutoopen t = ckptAutoopen s" "pCkpt t = pCkpt s" "aInCkpt t = aInCkpt s"
    "mxPage t = mxPage s" "state t = state s" "journalOpen t = journalOpen s" "jexists t = jexists s" "aInJournal t =
    aInJournal s" "origDbSize t = origDbSize s" "cksumInit t = cksumInit s" "nRec t = nRec s" "noSync t = noSync s"
    "needSync t = needSync s" "dirtyFile t = dirtyFile s"
  by (insert assms, unfold replaced_def) (elim conjE, assumption)+

lemma cache_okD:
  assumes "cache_ok rs s"
  shows "numbered s" "\<forall>p \<in> set (pAll s). 0 < pgno p \<and> pgno p < max_pages \<and> length (pgData p) = N"
    "\<forall>p \<in> set (pAll s). pgRef p = count_list rs (pgno p)" "set rs \<subseteq> pgno ` set (pAll s)" "nPage s = length (pAll s)"
    "distinct (pFree s)" "set (pFree s) = pgno ` set (pAll s) - set rs" "nRef s = card (set rs)"
  by (insert assms, unfold cache_ok_def) (elim conjE, assumption)+

lemma replaced_static: "replaced f X s t \<Longrightarrow> static s \<Longrightarrow> static t"
  unfolding static_def by (simp add: replaced_fields replacedD(2,10))

lemma replaced_cache:
  assumes r: "replaced f X s t" and c: "cache_ok rs s"
  shows "cache_ok (pgno f # rs) t"
proof -
  note R = replacedD [OF r] and C = cache_okD [OF c]
  have f: "pgno f \<notin> set rs" using R(4) C(4) by blast
  have X: "pgno p \<notin> set rs" if "p \<in> set (pAll s)" "pgno p \<in> X" for p
    using R(12) C(3) that count_zero [of rs "pgno p"] by simp
  have nos: "pgno ` set (pAll t) = insert (pgno f) (pgno ` set (pAll s) - X)" unfolding R(2) by auto
  have "set rs \<subseteq> pgno ` set (pAll s) - X" using C(4) X by auto
  then have "set (pgno f # rs) \<subseteq> pgno ` set (pAll t)" unfolding nos by auto
  moreover have "set (pFree t) = pgno ` set (pAll t) - set (pgno f # rs)"
    unfolding nos R(14) C(7) using R(4) by auto
  moreover have "\<forall>p \<in> set (pAll t). pgRef p = count_list (pgno f # rs) (pgno p)"
    unfolding R(2) using R(4,7) C(3) f count_zero [of rs "pgno f"] by auto
  moreover have "\<forall>p \<in> set (pAll t). 0 < pgno p \<and> pgno p < max_pages \<and> length (pgData p) = N"
    unfolding R(2) using R(5,6,11) C(2) by auto
  ultimately show ?thesis using R(1,3,13,15) C(8) f by (simp add: cache_ok_def)
qed

lemma replaced_dirty:
  assumes "replaced f X s t"
  shows "(\<forall>p \<in> set (pAll t). dirty p \<longrightarrow> P p) = (\<forall>p \<in> set (pAll s). dirty p \<longrightarrow> P p)"
    "(\<exists>p \<in> set (pAll t). pgno p = n \<and> dirty p) = (\<exists>p \<in> set (pAll s). pgno p = n \<and> dirty p)"
proof -
  note R = replacedD(2,8,12) [OF assms]
  have m: "p \<in> set (pAll t) \<and> dirty p \<longleftrightarrow> p \<in> set (pAll s) \<and> dirty p" for p
    unfolding R(1) using R(2,3) by auto
  show "(\<forall>p \<in> set (pAll t). dirty p \<longrightarrow> P p) = (\<forall>p \<in> set (pAll s). dirty p \<longrightarrow> P p)" using m by blast
  show "(\<exists>p \<in> set (pAll t). pgno p = n \<and> dirty p) = (\<exists>p \<in> set (pAll s). pgno p = n \<and> dirty p)" using m by blast
qed

lemma view_okD:
  assumes "view_ok a s"
  shows "p \<in> set (pAll s) \<Longrightarrow> pgData p = current a (pgno p)"
    "0 < n \<Longrightarrow> (\<And>p. p \<in> set (pAll s) \<Longrightarrow> pgno p = n \<Longrightarrow> \<not> dirty p) \<Longrightarrow> dbpage (content (files s DB)) n = current a n"
  using assms unfolding view_ok_def by blast+

lemma view_okI:
  assumes "\<And>p. p \<in> set (pAll s) \<Longrightarrow> pgData p = current a (pgno p)"
    "\<And>n. 0 < n \<Longrightarrow> (\<And>p. p \<in> set (pAll s) \<Longrightarrow> pgno p = n \<Longrightarrow> \<not> dirty p) \<Longrightarrow> dbpage (content (files s DB)) n = current a n"
  shows "view_ok a s"
  using assms unfolding view_ok_def by blast

lemma replaced_view:
  assumes r: "replaced f X s t" and v: "view_ok a s"
  shows "view_ok a t"
proof (rule view_okI)
  note R = replacedD [OF r]
  fix p assume "p \<in> set (pAll t)"
  then have "p = f \<or> p \<in> set (pAll s)" unfolding R(2) by blast
  moreover have "dbpage (content (files s DB)) (pgno f) = current a (pgno f)"
  proof (rule view_okD(2) [OF v R(5)])
    fix p assume "p \<in> set (pAll s)" "pgno p = pgno f"
    then have "pgno f \<in> pgno ` set (pAll s)" by (metis image_eqI)
    then show "\<not> dirty p" using R(4) by blast
  qed
  ultimately show "pgData p = current a (pgno p)" using R(11) view_okD(1) [OF v] by metis
next
  fix n :: nat assume n: "0 < n" "\<And>p. p \<in> set (pAll t) \<Longrightarrow> pgno p = n \<Longrightarrow> \<not> dirty p"
  have "\<not> (\<exists>p \<in> set (pAll t). pgno p = n \<and> dirty p)" using n(2) by blast
  then have "\<not> (\<exists>p \<in> set (pAll s). pgno p = n \<and> dirty p)" unfolding replaced_dirty(2) [OF r] .
  then show "dbpage (content (files t DB)) n = current a n"
    unfolding replaced_fields(1) [OF r] by (intro view_okD(2) [OF v n(1)]) blast
qed

lemma replaced_free:
  assumes r: "replaced f X s t" and c: "cache_ok rs s" and p: "pFirstSynced t = first_synced s (pFree t)"
  shows "free_ok t"
proof -
  note R = replacedD [OF r]
  have "pager_lookup t n = pager_lookup s n" if "n \<in> set (pFree t)" for n
  proof -
    have n: "n \<in> pgno ` set (pAll s)" "n \<notin> X" using R(14) cache_okD(7) [OF c] that by auto
    then obtain q where q: "pager_lookup s n = Some q" "q \<in> set (pAll s)" "pgno q = n" using cache_lookup [OF c] by blast
    then have "q \<in> set (pAll t)" using R(2) n by simp
    then show ?thesis using q R(1) by (simp add: lookup_iff)
  qed
  then have "first_synced t (pFree t) = first_synced s (pFree t)"
    unfolding first_synced_def by (intro find_cong) auto
  then show ?thesis using p by (simp add: free_ok_def)
qed

lemma replaced_reading:
  assumes r: "replaced f X s t" and "reading_inv a s" "\<not> inJournal f" "dbSize t = - 1 \<or> dbSize t = int (pages a)"
  shows "reading_inv a t"
  using assms(2-4) replacedD(8,9) [OF r] unfolding reading_inv_def replaced_fields [OF r] replacedD(2) [OF r] by simp

lemma replaced_journal:
  assumes r: "replaced f X s t" and j: "journal_inv D m h J s" and f: "inJournal f = (pgno f \<in> set J)"
  shows "journal_inv D m h J t"
proof -
  note R = replacedD [OF r]
  have "\<forall>p \<in> set (pAll s). inJournal p = (pgno p \<in> set J)" "\<not> needSync s \<longrightarrow> (\<forall>p \<in> set (pAll s). \<not> pgSync p)"
    using j unfolding journal_inv_def by blast+
  then have all: "(\<forall>p \<in> set (pAll t). inJournal p = (pgno p \<in> set J)) = True" "\<not> needSync s \<longrightarrow> (\<forall>p \<in> set (pAll t). \<not> pgSync p)"
    unfolding R(2) using R(9) f by simp_all
  have "\<exists>p \<in> set (pAll t). pgno p = i \<and> pgSync p" if i: "i \<in> set J - set (take (jcount h J) J)" for i
  proof -
    have "\<exists>p \<in> set (pAll s). pgno p = i \<and> pgSync p" using j i unfolding journal_inv_def by blast
    then show ?thesis unfolding R(2) using R(12) by blast
  qed
  then show ?thesis using j all(2) unfolding journal_inv_def replaced_fields [OF r] all(1) by blast
qed

lemma replaced_file:
  assumes r: "replaced f X s t" and i: "file_inv D m J k s" "0 \<le> dbSize s"
  shows "file_inv D m J k t"
proof -
  have "dbSize t = dbSize s" using replacedD(16) [OF r] i(2) by auto
  then show ?thesis
    using i(1) replaced_dirty(1) [OF r, of "\<lambda>p. pgno p \<le> k \<and> (pgno p \<le> m \<longrightarrow> pgno p \<in> set J)"] replaced_dirty(1) [OF r, of "\<lambda>_. False"]
    unfolding file_inv_def replaced_fields [OF r] replaced_dirty(2) [OF r] by simp
qed

lemma replaced_writing:
  assumes r: "replaced f X s t" and w: "writing_inv a s" and f: "\<And>m h J. journal_inv (committed a) m h J s \<Longrightarrow> inJournal f = (pgno f \<in> set J)"
  shows "writing_inv (a\<lparr>refs := pgno f # refs a\<rparr>) t"
proof -
  obtain m h J where j: "journal_inv (committed a) m h J s" "file_inv (committed a) m J (pages a) s"
    using w unfolding writing_inv_def by blast
  have "0 \<le> dbSize s" using j(2) unfolding file_inv_def by simp
  then have "journal_inv (committed a) m h J t" "file_inv (committed a) m J (pages a) t"
    using replaced_journal [OF r j(1) f [OF j(1)]] replaced_file [OF r j(2)] by blast+
  then show ?thesis using w unfolding writing_inv_def replaced_dirty(2) [OF r] by auto
qed

end
