(* ===== verification/Pager_Get.thy ===== *)
theory Pager_Get
  imports Pager_Inv
begin

text \<open>
  Getting a page: the invariant holds after \<open>sqlitepager_get\<close>, whether the page is in the cache, a new structure is made
  for it or another page gives up its own.
\<close>

subsection \<open>A structure for the page\<close>

text \<open>The state \<open>u\<close> has the structure \<open>q\<close> for a page that \<open>s\<close> does not have, in the place of the pages \<open>X\<close>.\<close>

definition slot :: "pghdr \<Rightarrow> nat set \<Rightarrow> pager \<Rightarrow> pager \<Rightarrow> bool" where
  "slot q X s u \<longleftrightarrow> numbered u \<and> set (pAll u) = insert q {p \<in> set (pAll s). pgno p \<notin> X} \<and> nPage u = length (pAll u) \<and>
     pgno q \<notin> pgno ` set (pAll s) \<and> \<not> inCkpt q \<and> length (pgData q) = N \<and>
     (\<forall>p \<in> set (pAll s). pgno p \<in> X \<longrightarrow> \<not> dirty p \<and> \<not> pgSync p \<and> pgRef p = 0) \<and>
     distinct (pFree u) \<and> set (pFree u) = set (pFree s) - X \<and> pFirstSynced u = first_synced s (pFree u) \<and>
     files u = files s \<and> dbSize u = dbSize s \<and> nRef u = nRef s \<and> useJournal u = useJournal s \<and> tempFile u
     = tempFile s \<and> readOnly u = readOnly s \<and> errMask u = errMask s \<and> ckptInUse u = ckptInUse s \<and>
     ckptOpen u = ckptOpen s \<and> ckptAutoopen u = ckptAutoopen s \<and> pCkpt u = pCkpt s \<and> aInCkpt u = aInCkpt s
     \<and> mxPage u = mxPage s \<and> state u = state s \<and> journalOpen u = journalOpen s \<and> jexists u = jexists s
     \<and> aInJournal u = aInJournal s \<and> origDbSize u = origDbSize s \<and> cksumInit u = cksumInit s \<and> nRec u =
     nRec s \<and> noSync u = noSync s \<and> needSync u = needSync s \<and> dirtyFile u = dirtyFile s \<and> nExtra u =
     nExtra s \<and> disklog u = disklog s"

lemma slotD:
  assumes "slot q X s u"
  shows "numbered u" "set (pAll u) = insert q {p \<in> set (pAll s). pgno p \<notin> X}" "nPage u = length (pAll u)"
    "pgno q \<notin> pgno ` set (pAll s)" "\<not> inCkpt q" "length (pgData q) = N"
    "\<forall>p \<in> set (pAll s). pgno p \<in> X \<longrightarrow> \<not> dirty p \<and> \<not> pgSync p \<and> pgRef p = 0"
    "distinct (pFree u)" "set (pFree u) = set (pFree s) - X" "pFirstSynced u = first_synced s (pFree u)"
  by (insert assms, unfold slot_def) (elim conjE, assumption)+

lemma slot_fields:
  assumes "slot q X s u"
  shows "files u = files s" "dbSize u = dbSize s" "nRef u = nRef s" "useJournal u = useJournal s" "tempFile u = tempFile s"
    "readOnly u = readOnly s" "errMask u = errMask s" "ckptInUse u = ckptInUse s" "ckptOpen u = ckptOpen s" "ckptAutoopen u
    = ckptAutoopen s" "pCkpt u = pCkpt s" "aInCkpt u = aInCkpt s" "mxPage u = mxPage s" "state u = state s" "journalOpen u =
    journalOpen s" "jexists u = jexists s" "aInJournal u = aInJournal s" "origDbSize u = origDbSize s" "cksumInit u =
    cksumInit s" "nRec u = nRec s" "noSync u = noSync s" "needSync u = needSync s" "dirtyFile u = dirtyFile s" "nExtra u =
    nExtra s" "disklog u = disklog s"
  by (insert assms, unfold slot_def) (elim conjE, assumption)+

lemma staticD:
  assumes "static s"
  shows "useJournal s" "\<not> tempFile s" "\<not> readOnly s" "errMask s = 0" "\<not> ckptInUse s" "\<not> ckptOpen s" "\<not> ckptAutoopen s"
    "pCkpt s = []" "aInCkpt s = None" "0 < mxPage s" "\<forall>p \<in> set (pAll s). \<not> inCkpt p"
  by (insert assms, unfold static_def) (elim conjE, assumption)+

text \<open>What the page needs to know of the journal and of the file.\<close>

definition loadable :: "bool \<Rightarrow> nat \<Rightarrow> pager \<Rightarrow> bool" where
  "loadable b n s \<longleftrightarrow> state s \<noteq> SQLITE_UNLOCK \<and> N dvd length (content (files s DB)) \<and>
     (dbSize s = - 1 \<or> 0 \<le> dbSize s \<and> length (content (files s DB)) \<le> N * nat (dbSize s)) \<and>
     (case aInJournal s of None \<Rightarrow> \<not> b
      | Some bs \<Rightarrow> journalOpen s \<and> (if int n \<le> origDbSize s then n < length bs \<and> bs ! n = b else \<not> b))"

lemma slot_load:
  assumes rel: "reliable e" and sl: "slot q X s u" and st: "static s" and c: "cache_ok rs s"
    and n: "pgno q = n" "0 < n" "n < max_pages" and l: "loadable b n s"
  shows "\<exists>t x. do { v \<leftarrow> page_flags n u; page_fill e n v } = Some (SQLITE_OK, t) \<and>
    replaced (loaded b (dbpage (content (files s DB)) n) x q) X s t \<and> pFirstSynced t = first_synced s (pFree t) \<and> disklog t = disklog s \<and>
    dbSize t = (if dbSize s < 0 then int (length (content (files s DB)) div N) else dbSize s)"
proof -
  note S = slotD [OF sl] and F = slot_fields [OF sl] and T = staticD [OF st]
  let ?d = "dbpage (content (files s DB)) n"
  have q: "pager_lookup u n = Some q" using S(1,2) n(1) by (simp add: lookup_iff)
  have n': "n \<notin> pgno ` set (pAll s)" using S(4) n(1) by simp
  define v where "v = set_page n (\<lambda>p. p\<lparr>inJournal := b, pgSync := False, dirty := False, pgRef := 1, pgExtra := replicate (nExtra u) 0\<rparr>)
    (u\<lparr>nRef := Suc (nRef u)\<rparr>)"
  have fl: "page_flags n u = Some v"
    unfolding v_def by (rule page_flags_ok [OF q S(5)]) (use l F T in \<open>auto simp: loadable_def split: option.splits if_splits\<close>)
  have V: "files v = files s" "errMask v = 0" "state v = state s" "dbSize v = dbSize s" using F T by (simp_all add: v_def)
  have len: "\<forall>p \<in> set (pAll v). length (pgData p) = N"
    unfolding v_def using S(2,6) cache_okD(2) [OF c] by simp
  obtain G k where t: "page_fill e n v = Some (SQLITE_OK, set_page n (\<lambda>p. p\<lparr>pgData := ?d\<rparr>)
      (v\<lparr>dbSize := (if dbSize s < 0 then int (length (content (files s DB)) div N) else dbSize s), files := G, clock := k\<rparr>))"
    "G JRN = files s JRN" "content (G DB) = content (files s DB)"
    using page_fill_ok [OF rel V(2) n(2,3) len] l V unfolding loadable_def by (auto simp: V)
  define t' where "t' = set_page n (\<lambda>p. p\<lparr>pgData := ?d\<rparr>)
      (v\<lparr>dbSize := (if dbSize s < 0 then int (length (content (files s DB)) div N) else dbSize s), files := G, clock := k\<rparr>)"
  define w where "w = u\<lparr>nRef := Suc (nRef s), dbSize := (if dbSize s < 0 then int (length (content (files s DB)) div N) else dbSize s),
      files := G, clock := k\<rparr>"
  have t'': "t' = set_page n (loaded b ?d (nExtra u)) w"
    unfolding t'_def v_def w_def by (simp add: set_page_def loaded_def comp_def F(3) cong: if_cong)
  have all: "set (pAll t') = insert (loaded b ?d (nExtra u) q) {p \<in> set (pAll s). pgno p \<notin> X}"
  proof -
    let ?g = "\<lambda>p. if pgno p = n then loaded b ?d (nExtra u) p else p"
    have "set (pAll t') = ?g ` set (pAll u)" unfolding t'' by (simp add: set_page_def w_def del: if_image_distrib)
    also have "\<dots> = insert (?g q) (?g ` {p \<in> set (pAll s). pgno p \<notin> X})" unfolding S(2) by (rule image_insert)
    also have "?g ` {p \<in> set (pAll s). pgno p \<notin> X} = id ` {p \<in> set (pAll s). pgno p \<notin> X}"
      by (rule image_cong [OF refl]) (use n' in auto)
    also have "insert (?g q) (id ` {p \<in> set (pAll s). pgno p \<notin> X}) = insert (loaded b ?d (nExtra u) q) {p \<in> set (pAll s). pgno p \<notin> X}"
      using n(1) by simp
    finally show ?thesis .
  qed
  have num: "numbered t'" using S(1) unfolding t'' by (simp add: numbered_def numbers_set_page w_def)
  have neg: "dbSize s < 0 \<longrightarrow> dbSize s = - 1" using l by (auto simp: loadable_def)
  have "replaced (loaded b ?d (nExtra u) q) X s t'"
    unfolding replaced_def all
    using num S(3,5,7-9) n n' t(2,3) F neg unfolding t'' by (simp add: w_def)
  moreover have "pFirstSynced t' = first_synced s (pFree t')" using S(10) by (simp add: t'' w_def)
  moreover have "disklog t' = disklog s" using F by (simp add: t'' w_def)
  moreover have "dbSize t' = (if dbSize s < 0 then int (length (content (files s DB)) div N) else dbSize s)" by (simp add: t'' w_def)
  ultimately show ?thesis using fl t(1) by (auto simp: t'_def [symmetric])
qed

end
