(* ===== verification/Pager_Sync.thy ===== *)
theory Pager_Sync
  imports Pager_Get
begin

text \<open>
  Syncing the journal: from then on its header counts every record, and the pages it holds may be changed in the database.
\<close>

subsection \<open>The states of the disk on the way\<close>

definition logs :: "(disk \<Rightarrow> bool) \<Rightarrow> pager \<Rightarrow> pager \<Rightarrow> bool" where
  "logs P s t \<longleftrightarrow> (\<exists>L. disklog t = L @ disklog s \<and> (\<forall>d \<in> set L. P d))"

lemma logs_refl [simp]: "disklog t = disklog s \<Longrightarrow> logs P s t"
  by (simp add: logs_def)

lemma logs_one: "disklog t = d # disklog s \<Longrightarrow> P d \<Longrightarrow> logs P s t"
  unfolding logs_def by (intro exI [of _ "[d]"]) simp

lemma logs_trans: "logs P r s \<Longrightarrow> logs P s t \<Longrightarrow> logs P r t"
proof -
  assume "logs P r s" "logs P s t"
  then obtain K L where "disklog s = K @ disklog r" "\<forall>d \<in> set K. P d" "disklog t = L @ disklog s" "\<forall>d \<in> set L. P d"
    unfolding logs_def by blast
  then show "logs P r t" unfolding logs_def by (intro exI [of _ "L @ K"]) auto
qed

lemma logs_mono: "logs P s t \<Longrightarrow> (\<And>d. P d \<Longrightarrow> Q d) \<Longrightarrow> logs Q s t"
  unfolding logs_def by blast

subsection \<open>The header\<close>

lemma jcontent_header: "file_write (jcontent h c m D J) 8 (be32 h') = jcontent h' c m D J"
proof -
  have m: "length aJournalMagic3 = 8" by (simp add: aJournalMagic3_def)
  have "drop 12 (jcontent h c m D J) = be32 c @ be32 (of_nat m) @ concat (map (jrecord c D) J)"
    using m by (simp add: jcontent_def jheader_def)
  then show ?thesis using m by (simp add: file_write_def jcontent_parts(1)) (simp add: jcontent_def jheader_def)
qed

lemma journal_invD:
  assumes "journal_inv D m h J s"
  shows "state s = SQLITE_WRITELOCK" "journalOpen s" "jexists s" "origDbSize s = int m" "size_ok D m"
    "content (files s JRN) = jcontent h (cksumInit s) m D J" "offs (files s JRN) = 20 + length J * (N + 8)"
    "nRec s = length J" "distinct J" "\<forall>n \<in> set J. 0 < n \<and> n \<le> m" "count_ok h J"
    "\<exists>bs. aInJournal s = Some bs \<and> m < length bs \<and> (\<forall>i \<le> m. bs ! i = (i \<in> set J))"
    "\<forall>p \<in> set (pAll s). inJournal p = (pgno p \<in> set J)"
    "noSync s \<longrightarrow> h = 0xffffffff \<and> \<not> needSync s" "\<not> noSync s \<longrightarrow> h \<noteq> 0xffffffff"
    "\<not> needSync s \<longrightarrow> jcount h J = length J \<and> (\<forall>p \<in> set (pAll s). \<not> pgSync p)"
    "\<forall>i \<in> set J - set (take (jcount h J) J). \<exists>p \<in> set (pAll s). pgno p = i \<and> pgSync p"
    "agrees m D (set (take (jcount h J) J)) (content (files s DB))"
  by (insert assms, unfold journal_inv_def) (elim conjE, assumption)+

lemma file_invD:
  assumes "file_inv D m J k s"
  shows "dbSize s = int k" "m \<le> k" "k < max_pages" "N dvd length (content (files s DB))" "N * m \<le> length (content (files s DB))"
    "length (content (files s DB)) \<le> N * k" "\<forall>p \<in> set (pAll s). dirty p \<longrightarrow> pgno p \<le> k \<and> (pgno p \<le> m \<longrightarrow> pgno p \<in> set J)"
    "length (content (files s DB)) = N * k \<or> (\<exists>p \<in> set (pAll s). pgno p = k \<and> dirty p)"
    "\<not> dirtyFile s \<longrightarrow> J = [] \<and> \<not> needSync s \<and> (\<forall>p \<in> set (pAll s). \<not> dirty p) \<and> content (files s DB) = D"
  by (insert assms, unfold file_inv_def) (elim conjE, assumption)+

lemma length_J: "journal_inv D m h J s \<Longrightarrow> length J \<le> m"
proof -
  assume j: "journal_inv D m h J s"
  then have "set J \<subseteq> {1..m}" "distinct J" unfolding journal_inv_def by auto
  then show ?thesis using card_mono [of "{1..m}" "set J"] by (simp add: distinct_card)
qed

lemma journal_safe:
  assumes j: "journal_inv D m h J s" and d: "agrees m D (set (take (jcount h J) J)) (fst d)"
    "snd d = Some (jcontent h (cksumInit s) m D J)"
  shows "safe D d"
  by (rule safe_full [where g = "[]" and m = m and h = h and c = "cksumInit s" and J = J])
    (use journal_invD [OF j] d in \<open>auto simp: size_ok_def\<close>)

subsection \<open>Syncing the journal\<close>

definition sync_page :: "pghdr \<Rightarrow> pghdr" where
  "sync_page p = p\<lparr>pgSync := False\<rparr>"

lemma sync_page_simps [simp]:
  "pgno (sync_page p) = pgno p" "pgRef (sync_page p) = pgRef p" "inJournal (sync_page p) = inJournal p"
  "inCkpt (sync_page p) = inCkpt p" "pgData (sync_page p) = pgData p" "dirty (sync_page p) = dirty p" "\<not> pgSync (sync_page p)"
  by (simp_all add: sync_page_def)

lemma first_synced_all:
  assumes c: "cache_ok rs s" and p: "\<forall>p \<in> set (pAll s). \<not> pgSync p"
  shows "first_synced s (pFree s) = (case pFree s of [] \<Rightarrow> None | n # _ \<Rightarrow> Some n)"
proof (cases "pFree s")
  case (Cons n ns)
  then have "n \<in> pgno ` set (pAll s)" using cache_okD(7) [OF c] by auto
  then obtain q where "pager_lookup s n = Some q" "q \<in> set (pAll s)" using cache_lookup [OF c] by blast
  then show ?thesis using p Cons by (simp add: first_synced_def)
qed (simp add: first_synced_def)

lemma safe_state:
  assumes j: "journal_inv D m h J s" and d: "disklog t = (content (files t DB), Some (jcontent h (cksumInit s) m D J)) # disklog s"
    "agrees m D (set (take (jcount h J) J)) (content (files t DB))"
  shows "logs (safe D) s t"
  by (rule logs_one [OF d(1)], rule journal_safe [OF j]) (use d(2) in simp_all)

lemma syncJournal_ok:
  assumes rel: "reliable e" and st: "static s" and c: "cache_ok rs s" and v: "view_ok a s" and fr: "free_ok s"
    and j: "journal_inv D m h J s" and f: "file_inv D m J k s"
  shows "\<exists>t h'. syncJournal e s = Some (SQLITE_OK, t) \<and> journal_inv D m h' J t \<and> \<not> needSync t \<and> file_inv D m J k t \<and> static t \<and>
    cache_ok rs t \<and> view_ok a t \<and> free_ok t \<and> logs (safe D) s t \<and> pAll t = (if needSync s then map sync_page (pAll s) else pAll s) \<and>
    pFree t = pFree s \<and> nPage t = nPage s \<and> mxPage t = mxPage s \<and> dirtyFile t = dirtyFile s \<and> alwaysRollback t = alwaysRollback s"
proof (cases "needSync s")
  case False
  note J = journal_invD [OF j]
  have ns: "\<forall>p \<in> set (pAll s). \<not> pgSync p" using False J(16) by blast
  have "pFirstSynced s = (case pFree s of [] \<Rightarrow> None | n # _ \<Rightarrow> Some n)"
    using fr first_synced_all [OF c ns] by (simp add: free_ok_def)
  then have "syncJournal e s = Some (SQLITE_OK, s)" using False ns by (simp add: syncJournal_def)
  then show ?thesis using False j f st c v fr by (intro exI [of _ s] exI [of _ h]) simp
next
  case True
  note J = journal_invD [OF j] and T = staticD [OF st]
  let ?h = "of_nat (length J) :: u32"
  have lm: "length J < max_pages" using length_J [OF j] J(5) by (simp add: size_ok_def)
  have h: "unat ?h = length J" using of_nat_page(1) [OF lm] .
  have hne: "?h \<noteq> 0xffffffff"
  proof
    assume "?h = 0xffffffff"
    then have "unat ?h = unat (0xffffffff :: u32)" by (rule arg_cong)
    then show False using h lm by (simp add: max_pages_def)
  qed
  have cnt: "jcount ?h J = length J" using hne h by (simp add: jcount_def)
  have nos: "\<not> noSync s" using True J(14) by blast
  define j' where "j' = jcontent ?h (cksumInit s) m D J"
  have "\<exists>K. syncJournal e s = Some (SQLITE_OK, s\<lparr>disklog := (content (files s DB), Some j') # disklog s,
      files := (files s)(JRN := \<lparr>content = j', offs = 20 + length J * (N + 8)\<rparr>), clock := K, journalStarted := True, needSync := False,
      pAll := map sync_page (pAll s), pFirstSynced := (case pFree s of [] \<Rightarrow> None | n # _ \<Rightarrow> Some n)\<rparr>)"
    using True rel T(2) J(2,3,6,8)
    by (cases "fullSync s")
      (simp_all add: syncJournal_def os_ok write32bits_def Let_def jcontent_header logged_def on_disk_def j'_def sync_page_def [abs_def],
       (rule exI, rule refl)+)
  then obtain K where syn: "syncJournal e s = Some (SQLITE_OK, s\<lparr>disklog := (content (files s DB), Some j') # disklog s,
      files := (files s)(JRN := \<lparr>content = j', offs = 20 + length J * (N + 8)\<rparr>), clock := K, journalStarted := True, needSync := False,
      pAll := map sync_page (pAll s), pFirstSynced := (case pFree s of [] \<Rightarrow> None | n # _ \<Rightarrow> Some n)\<rparr>)" by blast
  define t where "t = s\<lparr>disklog := (content (files s DB), Some j') # disklog s,
      files := (files s)(JRN := \<lparr>content = j', offs = 20 + length J * (N + 8)\<rparr>), clock := K, journalStarted := True, needSync := False,
      pAll := map sync_page (pAll s), pFirstSynced := (case pFree s of [] \<Rightarrow> None | n # _ \<Rightarrow> Some n)\<rparr>"
  have "agrees m D (set (take (jcount ?h J) J)) (content (files s DB))"
    using J(18) in_set_takeD [of _ "jcount h J" J] unfolding cnt agrees_def by auto
  then have jt: "journal_inv D m ?h J t"
    using J nos h lm hne unfolding journal_inv_def by (simp add: t_def j'_def cnt count_ok_def)
  have "safe D (content (files s DB), Some j')"
    by (rule journal_safe [OF jt]) (use journal_invD(18) [OF jt] in \<open>simp_all add: t_def j'_def\<close>)
  then have lt: "logs (safe D) s t" by (intro logs_one) (simp_all add: t_def)
  have ft: "file_inv D m J k t" using file_invD [OF f] unfolding file_inv_def by (simp add: t_def)
  have ct: "cache_ok rs t" using cache_okD [OF c] unfolding cache_ok_def by (simp add: t_def numbered_def image_image comp_def)
  have vt: "view_ok a t" using v by (simp add: view_ok_def t_def)
  have stt: "static t" using T unfolding static_def by (simp add: t_def)
  have "pFirstSynced t = first_synced t (pFree t)" using first_synced_all [OF ct] by (simp add: t_def)
  then have "free_ok t" by (simp add: free_ok_def)
  then show ?thesis using syn jt lt ft ct vt stt True unfolding t_def [symmetric]
    by (intro exI [of _ t] exI [of _ ?h]) (simp add: t_def)
qed

end
