(* ===== verification/Pager_Write.thy ===== *)
theory Pager_Write
  imports Pager_Sync
begin

text \<open>
  Writing to the database: a page of the database changes only if the header of the journal counts its record.
\<close>

subsection \<open>Writing a dirty page\<close>

text \<open>What the journal depends on.\<close>

definition jview :: "pghdr \<Rightarrow> nat \<times> bool \<times> bool" where
  "jview p = (pgno p, inJournal p, pgSync p)"

lemma journal_inv_pages:
  assumes j: "journal_inv D m h J s" and v: "map jview (pAll t) = map jview (pAll s)"
    and f: "state t = state s" "journalOpen t = journalOpen s" "jexists t = jexists s" "origDbSize t = origDbSize s"
      "files t JRN = files s JRN" "cksumInit t = cksumInit s" "nRec t = nRec s" "aInJournal t = aInJournal s" "noSync t = noSync s"
      "needSync t = needSync s"
    and a: "agrees m D (set (take (jcount h J) J)) (content (files t DB))"
  shows "journal_inv D m h J t"
proof -
  have b1: "(\<forall>p \<in> set (pAll t). inJournal p = (pgno p \<in> set J)) = (\<forall>p \<in> set (pAll s). inJournal p = (pgno p \<in> set J))"
    by (rule map_ball(1) [OF v]) (auto simp: jview_def)
  have b2: "(\<forall>p \<in> set (pAll t). \<not> pgSync p) = (\<forall>p \<in> set (pAll s). \<not> pgSync p)"
    by (rule map_ball(1) [OF v]) (auto simp: jview_def)
  have b3: "(\<exists>p \<in> set (pAll t). pgno p = n \<and> pgSync p) = (\<exists>p \<in> set (pAll s). pgno p = n \<and> pgSync p)" for n
    by (rule map_ball(2) [OF v]) (auto simp: jview_def)
  note J = j [unfolded journal_inv_def]
  show ?thesis unfolding journal_inv_def f b1 b2 b3 by (intro conjI; (rule a | (insert J, elim conjE, assumption)))
qed

lemma cache_ok_set_page:
  assumes c: "cache_ok rs s" and g: "\<And>p. pgno (g p) = pgno p" "\<And>p. pgRef (g p) = pgRef p" "\<And>p. length (pgData p) = N \<Longrightarrow> length (pgData (g p)) = N"
  shows "cache_ok rs (set_page n g s)"
  using cache_okD [OF c] g unfolding cache_ok_def by (auto simp: numbered_set_page pnos_set_page)

lemma bex_page_set_page:
  assumes "\<And>p. pgno (g p) = pgno p" "\<And>p. Q (g p) = Q p"
  shows "(\<exists>p \<in> set (pAll (set_page n g s)). pgno p = i \<and> Q p) = (\<exists>p \<in> set (pAll s). pgno p = i \<and> Q p)"
  using assms unfolding bex_set_page by (intro bex_cong) auto

lemma free_ok_set_page:
  assumes "free_ok s" "\<And>p. pgno (g p) = pgno p" "\<And>p. pgSync (g p) = pgSync p"
  shows "free_ok (set_page n g s)"
  using assms by (simp add: free_ok_def first_synced_set_page)

lemma static_set_page: "static s \<Longrightarrow> (\<And>p. inCkpt (g p) = inCkpt p) \<Longrightarrow> static (set_page n g s)"
  by (simp add: static_def)

lemma dvd_put_page: "0 < n \<Longrightarrow> length d = N \<Longrightarrow> N dvd length c \<Longrightarrow> N dvd length (put_page n d c)"
  by (simp add: length_put_page max_def)

lemma synced_record:
  assumes j: "journal_inv D m h J s" and c: "cache_ok rs s" and f: "file_inv D m J k s"
    and p: "p \<in> set (pAll s)" "dirty p" "\<not> pgSync p" "pgno p \<le> m"
  shows "pgno p \<in> set (take (jcount h J) J)"
proof (rule ccontr)
  assume n: "pgno p \<notin> set (take (jcount h J) J)"
  have "pgno p \<in> set J" using file_invD(7) [OF f] p by blast
  then obtain q where q: "q \<in> set (pAll s)" "pgno q = pgno p" "pgSync q" using journal_invD(17) [OF j] n by blast
  have "distinct (map pgno (pAll s))" using cache_okD(1) [OF c] by (simp add: numbered_def)
  then have "q = p" using p(1) q(1,2) by (meson distinct_map inj_onD)
  then show False using p(3) q(3) by blast
qed

text \<open>The parts of the invariant while a transaction is written.\<close>

definition in_trans :: "store \<Rightarrow> nat list \<Rightarrow> u8 list \<Rightarrow> nat \<Rightarrow> u32 \<Rightarrow> nat list \<Rightarrow> nat \<Rightarrow> pager \<Rightarrow> bool" where
  "in_trans a rs D m h J k s \<longleftrightarrow> static s \<and> cache_ok rs s \<and> view_ok a s \<and> free_ok s \<and> journal_inv D m h J s \<and> file_inv D m J k s"

lemma in_transD:
  assumes "in_trans a rs D m h J k s"
  shows "static s" "cache_ok rs s" "view_ok a s" "free_ok s" "journal_inv D m h J s" "file_inv D m J k s"
  using assms by (simp_all add: in_trans_def)

definition clean_pages :: "nat set \<Rightarrow> pghdr list \<Rightarrow> pghdr list" where
  "clean_pages A ps = map (\<lambda>p. if pgno p \<in> A then p\<lparr>dirty := False\<rparr> else p) ps"

text \<open>What writing pages does not change.\<close>

definition same_trans :: "pager \<Rightarrow> pager \<Rightarrow> bool" where
  "same_trans s t \<longleftrightarrow> pFree t = pFree s \<and> nPage t = nPage s \<and> mxPage t = mxPage s \<and> needSync t = needSync s \<and> noSync t = noSync s \<and>
     alwaysRollback t = alwaysRollback s \<and> dirtyFile t = dirtyFile s \<and> state t = state s \<and> journalOpen t = journalOpen s \<and>
     pFirstSynced t = pFirstSynced s"

lemma write_page_ok:
  assumes rel: "reliable e" and i: "in_trans a rs D m h J k s" and p: "p \<in> set (pAll s)" "pgno p = n" "dirty p" "\<not> pgSync p"
  shows "\<exists>t. pager_write_pagelist e (n # ns) s = pager_write_pagelist e ns t \<and> in_trans a rs D m h J k t \<and> logs (safe D) s t \<and>
    pAll t = clean_pages {n} (pAll s) \<and> same_trans s t"
proof -
  note I = in_transD [OF i]
  note J = journal_invD [OF I(5)] and F = file_invD [OF I(6)] and C = cache_okD [OF I(2)]
  have n: "0 < n" "length (pgData p) = N" "n \<le> k" using C(2) F(7) p by auto
  have lk: "pager_lookup s n = Some p" using C(1) p by (simp add: lookup_iff)
  let ?db = "put_page n (pgData p) (content (files s DB))"
  define u where "u = s\<lparr>files := (files s)(DB := \<lparr>content = ?db, offs = n * N\<rparr>), clock := Suc (clock s),
      disklog := (?db, Some (content (files s JRN))) # disklog s\<rparr>"
  let ?t = "set_page n (\<lambda>p. p\<lparr>dirty := False\<rparr>) u"
  have step: "pager_write_pagelist e (n # ns) s = pager_write_pagelist e ns ?t"
    using rel J(3) page_end [OF n(1)] n(2) p(3) by (simp add: lk os_ok Let_def u_def put_page_def logged_def on_disk_def)
  have dbp: "dbpage ?db i = (if i = n then pgData p else dbpage (content (files s DB)) i)" if "0 < i" for i
    using n that by (simp add: dbpage_put_page)
  have rec: "n \<le> m \<Longrightarrow> n \<in> set (take (jcount h J) J)" using synced_record [OF I(5,2,6) p(1,3,4)] p(2) by simp
  have agr: "agrees m D (set (take (jcount h J) J)) ?db" using J(18) rec by (auto simp: agrees_def dbp)
  have jv: "map jview (pAll ?t) = map jview (pAll s)" by (simp add: set_page_def u_def jview_def)
  have jt: "journal_inv D m h J ?t"
    by (rule journal_inv_pages [OF I(5) jv]) (use agr in \<open>simp_all add: u_def\<close>)
  have df: "dirtyFile s" using F(9) p(1,3) by blast
  have len: "length ?db = max (length (content (files s DB))) (N * n)" using n by (simp add: length_put_page mult.commute)
  have "length ?db = N * k \<or> (\<exists>p \<in> set (pAll ?t). pgno p = k \<and> dirty p)"
  proof (cases "n = k")
    case True
    then show ?thesis using len F(6) by simp
  next
    case False
    have "N * n \<le> N * k" using n(3) by simp
    then show ?thesis using F(6,8) len False by (auto simp: u_def)
  qed
  moreover have "N * m \<le> length ?db" "length ?db \<le> N * k" using F(5,6) n(3) by (auto simp: len)
  moreover have "N dvd length ?db" using dvd_put_page [OF n(1,2) F(4)] .
  ultimately have ft: "file_inv D m J k ?t" using F(1-3,7) df unfolding file_inv_def by (simp add: u_def)
  have vt: "view_ok a ?t"
  proof (rule view_okI)
    fix q assume "q \<in> set (pAll ?t)"
    then show "pgData q = current a (pgno q)" using view_okD(1) [OF I(3)] by (auto simp: set_page_def u_def)
  next
    fix i :: nat assume i: "0 < i" "\<And>q. q \<in> set (pAll ?t) \<Longrightarrow> pgno q = i \<Longrightarrow> \<not> dirty q"
    show "dbpage (content (files ?t DB)) i = current a i"
    proof (cases "i = n")
      case True
      then show ?thesis using dbp i(1) view_okD(1) [OF I(3) p(1)] p(2) by (simp add: u_def)
    next
      case False
      then have "\<forall>q \<in> set (pAll ?t). pgno q = i \<longrightarrow> \<not> dirty q" using i(2) by blast
      then have "\<And>q. q \<in> set (pAll s) \<Longrightarrow> pgno q = i \<Longrightarrow> \<not> dirty q" using False by (simp add: u_def split: if_splits)
      then show ?thesis using dbp i(1) False view_okD(2) [OF I(3) i(1)] by (simp add: u_def)
    qed
  qed
  have "static u" "cache_ok rs u" "free_ok u"
    using I(1,2,4) by (simp_all add: u_def static_def cache_ok_def numbered_def free_ok_def first_synced_def pager_lookup_def)
  then have "static ?t" "cache_ok rs ?t" "free_ok ?t"
    by (simp_all add: static_set_page cache_ok_set_page free_ok_set_page)
  then have "in_trans a rs D m h J k ?t" using vt jt ft by (simp add: in_trans_def)
  moreover have "logs (safe D) s ?t"
    by (rule safe_state [OF I(5)]) (use agr J(6) in \<open>simp_all add: u_def\<close>)
  moreover have "pAll ?t = clean_pages {n} (pAll s)" by (simp add: clean_pages_def set_page_def u_def)
  moreover have "same_trans s ?t" by (simp add: same_trans_def u_def set_page_def)
  ultimately show ?thesis using step by blast
qed

lemma take_bytes: "k * N \<le> length c \<Longrightarrow> take (k * N) c = bytes (dbpage c) k"
proof (induction k)
  case (Suc k)
  have "take (Suc k * N) c = take (k * N) c @ take N (drop (k * N) c)" by (simp only: mult_Suc add.commute [of N] take_add)
  also have "take N (drop (k * N) c) = dbpage c (Suc k)" using dbpage_take [of "Suc k" c] Suc.prems by simp
  also have "take (k * N) c = bytes (dbpage c) k" using Suc by simp
  finally show ?case by (simp add: bytes_def)
qed (simp add: bytes_def)

lemma file_bytes: "length c = N * k \<Longrightarrow> c = bytes (dbpage c) k"
  using take_bytes [of k c] by (simp add: mult.commute)

lemma clean_pages_Un: "clean_pages A (clean_pages B ps) = clean_pages (A \<union> B) ps"
  by (auto simp: clean_pages_def)

lemma clean_pages_empty [simp]: "clean_pages {} ps = ps"
  by (simp add: clean_pages_def)

lemma same_trans_trans: "same_trans r s \<Longrightarrow> same_trans s t \<Longrightarrow> same_trans r t"
  by (simp add: same_trans_def)

definition dirty_page :: "pager \<Rightarrow> nat \<Rightarrow> bool" where
  "dirty_page s n \<longleftrightarrow> (\<exists>p \<in> set (pAll s). pgno p = n \<and> dirty p \<and> \<not> pgSync p)"

lemma dirty_page_clean: "pAll t = clean_pages {n} (pAll s) \<Longrightarrow> k \<noteq> n \<Longrightarrow> dirty_page s k \<Longrightarrow> dirty_page t k"
  unfolding dirty_page_def clean_pages_def by force

lemma write_pagelist_ok:
  assumes rel: "reliable e"
  shows "in_trans a rs D m h J k s \<Longrightarrow> distinct ns \<Longrightarrow> \<forall>n \<in> set ns. dirty_page s n \<Longrightarrow>
    \<exists>t. pager_write_pagelist e ns s = Some (SQLITE_OK, t) \<and> in_trans a rs D m h J k t \<and> logs (safe D) s t \<and>
      pAll t = clean_pages (set ns) (pAll s) \<and> same_trans s t"
proof (induction ns arbitrary: s)
  case Nil
  then show ?case by (simp add: same_trans_def)
next
  case (Cons n ns)
  then obtain p where p: "p \<in> set (pAll s)" "pgno p = n" "dirty p" "\<not> pgSync p" by (auto simp: dirty_page_def)
  obtain u where u: "pager_write_pagelist e (n # ns) s = pager_write_pagelist e ns u" "in_trans a rs D m h J k u" "logs (safe D) s u"
    "pAll u = clean_pages {n} (pAll s)" "same_trans s u"
    using write_page_ok [OF rel Cons.prems(1) p] by blast
  have "\<forall>i \<in> set ns. dirty_page u i" using Cons.prems(2,3) dirty_page_clean [OF u(4)] by fastforce
  then obtain t where t: "pager_write_pagelist e ns u = Some (SQLITE_OK, t)" "in_trans a rs D m h J k t" "logs (safe D) u t"
    "pAll t = clean_pages (set ns) (pAll u)" "same_trans u t"
    using Cons.IH [OF u(2)] Cons.prems(2) by auto
  have "pAll t = clean_pages (set (n # ns)) (pAll s)" unfolding t(4) u(4) clean_pages_Un by simp
  then show ?case using u(1) t(1,2) logs_trans [OF u(3) t(3)] same_trans_trans [OF u(5) t(5)] by metis
qed

lemma all_dirty:
  assumes c: "cache_ok rs s" and p: "\<forall>p \<in> set (pAll s). \<not> pgSync p"
  shows "distinct (pager_get_all_dirty_pages s)" "\<forall>n \<in> set (pager_get_all_dirty_pages s). dirty_page s n"
    "\<forall>q \<in> set (clean_pages (set (pager_get_all_dirty_pages s)) (pAll s)). \<not> dirty q"
proof -
  have "distinct (map pgno (pAll s))" using cache_okD(1) [OF c] by (simp add: numbered_def)
  then show "distinct (pager_get_all_dirty_pages s)" by (simp add: pager_get_all_dirty_pages_def distinct_map_filter)
qed (use p in \<open>auto simp: pager_get_all_dirty_pages_def dirty_page_def clean_pages_def\<close>)

text \<open>The file once nothing is left to be written.\<close>

lemma view_bytes:
  assumes v: "view_ok a s" and p: "\<forall>p \<in> set (pAll s). \<not> dirty p" and l: "length (content (files s DB)) = N * k"
  shows "content (files s DB) = bytes (current a) k"
proof -
  have eq: "dbpage (content (files s DB)) i = current a i" if "0 < i" for i
    by (rule view_okD(2) [OF v that]) (use p in blast)
  have "content (files s DB) = bytes (dbpage (content (files s DB))) k" using l by (rule file_bytes)
  also have "\<dots> = bytes (current a) k" unfolding bytes_def using eq by simp
  finally show ?thesis .
qed

end
