(* ===== verification/Pager_Commit.thy ===== *)
theory Pager_Commit
  imports Pager_Write
begin

text \<open>
  The end of a transaction: \<open>sqlitepager_commit\<close> makes the current contents of the pages the database, whole or not at
  all.
\<close>

subsection \<open>Giving up the write lock\<close>

lemma image_clean: "pgno ` clean ` A = pgno ` A"
  by (simp add: image_image)

lemma unlocked_cache: "cache_ok rs s \<Longrightarrow> cache_ok rs ((unlocked s)\<lparr>files := F, clock := k, disklog := l, cksumInit := x, dbSize := z\<rparr>)"
  unfolding cache_ok_def unlocked_def by (simp add: numbered_def comp_def image_clean)

lemma unlocked_static: "static s \<Longrightarrow> static ((unlocked s)\<lparr>files := F, clock := k, disklog := l, cksumInit := x, dbSize := z\<rparr>)"
  unfolding static_def unlocked_def by simp

lemma unlocked_reading:
  assumes "content (F DB) = committed a" "size_ok (committed a) (pages a)" "writable a = {}"
  shows "reading_inv a ((unlocked s)\<lparr>files := F, clock := k, disklog := l, cksumInit := x, dbSize := - 1\<rparr>)"
  using assms unfolding reading_inv_def unlocked_def by simp

lemma unlocked_free:
  assumes c: "cache_ok rs s" and f: "free_ok s" and p: "\<forall>p \<in> set (pAll s). \<not> pgSync p"
  shows "free_ok ((unlocked s)\<lparr>files := F, clock := k, disklog := l, cksumInit := x, dbSize := z\<rparr>)"
proof -
  let ?t = "(unlocked s)\<lparr>files := F, clock := k, disklog := l, cksumInit := x, dbSize := z\<rparr>"
  have "first_synced ?t (pFree s) = first_synced s (pFree s)"
    using first_synced_all [OF unlocked_cache [OF c, where F = F and k = k and l = l and x = x and z = z]] first_synced_all [OF c p] by (simp add: unlocked_def)
  then show ?thesis using f by (simp add: free_ok_def unlocked_def)
qed

lemma updates_same: "(unlocked s)\<lparr>clock := k, disklog := l, dbSize := z\<rparr> =
    (unlocked s)\<lparr>files := files s, clock := k, disklog := l, cksumInit := cksumInit s, dbSize := z\<rparr>"
  by (simp add: unlocked_def)

definition committed_store :: "store \<Rightarrow> store" where
  "committed_store a = a\<lparr>phase := Reading, committed := bytes (current a) (pages a), writable := {}\<rparr>"

lemma release_ok:
  assumes rel: "reliable e" and i: "in_trans a (refs a) D m h J (pages a) s" and r: "refs a \<noteq> []"
    and p: "\<forall>p \<in> set (pAll s). \<not> dirty p" and ns: "\<not> needSync s"
  shows "\<exists>t. pager_unwritelock e s = Some (SQLITE_OK, t) \<and> phase_inv Reading (committed_store a) (t\<lparr>dbSize := - 1\<rparr>) \<and>
    disklog t = (bytes (current a) (pages a), None) # disklog s"
proof -
  note I = in_transD [OF i]
  note J = journal_invD [OF I(5)] and F = file_invD [OF I(6)] and T = staticD [OF I(1)]
  have ps: "\<forall>p \<in> set (pAll s). \<not> pgSync p" using J(16) ns by blast
  have len: "length (content (files s DB)) = N * pages a" using F(8) p by blast
  have db: "content (files s DB) = bytes (current a) (pages a)" by (rule view_bytes [OF I(3) p len])
  have sz: "size_ok (bytes (current a) (pages a)) (pages a)" using len F(3) by (simp add: size_ok_def flip: db)
  define t where "t = (unlocked s)\<lparr>clock := Suc (clock s), disklog := (content (files s DB), None) # disklog s\<rparr>"
  have u: "pager_unwritelock e s = Some (SQLITE_OK, t)"
    unfolding t_def by (rule unwritelock_ok [OF rel J(1) T(5) J(2)])
  have t: "t\<lparr>dbSize := - 1\<rparr> = (unlocked s)\<lparr>files := files s, clock := Suc (clock s), disklog := (content (files s DB), None) # disklog s,
      cksumInit := cksumInit s, dbSize := - 1\<rparr>"
    unfolding t_def by (rule updates_same)
  have v: "view_ok (committed_store a) (t\<lparr>dbSize := - 1\<rparr>)"
  proof (rule view_okI)
    fix n :: nat assume "0 < n"
    then show "dbpage (content (files (t\<lparr>dbSize := - 1\<rparr>) DB)) n = current (committed_store a) n"
      using view_okD(2) [OF I(3)] p by (simp add: t_def unlocked_def committed_store_def)
  qed (use view_okD(1) [OF I(3)] in \<open>auto simp: t_def unlocked_def committed_store_def\<close>)
  have "static (t\<lparr>dbSize := - 1\<rparr>)" "cache_ok (refs a) (t\<lparr>dbSize := - 1\<rparr>)" "free_ok (t\<lparr>dbSize := - 1\<rparr>)"
    unfolding t by (rule unlocked_static [OF I(1)], rule unlocked_cache [OF I(2)], rule unlocked_free [OF I(2,4) ps])
  moreover have "reading_inv (committed_store a) (t\<lparr>dbSize := - 1\<rparr>)"
    unfolding t by (rule unlocked_reading) (use db sz in \<open>simp_all add: committed_store_def\<close>)
  ultimately have "phase_inv Reading (committed_store a) (t\<lparr>dbSize := - 1\<rparr>)" using v r by (simp add: committed_store_def)
  then show ?thesis using u by (simp add: t_def db)
qed

subsection \<open>Commit\<close>

lemma writing_trans:
  assumes "phase_inv Writing a s"
  obtains m h J where "in_trans a (refs a) (committed a) m h J (pages a) s" "refs a \<noteq> []"
    "\<forall>n \<in> writable a. n \<in> set (refs a) \<and> (\<exists>p \<in> set (pAll s). pgno p = n \<and> dirty p)"
  using assms unfolding phase_inv.simps writing_inv_def in_trans_def by blast

lemma commit_ok:
  assumes rel: "reliable e" and w: "phase_inv Writing a s"
  shows "\<exists>t. sqlitepager_commit e s = Some (SQLITE_OK, t) \<and> phase_inv Reading (committed_store a) t \<and>
    (\<exists>L. disklog t = (bytes (current a) (pages a), None) # L @ disklog s \<and> (\<forall>d \<in> set L. safe (committed a) d))"
proof -
  obtain m h J where i: "in_trans a (refs a) (committed a) m h J (pages a) s" "refs a \<noteq> []" using writing_trans [OF w] .
  note I = in_transD [OF i(1)]
  note J = journal_invD [OF I(5)] and F = file_invD [OF I(6)] and T = staticD [OF I(1)]
  show ?thesis
  proof (cases "dirtyFile s")
    case False
    then have c: "\<forall>p \<in> set (pAll s). \<not> dirty p" "\<not> needSync s" using F(9) by blast+
    obtain t where t: "pager_unwritelock e s = Some (SQLITE_OK, t)" "phase_inv Reading (committed_store a) (t\<lparr>dbSize := - 1\<rparr>)"
      "disklog t = (bytes (current a) (pages a), None) # disklog s"
      using release_ok [OF rel i c] by blast
    have "sqlitepager_commit e s = Some (SQLITE_OK, t\<lparr>dbSize := - 1\<rparr>)"
      using False t(1) c(2) J(1) T(4) by (simp add: sqlitepager_commit_def PAGER_ERR_FULL_def)
    moreover have "disklog (t\<lparr>dbSize := - 1\<rparr>) = (bytes (current a) (pages a), None) # [] @ disklog s" by (simp add: t(3))
    ultimately show ?thesis using t(2) by (metis empty_iff list.set(1))
  next
    case True
    obtain u h' where u: "syncJournal e s = Some (SQLITE_OK, u)" "journal_inv (committed a) m h' J u" "\<not> needSync u"
      "file_inv (committed a) m J (pages a) u" "static u" "cache_ok (refs a) u" "view_ok a u" "free_ok u" "logs (safe (committed a)) s u"
      using syncJournal_ok [OF rel I] by blast
    have iu: "in_trans a (refs a) (committed a) m h' J (pages a) u" using u by (simp add: in_trans_def)
    have ps: "\<forall>p \<in> set (pAll u). \<not> pgSync p" using journal_invD(16) [OF u(2)] u(3) by blast
    let ?ns = "pager_get_all_dirty_pages u"
    obtain v where v: "pager_write_pagelist e ?ns u = Some (SQLITE_OK, v)" "in_trans a (refs a) (committed a) m h' J (pages a) v"
      "logs (safe (committed a)) u v" "pAll v = clean_pages (set ?ns) (pAll u)" "same_trans u v"
      using write_pagelist_ok [OF rel iu all_dirty(1,2) [OF u(6) ps]] by blast
    define b where "b = (?ns \<noteq> [] \<and> \<not> noSync v)"
    define x where "x = (if b then v\<lparr>clock := Suc (clock v)\<rparr> else v)"
    have x: "in_trans a (refs a) (committed a) m h' J (pages a) x" "pAll x = pAll v" "needSync x = needSync v" "disklog x = disklog v"
      using v(2) same_files_inv [of v "v\<lparr>clock := Suc (clock v)\<rparr>"]
      by (auto simp: x_def in_trans_def same_files_def cache_ok_def free_ok_def numbered_def first_synced_def pager_lookup_def)
    have cl: "\<forall>p \<in> set (pAll x). \<not> dirty p" unfolding x(2) v(4) by (rule all_dirty(3) [OF u(6) ps])
    have nx: "\<not> needSync x" using v(5) u(3) by (simp add: x(3) same_trans_def)
    obtain t where t: "pager_unwritelock e x = Some (SQLITE_OK, t)" "phase_inv Reading (committed_store a) (t\<lparr>dbSize := - 1\<rparr>)"
      "disklog t = (bytes (current a) (pages a), None) # disklog x"
      using release_ok [OF rel x(1) i(2) cl nx] by blast
    have "sqlitepager_commit e s = Some (SQLITE_OK, t\<lparr>dbSize := - 1\<rparr>)"
      using True t(1) u(1) v(1) J(1,2) T(4) rel
      by (cases "?ns = []") (simp_all add: sqlitepager_commit_def PAGER_ERR_FULL_def Let_def x_def b_def os_sync_ok split: if_splits)
    moreover have "logs (safe (committed a)) s x" using logs_trans [OF u(9) v(3)] by (simp add: logs_def x(4))
    then obtain L where "disklog x = L @ disklog s" "\<forall>d \<in> set L. safe (committed a) d" unfolding logs_def by blast
    then have "disklog (t\<lparr>dbSize := - 1\<rparr>) = (bytes (current a) (pages a), None) # L @ disklog s" "\<forall>d \<in> set L. safe (committed a) d"
      by (simp_all add: t(3))
    ultimately show ?thesis using t(2) by blast
  qed
qed

end
