(* ===== verification/Pager_Rollback.thy ===== *)
theory Pager_Rollback
  imports Pager_Commit
begin

text \<open>
  Rolling back: \<open>sqlitepager_rollback\<close> goes back to the database as it was, and so does \<open>pager_reset\<close> when the last page is
  let go in the middle of a transaction.
\<close>

subsection \<open>The pages\<close>

definition rev_page :: "nat \<Rightarrow> u8 list \<Rightarrow> nat set \<Rightarrow> pghdr \<Rightarrow> pghdr" where
  "rev_page x D K p = (let p = (if pgno p \<in> K then restored x D p else p) in if dirty p then refetched x D p else p)"

lemma rev_page_simps [simp]:
  "pgno (rev_page x D K p) = pgno p" "pgRef (rev_page x D K p) = pgRef p" "inCkpt (rev_page x D K p) = inCkpt p"
  "pgData (rev_page x D K p) = (if pgno p \<in> K \<or> dirty p then dbpage D (pgno p) else pgData p)"
  by (simp_all add: rev_page_def Let_def)

lemma reverted_pages: "reverted D K s = s\<lparr>pAll := map (rev_page (nExtra s) D K) (pAll s)\<rparr>"
  by (simp add: reverted_def refetch_pages_def restore_pages_def rev_page_def [abs_def] Let_def comp_def)

lemma cache_ok_map:
  assumes c: "cache_ok rs s" and g: "\<And>p. pgno (g p) = pgno p" "\<And>p. pgRef (g p) = pgRef p" "\<And>p. length (pgData p) = N \<Longrightarrow> length (pgData (g p)) = N"
  shows "cache_ok rs (s\<lparr>pAll := map g (pAll s)\<rparr>)"
  using cache_okD [OF c] g unfolding cache_ok_def by (simp add: numbered_def comp_def image_image)

lemma reverted_cache: "cache_ok rs s \<Longrightarrow> cache_ok rs (reverted D K s)"
  unfolding reverted_pages by (rule cache_ok_map) simp_all

lemma reverted_static: "static s \<Longrightarrow> static (reverted D K s)"
  unfolding reverted_pages static_def by simp

subsection \<open>Playback\<close>

text \<open>The state \<open>t\<close> has the files and the journal of \<open>s\<close>; its cache may be another one.\<close>

lemma rollback_playback:
  assumes rel: "reliable e" and j: "journal_inv D m h J s"
    and t: "journalOpen t" "state t = SQLITE_WRITELOCK" "files t = files s" "cksumInit t = cksumInit s" "origDbSize t = origDbSize s"
      "jexists t" "\<not> ckptInUse t" "dirtyFile t" "errMask t = 0"
    and cache: "numbered t" "\<forall>p \<in> set (pAll t). 0 < pgno p" "\<forall>p \<in> set (pAll t). pgno p \<in> set J \<longrightarrow> pgRef p = 0 \<or> pgno p = 1"
  shows "\<exists>F k L. sqlitepager_rollback e t = Some (SQLITE_OK, (unlocked (reverted D (set J) t))
      \<lparr>files := F, clock := k, disklog := L @ disklog t, cksumInit := cksumInit t, dbSize := - 1\<rparr>) \<and>
    content (F DB) = D \<and> (\<forall>d \<in> set L. safe D d)"
proof -
  note J = journal_invD [OF j]
  have D: "length D = N * m" "m < max_pages" using J(5) by (simp_all add: size_ok_def)
  have sub: "set (take (jcount h J) J) \<subseteq> set J" by (rule set_take_subset)
  have agr: "agrees m D (set (take (length J) J)) (content (files t DB))" using J(18) sub by (auto simp: agrees_def t(3))
  obtain F k L where p: "pager_playback e True t = Some (SQLITE_OK, (unlocked (reverted D (set J) t))
      \<lparr>files := F, clock := k, disklog := (D, None) # L @ disklog t, cksumInit := cksumInit s, dbSize := int m\<rparr>)"
    "content (F DB) = D" "\<forall>d \<in> set L. snd d = snd (on_disk t) \<and> toward m D (content (files t DB)) (fst d)"
    using pager_playback_ok [OF rel t(1), of h "cksumInit s" m D J "[]" True "length J"] J D t cache agr by auto
  have "safe D d" if "d \<in> set L" for d
    by (rule journal_safe [OF j]) (use p(3) that J(6,18) t(3,6) in \<open>auto simp: toward_def on_disk_def\<close>)
  then have "\<forall>d \<in> set ((D, None) # L). safe D d" using safe_none D by auto
  moreover have "sqlitepager_rollback e t = Some (SQLITE_OK, (unlocked (reverted D (set J) t))
      \<lparr>files := F, clock := k, disklog := ((D, None) # L) @ disklog t, cksumInit := cksumInit t, dbSize := - 1\<rparr>)"
    using t p(1) by (simp add: sqlitepager_rollback_def)
  ultimately show ?thesis using p(2) by blast
qed

text \<open>A transaction that has not written anything is left without playback.\<close>

lemma rollback_clean:
  assumes rel: "reliable e" and t: "journalOpen t" "state t = SQLITE_WRITELOCK" "\<not> ckptInUse t" "\<not> dirtyFile t"
    and D: "content (files t DB) = D" "safe D (D, None)"
  shows "\<exists>F k L. sqlitepager_rollback e t = Some (SQLITE_OK, (unlocked t)
      \<lparr>files := F, clock := k, disklog := L @ disklog t, cksumInit := cksumInit t, dbSize := - 1\<rparr>) \<and>
    content (F DB) = D \<and> (\<forall>d \<in> set L. safe D d)"
proof -
  have "sqlitepager_rollback e t = Some (SQLITE_OK, (unlocked t)
      \<lparr>files := files t, clock := Suc (clock t), disklog := [(D, None)] @ disklog t, cksumInit := cksumInit t, dbSize := - 1\<rparr>)"
    using t unwritelock_ok [OF rel t(2,3,1)] D(1) by (simp add: sqlitepager_rollback_def unlocked_def)
  then show ?thesis using D by (intro exI [of _ "files t"] exI [of _ "Suc (clock t)"] exI [of _ "[(D, None)]"]) simp
qed

subsection \<open>Rollback\<close>

lemma rollback_ok:
  assumes rel: "reliable e" and w: "phase_inv Writing a s" and r: "set (refs a) \<subseteq> {1}" "committed a = [] \<longrightarrow> 1 \<in> writable a"
  shows "\<exists>t. sqlitepager_rollback e s = Some (SQLITE_OK, t) \<and> phase_inv Rolled_back (revert Rolled_back a) t \<and>
    logs (safe (committed a)) s t"
proof -
  let ?D = "committed a"
  obtain m h J where i: "in_trans a (refs a) ?D m h J (pages a) s" "refs a \<noteq> []"
    and wr: "\<forall>n \<in> writable a. n \<in> set (refs a) \<and> (\<exists>p \<in> set (pAll s). pgno p = n \<and> dirty p)" using writing_trans [OF w] .
  note I = in_transD [OF i(1)]
  note J = journal_invD [OF I(5)] and F = file_invD [OF I(6)] and T = staticD [OF I(1)] and C = cache_okD [OF I(2)]
  have m: "length ?D = N * m" "m < max_pages" using J(5) by (simp_all add: size_ok_def)
  have clean1: "pgData p = dbpage ?D (pgno p)" if p: "p \<in> set (pAll s)" "pgno p \<in> set (refs a)" "\<not> dirty p" "pgno p \<notin> set J" for p
  proof -
    have one: "pgno p = 1" using p(2) r(1) by blast
    have "distinct (map pgno (pAll s))" using C(1) by (simp add: numbered_def)
    then have uniq: "q \<in> set (pAll s) \<Longrightarrow> pgno q = pgno p \<Longrightarrow> q = p" for q using p(1) by (meson distinct_map inj_onD)
    have "1 \<notin> writable a" using wr uniq p(3) one by metis
    then have "0 < m" using r(2) m(1) by (cases m) auto
    then have "dbpage (content (files s DB)) (pgno p) = dbpage ?D (pgno p)"
      using J(18) p(4) in_set_takeD [of "pgno p" "jcount h J" J] one unfolding agrees_def by auto
    moreover have "dbpage (content (files s DB)) (pgno p) = current a (pgno p)"
      by (rule view_okD(2) [OF I(3)]) (use one uniq p(3) in auto)
    ultimately show ?thesis using view_okD(1) [OF I(3) p(1)] by simp
  qed
  have step: "\<exists>u F k L. sqlitepager_rollback e s = Some (SQLITE_OK, (unlocked u)
      \<lparr>files := F, clock := k, disklog := L @ disklog s, cksumInit := cksumInit s, dbSize := - 1\<rparr>) \<and>
    content (F DB) = ?D \<and> (\<forall>d \<in> set L. safe ?D d) \<and> static u \<and> cache_ok (refs a) u \<and>
    (\<forall>p \<in> set (pAll u). pgno p \<in> set (refs a) \<longrightarrow> pgData p = dbpage ?D (pgno p))"
  proof (cases "dirtyFile s")
    case True
    have "\<forall>p \<in> set (pAll s). pgno p \<in> set J \<longrightarrow> pgRef p = 0 \<or> pgno p = 1"
      using C(3) r(1) count_zero [of "refs a"] by fastforce
    moreover have "\<forall>p \<in> set (pAll s). 0 < pgno p" using C(2) by blast
    ultimately obtain F k L where rb: "sqlitepager_rollback e s = Some (SQLITE_OK, (unlocked (reverted ?D (set J) s))
        \<lparr>files := F, clock := k, disklog := L @ disklog s, cksumInit := cksumInit s, dbSize := - 1\<rparr>)"
      "content (F DB) = ?D" "\<forall>d \<in> set L. safe ?D d"
      using rollback_playback [OF rel I(5) J(2,1) refl refl refl J(3) T(5) True T(4) C(1)] by blast
    have "\<forall>p \<in> set (pAll (reverted ?D (set J) s)). pgno p \<in> set (refs a) \<longrightarrow> pgData p = dbpage ?D (pgno p)"
      unfolding reverted_pages using clean1 by simp
    then show ?thesis using rb reverted_static [OF I(1)] reverted_cache [OF I(2)] by blast
  next
    case False
    then have c: "J = []" "\<forall>p \<in> set (pAll s). \<not> dirty p" "content (files s DB) = ?D" using F(9) by blast+
    obtain F k L where rb: "sqlitepager_rollback e s = Some (SQLITE_OK, (unlocked s)
        \<lparr>files := F, clock := k, disklog := L @ disklog s, cksumInit := cksumInit s, dbSize := - 1\<rparr>)"
      "content (F DB) = ?D" "\<forall>d \<in> set L. safe ?D d"
      using rollback_clean [OF rel J(2,1) T(5) False c(3) safe_none [OF m]] by blast
    then show ?thesis using I(1,2) clean1 c(1,2) by (metis empty_iff list.set(1))
  qed
  then obtain u F k L where u: "sqlitepager_rollback e s = Some (SQLITE_OK, (unlocked u)
      \<lparr>files := F, clock := k, disklog := L @ disklog s, cksumInit := cksumInit s, dbSize := - 1\<rparr>)"
    "content (F DB) = ?D" "\<forall>d \<in> set L. safe ?D d" "static u" "cache_ok (refs a) u"
    "\<forall>p \<in> set (pAll u). pgno p \<in> set (refs a) \<longrightarrow> pgData p = dbpage ?D (pgno p)" by blast
  let ?t = "(unlocked u)\<lparr>files := F, clock := k, disklog := L @ disklog s, cksumInit := cksumInit s, dbSize := - 1\<rparr>"
  have "reading_inv (revert Rolled_back a) ?t"
    by (rule unlocked_reading) (use u(2) m in \<open>simp_all add: revert_def size_ok_def\<close>)
  moreover have "held_ok (revert Rolled_back a) ?t"
    using u(6) by (simp add: held_ok_def revert_def unlocked_def)
  ultimately have "phase_inv Rolled_back (revert Rolled_back a) ?t"
    using unlocked_static [OF u(4)] unlocked_cache [OF u(5)] i(2) by (simp add: revert_def)
  moreover have "logs (safe ?D) s ?t" unfolding logs_def using u(3) by (intro exI [of _ L]) simp
  ultimately show ?thesis using u(1) by blast
qed

subsection \<open>Letting the last page go\<close>

definition emptied :: "pager \<Rightarrow> pager" where
  "emptied s = s\<lparr>nPage := 0, nRef := 0, pFree := [], pFirstSynced := None, pAll := []\<rparr>"

lemma emptied_simps [simp]:
  "files (emptied s) = files s" "jexists (emptied s) = jexists s" "clock (emptied s) = clock s" "disklog (emptied s) = disklog s"
  "journalOpen (emptied s) = journalOpen s" "state (emptied s) = state s" "cksumInit (emptied s) = cksumInit s"
  "origDbSize (emptied s) = origDbSize s" "ckptInUse (emptied s) = ckptInUse s" "dirtyFile (emptied s) = dirtyFile s"
  "errMask (emptied s) = errMask s" "pAll (emptied s) = []" "aInJournal (emptied s) = aInJournal s"
  by (simp_all add: emptied_def)

lemma reset_emptied:
  "pager_reset e (s\<lparr>pAll := A, pFree := B, pFirstSynced := x, nRef := 0\<rparr>) =
     do { (_, s) \<leftarrow> (if state s \<ge> SQLITE_WRITELOCK then sqlitepager_rollback e (emptied s) else Some (SQLITE_OK, emptied s));
          let (_, s) = syscall e Call_unlock s;
          guard (\<not> journalOpen s);
          Some (s\<lparr>state := SQLITE_UNLOCK, dbSize := - 1, nRef := 0\<rparr>) }"
proof -
  have "s\<lparr>pAll := A, pFree := B, pFirstSynced := x, nRef := 0, pFree := [], pFirstSynced := None, pAll := [], nPage := 0\<rparr> = emptied s"
    by (simp add: emptied_def)
  then show ?thesis by (simp only: pager_reset_def Let_def emptied_simps)
qed

lemma at_rest_intro:
  assumes "static s" "\<not> journalOpen s" "aInJournal s = None"
  shows "at_rest ((emptied s)\<lparr>clock := k, state := SQLITE_UNLOCK, dbSize := - 1, nRef := 0\<rparr>)"
  using staticD [OF assms(1)] assms(2,3) by (simp add: at_rest_def emptied_def)

lemma at_rest_unlocked:
  assumes "static s"
  shows "at_rest ((unlocked (reverted D K (emptied s)))\<lparr>files := F, clock := k, disklog := L, cksumInit := c, dbSize := z,
      state := SQLITE_UNLOCK, dbSize := - 1, nRef := 0\<rparr>)"
  using staticD [OF assms] by (simp add: at_rest_def emptied_def unlocked_def reverted_pages)

lemma reset_reading:
  assumes rel: "reliable e" and st: "static s" and r: "reading_inv a s"
  shows "\<exists>t. pager_reset e (s\<lparr>pAll := A, pFree := B, pFirstSynced := x, nRef := 0\<rparr>) = Some t \<and> at_rest t \<and>
    on_disk t = (committed a, None) \<and> disklog t = disklog s \<and> state t = SQLITE_UNLOCK"
proof -
  have R: "state s = SQLITE_READLOCK" "\<not> journalOpen s" "\<not> jexists s" "aInJournal s = None" "content (files s DB) = committed a"
    using r unfolding reading_inv_def by blast+
  have "pager_reset e (s\<lparr>pAll := A, pFree := B, pFirstSynced := x, nRef := 0\<rparr>) =
      Some ((emptied s)\<lparr>clock := Suc (clock s), state := SQLITE_UNLOCK, dbSize := - 1, nRef := 0\<rparr>)"
    unfolding reset_emptied using R rel by (simp add: os_call_ok lock_defs)
  then show ?thesis using at_rest_intro [OF st R(2,4)] R(3,5)
    by (intro exI conjI) (assumption, assumption, simp_all add: on_disk_def)
qed

lemma reset_writing:
  assumes rel: "reliable e" and st: "static s" and j: "journal_inv D m h J s" and f: "file_inv D m J k s"
  shows "\<exists>t. pager_reset e (s\<lparr>pAll := A, pFree := B, pFirstSynced := x, nRef := 0\<rparr>) = Some t \<and> at_rest t \<and>
    on_disk t = (D, None) \<and> logs (safe D) s t \<and> state t = SQLITE_UNLOCK"
proof -
  note J = journal_invD [OF j] and T = staticD [OF st]
  have D: "length D = N * m" "m < max_pages" using J(5) by (simp_all add: size_ok_def)
  have em: "numbered (emptied s)" "\<forall>p \<in> set (pAll (emptied s)). 0 < pgno p"
    "\<forall>p \<in> set (pAll (emptied s)). pgno p \<in> set J \<longrightarrow> pgRef p = 0 \<or> pgno p = 1" by (simp_all add: numbered_def)
  have "\<exists>K F k L c. sqlitepager_rollback e (emptied s) = Some (SQLITE_OK, (unlocked (reverted D K (emptied s)))
      \<lparr>files := F, clock := k, disklog := L @ disklog s, cksumInit := c, dbSize := - 1\<rparr>) \<and>
    content (F DB) = D \<and> (\<forall>d \<in> set L. safe D d)"
  proof (cases "dirtyFile s")
    case True
    then obtain F k L where "sqlitepager_rollback e (emptied s) = Some (SQLITE_OK, (unlocked (reverted D (set J) (emptied s)))
        \<lparr>files := F, clock := k, disklog := L @ disklog (emptied s), cksumInit := cksumInit (emptied s), dbSize := - 1\<rparr>)"
      "content (F DB) = D" "\<forall>d \<in> set L. safe D d"
      using rollback_playback [OF rel j, of "emptied s"] J(1-3) T(4,5) em by auto
    then show ?thesis
      by (intro exI [of _ "set J"] exI [of _ F] exI [of _ k] exI [of _ L] exI [of _ "cksumInit s"]) simp
  next
    case False
    have nil: "reverted D {} (emptied s) = emptied s" by (simp add: reverted_pages)
    have "content (files s DB) = D" using file_invD(9) [OF f] False by blast
    then obtain F k L where "sqlitepager_rollback e (emptied s) = Some (SQLITE_OK, (unlocked (emptied s))
        \<lparr>files := F, clock := k, disklog := L @ disklog (emptied s), cksumInit := cksumInit (emptied s), dbSize := - 1\<rparr>)"
      "content (F DB) = D" "\<forall>d \<in> set L. safe D d"
      using rollback_clean [OF rel, of "emptied s" D] J(1,2) T(5) False safe_none [OF D] by auto
    then show ?thesis
      by (intro exI [of _ "{}"] exI [of _ F] exI [of _ k] exI [of _ L] exI [of _ "cksumInit s"]) (simp add: nil)
  qed
  then obtain K F k L c where r: "sqlitepager_rollback e (emptied s) = Some (SQLITE_OK, (unlocked (reverted D K (emptied s)))
      \<lparr>files := F, clock := k, disklog := L @ disklog s, cksumInit := c, dbSize := - 1\<rparr>)"
    "content (F DB) = D" "\<forall>d \<in> set L. safe D d" by blast
  define t where "t = (unlocked (reverted D K (emptied s)))\<lparr>files := F, clock := Suc k, disklog := L @ disklog s, cksumInit := c, dbSize := - 1,
    state := SQLITE_UNLOCK, dbSize := - 1, nRef := 0\<rparr>"
  have "pager_reset e (s\<lparr>pAll := A, pFree := B, pFirstSynced := x, nRef := 0\<rparr>) = Some t"
    unfolding reset_emptied using r(1) J(1) rel by (simp add: os_call_ok t_def unlocked_def)
  moreover have "at_rest t" unfolding t_def by (rule at_rest_unlocked [OF st])
  moreover have "on_disk t = (D, None)" using r(2) by (simp add: on_disk_def t_def unlocked_def)
  moreover have "logs (safe D) s t" unfolding logs_def using r(3) by (intro exI [of _ L]) (simp add: t_def)
  moreover have "state t = SQLITE_UNLOCK" by (simp add: t_def)
  ultimately show ?thesis by blast
qed

lemma unref_last:
  assumes c: "cache_ok rs s" and n: "n \<in> set rs" "remove1 n rs = []"
  shows "\<exists>A B x. sqlitepager_unref e n s =
    do { t \<leftarrow> pager_reset e (s\<lparr>pAll := A, pFree := B, pFirstSynced := x, nRef := 0\<rparr>); Some (SQLITE_OK, t) }"
proof -
  have rs: "rs = [n]" using n by (cases rs) (auto split: if_splits)
  have "n \<in> pgno ` set (pAll s)" using c n by (auto simp: cache_ok_def)
  then obtain p where p: "pager_lookup s n = Some p" "pgRef p = count_list rs n" using cache_lookup [OF c] by blast
  have one: "pgRef p = 1" "nRef s = 1" using p(2) cache_okD(8) [OF c] by (simp_all add: rs)
  have "sqlitepager_unref e n s = do { t \<leftarrow> pager_reset e (s\<lparr>pAll := map (\<lambda>p. if pgno p = n then p\<lparr>pgRef := pgRef p - 1\<rparr> else p) (pAll s),
      pFree := pFree s @ [n], pFirstSynced := (if \<not> pgSync p \<and> pFirstSynced s = None then Some n else pFirstSynced s), nRef := 0\<rparr>);
      Some (SQLITE_OK, t) }"
    using one by (simp add: sqlitepager_unref_def p(1) set_page_def Let_def cong: if_cong)
  then show ?thesis by blast
qed

end
