(* ===== verification/Pager_Begin.thy ===== *)
theory Pager_Begin
  imports Pager_Rollback
begin

text \<open>
  The beginning of a transaction: the journal is made and its header written, while the database is not touched; and the
  pages that a client makes writable, whose contents go to the journal first.
\<close>

subsection \<open>The header of the journal\<close>

text \<open>The state after \<open>sqlitepager_begin\<close>, with the files, the clock and the states of the disk.\<close>

definition begun :: "u32 \<Rightarrow> nat \<Rightarrow> nat \<Rightarrow> disk list \<Rightarrow> pager \<Rightarrow> pager" where
  "begun c m k L s = s\<lparr>files := (files s)(JRN := \<lparr>content = jheader (if noSync s then 0xffffffff else 0) c m, offs = 20\<rparr>), jexists := True,
     clock := k, disklog := L @ disklog s, dbSize := int m, origDbSize := int m, nRec := 0, cksumInit := c, journalOpen := True,
     journalStarted := False, state := SQLITE_WRITELOCK, needSync := False, dirtyFile := False, alwaysRollback := False,
     aInJournal := Some (new_bits (int m))\<rparr>"

lemma lock_neq [simp]: "SQLITE_READLOCK \<noteq> SQLITE_UNLOCK" "SQLITE_WRITELOCK \<noteq> SQLITE_UNLOCK" "SQLITE_WRITELOCK \<noteq> SQLITE_READLOCK"
  "SQLITE_READLOCK \<noteq> SQLITE_WRITELOCK" "SQLITE_READLOCK < SQLITE_WRITELOCK" "\<not> SQLITE_WRITELOCK \<le> SQLITE_READLOCK"
  by (simp_all add: lock_defs)

lemma length_magic [simp]: "length aJournalMagic3 = 8"
  by (simp add: aJournalMagic3_def)

lemma header_prefix:
  "take 0 (jheader h c m) = []" "take 8 (jheader h c m) = aJournalMagic3" "take 12 (jheader h c m) = aJournalMagic3 @ be32 h"
  "take 16 (jheader h c m) = aJournalMagic3 @ be32 h @ be32 c"
  by (simp_all add: jheader_def)

lemma write_header_ok:
  assumes rel: "reliable e" and s: "files s JRN = \<lparr>content = [], offs = 0\<rparr>" "jexists s" "dbSize s = int m"
  defines "h \<equiv> if noSync s then 0xffffffff else 0 :: u32"
  shows "\<exists>k c. write_header e s = (SQLITE_OK, s\<lparr>files := (files s)(JRN := \<lparr>content = jheader h c m, offs = 20\<rparr>), clock := k,
    disklog := map (\<lambda>i. (content (files s DB), Some (take i (jheader h c m)))) [20, 16, 12, 8] @ disklog s, cksumInit := c\<rparr>)"
proof -
  have "write_header e s = (SQLITE_OK, s\<lparr>files := (files s)(JRN := \<lparr>content = jheader h (random32 e (Suc (Suc (clock s)))) m, offs = 20\<rparr>),
      clock := Suc (Suc (Suc (Suc (clock s)))),
      disklog := map (\<lambda>i. (content (files s DB), Some (take i (jheader h (random32 e (Suc (Suc (clock s)))) m)))) [20, 16, 12, 8] @ disklog s,
      cksumInit := random32 e (Suc (Suc (clock s)))\<rparr>)"
    using s
    by (simp add: write_header_def os_write_ok [OF rel] write32bits_def Let_def header_prefix file_write_append logged_def on_disk_def
        h_def [symmetric] del: take_append) (simp add: jheader_def)
  then show ?thesis by blast
qed

lemma begin_ok:
  assumes rel: "reliable e" and st: "static s" and p: "pager_lookup s n = Some p" "0 < pgRef p"
    and r: "state s = SQLITE_READLOCK" "\<not> journalOpen s" "\<not> jexists s" "aInJournal s = None" "dbSize s = - 1 \<or> dbSize s = int m"
    and D: "content (files s DB) = D" "length D = N * m" "m < max_pages"
  shows "\<exists>c k L. sqlitepager_begin e n s = Some (SQLITE_OK, begun c m k L s) \<and> (\<forall>d \<in> set L. safe D d)"
proof -
  note T = staticD [OF st]
  define s0 where "s0 = s\<lparr>clock := Suc (clock s), state := SQLITE_WRITELOCK, dirtyFile := False\<rparr>"
  have b: "sqlitepager_begin e n s = pager_open_journal e s0"
    using T p r rel by (simp add: sqlitepager_begin_def s0_def os_call_ok Let_def)
  obtain k0 where s1: "snd (sqlitepager_pagecount e s0) = s\<lparr>state := SQLITE_WRITELOCK, dirtyFile := False, dbSize := int m, clock := k0\<rparr>"
  proof (cases "dbSize s = - 1")
    case True
    then show ?thesis using D rel that [of "Suc (Suc (clock s))"] by (simp add: sqlitepager_pagecount_def s0_def os_size_ok Let_def)
  next
    case False
    then show ?thesis using r(5) that [of "Suc (clock s)"] by (simp add: sqlitepager_pagecount_def s0_def)
  qed
  have s0: "state s0 = SQLITE_WRITELOCK" "\<not> journalOpen s0" "useJournal s0" using T r by (simp_all add: s0_def)
  define s2 where "s2 = s\<lparr>state := SQLITE_WRITELOCK, dirtyFile := False, dbSize := int m, aInJournal := Some (new_bits (int m)),
    files := (files s)(JRN := \<lparr>content = [], offs = 0\<rparr>), jexists := True, clock := Suc (Suc (Suc k0)),
    disklog := (D, Some []) # disklog s, journalOpen := True, journalStarted := False, needSync := False,
    alwaysRollback := False, nRec := 0, origDbSize := int m\<rparr>"
  let ?h = "if noSync s then 0xffffffff else 0 :: u32"
  have "\<exists>k c. write_header e s2 = (SQLITE_OK, s2\<lparr>files := (files s2)(JRN := \<lparr>content = jheader ?h c m, offs = 20\<rparr>), clock := k,
    disklog := map (\<lambda>i. (D, Some (take i (jheader ?h c m)))) [20, 16, 12, 8] @ disklog s2, cksumInit := c\<rparr>)"
    using write_header_ok [OF rel, of s2 m] D(1) by (simp add: s2_def)
  then obtain k c where wh: "write_header e s2 = (SQLITE_OK, s2\<lparr>files := (files s2)(JRN := \<lparr>content = jheader ?h c m, offs = 20\<rparr>), clock := k,
    disklog := map (\<lambda>i. (D, Some (take i (jheader ?h c m)))) [20, 16, 12, 8] @ disklog s2, cksumInit := c\<rparr>)" by blast
  define L where "L = map (\<lambda>i. (D, Some (take i (jheader ?h c m)))) [20, 16, 12, 8, 0]"
  have "pager_open_journal e s0 = Some (SQLITE_OK, begun c m k L s)"
    unfolding pager_open_journal_def using rel T r D(1) s0
    by (simp add: split_beta s1 os_call_ok os_open_excl_ok Let_def logged_def on_disk_def wh [unfolded s2_def]) (simp add: begun_def L_def)
  moreover have "\<forall>d \<in> set L. safe D d"
  proof -
    have "safe D (D, Some (take 20 (jheader ?h c m)))"
      by (rule safe_full [OF D(2,3), where h = ?h and J = "[]" and g = "[]" and c = c])
        (simp_all add: jcontent_def count_ok_def agrees_def max_pages_def)
    then show ?thesis unfolding L_def by (simp add: safe_header D(2,3) del: take0)
  qed
  ultimately show ?thesis unfolding b by blast
qed
lemma new_bits_ok: "m < length (new_bits (int m))" "i \<le> m \<Longrightarrow> \<not> new_bits (int m) ! i"
proof -
  have l: "nat (int m div 8 + 1) = Suc (m div 8)" by (simp add: nat_add_distrib nat_div_distrib)
  have "m < 8 * Suc (m div 8)" using div_mult_mod_eq [of m 8] mod_less_divisor [of 8 m] by simp
  then show b: "m < length (new_bits (int m))" by (simp add: new_bits_def l)
  then show "\<not> new_bits (int m) ! i" if "i \<le> m" using that by (simp add: new_bits_def)
qed

lemma reading_invD:
  assumes "reading_inv a s"
  shows "state s = SQLITE_READLOCK" "\<not> journalOpen s" "\<not> jexists s" "aInJournal s = None" "content (files s DB) = committed a"
    "size_ok (committed a) (pages a)" "dbSize s = - 1 \<or> dbSize s = int (pages a)"
    "\<forall>p \<in> set (pAll s). \<not> dirty p \<and> \<not> inJournal p \<and> \<not> pgSync p" "writable a = {}"
  by (insert assms, unfold reading_inv_def) (elim conjE, assumption)+

lemma begun_trans:
  assumes "static s" "cache_ok rs s" "view_ok a s" "free_ok s" and r: "reading_inv a s"
  shows "\<exists>h. in_trans a rs (committed a) (pages a) h [] (pages a) (begun c (pages a) k L s)"
proof -
  note R = reading_invD [OF r]
  let ?m = "pages a"
  let ?t = "begun c ?m k L s"
  define h where "h = (if noSync s then 0xffffffff else 0 :: u32)"
  have h: "count_ok h []" "jcount h [] = 0" by (auto simp: h_def count_ok_def jcount_def max_pages_def)
  have pg: "\<forall>p \<in> set (pAll s). \<not> inJournal p" "\<forall>p \<in> set (pAll s). \<not> pgSync p" "\<forall>p \<in> set (pAll s). \<not> dirty p" using R(8) by blast+
  have "\<exists>bs. aInJournal ?t = Some bs \<and> ?m < length bs \<and> (\<forall>i \<le> ?m. bs ! i = (i \<in> set []))"
    using new_bits_ok by (simp add: begun_def)
  then have "journal_inv (committed a) ?m h [] ?t"
    using R(5,6) pg h unfolding journal_inv_def by (simp add: begun_def jcontent_def agrees_def h_def)
  moreover have "file_inv (committed a) ?m [] ?m ?t"
    using R(5,6) pg unfolding file_inv_def by (simp add: begun_def size_ok_def)
  moreover have "static ?t" using staticD [OF assms(1)] unfolding static_def by (simp add: begun_def)
  moreover have "cache_ok rs ?t" using cache_okD [OF assms(2)] unfolding cache_ok_def by (simp add: begun_def numbered_def)
  moreover have "view_ok a ?t" using assms(3) by (simp add: view_ok_def begun_def)
  moreover have "free_ok ?t" using assms(4) by (simp add: free_ok_def begun_def first_synced_def pager_lookup_def)
  ultimately show ?thesis unfolding in_trans_def by blast
qed

end
