(* ===== verification/Pager_Dirty.thy ===== *)
theory Pager_Dirty
  imports Pager_Begin
begin

text \<open>
  Making a page writable: \<open>sqlitepager_write\<close> begins a transaction if there is none, and appends the contents of the page to
  the journal if the page is part of the database and not yet there.
\<close>

subsection \<open>What the change of one page keeps\<close>

lemma first_synced_out:
  assumes "\<And>p. pgno (g p) = pgno p" "n \<notin> set ns"
  shows "first_synced (set_page n g s) ns = first_synced s ns"
proof -
  have "pager_lookup (set_page n g s) k = pager_lookup s k" if "k \<in> set ns" for k
  proof -
    have "k \<noteq> n" using that assms(2) by blast
    then show ?thesis using assms(1)
      by (cases "pager_lookup s k") (auto simp: lookup_set_page dest: lookup_mem)
  qed
  then show ?thesis unfolding first_synced_def by (intro find_cong) auto
qed

definition changed :: "nat \<Rightarrow> bool \<Rightarrow> bool \<Rightarrow> (fid \<Rightarrow> ofile) \<Rightarrow> nat \<Rightarrow> disk list \<Rightarrow> int \<Rightarrow> nat \<Rightarrow> bool \<Rightarrow> bool list option \<Rightarrow> pager \<Rightarrow> pager" where
  "changed n j y F x L z r b A s = set_page n (\<lambda>p. p\<lparr>inJournal := j, dirty := True, pgSync := y\<rparr>)
     (s\<lparr>files := F, clock := x, disklog := L, dbSize := z, nRec := r, needSync := b, dirtyFile := True, aInJournal := A\<rparr>)"

lemma changed_ok:
  assumes i: "in_trans a rs D m h J k s" and n: "n \<in> set rs" and F: "content (F DB) = content (files s DB)"
  shows "static (changed n j y F x L z r b A s)" "cache_ok rs (changed n j y F x L z r b A s)"
    "view_ok a (changed n j y F x L z r b A s)" "free_ok (changed n j y F x L z r b A s)"
proof -
  note I = in_transD [OF i]
  let ?u = "s\<lparr>files := F, clock := x, disklog := L, dbSize := z, nRec := r, needSync := b, dirtyFile := True, aInJournal := A\<rparr>"
  let ?g = "\<lambda>p. p\<lparr>inJournal := j, dirty := True, pgSync := y\<rparr>"
  have "static ?u" "cache_ok rs ?u" "free_ok ?u"
    using I(1,2,4) by (simp_all add: static_def cache_ok_def numbered_def free_ok_def first_synced_def pager_lookup_def)
  moreover have "n \<notin> set (pFree ?u)" using cache_okD(7) [OF I(2)] n by auto
  ultimately show "static (changed n j y F x L z r b A s)" "cache_ok rs (changed n j y F x L z r b A s)"
    "free_ok (changed n j y F x L z r b A s)"
    unfolding changed_def by (simp_all add: static_set_page cache_ok_set_page free_ok_def first_synced_out)
  show "view_ok a (changed n j y F x L z r b A s)"
  proof (rule view_okI)
    fix q assume "q \<in> set (pAll (changed n j y F x L z r b A s))"
    then show "pgData q = current a (pgno q)" using view_okD(1) [OF I(3)] by (auto simp: changed_def set_page_def)
  next
    fix l :: nat assume l: "0 < l" "\<And>q. q \<in> set (pAll (changed n j y F x L z r b A s)) \<Longrightarrow> pgno q = l \<Longrightarrow> \<not> dirty q"
    then have "\<forall>q \<in> set (pAll (changed n j y F x L z r b A s)). pgno q = l \<longrightarrow> \<not> dirty q" by blast
    then have "\<forall>q \<in> set (pAll s). (pgno q = n \<longrightarrow> n \<noteq> l) \<and> (pgno q = l \<longrightarrow> l = n \<or> \<not> dirty q)"
      unfolding changed_def by (simp split: if_splits)
    then have "\<forall>q \<in> set (pAll s). pgno q = l \<longrightarrow> \<not> dirty q" by blast
    then show "dbpage (content (files (changed n j y F x L z r b A s) DB)) l = current a l"
      using view_okD(2) [OF I(3) l(1)] F by (simp add: changed_def)
  qed
qed

lemma changed_file:
  assumes f: "file_inv D m J k s" and p: "\<exists>p \<in> set (pAll s). pgno p = n" and n: "n < max_pages" "n \<le> m \<longrightarrow> n \<in> set J'" "set J \<subseteq> set J'"
    and F: "content (F DB) = content (files s DB)" and z: "z = int (max k n)"
  shows "file_inv D m J' (max k n) (changed n j y F x L z r b A s)"
proof -
  note I = file_invD [OF f]
  let ?t = "changed n j y F x L z r b A s"
  have l: "length (content (files s DB)) \<le> N * max k n" using I(6) by (rule order_trans) simp
  have d: "\<forall>p \<in> set (pAll ?t). dirty p \<longrightarrow> pgno p \<le> max k n \<and> (pgno p \<le> m \<longrightarrow> pgno p \<in> set J')"
    unfolding changed_def using I(7) n(2,3) by auto
  have e: "length (content (files s DB)) = N * max k n \<or> (\<exists>p \<in> set (pAll ?t). pgno p = max k n \<and> dirty p)"
  proof (cases "n \<le> k")
    case True
    then have "max k n = k" by simp
    then show ?thesis using I(8) unfolding changed_def by auto
  next
    case False
    then have "max k n = n" by simp
    then show ?thesis using p unfolding changed_def by auto
  qed
  show ?thesis using I(2-5) n(1) l d e F z unfolding file_inv_def by (simp add: changed_def)
qed

lemma changed_journal:
  assumes j: "journal_inv D m h J s" and p: "pager_lookup s n = Some p" "numbered s"
    and F: "F JRN = files s JRN" "content (F DB) = content (files s DB)" and y: "y \<Longrightarrow> \<not> noSync s" "n \<in> set J \<Longrightarrow> y = pgSync p"
    and b: "b = (needSync s \<or> y)"
  shows "journal_inv D m h J (changed n (n \<in> set J) y F x L z (nRec s) b (aInJournal s) s)"
proof -
  note I = journal_invD [OF j]
  let ?t = "changed n (n \<in> set J) y F x L z (nRec s) b (aInJournal s) s"
  have t: "state ?t = state s" "journalOpen ?t = journalOpen s" "jexists ?t = jexists s" "origDbSize ?t = origDbSize s"
    "files ?t JRN = files s JRN" "cksumInit ?t = cksumInit s" "nRec ?t = nRec s" "aInJournal ?t = aInJournal s" "noSync ?t = noSync s"
    "needSync ?t = b" "content (files ?t DB) = content (files s DB)"
    using F by (simp_all add: changed_def)
  have uniq: "q = p" if "q \<in> set (pAll s)" "pgno q = n" for q
    using that p lookup_iff [OF p(2)] by (metis option.inject)
  have "\<forall>q \<in> set (pAll ?t). inJournal q = (pgno q \<in> set J)" unfolding changed_def using I(13) by simp
  moreover have "\<not> b \<longrightarrow> jcount h J = length J \<and> (\<forall>q \<in> set (pAll ?t). \<not> pgSync q)"
    unfolding changed_def using I(16) b by simp
  moreover have "\<exists>q \<in> set (pAll ?t). pgno q = i \<and> pgSync q" if i: "i \<in> set J - set (take (jcount h J) J)" for i
  proof -
    obtain q where q: "q \<in> set (pAll s)" "pgno q = i" "pgSync q" using I(17) i by blast
    have "i = n \<Longrightarrow> y" using y(2) i uniq q by blast
    then show ?thesis unfolding changed_def using q by (simp, intro bexI [of _ q]) auto
  qed
  moreover have "noSync s \<longrightarrow> h = 0xffffffff \<and> \<not> b" using I(14) b y(1) by blast
  ultimately show ?thesis using I unfolding journal_inv_def t by simp
qed

lemma jcontent_snoc: "jcontent h c m D (J @ [n]) = jcontent h c m D J @ jrecord c D n"
  by (simp add: jcontent_def)

lemma appended_journal:
  assumes j: "journal_inv D m h J s" and n: "0 < n" "n \<le> m" "n \<notin> set J"
    and F: "F JRN = \<lparr>content = jcontent h (cksumInit s) m D (J @ [n]), offs = 20 + Suc (length J) * (N + 8)\<rparr>" "content (F DB) = content (files s DB)"
    and p: "\<exists>p \<in> set (pAll s). pgno p = n"
    and b: "b = (needSync s \<or> \<not> noSync s)" and A: "aInJournal s = Some bs" "A = Some (bs[n := True])"
  shows "journal_inv D m h (J @ [n]) (changed n True (\<not> noSync s) F x L z (Suc (nRec s)) b A s)"
proof -
  note I = journal_invD [OF j]
  let ?t = "changed n True (\<not> noSync s) F x L z (Suc (nRec s)) b A s"
  let ?J = "J @ [n]"
  have t: "state ?t = state s" "journalOpen ?t = journalOpen s" "jexists ?t = jexists s" "origDbSize ?t = origDbSize s"
    "files ?t JRN = F JRN" "cksumInit ?t = cksumInit s" "nRec ?t = Suc (nRec s)" "aInJournal ?t = A" "noSync ?t = noSync s"
    "needSync ?t = b" "content (files ?t DB) = content (files s DB)"
    using F(2) by (simp_all add: changed_def)
  have bits: "\<exists>bs. A = Some bs \<and> m < length bs \<and> (\<forall>i \<le> m. bs ! i = (i \<in> set ?J))"
  proof -
    have "m < length bs" "\<forall>i \<le> m. bs ! i = (i \<in> set J)" using I(12) A(1) by auto
    then show ?thesis using n(2) by (intro exI [of _ "bs[n := True]"]) (simp add: A(2) nth_list_update)
  qed
  have inj: "\<forall>q \<in> set (pAll ?t). inJournal q = (pgno q \<in> set ?J)" unfolding changed_def using I(13) by simp
  have cnt: "count_ok h ?J" using I(11) by (auto simp: count_ok_def)
  have sub: "set (take (jcount h J) J) \<subseteq> set (take (jcount h ?J) ?J)"
    using I(11) by (auto simp: jcount_def count_ok_def)
  have ns: "\<not> b \<longrightarrow> jcount h ?J = length ?J \<and> (\<forall>q \<in> set (pAll ?t). \<not> pgSync q)"
  proof
    assume nb: "\<not> b"
    then have "h = 0xffffffff" "\<forall>q \<in> set (pAll s). \<not> pgSync q" "noSync s" using b I(14,16) by blast+
    then show "jcount h ?J = length ?J \<and> (\<forall>q \<in> set (pAll ?t). \<not> pgSync q)" unfolding changed_def by (simp add: jcount_def)
  qed
  have pend: "\<exists>q \<in> set (pAll ?t). pgno q = i \<and> pgSync q" if i: "i \<in> set ?J - set (take (jcount h ?J) ?J)" for i
  proof -
    have nos: "\<not> noSync s" using i I(14) by (auto simp: jcount_def)
    show ?thesis
    proof (cases "i = n")
      case True
      then show ?thesis unfolding changed_def using p nos by auto
    next
      case False
      then have "i \<in> set J - set (take (jcount h J) J)" using i sub by auto
      then obtain q where q: "q \<in> set (pAll s)" "pgno q = i" "pgSync q" using I(17) by blast
      then show ?thesis unfolding changed_def using False by auto
    qed
  qed
  have agr: "agrees m D (set (take (jcount h ?J) ?J)) (content (files s DB))" using I(18) sub by (auto simp: agrees_def)
  have nb: "noSync s \<longrightarrow> h = 0xffffffff \<and> \<not> b" using I(14) b by blast
  show ?thesis
    unfolding journal_inv_def t F(1)
    using I(1-5,8-10,15) n bits inj cnt ns pend agr nb by simp
qed

subsection \<open>Writing the page to the journal\<close>

text \<open>What \<open>sqlitepager_write\<close> does once a transaction is under way.\<close>

definition write_tail :: "sysenv \<Rightarrow> nat \<Rightarrow> pager \<Rightarrow> (int \<times> pager) option" where
  "write_tail e n s =
     do { (ret, rc, s) \<leftarrow> write_journal e n (s\<lparr>dirtyFile := True\<rparr>);
          if ret then Some (rc, s)
          else do { (ret, rc, s) \<leftarrow> write_ckpt e n s;
                    if ret then Some (rc, s)
                    else Some (rc, if dbSize s < int n then s\<lparr>dbSize := int n\<rparr> else s) } }"

lemma lookup_updates [simp]:
  "pager_lookup (s\<lparr>dirtyFile := a\<rparr>) n = pager_lookup s n" "pager_lookup (s\<lparr>files := F\<rparr>) n = pager_lookup s n"
  "pager_lookup (s\<lparr>clock := k\<rparr>) n = pager_lookup s n" "pager_lookup (s\<lparr>disklog := l\<rparr>) n = pager_lookup s n"
  "pager_lookup (s\<lparr>nRec := r\<rparr>) n = pager_lookup s n" "pager_lookup (s\<lparr>aInJournal := A\<rparr>) n = pager_lookup s n"
  "pager_lookup (s\<lparr>needSync := b\<rparr>) n = pager_lookup s n" "pager_lookup (s\<lparr>dbSize := z\<rparr>) n = pager_lookup s n"
  by (simp_all add: pager_lookup_def)

lemma changed_compose:
  "(\<And>p. pgno p = n \<Longrightarrow> f (p\<lparr>dirty := True\<rparr>) = p\<lparr>inJournal := j, dirty := True, pgSync := y\<rparr>) \<Longrightarrow>
   map (\<lambda>p. if pgno p = n then f p else p) (map (\<lambda>p. if pgno p = n then p\<lparr>dirty := True\<rparr> else p) ps) =
   map (\<lambda>p. if pgno p = n then p\<lparr>inJournal := j, dirty := True, pgSync := y\<rparr> else p) ps"
  by auto

lemma tail_append:
  assumes rel: "reliable e" and p: "pager_lookup s n = Some p" "\<not> inJournal p" and st: "static s" and je: "jexists s"
    and o: "int n \<le> origDbSize s" "\<not> dbSize s < int n" "aInJournal s = Some bs" "n < length bs"
    and F: "F = \<lparr>content = file_write (content (files s JRN)) (offs (files s JRN)) (journal_record s n (pgData p)),
                 offs = offs (files s JRN) + length (journal_record s n (pgData p))\<rparr>"
  shows "write_tail e n (set_page n (\<lambda>p. p\<lparr>dirty := True\<rparr>) s) = Some (SQLITE_OK,
    changed n True (\<not> noSync s) ((files s)(JRN := F)) (Suc (clock s)) ((content (files s DB), Some (content F)) # disklog s)
      (dbSize s) (Suc (nRec s)) (needSync s \<or> \<not> noSync s) (Some (bs[n := True])) s)"
proof -
  have n: "pgno p = n" using lookup_mem [OF p(1)] by simp
  have r: "journal_record (t\<lparr>dirtyFile := b\<rparr>) n d = journal_record t n d" "journal_record (set_page n g t) n d = journal_record t n d"
    for t b d g by (simp_all add: journal_record_def pager_cksum_def)
  show ?thesis
    using rel p n je staticD [OF st] o
    by (simp add: write_tail_def write_journal_def write_ckpt_def lookup_set_page os_write_ok set_bit_of_def logged_def r F on_disk_def)
      (simp add: changed_def set_page_def changed_compose)
qed

lemma cached_unique:
  "numbered s \<Longrightarrow> pager_lookup s n = Some p \<Longrightarrow> q \<in> set (pAll s) \<Longrightarrow> pgno q = n \<Longrightarrow> q = p"
  using lookup_iff [of s n q] by auto

lemma tail_new:
  assumes p: "pager_lookup s n = Some p" "\<not> inJournal p" "numbered s" and st: "static s" and o: "origDbSize s < int n"
  shows "\<exists>y. write_tail e n (set_page n (\<lambda>p. p\<lparr>dirty := True\<rparr>) s) = Some (SQLITE_OK,
    changed n False y (files s) (clock s) (disklog s) (if dbSize s < int n then int n else dbSize s) (nRec s) (needSync s \<or> y) (aInJournal s) s)
    \<and> (y \<longrightarrow> \<not> noSync s)"
proof -
  have n: "pgno p = n" using lookup_mem [OF p(1)] by simp
  have q: "\<And>q. q \<in> set (pAll s) \<Longrightarrow> pgno q = n \<Longrightarrow> q\<lparr>dirty := True, pgSync := y\<rparr> = q\<lparr>inJournal := False, dirty := True, pgSync := y\<rparr>" for y
    using cached_unique [OF p(3,1)] p(2) by (cases p) auto
  have m: "map ((\<lambda>p. if pgno p = n then p\<lparr>pgSync := y\<rparr> else p) \<circ> (\<lambda>p. if pgno p = n then p\<lparr>dirty := True\<rparr> else p)) (pAll s) =
    map (\<lambda>p. if pgno p = n then p\<lparr>inJournal := False, dirty := True, pgSync := y\<rparr> else p) (pAll s)" for y
    by (rule map_cong [OF refl]) (use q in auto)
  show ?thesis
    using p n staticD [OF st] o
    by (intro exI [of _ "\<not> journalStarted s \<and> \<not> noSync s"])
      (simp add: write_tail_def write_journal_def write_ckpt_def lookup_set_page, simp add: changed_def set_page_def m)
qed

lemma changed_dirty:
  assumes "\<exists>p \<in> set (pAll s). pgno p = n"
  shows "(\<exists>q \<in> set (pAll (changed n j y F x L z r b A s)). pgno q = i \<and> dirty q) \<longleftrightarrow>
    i = n \<or> (\<exists>q \<in> set (pAll s). pgno q = i \<and> dirty q)"
  unfolding changed_def using assms by (simp, metis)

text \<open>What the client sees of a page made writable.\<close>

definition made_dirty :: "nat \<Rightarrow> pager \<Rightarrow> pager \<Rightarrow> bool" where
  "made_dirty n s t \<longleftrightarrow> (\<forall>i. (\<exists>q \<in> set (pAll t). pgno q = i \<and> dirty q) \<longleftrightarrow> i = n \<or> (\<exists>q \<in> set (pAll s). pgno q = i \<and> dirty q))"

lemma changed_trans:
  assumes i: "in_trans a rs D m h J k s" and p: "pager_lookup s n = Some p" and n: "n \<in> set rs" "n \<le> m \<longrightarrow> n \<in> set J'" "set J \<subseteq> set J'"
    and F: "content (F DB) = content (files s DB)" and z: "z = int (max k n)"
    and j: "journal_inv D m h J' (changed n j y F x L z r b A s)"
  shows "in_trans a rs D m h J' (max k n) (changed n j y F x L z r b A s)" "made_dirty n s (changed n j y F x L z r b A s)"
proof -
  have q: "\<exists>p \<in> set (pAll s). pgno p = n" "n < max_pages"
    using lookup_mem [OF p] cache_okD(2) [OF in_transD(2) [OF i]] by auto
  show "in_trans a rs D m h J' (max k n) (changed n j y F x L z r b A s)"
    using changed_ok [where F = F, OF i n(1) F] changed_file [where F = F, OF in_transD(6) [OF i] q n(2,3) F z] j by (simp add: in_trans_def)
  show "made_dirty n s (changed n j y F x L z r b A s)" using changed_dirty [OF q(1)] by (simp add: made_dirty_def)
qed

lemma tail_ok:
  assumes rel: "reliable e" and i: "in_trans a rs D m h J k s" and p: "pager_lookup s n = Some p" "\<not> inJournal p" and n: "n \<in> set rs"
  shows "\<exists>t J'. write_tail e n (set_page n (\<lambda>p. p\<lparr>dirty := True\<rparr>) s) = Some (SQLITE_OK, t) \<and>
    in_trans a rs D m h J' (max k n) t \<and> logs (safe D) s t \<and> made_dirty n s t"
proof -
  note I = in_transD [OF i]
  note J = journal_invD [OF I(5)] and F = file_invD [OF I(6)] and C = cache_okD [OF I(2)]
  have q: "p \<in> set (pAll s)" "pgno p = n" using lookup_mem [OF p(1)] by simp_all
  have n0: "0 < n" "n < max_pages" using C(2) q by auto
  have nJ: "n \<notin> set J" using J(13) p(2) q by blast
  show ?thesis
  proof (cases "n \<le> m")
    case True
    have nd: "\<not> dirty p" using F(7) q True nJ by blast
    have "dbpage (content (files s DB)) n = dbpage D n"
      using J(18) True n0(1) nJ in_set_takeD [of n "jcount h J" J] by (auto simp: agrees_def)
    moreover have "dbpage (content (files s DB)) n = current a n"
      by (rule view_okD(2) [OF I(3) n0(1)]) (use nd cached_unique [OF C(1) p(1)] in blast)
    ultimately have d: "pgData p = dbpage D n" using view_okD(1) [OF I(3) q(1)] q(2) by simp
    obtain bs where bs: "aInJournal s = Some bs" "m < length bs" using J(12) by blast
    define G where "G = \<lparr>content = jcontent h (cksumInit s) m D (J @ [n]), offs = 20 + Suc (length J) * (N + 8)\<rparr>"
    have rec: "journal_record s n (pgData p) = jrecord (cksumInit s) D n"
      by (simp add: journal_record_def jrecord_def d pager_cksum_def)
    have G: "G = \<lparr>content = file_write (content (files s JRN)) (offs (files s JRN)) (journal_record s n (pgData p)),
        offs = offs (files s JRN) + length (journal_record s n (pgData p))\<rparr>"
      unfolding G_def rec J(6,7) jcontent_snoc by (simp add: file_write_append)
    have ns: "\<not> dbSize s < int n" using F(1,2) True by simp
    define t where "t = changed n True (\<not> noSync s) ((files s)(JRN := G)) (Suc (clock s)) ((content (files s DB), Some (content G)) # disklog s)
      (dbSize s) (Suc (nRec s)) (needSync s \<or> \<not> noSync s) (Some (bs[n := True])) s"
    have w: "write_tail e n (set_page n (\<lambda>p. p\<lparr>dirty := True\<rparr>) s) = Some (SQLITE_OK, t)"
      unfolding t_def by (rule tail_append [OF rel p I(1) J(3) _ ns bs(1) _ G]) (use True J(4) bs(2) in simp_all)
    have jt: "journal_inv D m h (J @ [n]) t"
      unfolding t_def by (rule appended_journal [OF I(5) n0(1) True nJ _ _ _ _ bs(1)]) (use q in \<open>auto simp: G_def\<close>)
    have "in_trans a rs D m h (J @ [n]) (max k n) t" "made_dirty n s t"
      using changed_trans [OF i p(1) n _ _ _ _ jt [unfolded t_def]] F(1,2) True by (auto simp: t_def)
    moreover have "logs (safe D) s t"
    proof (rule logs_one)
      show "disklog t = (content (files s DB), Some (content G)) # disklog s" by (simp add: t_def changed_def)
      show "safe D (content (files s DB), Some (content G))"
        by (rule journal_safe [OF jt]) (use journal_invD(18) [OF jt] in \<open>simp_all add: t_def changed_def G_def\<close>)
    qed
    ultimately show ?thesis using w by blast
  next
    case False
    then have o: "origDbSize s < int n" using J(4) by simp
    obtain y where y: "write_tail e n (set_page n (\<lambda>p. p\<lparr>dirty := True\<rparr>) s) = Some (SQLITE_OK,
        changed n False y (files s) (clock s) (disklog s) (if dbSize s < int n then int n else dbSize s) (nRec s) (needSync s \<or> y) (aInJournal s) s)"
      "y \<longrightarrow> \<not> noSync s" using tail_new [OF p C(1) I(1) o] by blast
    define t where "t = changed n False y (files s) (clock s) (disklog s) (if dbSize s < int n then int n else dbSize s) (nRec s)
      (needSync s \<or> y) (aInJournal s) s"
    have jt: "journal_inv D m h J t"
      using changed_journal [OF I(5) p(1) C(1), of "files s" y "needSync s \<or> y"] nJ y(2) by (simp add: t_def)
    have "in_trans a rs D m h J (max k n) t" "made_dirty n s t"
      using changed_trans [OF i p(1) n _ _ _ _ jt [unfolded t_def]] F(1) False by (auto simp: t_def)
    moreover have "logs (safe D) s t" by (rule logs_refl) (simp add: t_def changed_def)
    ultimately show ?thesis using y(1) unfolding t_def [symmetric] by blast
  qed
qed

subsection \<open>Begin and write\<close>

lemma view_ok_current: "current b = current a \<Longrightarrow> view_ok b s = view_ok a s"
  by (simp add: view_ok_def)

lemma writing_intro:
  assumes i: "in_trans a (refs a) (committed a) m h J k t" and b: "refs b = refs a" "current b = current a" "committed b = committed a" "pages b = k"
    and r: "refs a \<noteq> []" and w: "\<forall>n \<in> writable b. n \<in> set (refs a) \<and> (\<exists>p \<in> set (pAll t). pgno p = n \<and> dirty p)"
  shows "phase_inv Writing b t"
  using in_transD [OF i] b r w view_ok_current [OF b(2), of t] unfolding phase_inv.simps writing_inv_def by auto

lemma held_page:
  assumes "cache_ok rs s" "n \<in> set rs"
  obtains p where "pager_lookup s n = Some p" "0 < pgRef p" "p \<in> set (pAll s)" "pgno p = n"
proof -
  have "n \<in> pgno ` set (pAll s)" using assms by (auto simp: cache_ok_def)
  then obtain p where "pager_lookup s n = Some p" "pgRef p = count_list rs n" "p \<in> set (pAll s)" "pgno p = n"
    using cache_lookup [OF assms(1)] by blast
  then show ?thesis using that assms(2) count_zero [of rs n] by force
qed

lemma begun_set_page: "begun c m k L (set_page n g s) = set_page n g (begun c m k L s)"
  by (simp add: begun_def set_page_def)

lemma begin_reading_ok:
  assumes rel: "reliable e" and w: "phase_inv Reading a s" and n: "n \<in> set (refs a)"
  shows "\<exists>t. sqlitepager_begin e n s = Some (SQLITE_OK, t) \<and> phase_inv Writing (a\<lparr>phase := Writing\<rparr>) t \<and> logs (safe (committed a)) s t"
proof -
  have I: "static s" "cache_ok (refs a) s" "view_ok a s" "reading_inv a s" "refs a \<noteq> []" "free_ok s" using w by simp_all
  note R = reading_invD [OF I(4)]
  obtain p where p: "pager_lookup s n = Some p" "0 < pgRef p" using held_page [OF I(2) n] by blast
  obtain c k L where b: "sqlitepager_begin e n s = Some (SQLITE_OK, begun c (pages a) k L s)" "\<forall>d \<in> set L. safe (committed a) d"
    using begin_ok [OF rel I(1) p R(1-4,7,5)] R(6) unfolding size_ok_def by blast
  obtain h where "in_trans a (refs a) (committed a) (pages a) h [] (pages a) (begun c (pages a) k L s)"
    using begun_trans [OF I(1-3,6,4)] by blast
  then have "phase_inv Writing (a\<lparr>phase := Writing\<rparr>) (begun c (pages a) k L s)"
    by (rule writing_intro) (use I(5) R(9) in simp_all)
  moreover have "logs (safe (committed a)) s (begun c (pages a) k L s)"
    unfolding logs_def by (intro exI [of _ L]) (use b(2) in \<open>simp add: begun_def\<close>)
  ultimately show ?thesis using b(1) by blast
qed

lemma begin_writing_ok:
  assumes w: "phase_inv Writing a s" and n: "n \<in> set (refs a)"
  shows "sqlitepager_begin e n s = Some (SQLITE_OK, s)"
proof -
  obtain m h J where i: "in_trans a (refs a) (committed a) m h J (pages a) s" using writing_trans [OF w] .
  obtain p where p: "pager_lookup s n = Some p" "0 < pgRef p" using held_page [OF in_transD(2) [OF i] n] by blast
  then show ?thesis using journal_invD(1) [OF in_transD(5) [OF i]] by (simp add: sqlitepager_begin_def)
qed

definition write_store :: "nat \<Rightarrow> store \<Rightarrow> store" where
  "write_store n a = a\<lparr>phase := Writing, pages := max (pages a) n, writable := insert n (writable a)\<rparr>"

lemma write_tail_writing:
  assumes rel: "reliable e" and i: "in_trans a (refs a) (committed a) m h J (pages a) u" and p: "pager_lookup u n = Some p" "\<not> inJournal p"
    and n: "n \<in> set (refs a)" and r: "refs a \<noteq> []"
    and w: "\<forall>n \<in> writable a. n \<in> set (refs a) \<and> (\<exists>p \<in> set (pAll u). pgno p = n \<and> dirty p)"
  shows "\<exists>t. write_tail e n (set_page n (\<lambda>p. p\<lparr>dirty := True\<rparr>) u) = Some (SQLITE_OK, t) \<and>
    phase_inv Writing (write_store n a) t \<and> logs (safe (committed a)) u t"
proof -
  obtain t J' where t: "write_tail e n (set_page n (\<lambda>p. p\<lparr>dirty := True\<rparr>) u) = Some (SQLITE_OK, t)"
    "in_trans a (refs a) (committed a) m h J' (max (pages a) n) t" "logs (safe (committed a)) u t" "made_dirty n u t"
    using tail_ok [OF rel i p n] by blast
  have "phase_inv Writing (write_store n a) t"
    by (rule writing_intro [OF t(2)]) (use t(4) w n r in \<open>auto simp: write_store_def made_dirty_def\<close>)
  then show ?thesis using t(1,3) by blast
qed

lemma write_reading_ok:
  assumes rel: "reliable e" and w: "phase_inv Reading a s" and n: "n \<in> set (refs a)"
  shows "\<exists>t. sqlitepager_write e n s = Some (SQLITE_OK, t) \<and> phase_inv Writing (write_store n a) t \<and> logs (safe (committed a)) s t"
proof -
  have I: "static s" "cache_ok (refs a) s" "view_ok a s" "reading_inv a s" "refs a \<noteq> []" "free_ok s" using w by simp_all
  note R = reading_invD [OF I(4)] and T = staticD [OF I(1)]
  obtain p where p: "pager_lookup s n = Some p" "0 < pgRef p" "p \<in> set (pAll s)" "pgno p = n" using held_page [OF I(2) n] by blast
  let ?d = "\<lambda>p. p\<lparr>dirty := True\<rparr>"
  have st: "static (set_page n ?d s)" using I(1) by (simp add: static_set_page)
  have lk: "pager_lookup (set_page n ?d s) n = Some (p\<lparr>dirty := True\<rparr>)" using p by (simp add: lookup_set_page)
  obtain c k L where b: "sqlitepager_begin e n (set_page n ?d s) = Some (SQLITE_OK, begun c (pages a) k L (set_page n ?d s))"
    "\<forall>d \<in> set L. safe (committed a) d"
    using begin_ok [OF rel st lk, of "pages a" "committed a"] p(2) R R(6) [unfolded size_ok_def] by auto
  define u where "u = begun c (pages a) k L s"
  obtain h where i: "in_trans a (refs a) (committed a) (pages a) h [] (pages a) u"
    unfolding u_def using begun_trans [OF I(1-3,6,4)] by blast
  have pu: "pager_lookup u n = Some p" "\<not> inJournal p" using p R(8) by (simp_all add: u_def begun_def pager_lookup_def)
  have lu: "logs (safe (committed a)) s u"
    unfolding logs_def by (intro exI [of _ L]) (use b(2) in \<open>simp add: u_def begun_def\<close>)
  obtain t where t: "write_tail e n (set_page n ?d u) = Some (SQLITE_OK, t)" "phase_inv Writing (write_store n a) t" "logs (safe (committed a)) u t"
    using write_tail_writing [OF rel i pu n I(5)] R(9) by auto
  have "sqlitepager_write e n s = write_tail e n (set_page n ?d u)"
    using p(1) pu(2) T R(1) b(1) unfolding u_def begun_set_page
    by (simp add: sqlitepager_write_def write_tail_def) (simp add: begun_def)
  then show ?thesis using t logs_trans [OF lu t(3)] by auto
qed

lemma write_writing_ok:
  assumes rel: "reliable e" and w: "phase_inv Writing a s" and n: "n \<in> set (refs a)"
  shows "\<exists>t. sqlitepager_write e n s = Some (SQLITE_OK, t) \<and> phase_inv Writing (write_store n a) t \<and> logs (safe (committed a)) s t"
proof -
  obtain m h J where i: "in_trans a (refs a) (committed a) m h J (pages a) s" "refs a \<noteq> []"
    and wr: "\<forall>n \<in> writable a. n \<in> set (refs a) \<and> (\<exists>p \<in> set (pAll s). pgno p = n \<and> dirty p)" using writing_trans [OF w] .
  note I = in_transD [OF i(1)]
  note J = journal_invD [OF I(5)] and F = file_invD [OF I(6)] and T = staticD [OF I(1)]
  obtain p where p: "pager_lookup s n = Some p" "0 < pgRef p" "p \<in> set (pAll s)" "pgno p = n" using held_page [OF I(2) n] by blast
  let ?d = "\<lambda>p. p\<lparr>dirty := True\<rparr>"
  show ?thesis
  proof (cases "inJournal p")
    case True
    have nJ: "n \<in> set J" "n \<le> m" using J(10,13) p True by blast+
    then have mx: "max (pages a) n = pages a" using F(2) by simp
    define t where "t = (set_page n ?d s)\<lparr>dirtyFile := True\<rparr>"
    have q: "q\<lparr>dirty := True\<rparr> = q\<lparr>inJournal := True, dirty := True, pgSync := pgSync p\<rparr>" if "q \<in> set (pAll s)" "pgno q = n" for q
      using cached_unique [OF cache_okD(1) [OF I(2)] p(1) that] True by (cases p) simp
    have m: "map (\<lambda>p. if pgno p = n then p\<lparr>dirty := True\<rparr> else p) (pAll s) =
      map (\<lambda>q. if pgno q = n then q\<lparr>inJournal := True, dirty := True, pgSync := pgSync p\<rparr> else q) (pAll s)"
      by (rule map_cong [OF refl]) (use q in auto)
    have ns: "pgSync p \<Longrightarrow> needSync s" "pgSync p \<Longrightarrow> \<not> noSync s" using J(14,16) p(3) by blast+
    have tc: "t = changed n (n \<in> set J) (pgSync p) (files s) (clock s) (disklog s) (dbSize s) (nRec s) (needSync s) (aInJournal s) s"
      using nJ(1) by (simp add: t_def changed_def set_page_def m)
    have b: "needSync s = (needSync s \<or> pgSync p)" using ns(1) by blast
    have jt: "journal_inv (committed a) m h J t"
      unfolding tc by (rule changed_journal [OF I(5) p(1) cache_okD(1) [OF I(2)] refl refl ns(2) _ b]) simp_all
    have t: "in_trans a (refs a) (committed a) m h J (max (pages a) n) t" "made_dirty n s t"
      using changed_trans [OF i(1) p(1) n _ _ _ _ jt [unfolded tc]] F(1) nJ mx by (auto simp: tc)
    have "phase_inv Writing (write_store n a) t"
      by (rule writing_intro [OF t(1)]) (use t(2) wr n i(2) in \<open>auto simp: write_store_def made_dirty_def\<close>)
    moreover have "sqlitepager_write e n s = Some (SQLITE_OK, t)"
      using p(1) True T by (simp add: sqlitepager_write_def t_def)
    moreover have "logs (safe (committed a)) s t" by (rule logs_refl) (simp add: t_def)
    ultimately show ?thesis by blast
  next
    case False
    obtain t where t: "write_tail e n (set_page n ?d s) = Some (SQLITE_OK, t)" "phase_inv Writing (write_store n a) t" "logs (safe (committed a)) s t"
      using write_tail_writing [OF rel i(1) p(1) False n i(2) wr] by blast
    have "sqlitepager_begin e n (set_page n ?d s) = Some (SQLITE_OK, set_page n ?d s)"
      using p J(1) by (simp add: sqlitepager_begin_def lookup_set_page)
    then have "sqlitepager_write e n s = write_tail e n (set_page n ?d s)"
      using p(1) False T J(1,2) by (simp add: sqlitepager_write_def write_tail_def)
    then show ?thesis using t by auto
  qed
qed

end
