(* ===== verification/Pager_Fetch.thy ===== *)
theory Pager_Fetch
  imports Pager_Dirty
begin

text \<open>
  Taking a page into the cache, in a new structure or in that of a page that nobody uses, which is written first if it is
  dirty: no phase of a transaction notices.
\<close>

subsection \<open>A structure for the page\<close>

lemma new_slot:
  assumes rel: "reliable e" and c: "cache_ok rs s" and f: "free_ok s" and n: "n \<notin> pgno ` set (pAll s)"
  shows "\<exists>q u. new_page e n s = Some (SQLITE_OK, u) \<and> slot q {} s u \<and> pgno q = n"
proof -
  define q where "q = \<lparr>pgno = n, pgRef = 0, inJournal = False, inCkpt = False, dirty = False, pgSync = False, pgAlways = False,
    pgData = map (fresh e (Suc (clock s))) [0..<N], pgExtra = []\<rparr>"
  define u where "u = s\<lparr>clock := Suc (clock s), pAll := q # pAll s, nPage := Suc (nPage s)\<rparr>"
  have "new_page e n s = Some (SQLITE_OK, u)" using rel by (simp add: new_page_def os_call_ok u_def q_def)
  moreover have "slot q {} s u"
    using cache_okD [OF c] f n unfolding slot_def by (simp add: u_def q_def numbered_def free_ok_def)
  ultimately show ?thesis by (intro exI [of _ q] exI [of _ u]) (simp add: q_def)
qed

text \<open>\<open>recycle_page\<close> once there is a page in the free list that needs no sync.\<close>

definition recycle_rest :: "sysenv \<Rightarrow> nat \<Rightarrow> pager \<Rightarrow> (int \<times> pager) option" where
  "recycle_rest e n s =
     do { old \<leftarrow> (case pFirstSynced s of Some k \<Rightarrow> Some k | None \<Rightarrow> (case pFree s of [] \<Rightarrow> None | k # _ \<Rightarrow> Some k));
          p \<leftarrow> pager_lookup s old;
          guard (pgRef p = 0);
          (rc, s) \<leftarrow> (if dirty p then do { guard (\<not> pgSync p); pager_write_pagelist e [old] s } else Some (SQLITE_OK, s));
          if rc \<noteq> SQLITE_OK
          then do { (_, s) \<leftarrow> sqlitepager_rollback e s; Some (SQLITE_IOERR, s) }
          else do {
            let s = (if pgAlways p then s\<lparr>alwaysRollback := True\<rparr> else s);
            guard (old \<in> set (pFree s));
            Some (SQLITE_OK, rename_page old n (unlink_free old s)) } }"

lemma recycle_unfold:
  "pFirstSynced s = Some k \<Longrightarrow> recycle_page e n s = recycle_rest e n s"
  "pFirstSynced s = None \<Longrightarrow> syncJournal e s = Some (SQLITE_OK, t) \<Longrightarrow> recycle_page e n s = recycle_rest e n t"
  by (simp_all add: recycle_page_def recycle_rest_def)

lemma free_page:
  assumes c: "cache_ok rs s" and f: "free_ok s" and o: "pFirstSynced s = Some old"
  obtains p where "pager_lookup s old = Some p" "p \<in> set (pAll s)" "pgno p = old" "pgRef p = 0" "\<not> pgSync p" "old \<in> set (pFree s)" "old \<notin> set rs"
proof -
  have fs: "first_synced s (pFree s) = Some old" using f o by (simp add: free_ok_def)
  then have m: "old \<in> set (pFree s)" "\<exists>p. pager_lookup s old = Some p \<and> \<not> pgSync p"
    unfolding first_synced_def by (auto simp: find_Some_iff split: option.splits)
  then obtain p where p: "pager_lookup s old = Some p" "\<not> pgSync p" by blast
  have "old \<notin> set rs" using m(1) cache_okD(7) [OF c] by blast
  moreover have "pgRef p = count_list rs old" using lookup_mem [OF p(1)] cache_okD(3) [OF c] by blast
  ultimately show ?thesis using that p m(1) lookup_mem [OF p(1)] count_zero [of rs old] by simp
qed

lemma rename_slot:
  assumes c: "cache_ok rs s" and f: "free_ok s" and st: "static s" and p: "pager_lookup s old = Some p" "pgRef p = 0" "\<not> dirty p" "\<not> pgSync p"
    and n: "n \<notin> pgno ` set (pAll s)"
  shows "slot (p\<lparr>pgno := n\<rparr>) {old} s (rename_page old n (unlink_free old (if b then s\<lparr>alwaysRollback := True\<rparr> else s)))"
proof -
  note C = cache_okD [OF c]
  let ?s = "if b then s\<lparr>alwaysRollback := True\<rparr> else s"
  let ?u = "rename_page old n (unlink_free old ?s)"
  have q: "p \<in> set (pAll s)" "pgno p = old" using lookup_mem [OF p(1)] by simp_all
  have uniq: "x = p" if "x \<in> set (pAll s)" "pgno x = old" for x using cached_unique [OF C(1) p(1) that] .
  have all: "pAll ?u = map (\<lambda>p. if pgno p = old then p\<lparr>pgno := n\<rparr> else p) (pAll s)" by (simp add: rename_page_def)
  have "map pgno (pAll ?u) = map (\<lambda>k. if k = old then n else k) (map pgno (pAll s))" unfolding all by simp
  moreover have "distinct (map (\<lambda>k. if k = old then n else k) (map pgno (pAll s)))"
    using C(1) n unfolding numbered_def by (subst distinct_map) (auto simp: inj_on_def)
  ultimately have num: "numbered ?u" by (simp add: numbered_def)
  have set: "set (pAll ?u) = insert (p\<lparr>pgno := n\<rparr>) {x \<in> set (pAll s). pgno x \<notin> {old}}"
  proof -
    let ?f = "\<lambda>x. if pgno x = old then x\<lparr>pgno := n\<rparr> else x"
    have a: "set (pAll s) = insert p {x \<in> set (pAll s). pgno x \<notin> {old}}" using q uniq by blast
    have "set (pAll ?u) = ?f ` set (pAll s)" unfolding all by (rule list.set_map)
    also have "\<dots> = insert (?f p) (?f ` {x \<in> set (pAll s). pgno x \<notin> {old}})" by (subst a) (rule image_insert)
    also have "?f ` {x \<in> set (pAll s). pgno x \<notin> {old}} = id ` {x \<in> set (pAll s). pgno x \<notin> {old}}"
      by (rule image_cong [OF refl]) simp
    finally show ?thesis using q(2) by simp
  qed
  have "free_ok (unlink_free old s)" by (rule unlink_free_ok [OF f C(6)])
  then have fs: "pFirstSynced (unlink_free old s) = first_synced s (remove1 old (pFree s))"
    by (simp add: free_ok_def first_synced_def pager_lookup_def)
  have us: "unlink_free old s = s\<lparr>pFirstSynced := first_synced s (remove1 old (pFree s)), pFree := remove1 old (pFree s)\<rparr>"
    using unlink_free_fields [of old s] fs by simp
  have ul: "unlink_free old ?s = (unlink_free old s)\<lparr>alwaysRollback := (b \<or> alwaysRollback s)\<rparr>"
    by (simp add: unlink_free_def Let_def first_synced_def pager_lookup_def)
  have x: "\<forall>x \<in> set (pAll s). pgno x \<in> {old} \<longrightarrow> \<not> dirty x \<and> \<not> pgSync x \<and> pgRef x = 0" using uniq p by blast
  have T: "\<not> inCkpt p" "pCkpt s = []" "length (pgData p) = N" using staticD [OF st] q C(2) by blast+
  show ?thesis
    unfolding slot_def set
    using num C(5,6) n x T unfolding ul us by (simp add: rename_page_def)
qed

lemma rest_clean:
  assumes c: "cache_ok rs s" and f: "free_ok s" and st: "static s" and o: "pFirstSynced s = Some old" "\<not> dirty_page s old"
    and n: "n \<notin> pgno ` set (pAll s)"
  shows "\<exists>q u. recycle_rest e n s = Some (SQLITE_OK, u) \<and> slot q {old} s u \<and> pgno q = n"
proof -
  obtain p where p: "pager_lookup s old = Some p" "p \<in> set (pAll s)" "pgno p = old" "pgRef p = 0" "\<not> pgSync p" "old \<in> set (pFree s)"
    using free_page [OF c f o(1)] by blast
  have d: "\<not> dirty p" using o(2) p unfolding dirty_page_def by blast
  have "recycle_rest e n s = Some (SQLITE_OK, rename_page old n (unlink_free old (if pgAlways p then s\<lparr>alwaysRollback := True\<rparr> else s)))"
    using p d o(1) by (simp add: recycle_rest_def)
  then show ?thesis using rename_slot [OF c f st p(1,4) d p(5) n] by (intro exI conjI) (assumption, assumption, simp)
qed

subsection \<open>While nobody writes\<close>

lemma reading_slot:
  assumes rel: "reliable e" and c: "cache_ok rs s" and f: "free_ok s" and st: "static s" and r: "reading_inv a s"
    and n: "n \<notin> pgno ` set (pAll s)"
  shows "\<exists>q X u. (if nPage s < mxPage s \<or> pFree s = [] then new_page e n s else recycle_page e n s) = Some (SQLITE_OK, u) \<and>
    slot q X s u \<and> pgno q = n"
proof (cases "nPage s < mxPage s \<or> pFree s = []")
  case True
  then show ?thesis using new_slot [OF rel c f n] by auto
next
  case False
  note R = reading_invD [OF r]
  obtain k ks where k: "pFree s = k # ks" using False by (cases "pFree s") auto
  have "\<forall>p \<in> set (pAll s). \<not> pgSync p" using R(8) by blast
  then have o: "pFirstSynced s = Some k" using first_synced_all [OF c] f k by (simp add: free_ok_def)
  have "\<not> dirty_page s k" using R(8) by (auto simp: dirty_page_def)
  then show ?thesis using rest_clean [OF c f st o _ n] False recycle_unfold(1) [OF o] by simp blast
qed

lemma get_miss_reading:
  assumes rel: "reliable e" and st: "static s" and c: "cache_ok rs s" and v: "view_ok a s" and r: "reading_inv a s" and f: "free_ok s"
    and n: "n \<notin> pgno ` set (pAll s)" "0 < n" "n < max_pages"
  shows "\<exists>t. get_miss e n s = Some (SQLITE_OK, t) \<and> static t \<and> cache_ok (n # rs) t \<and> view_ok a t \<and> reading_inv a t \<and> free_ok t \<and>
    disklog t = disklog s"
proof -
  note R = reading_invD [OF r]
  obtain q X u where u: "(if nPage s < mxPage s \<or> pFree s = [] then new_page e n s else recycle_page e n s) = Some (SQLITE_OK, u)"
    "slot q X s u" "pgno q = n" using reading_slot [OF rel c f st r n(1)] by blast
  have l: "loadable False n s" using R(1,4-7) by (auto simp: loadable_def size_ok_def)
  obtain t x where t: "do { v \<leftarrow> page_flags n u; page_fill e n v } = Some (SQLITE_OK, t)"
    "replaced (loaded False (dbpage (content (files s DB)) n) x q) X s t" "pFirstSynced t = first_synced s (pFree t)" "disklog t = disklog s"
    "dbSize t = (if dbSize s < 0 then int (length (content (files s DB)) div N) else dbSize s)"
    using slot_load [OF rel u(2) st c u(3) n(2,3) l] by blast
  have "get_miss e n s = Some (SQLITE_OK, t)" using u(1) t(1) by (simp add: get_miss_def)
  moreover have "cache_ok (n # rs) t" using replaced_cache [OF t(2) c] u(3) by simp
  moreover have "reading_inv a t"
    by (rule replaced_reading [OF t(2) r]) (use t(5) R(5-7) in \<open>auto simp: size_ok_def\<close>)
  ultimately show ?thesis
    using replaced_static [OF t(2) st] replaced_view [OF t(2) v] replaced_free [OF t(2) c t(3)] t(4) by blast
qed

subsection \<open>In a transaction\<close>

text \<open>The pages in use keep what is to be written.\<close>

definition keeps_dirty :: "nat list \<Rightarrow> pager \<Rightarrow> pager \<Rightarrow> bool" where
  "keeps_dirty rs s t \<longleftrightarrow> (\<forall>i \<in> set rs. (\<exists>p \<in> set (pAll s). pgno p = i \<and> dirty p) \<longrightarrow> (\<exists>p \<in> set (pAll t). pgno p = i \<and> dirty p))"

lemma keeps_dirty_refl: "pAll t = pAll s \<Longrightarrow> keeps_dirty rs s t"
  by (simp add: keeps_dirty_def)

lemma keeps_dirty_trans: "keeps_dirty rs s t \<Longrightarrow> keeps_dirty rs t u \<Longrightarrow> keeps_dirty rs s u"
  by (simp add: keeps_dirty_def)

lemma keeps_dirty_clean: "pAll t = clean_pages {n} (pAll s) \<Longrightarrow> n \<notin> set rs \<Longrightarrow> keeps_dirty rs s t"
  unfolding keeps_dirty_def clean_pages_def by force

lemma keeps_dirty_sync: "pAll t = (if b then map sync_page (pAll s) else pAll s) \<Longrightarrow> keeps_dirty rs s t"
  unfolding keeps_dirty_def by auto

lemma clean_pages_numbers: "map pgno (clean_pages A ps) = map pgno ps"
  by (auto simp: clean_pages_def)

lemma rest_writing:
  assumes rel: "reliable e" and i: "in_trans a rs D m h J k s" and o: "pFirstSynced s = Some old" and n: "n \<notin> pgno ` set (pAll s)"
  shows "\<exists>t q u. recycle_rest e n s = Some (SQLITE_OK, u) \<and> slot q {old} t u \<and> pgno q = n \<and> in_trans a rs D m h J k t \<and>
    logs (safe D) s t \<and> keeps_dirty rs s t \<and> pgno ` set (pAll t) = pgno ` set (pAll s)"
proof -
  note I = in_transD [OF i]
  show ?thesis
  proof (cases "dirty_page s old")
    case False
    obtain q u where "recycle_rest e n s = Some (SQLITE_OK, u)" "slot q {old} s u" "pgno q = n"
      using rest_clean [OF I(2,4,1) o False n] by blast
    then show ?thesis using i by (intro exI [of _ s] exI [of _ q] exI [of _ u]) (simp add: keeps_dirty_refl)
  next
    case True
    obtain p where p: "pager_lookup s old = Some p" "p \<in> set (pAll s)" "pgno p = old" "pgRef p = 0" "\<not> pgSync p" "old \<in> set (pFree s)"
      "old \<notin> set rs" using free_page [OF I(2,4) o] by blast
    have d: "dirty p" using True cached_unique [OF cache_okD(1) [OF I(2)] p(1)] unfolding dirty_page_def by blast
    obtain t where t: "pager_write_pagelist e [old] s = pager_write_pagelist e [] t" "in_trans a rs D m h J k t" "logs (safe D) s t"
      "pAll t = clean_pages {old} (pAll s)" "same_trans s t" using write_page_ok [OF rel i p(2,3) d p(5)] by blast
    have f: "pFree t = pFree s" using t(5) by (simp add: same_trans_def)
    have nos: "pgno ` set (pAll t) = pgno ` set (pAll s)" 
      using arg_cong [OF clean_pages_numbers [of "{old}" "pAll s"], of set] by (simp add: t(4))
    note T = in_transD [OF t(2)]
    have pt: "p\<lparr>dirty := False\<rparr> \<in> set (pAll t)" unfolding t(4) clean_pages_def using p(2,3) by force
    then have lt: "pager_lookup t old = Some (p\<lparr>dirty := False\<rparr>)" using lookup_iff [OF cache_okD(1) [OF T(2)]] p(3) by simp
    let ?u = "rename_page old n (unlink_free old (if pgAlways p then t\<lparr>alwaysRollback := True\<rparr> else t))"
    have "slot ((p\<lparr>dirty := False\<rparr>)\<lparr>pgno := n\<rparr>) {old} t ?u"
      using rename_slot [OF T(2,4,1) lt, of n "pgAlways p"] p(4,5) n nos by simp
    moreover have "recycle_rest e n s = Some (SQLITE_OK, ?u)"
      using p d o t(1) f by (simp add: recycle_rest_def)
    ultimately show ?thesis
      using t(2,3) keeps_dirty_clean [OF t(4) p(7)] nos
      by (intro exI [of _ t] exI [of _ "(p\<lparr>dirty := False\<rparr>)\<lparr>pgno := n\<rparr>"] exI [of _ ?u]) simp
  qed
qed

lemma writing_slot:
  assumes rel: "reliable e" and i: "in_trans a rs D m h J k s" and n: "n \<notin> pgno ` set (pAll s)"
  shows "\<exists>h' t q X u. (if nPage s < mxPage s \<or> pFree s = [] then new_page e n s else recycle_page e n s) = Some (SQLITE_OK, u) \<and>
    slot q X t u \<and> pgno q = n \<and> in_trans a rs D m h' J k t \<and> logs (safe D) s t \<and> keeps_dirty rs s t \<and> n \<notin> pgno ` set (pAll t)"
proof -
  note I = in_transD [OF i]
  show ?thesis
  proof (cases "nPage s < mxPage s \<or> pFree s = []")
    case True
    obtain q u where "new_page e n s = Some (SQLITE_OK, u)" "slot q {} s u" "pgno q = n" using new_slot [OF rel I(2,4) n] by blast
    then show ?thesis using i n True
      by (intro exI [of _ h] exI [of _ s] exI [of _ q] exI [of _ "{}"] exI [of _ u]) (simp add: keeps_dirty_refl)
  next
    case False
    show ?thesis
    proof (cases "pFirstSynced s")
      case (Some old)
      obtain t q u where "recycle_rest e n s = Some (SQLITE_OK, u)" "slot q {old} t u" "pgno q = n" "in_trans a rs D m h J k t"
        "logs (safe D) s t" "keeps_dirty rs s t" "pgno ` set (pAll t) = pgno ` set (pAll s)"
        using rest_writing [OF rel i Some n] by blast
      then show ?thesis using n False recycle_unfold(1) [OF Some]
        by (intro exI [of _ h] exI [of _ t] exI [of _ q] exI [of _ "{old}"] exI [of _ u]) simp
    next
      case None
      obtain v h' where v: "syncJournal e s = Some (SQLITE_OK, v)" "journal_inv D m h' J v" "\<not> needSync v" "file_inv D m J k v" "static v"
        "cache_ok rs v" "view_ok a v" "free_ok v" "logs (safe D) s v" "pAll v = (if needSync s then map sync_page (pAll s) else pAll s)"
        "pFree v = pFree s" using syncJournal_ok [OF rel I] by blast
      have iv: "in_trans a rs D m h' J k v" using v by (simp add: in_trans_def)
      have nv: "pgno ` set (pAll v) = pgno ` set (pAll s)" unfolding v(10) by (auto simp: image_image)
      have "\<forall>p \<in> set (pAll v). \<not> pgSync p" using journal_invD(16) [OF v(2)] v(3) by blast
      then obtain old where o: "pFirstSynced v = Some old"
        using first_synced_all [OF v(6)] v(8,11) False by (cases "pFree s") (auto simp: free_ok_def)
      obtain t q u where t: "recycle_rest e n v = Some (SQLITE_OK, u)" "slot q {old} t u" "pgno q = n" "in_trans a rs D m h' J k t"
        "logs (safe D) v t" "keeps_dirty rs v t" "pgno ` set (pAll t) = pgno ` set (pAll v)"
        using rest_writing [OF rel iv o] n nv by blast
      have "recycle_page e n s = Some (SQLITE_OK, u)" using recycle_unfold(2) [OF None v(1)] t(1) by simp
      then show ?thesis
        using t n nv False logs_trans [OF v(9) t(5)] keeps_dirty_trans [OF keeps_dirty_sync [OF v(10)] t(6)]
        by (intro exI [of _ h'] exI [of _ t] exI [of _ q] exI [of _ "{old}"] exI [of _ u]) simp
    qed
  qed
qed

lemma get_miss_writing:
  assumes rel: "reliable e" and i: "in_trans a rs D m h J k s" and n: "n \<notin> pgno ` set (pAll s)" "0 < n" "n < max_pages"
  shows "\<exists>h' t. get_miss e n s = Some (SQLITE_OK, t) \<and> in_trans a (n # rs) D m h' J k t \<and> logs (safe D) s t \<and> keeps_dirty rs s t"
proof -
  obtain h' v q X u where u: "(if nPage s < mxPage s \<or> pFree s = [] then new_page e n s else recycle_page e n s) = Some (SQLITE_OK, u)"
    "slot q X v u" "pgno q = n" "in_trans a rs D m h' J k v" "logs (safe D) s v" "keeps_dirty rs s v" "n \<notin> pgno ` set (pAll v)"
    using writing_slot [OF rel i n(1)] by blast
  note V = in_transD [OF u(4)]
  note J = journal_invD [OF V(5)] and F = file_invD [OF V(6)]
  have pos: "0 \<le> dbSize v" using F(1) by simp
  obtain bs where bs: "aInJournal v = Some bs" "m < length bs" "\<forall>i \<le> m. bs ! i = (i \<in> set J)" using J(12) by blast
  have nm: "n \<in> set J \<Longrightarrow> n \<le> m" using J(10) by blast
  have l: "loadable (n \<in> set J) n v" using J(1,2,4) F(1,4,6) bs nm by (auto simp: loadable_def)
  obtain t x where t: "do { w \<leftarrow> page_flags n u; page_fill e n w } = Some (SQLITE_OK, t)"
    "replaced (loaded (n \<in> set J) (dbpage (content (files v DB)) n) x q) X v t" "pFirstSynced t = first_synced v (pFree t)" "disklog t = disklog v"
    using slot_load [OF rel u(2) V(1,2) u(3) n(2,3) l] by blast
  have jt: "journal_inv D m h' J t" by (rule replaced_journal [OF t(2) V(5)]) (simp add: u(3))
  have "in_trans a (n # rs) D m h' J k t"
    using replaced_static [OF t(2) V(1)] replaced_view [OF t(2) V(3)] replaced_free [OF t(2) V(2) t(3)] replaced_cache [OF t(2) V(2)] u(3)
      jt replaced_file [OF t(2) V(6) pos] by (simp add: in_trans_def)
  moreover have "get_miss e n s = Some (SQLITE_OK, t)" using u(1) t(1) by (simp add: get_miss_def)
  moreover have "logs (safe D) s t" using logs_trans [OF u(5) logs_refl [OF t(4)]] .
  moreover have "keeps_dirty rs v t" unfolding keeps_dirty_def replaced_dirty(2) [OF t(2)] by blast
  ultimately show ?thesis using keeps_dirty_trans [OF u(6)] by blast
qed

end
