(* ===== verification/Pager_Refine.thy ===== *)
theory Pager_Refine
  imports Pager_Fetch
begin

text \<open>
  The pager refines the store: every operation that a client may ask for returns what the specification says and leads to
  the state that it says, and what is on the disk on the way leads back to the database before or after the operation.
\<close>

subsection \<open>Pointers to pages\<close>

lemma phase_refs:
  assumes p: "phase_inv ph a s" "ph \<noteq> Resting" and sf: "same_files s t" and c: "cache_ok rs t" and f: "free_ok s \<longrightarrow> free_ok t"
    and r: "rs \<noteq> []" "ph = Rolled_back \<longrightarrow> set rs \<subseteq> set (refs a)" and W: "W \<subseteq> writable a" "W \<subseteq> set rs"
  shows "phase_inv ph (a\<lparr>refs := rs, writable := W\<rparr>) t"
proof -
  let ?b = "a\<lparr>refs := rs, writable := W\<rparr>"
  have cur: "view_ok ?b t = view_ok a t" by (simp add: view_ok_def)
  have ri: "reading_inv a t \<Longrightarrow> reading_inv ?b t" using W(1) by (auto simp: reading_inv_def)
  note S = same_files_inv [OF sf]
  show ?thesis
  proof (cases ph)
    case Resting
    then show ?thesis using p(2) by simp
  next
    case Reading
    then show ?thesis using p(1) S(1,2,4) cur ri c f r by simp
  next
    case Rolled_back
    have "held_ok a t \<Longrightarrow> held_ok ?b t" using r(2) Rolled_back by (auto simp: held_ok_def)
    then show ?thesis using Rolled_back p(1) S(1,3,4) ri c r by simp
  next
    case Writing
    have "writing_inv a t" using Writing p(1) S(7) by simp
    then have "writing_inv ?b t" unfolding writing_inv_def using W by auto
    then show ?thesis using Writing p(1) S(1,2) cur c f r by simp
  qed
qed

lemma phase_cache: "phase_inv ph a s \<Longrightarrow> ph \<noteq> Resting \<Longrightarrow> cache_ok (refs a) s \<and> refs a \<noteq> [] \<and> static s"
  by (cases ph) simp_all

lemma writable_held: "phase_inv ph a s \<Longrightarrow> writable a \<subseteq> set (refs a)"
  by (cases ph) (auto simp: writing_inv_def reading_inv_def)

lemma ref_step:
  assumes p: "phase_inv ph a s" "ph \<noteq> Resting" and n: "n \<in> pgno ` set (pAll s)" "ph = Rolled_back \<longrightarrow> n \<in> set (refs a)"
  shows "\<exists>t. page_ref n s = Some t \<and> phase_inv ph (a\<lparr>refs := n # refs a\<rparr>) t \<and> logs P s t"
proof -
  obtain t where t: "page_ref n s = Some t" "same_files s t" "cache_ok (n # refs a) t" "free_ok s \<longrightarrow> free_ok t"
    using page_ref_ok [of "refs a" s n] phase_cache [OF p] n(1) by blast
  have "phase_inv ph (a\<lparr>refs := n # refs a, writable := writable a\<rparr>) t"
    by (rule phase_refs [OF p t(2-4)]) (use writable_held [OF p(1)] n(2) in auto)
  moreover have "disklog t = disklog s"
    using t(1) by (auto simp: page_ref_def unlink_free_def Let_def set_page_def split: if_splits option.splits bind_splits)
  ultimately show ?thesis using t(1) by auto
qed

lemma unref_more:
  assumes p: "phase_inv ph a s" "ph \<noteq> Resting" and n: "n \<in> set (refs a)" "remove1 n (refs a) \<noteq> []"
  shows "\<exists>t. sqlitepager_unref e n s = Some (SQLITE_OK, t) \<and> logs P s t \<and>
    phase_inv ph (a\<lparr>refs := remove1 n (refs a), writable := (if n \<in> set (remove1 n (refs a)) then writable a else writable a - {n})\<rparr>) t"
proof -
  obtain t where t: "sqlitepager_unref e n s = Some (SQLITE_OK, t)" "same_files s t" "cache_ok (remove1 n (refs a)) t" "free_ok s \<longrightarrow> free_ok t"
    "disklog t = disklog s" using unref_ok [of "refs a" s n e] phase_cache [OF p] n by blast
  have sub: "set (refs a) - {n} \<subseteq> set (remove1 n (refs a))" "set (remove1 n (refs a)) \<subseteq> set (refs a)"
    by (auto simp: set_remove1_subset dest: in_set_remove1 [THEN iffD2, rotated] notin_set_remove1)
  let ?W = "if n \<in> set (remove1 n (refs a)) then writable a else writable a - {n}"
  have W: "?W \<subseteq> writable a" "?W \<subseteq> set (remove1 n (refs a))" using writable_held [OF p(1)] sub(1) by auto
  have "phase_inv ph (a\<lparr>refs := remove1 n (refs a), writable := ?W\<rparr>) t"
    by (rule phase_refs [OF p t(2-4) n(2) _ W]) (use sub(2) in blast)
  then show ?thesis using t(1,5) by auto
qed

lemma unref_reset:
  assumes rel: "reliable e" and p: "phase_inv ph a s" "ph \<noteq> Resting" and n: "n \<in> set (refs a)" "remove1 n (refs a) = []"
  shows "\<exists>t. sqlitepager_unref e n s = Some (SQLITE_OK, t) \<and> phase_inv Resting (revert Resting (a\<lparr>refs := []\<rparr>)) t \<and>
    logs (safe (committed a)) s t"
proof -
  obtain A B x where u: "sqlitepager_unref e n s =
      do { t \<leftarrow> pager_reset e (s\<lparr>pAll := A, pFree := B, pFirstSynced := x, nRef := 0\<rparr>); Some (SQLITE_OK, t) }"
    using unref_last [of "refs a" s n e] phase_cache [OF p] n by blast
  have "\<exists>t. pager_reset e (s\<lparr>pAll := A, pFree := B, pFirstSynced := x, nRef := 0\<rparr>) = Some t \<and> at_rest t \<and>
      on_disk t = (committed a, None) \<and> logs (safe (committed a)) s t \<and> state t = SQLITE_UNLOCK \<and> size_ok (committed a) (length (committed a) div N)"
  proof (cases "ph = Writing")
    case True
    then have "phase_inv Writing a s" using p(1) by simp
    then obtain m h J where i: "in_trans a (refs a) (committed a) m h J (pages a) s" using writing_trans by metis
    note I = in_transD [OF i]
    show ?thesis using reset_writing [OF rel I(1,5,6), where A = A and B = B and x = x] journal_invD(5) [OF I(5)]
      by (auto simp: size_ok_def)
  next
    case False
    then have "reading_inv a s" using p by (cases ph) simp_all
    moreover have "static s" using phase_cache [OF p] by blast
    ultimately show ?thesis using reset_reading [OF rel, where A = A and B = B and x = x] reading_invD(6) by (fastforce simp: size_ok_def)
  qed
  then obtain t where t: "pager_reset e (s\<lparr>pAll := A, pFree := B, pFirstSynced := x, nRef := 0\<rparr>) = Some t" "at_rest t"
    "on_disk t = (committed a, None)" "logs (safe (committed a)) s t" "state t = SQLITE_UNLOCK" "size_ok (committed a) (length (committed a) div N)" by blast
  have "\<not> jexists t" using t(3) by (simp add: on_disk_def split: if_splits)
  moreover have "safe (committed a) (committed a, None)" using t(6) safe_none by (auto simp: size_ok_def)
  ultimately show ?thesis using u t by (simp add: revert_def)
qed

subsection \<open>Getting a page\<close>

lemma get_resting:
  assumes rel: "reliable e" and p: "phase_inv Resting a s" and n: "0 < n" "n < max_pages"
  shows "\<exists>t. sqlitepager_get e n s = Some (SQLITE_OK, t) \<and> phase_inv Reading (a\<lparr>phase := Reading, refs := [n]\<rparr>) t \<and> logs (safe (committed a)) s t"
proof -
  have I: "at_rest s" "safe (committed a) (on_disk s)" "origDbSize s = 0 \<or> \<not> jexists s" "refs a = []"
    "\<forall>n > 0. current a n = dbpage (committed a) n" "size_ok (committed a) (pages a)" "writable a = {}" using p by simp_all
  obtain F k L c z b where g: "get_lock e s = Some (SQLITE_OK, s\<lparr>state := SQLITE_READLOCK, journalStarted := b, jexists := False, files := F,
      clock := k, disklog := L @ disklog s, cksumInit := c, dbSize := z\<rparr>)"
    "content (F DB) = committed a" "\<forall>d \<in> set L. safe (committed a) d" "z = - 1 \<or> int N * z = int (length (committed a))"
    using get_lock_recovers [OF rel I(1-3)] by blast
  define u where "u = s\<lparr>state := SQLITE_READLOCK, journalStarted := b, jexists := False, files := F,
      clock := k, disklog := L @ disklog s, cksumInit := c, dbSize := z\<rparr>"
  have z: "z = - 1 \<or> z = int (pages a)" using g(4) I(6) by (auto simp: size_ok_def)
  have u: "static u" "cache_ok [] u" "free_ok u" using I(1)
    by (simp_all add: static_def cache_ok_def free_ok_def first_synced_def u_def at_rest_def numbered_def)
  have v: "view_ok a u" using I(5) g(2) I(1) by (simp add: view_ok_def u_def at_rest_def)
  have r: "reading_inv a u" using I z g(2) by (simp add: reading_inv_def u_def at_rest_def)
  have "n \<notin> pgno ` set (pAll u)" using I(1) by (simp add: u_def at_rest_def)
  then obtain t where t: "get_miss e n u = Some (SQLITE_OK, t)" "static t" "cache_ok [n] t" "view_ok a t" "reading_inv a t" "free_ok t"
    "disklog t = disklog u" using get_miss_reading [OF rel u(1,2) v r u(3) _ n] by blast
  have "sqlitepager_get e n s = Some (SQLITE_OK, t)"
    using g(1) t(1) n(1) I(1) unfolding u_def [symmetric] by (simp add: sqlitepager_get_def at_rest_def)
  moreover have "phase_inv Reading (a\<lparr>phase := Reading, refs := [n]\<rparr>) t"
    using t(2-6) by (simp add: view_ok_def reading_inv_def)
  moreover have "logs (safe (committed a)) s t" unfolding logs_def using g(3) t(7) by (intro exI [of _ L]) (simp add: u_def)
  ultimately show ?thesis by blast
qed

lemma get_unfold:
  assumes "static s" "cache_ok rs s" "rs \<noteq> []" "0 < n"
  shows "sqlitepager_get e n s = (case pager_lookup s n of None \<Rightarrow> get_miss e n s
    | Some p \<Rightarrow> do { s \<leftarrow> page_ref n s; Some (SQLITE_OK, s) })"
  using staticD(4) [OF assms(1)] cache_okD(8) [OF assms(2)] assms(3,4) by (simp add: sqlitepager_get_def)

lemma get_ok:
  assumes rel: "reliable e" and p: "phase_inv ph a s" "ph \<noteq> Resting" and n: "0 < n" "n < max_pages" "ph = Rolled_back \<longrightarrow> n \<in> set (refs a)"
  shows "\<exists>t. sqlitepager_get e n s = Some (SQLITE_OK, t) \<and> phase_inv ph (a\<lparr>refs := n # refs a\<rparr>) t \<and> logs (safe (committed a)) s t"
proof (cases "n \<in> pgno ` set (pAll s)")
  case True
  obtain t where t: "page_ref n s = Some t" "phase_inv ph (a\<lparr>refs := n # refs a\<rparr>) t" "logs (safe (committed a)) s t"
    using ref_step [OF p True n(3)] by blast
  obtain q where "pager_lookup s n = Some q" using True phase_cache [OF p] cache_lookup by metis
  then show ?thesis using t get_unfold phase_cache [OF p] n(1) by fastforce
next
  case False
  note c = phase_cache [OF p]
  have miss: "sqlitepager_get e n s = get_miss e n s"
    using get_unfold c n(1) False lookup_None [of s n] by (metis option.case(1))
  have ph: "ph = Reading \<or> ph = Writing"
  proof (rule ccontr)
    assume "\<not> (ph = Reading \<or> ph = Writing)"
    then have "ph = Rolled_back" using p(2) by (cases ph) simp_all
    then show False using False n(3) c cache_okD(4) [of "refs a" s] by blast
  qed
  then show ?thesis
  proof
    assume r: "ph = Reading"
    then have I: "static s" "cache_ok (refs a) s" "view_ok a s" "reading_inv a s" "free_ok s" using p(1) by simp_all
    obtain t where t: "get_miss e n s = Some (SQLITE_OK, t)" "static t" "cache_ok (n # refs a) t" "view_ok a t" "reading_inv a t" "free_ok t"
      "disklog t = disklog s" using get_miss_reading [OF rel I False n(1,2)] by blast
    then have "phase_inv ph (a\<lparr>refs := n # refs a\<rparr>) t" by (simp add: r view_ok_def reading_inv_def)
    then show ?thesis using t(1,7) miss by auto
  next
    assume w: "ph = Writing"
    obtain m h J where i: "in_trans a (refs a) (committed a) m h J (pages a) s" "refs a \<noteq> []"
      and wr: "\<forall>n \<in> writable a. n \<in> set (refs a) \<and> (\<exists>p \<in> set (pAll s). pgno p = n \<and> dirty p)"
      using writing_trans p(1) unfolding w by blast
    obtain h' t where t: "get_miss e n s = Some (SQLITE_OK, t)" "in_trans a (n # refs a) (committed a) m h' J (pages a) t"
      "logs (safe (committed a)) s t" "keeps_dirty (refs a) s t" using get_miss_writing [OF rel i(1) False n(1,2)] by blast
    have "in_trans (a\<lparr>refs := n # refs a\<rparr>) (n # refs a) (committed a) m h' J (pages a) t"
      using t(2) by (simp add: in_trans_def view_ok_def)
    then have "phase_inv ph (a\<lparr>refs := n # refs a\<rparr>) t"
      unfolding w
      by (intro writing_intro [where a = "a\<lparr>refs := n # refs a\<rparr>" and m = m and h = h' and J = J])
        (use t(4) wr in \<open>auto simp: keeps_dirty_def\<close>)
    then show ?thesis using t(1,3) miss by auto
  qed
qed

subsection \<open>Storing data in a page\<close>

lemma store_ok:
  assumes p: "phase_inv Writing a s" and n: "n \<in> writable a" and d: "length d = N"
  shows "phase_inv Writing (a\<lparr>current := (current a)(n := d)\<rparr>) (store_page n d s)"
proof -
  obtain m h J where i: "in_trans a (refs a) (committed a) m h J (pages a) s" "refs a \<noteq> []"
    and wr: "\<forall>n \<in> writable a. n \<in> set (refs a) \<and> (\<exists>p \<in> set (pAll s). pgno p = n \<and> dirty p)" using writing_trans [OF p] .
  note I = in_transD [OF i(1)]
  let ?a = "a\<lparr>current := (current a)(n := d)\<rparr>" and ?t = "store_page n d s"
  have st: "static ?t" "cache_ok (refs a) ?t" "free_ok ?t"
    using I(1,2,4) d by (simp_all add: store_page_def static_set_page cache_ok_set_page free_ok_set_page)
  have "view_ok ?a ?t"
  proof (rule view_okI)
    fix q assume "q \<in> set (pAll ?t)"
    then show "pgData q = current ?a (pgno q)"
      using view_okD(1) [OF I(3)] by (auto simp: store_page_def set_page_def)
  next
    fix l :: nat assume l: "0 < l" "\<And>q. q \<in> set (pAll ?t) \<Longrightarrow> pgno q = l \<Longrightarrow> \<not> dirty q"
    then have "\<forall>q \<in> set (pAll ?t). pgno q = l \<longrightarrow> \<not> dirty q" by blast
    then have "\<forall>q \<in> set (pAll s). (pgno q = l \<longrightarrow> l = n \<longrightarrow> \<not> dirty q) \<and> (pgno q = l \<longrightarrow> l = n \<or> \<not> dirty q)"
      by (simp add: store_page_def split: if_splits)
    then have q: "\<forall>q \<in> set (pAll s). pgno q = l \<longrightarrow> \<not> dirty q" by blast
    then have "l \<noteq> n" using wr n by blast
    then show "dbpage (content (files ?t DB)) l = current ?a l"
      using view_okD(2) [OF I(3) l(1)] q by (simp add: store_page_def)
  qed
  moreover have "journal_inv (committed a) m h J ?t"
    by (rule journal_inv_pages [OF I(5)])
      (use journal_invD(18) [OF I(5)] in \<open>auto simp: store_page_def set_page_def jview_def\<close>)
  moreover have "file_inv (committed a) m J (pages a) ?t"
  proof -
    have v: "map (\<lambda>p. (pgno p, dirty p)) (pAll ?t) = map (\<lambda>p. (pgno p, dirty p)) (pAll s)"
      by (simp add: store_page_def set_page_def)
    have "(\<forall>p \<in> set (pAll ?t). dirty p \<longrightarrow> pgno p \<le> pages a \<and> (pgno p \<le> m \<longrightarrow> pgno p \<in> set J)) =
        (\<forall>p \<in> set (pAll s). dirty p \<longrightarrow> pgno p \<le> pages a \<and> (pgno p \<le> m \<longrightarrow> pgno p \<in> set J))"
      "(\<exists>p \<in> set (pAll ?t). pgno p = pages a \<and> dirty p) = (\<exists>p \<in> set (pAll s). pgno p = pages a \<and> dirty p)"
      "(\<forall>p \<in> set (pAll ?t). \<not> dirty p) = (\<forall>p \<in> set (pAll s). \<not> dirty p)"
      by (rule map_ball [OF v]; simp)+
    note b = this
    show ?thesis using I(6) unfolding file_inv_def b by (simp add: store_page_def)
  qed
  ultimately have "in_trans ?a (refs ?a) (committed ?a) m h J (pages ?a) ?t" using st by (simp add: in_trans_def)
  then show ?thesis by (rule writing_intro) (use wr i(2) in \<open>auto simp: store_page_def\<close>)
qed

subsection \<open>Outside of a transaction\<close>

lemma no_trans:
  assumes p: "phase_inv ph a s" "ph \<noteq> Writing"
  shows "sqlitepager_commit e s = Some (SQLITE_ERROR, s)" "sqlitepager_rollback e s = Some (SQLITE_OK, s\<lparr>dbSize := - 1\<rparr>)"
    "phase_inv ph a (s\<lparr>dbSize := - 1\<rparr>)"
proof -
  have "errMask s = 0 \<and> \<not> journalOpen s \<and> state s < SQLITE_WRITELOCK"
  proof (cases "ph = Resting")
    case True
    then show ?thesis using p(1) by (simp add: at_rest_def lock_defs)
  next
    case False
    then have "reading_inv a s" using p by (cases ph) simp_all
    then show ?thesis using phase_cache [OF p(1) False] staticD(4) reading_invD(1,2) by auto
  qed
  then show "sqlitepager_commit e s = Some (SQLITE_ERROR, s)" "sqlitepager_rollback e s = Some (SQLITE_OK, s\<lparr>dbSize := - 1\<rparr>)"
    by (simp_all add: sqlitepager_commit_def sqlitepager_rollback_def pager_unwritelock_def PAGER_ERR_FULL_def)
  let ?t = "s\<lparr>dbSize := - 1\<rparr>"
  have "static ?t = static s" "cache_ok rs ?t = cache_ok rs s" "view_ok a ?t = view_ok a s" "held_ok a ?t = held_ok a s"
    "free_ok ?t = free_ok s" "on_disk ?t = on_disk s" "reading_inv a s \<Longrightarrow> reading_inv a ?t" "at_rest s \<Longrightarrow> at_rest ?t" for rs
    by (simp_all add: static_def cache_ok_def numbered_def view_ok_def held_ok_def free_ok_def first_synced_def pager_lookup_def
        reading_inv_def at_rest_def on_disk_def)
  then show "phase_inv ph a ?t" using p by (cases ph) simp_all
qed

subsection \<open>Settings and the number of pages\<close>

lemma settings_ok:
  assumes p: "phase_inv ph a s" "ph \<noteq> Writing" and mx: "0 < mx"
  shows "phase_inv ph a (s\<lparr>mxPage := mx, noSync := x, fullSync := y, needSync := z\<rparr>)"
proof -
  let ?t = "s\<lparr>mxPage := mx, noSync := x, fullSync := y, needSync := z\<rparr>"
  have "static s \<Longrightarrow> static ?t" "cache_ok rs ?t = cache_ok rs s" "view_ok a ?t = view_ok a s" "held_ok a ?t = held_ok a s"
    "free_ok ?t = free_ok s" "on_disk ?t = on_disk s" "reading_inv a ?t = reading_inv a s" "at_rest s \<Longrightarrow> at_rest ?t" for rs
    using mx by (simp_all add: static_def cache_ok_def numbered_def view_ok_def held_ok_def free_ok_def first_synced_def pager_lookup_def
        reading_inv_def at_rest_def on_disk_def)
  then show ?thesis using p by (cases ph) simp_all
qed

lemma mxPage_pos: "phase_inv ph a s \<Longrightarrow> 0 < mxPage s"
  by (cases ph) (auto simp: at_rest_def static_def)

lemma cachesize_ok:
  assumes p: "phase_inv ph a s" "ph \<noteq> Writing"
  shows "phase_inv ph a (sqlitepager_set_cachesize mx s) \<and> disklog (sqlitepager_set_cachesize mx s) = disklog s"
proof -
  have "\<exists>k x z. 0 < k \<and> sqlitepager_set_cachesize mx s = s\<lparr>mxPage := k, noSync := x, fullSync := fullSync s, needSync := z\<rparr>"
  proof (intro exI conjI)
    show "0 < (if \<bar>mx\<bar> > 10 then nat \<bar>mx\<bar> else mxPage s)" using mxPage_pos [OF p(1)] by auto
    show "sqlitepager_set_cachesize mx s = s\<lparr>mxPage := (if \<bar>mx\<bar> > 10 then nat \<bar>mx\<bar> else mxPage s), noSync := (mx < 0 \<or> tempFile s),
        fullSync := fullSync s, needSync := (needSync s \<and> (mx < 0 \<or> tempFile s))\<rparr>"
      by (auto simp: sqlitepager_set_cachesize_def Let_def)
  qed
  then obtain k x z where k: "0 < k" "sqlitepager_set_cachesize mx s = s\<lparr>mxPage := k, noSync := x, fullSync := fullSync s, needSync := z\<rparr>" by blast
  show ?thesis unfolding k(2) using settings_ok [OF p k(1), where x = x and y = "fullSync s" and z = z] by simp
qed

lemma safety_level_ok:
  assumes p: "phase_inv ph a s" "ph \<noteq> Writing"
  shows "phase_inv ph a (sqlitepager_set_safety_level l s) \<and> disklog (sqlitepager_set_safety_level l s) = disklog s"
proof -
  have "sqlitepager_set_safety_level l s = s\<lparr>mxPage := mxPage s, noSync := (l = 1 \<or> tempFile s), fullSync := (l = 3 \<and> \<not> tempFile s),
      needSync := (needSync s \<and> (l = 1 \<or> tempFile s))\<rparr>" by (auto simp: sqlitepager_set_safety_level_def Let_def)
  then show ?thesis using settings_ok [OF p mxPage_pos [OF p(1)]] by simp
qed

lemma pagecount_ok:
  assumes rel: "reliable e" and p: "phase_inv ph a s" "ph \<noteq> Resting"
  shows "\<exists>t. sqlitepager_pagecount e s = (int (pages a), t) \<and> phase_inv ph a t \<and> disklog t = disklog s"
proof (cases "ph = Writing")
  case True
  then have "phase_inv Writing a s" using p(1) by simp
  then obtain m h J where i: "in_trans a (refs a) (committed a) m h J (pages a) s" using writing_trans by metis
  have "dbSize s = int (pages a)" using file_invD(1) [OF in_transD(6) [OF i]] .
  then show ?thesis using p(1) by (simp add: sqlitepager_pagecount_def)
next
  case False
  then have r: "reading_inv a s" using p by (cases ph) simp_all
  note R = reading_invD [OF r]
  show ?thesis
  proof (cases "dbSize s = - 1")
    case neg: True
    let ?t = "s\<lparr>clock := Suc (clock s), dbSize := int (pages a)\<rparr>"
    have "static ?t = static s" "cache_ok rs ?t = cache_ok rs s" "view_ok a ?t = view_ok a s" "held_ok a ?t = held_ok a s"
      "free_ok ?t = free_ok s" "reading_inv a ?t" for rs
      using r by (simp_all add: static_def cache_ok_def numbered_def view_ok_def held_ok_def free_ok_def first_synced_def pager_lookup_def
          reading_inv_def)
    then have "phase_inv ph a ?t" using p False by (cases ph) simp_all
    moreover have "sqlitepager_pagecount e s = (int (pages a), ?t)"
      using neg R(1,5,6) rel by (simp add: sqlitepager_pagecount_def os_size_ok size_ok_def Let_def)
    ultimately show ?thesis by simp
  qed (use R(7) p(1) in \<open>simp add: sqlitepager_pagecount_def\<close>)
qed

subsection \<open>Every step\<close>

lemma pager_step_ok:
  assumes rel: "reliable e" and p: "pager_inv a s" and l: "legal op a"
  shows "\<exists>t. pager_step e op s = Some (spec_rc op a, t) \<and> pager_inv (spec_step op a) t \<and>
    logs (\<lambda>d. safe (committed a) d \<or> safe (committed (spec_step op a)) d) s t"
proof -
  have I: "phase_inv (phase a) a s" using p by (simp add: pager_inv_def)
  have lo: "logs (safe (committed a)) s t \<Longrightarrow> logs (\<lambda>d. safe (committed a) d \<or> Q d) s t" for t Q
    by (erule logs_mono) simp
  have rest: "phase a = Resting \<Longrightarrow> refs a = [] \<and> writable a = {}" using I by simp
  show ?thesis
  proof (cases op)
    case (Get n)
    show ?thesis
    proof (cases "phase a = Resting")
      case True
      then show ?thesis using get_resting [OF rel, of a s n] I l rest lo unfolding Get pager_inv_def by fastforce
    next
      case False
      obtain t where "sqlitepager_get e n s = Some (SQLITE_OK, t)" "phase_inv (phase a) (a\<lparr>refs := n # refs a\<rparr>) t" "logs (safe (committed a)) s t"
        using get_ok [OF rel I False, of n] l unfolding Get by auto
      then show ?thesis using False lo unfolding Get pager_inv_def by auto
    qed
  next
    case (Ref n)
    then have n: "n \<in> set (refs a)" and ph: "phase a \<noteq> Resting" using l rest by auto
    have "n \<in> pgno ` set (pAll s)" using phase_cache [OF I ph] cache_okD(4) n by blast
    then obtain t where "page_ref n s = Some t" "phase_inv (phase a) (a\<lparr>refs := n # refs a\<rparr>) t" "logs (safe (committed a)) s t"
      using ref_step [OF I ph] n by blast
    then show ?thesis using lo unfolding Ref pager_inv_def by (auto simp: sqlitepager_ref_def)
  next
    case (Unref n)
    then have n: "n \<in> set (refs a)" and ph: "phase a \<noteq> Resting" using l rest by auto
    show ?thesis
    proof (cases "remove1 n (refs a) = []")
      case True
      obtain t where "sqlitepager_unref e n s = Some (SQLITE_OK, t)" "phase_inv Resting (revert Resting (a\<lparr>refs := []\<rparr>)) t"
        "logs (safe (committed a)) s t" using unref_reset [OF rel I ph n True] by blast
      then show ?thesis using True lo unfolding Unref pager_inv_def by (auto simp: revert_def)
    next
      case False
      obtain t where "sqlitepager_unref e n s = Some (SQLITE_OK, t)" "logs (safe (committed a)) s t"
        "phase_inv (phase a) (a\<lparr>refs := remove1 n (refs a), writable := (if n \<in> set (remove1 n (refs a)) then writable a else writable a - {n})\<rparr>) t"
        using unref_more [OF I ph n False] by blast
      then show ?thesis using False lo unfolding Unref pager_inv_def by (auto simp: Let_def)
    qed
  next
    case (Begin n)
    then have n: "n \<in> set (refs a)" and ph: "phase a = Reading \<or> phase a = Writing" using l rest by (cases "phase a"; auto)+
    have "\<exists>t. sqlitepager_begin e n s = Some (SQLITE_OK, t) \<and> phase_inv Writing (a\<lparr>phase := Writing\<rparr>) t \<and> logs (safe (committed a)) s t"
    proof (cases "phase a = Reading")
      case True
      then show ?thesis using begin_reading_ok [OF rel _ n] I by simp
    next
      case False
      then have w: "phase a = Writing" "phase_inv Writing a s" using ph I by auto
      have "a\<lparr>phase := Writing\<rparr> = a" using w(1) by (cases a) simp
      then have "phase_inv Writing (a\<lparr>phase := Writing\<rparr>) s" using w(2) by (simp only:)
      then show ?thesis using begin_writing_ok [OF w(2) n] by simp
    qed
    then show ?thesis using lo unfolding Begin pager_inv_def by auto
  next
    case (Write n)
    then have n: "n \<in> set (refs a)" and ph: "phase a = Reading \<or> phase a = Writing" using l rest by (cases "phase a"; auto)+
    then obtain t where "sqlitepager_write e n s = Some (SQLITE_OK, t)" "phase_inv Writing (write_store n a) t" "logs (safe (committed a)) s t"
      using write_reading_ok [OF rel _ n] write_writing_ok [OF rel _ n] I by metis
    then show ?thesis using lo unfolding Write pager_inv_def by (auto simp: write_store_def)
  next
    case (Store n d)
    have w: "phase a = Writing"
      using l I unfolding Store by (cases "phase a") (auto simp: reading_inv_def)
    have "phase_inv Writing (a\<lparr>current := (current a)(n := d)\<rparr>) (store_page n d s)"
      by (rule store_ok) (use I w l Store in simp_all)
    then show ?thesis using w unfolding Store pager_inv_def by (simp add: store_page_def)
  next
    case Commit
    show ?thesis
    proof (cases "phase a = Writing")
      case True
      then obtain t where t: "sqlitepager_commit e s = Some (SQLITE_OK, t)" "phase_inv Reading (committed_store a) t"
        "\<exists>L. disklog t = (bytes (current a) (pages a), None) # L @ disklog s \<and> (\<forall>d \<in> set L. safe (committed a) d)"
        using commit_ok [OF rel, of a s] I by auto
      obtain L where L: "disklog t = (bytes (current a) (pages a), None) # L @ disklog s" "\<forall>d \<in> set L. safe (committed a) d" using t(3) by blast
      have "size_ok (bytes (current a) (pages a)) (pages a)" using t(2) by (simp add: reading_inv_def committed_store_def)
      then have "safe (bytes (current a) (pages a)) (bytes (current a) (pages a), None)" using safe_none by (simp add: size_ok_def)
      then have "logs (\<lambda>d. safe (committed a) d \<or> safe (bytes (current a) (pages a)) d) s t" 
        unfolding logs_def using L by (intro exI [of _ "(bytes (current a) (pages a), None) # L"]) simp
      then show ?thesis using t True unfolding Commit pager_inv_def by (simp add: committed_store_def)
    next
      case False
      then show ?thesis using no_trans(1) [OF I] I unfolding Commit pager_inv_def by simp
    qed
  next
    case Rollback
    show ?thesis
    proof (cases "phase a = Writing")
      case True
      then obtain t where t: "sqlitepager_rollback e s = Some (SQLITE_OK, t)" "phase_inv Rolled_back (revert Rolled_back a) t"
        "logs (safe (committed a)) s t" using rollback_ok [OF rel, of a s] I l unfolding Rollback by auto
      then show ?thesis using lo True unfolding Rollback pager_inv_def by (auto simp: revert_def)
    next
      case False
      then show ?thesis using no_trans(2,3) [OF I] unfolding Rollback pager_inv_def by simp
    qed
  next
    case Pagecount
    then obtain t where "sqlitepager_pagecount e s = (int (pages a), t)" "phase_inv (phase a) a t" "disklog t = disklog s"
      using pagecount_ok [OF rel I] l by auto
    then show ?thesis unfolding Pagecount pager_inv_def by simp
  next
    case (Cache_size mx)
    then show ?thesis using cachesize_ok [OF I] l unfolding pager_inv_def by simp
  next
    case (Safety_level level)
    then show ?thesis using safety_level_ok [OF I] l unfolding pager_inv_def by simp
  qed
qed

end
