(* ===== verification/Service.thy ===== *)
theory Service
  imports Prelude "HOL-Library.Monad_Syntax"
begin

text \<open>
  The interface between a component and its specification: an implementation of operations on a concrete state that
  returns what an abstract machine says, and what follows for sequences of operations.  The pager and the in-memory
  B-tree are instances.
\<close>

subsection \<open>Sequences of operations\<close>

fun run_ops :: "('o \<Rightarrow> 'c \<Rightarrow> ('r \<times> 'c) option) \<Rightarrow> 'o list \<Rightarrow> 'c \<Rightarrow> ('r list \<times> 'c) option" where
  "run_ops step [] s = Some ([], s)"
| "run_ops step (op # ops) s = do { (r, s) \<leftarrow> step op s; (rs, s) \<leftarrow> run_ops step ops s; Some (r # rs, s) }"

fun results :: "('o \<Rightarrow> 'a \<Rightarrow> 'r) \<Rightarrow> ('o \<Rightarrow> 'a \<Rightarrow> 'a) \<Rightarrow> 'o list \<Rightarrow> 'a \<Rightarrow> 'r list" where
  "results rc step [] a = []"
| "results rc step (op # ops) a = rc op a # results rc step ops (step op a)"

fun allowed :: "('o \<Rightarrow> 'a \<Rightarrow> bool) \<Rightarrow> ('o \<Rightarrow> 'a \<Rightarrow> 'a) \<Rightarrow> 'o list \<Rightarrow> 'a \<Rightarrow> bool" where
  "allowed may step [] a = True"
| "allowed may step (op # ops) a = (may op a \<and> allowed may step ops (step op a))"

lemma allowed_snoc: "allowed may step (ops @ [op]) a = (allowed may step ops a \<and> may op (fold step ops a))"
  by (induction ops arbitrary: a) auto

text \<open>An implementation whose operations return what the specification says, and what follows for sequences of them.\<close>

locale service =
  fixes conc :: "'o \<Rightarrow> 'c \<Rightarrow> ('r \<times> 'c) option" and abst :: "'o \<Rightarrow> 'a \<Rightarrow> 'a" and rc :: "'o \<Rightarrow> 'a \<Rightarrow> 'r"
    and may :: "'o \<Rightarrow> 'a \<Rightarrow> bool" and inv :: "'a \<Rightarrow> 'c \<Rightarrow> bool"
  assumes step: "inv a s \<Longrightarrow> may op a \<Longrightarrow> \<exists>t. conc op s = Some (rc op a, t) \<and> inv (abst op a) t"
begin

lemma run: "inv a s \<Longrightarrow> allowed may abst ops a \<Longrightarrow>
  \<exists>t. run_ops conc ops s = Some (results rc abst ops a, t) \<and> inv (fold abst ops a) t"
proof (induction ops arbitrary: a s)
  case (Cons op ops)
  obtain u where u: "conc op s = Some (rc op a, u)" "inv (abst op a) u" using step Cons.prems by fastforce
  obtain t where "run_ops conc ops u = Some (results rc abst ops (abst op a), t)" "inv (fold abst ops (abst op a)) t"
    using Cons.IH [OF u(2)] Cons.prems(2) by auto
  then show ?case using u(1) by simp
qed simp

end

end
