(* ===== verification/Pager_Crash.thy ===== *)
theory Pager_Crash
  imports Pager_Refine Service
begin

text \<open>
  What the pager promises: a client that uses it sees the store of pages of the specification, and whenever the program is
  killed the next one that opens the database finds it as it was before or after the operation under way.
\<close>

subsection \<open>The service\<close>

interpretation pager: service "pager_step e" spec_step spec_rc legal "\<lambda>a s. reliable e \<and> pager_inv a s" for e
  by unfold_locales (use pager_step_ok in blast)

subsection \<open>Opening a database\<close>

definition start :: "u8 list \<Rightarrow> store" where
  "start D = \<lparr>phase = Resting, committed = D, current = dbpage D, pages = length D div N, refs = [], writable = {}\<rparr>"

text \<open>The files as a program finds them.\<close>

definition found :: "disk \<Rightarrow> fs" where
  "found d = \<lparr>files = (\<lambda>f. \<lparr>content = (case f of DB \<Rightarrow> fst d | JRN \<Rightarrow> (case snd d of None \<Rightarrow> [] | Some j \<Rightarrow> j) | CKP \<Rightarrow> []), offs = 0\<rparr>),
     jexists = (snd d \<noteq> None), clock = 0, disklog = []\<rparr>"

definition opened :: "cstring \<Rightarrow> int \<Rightarrow> nat \<Rightarrow> disk \<Rightarrow> pager" where
  "opened z mx ext d = sqlitepager_open z False False mx ext True (found d)"

lemma opened_inv: "safe D d \<Longrightarrow> pager_inv (start D) (opened z mx ext d)"
proof -
  assume d: "safe D d"
  then have "size_ok D (length D div N)" by (auto simp: safe_def size_ok_def)
  moreover have "on_disk (opened z mx ext d) = d"
    by (cases d) (auto simp: opened_def sqlitepager_open_def found_def on_disk_def)
  ultimately show ?thesis using d
    by (simp add: pager_inv_def start_def at_rest_def) (simp add: opened_def sqlitepager_open_def)
qed

text \<open>The pages that a client holds have the contents that the specification says.\<close>

lemma held_current:
  assumes p: "pager_inv a s" and n: "n \<in> set (refs a)"
  shows "\<exists>q. pager_lookup s n = Some q \<and> pgData q = current a n"
proof -
  have ph: "phase a \<noteq> Resting" using p n by (auto simp: pager_inv_def)
  have I: "phase_inv (phase a) a s" using p by (simp add: pager_inv_def)
  obtain q where q: "pager_lookup s n = Some q" "q \<in> set (pAll s)" "pgno q = n" using held_page phase_cache [OF I ph] n by metis
  have "pgData q = current a (pgno q)"
    using I q n by (cases "phase a") (auto simp: view_ok_def held_ok_def)
  then show ?thesis using q by blast
qed

lemma reading_disk: "phase_inv Reading a s \<Longrightarrow> on_disk s = (committed a, None)"
  "phase_inv Rolled_back a s \<Longrightarrow> on_disk s = (committed a, None)"
  by (simp_all add: reading_inv_def on_disk_def)

text \<open>What the program that opens the database next reads.\<close>

lemma reopened:
  assumes "reliable e" "safe D d" "0 < n" "n < max_pages"
  shows "\<exists>u q. sqlitepager_get e n (opened z mx ext d) = Some (SQLITE_OK, u) \<and> pager_lookup u n = Some q \<and>
    pgData q = dbpage D n \<and> on_disk u = (D, None)"
proof -
  have "phase_inv Resting (start D) (opened z mx ext d)" using opened_inv [OF assms(2)] by (simp add: pager_inv_def start_def)
  then obtain u where u: "sqlitepager_get e n (opened z mx ext d) = Some (SQLITE_OK, u)"
    "phase_inv Reading ((start D)\<lparr>phase := Reading, refs := [n]\<rparr>) u" using get_resting [OF assms(1)] assms(3,4) by blast
  have "pager_inv ((start D)\<lparr>phase := Reading, refs := [n]\<rparr>) u" using u(2) by (simp add: pager_inv_def)
  from held_current [OF this, of n] show ?thesis using u(1) reading_disk(1) [OF u(2)] by (auto simp: start_def)
qed

subsection \<open>Properties\<close>

text \<open>
  C1. The pager implements the store of pages.  Take the files in a state that leads back to the database \<open>D\<close>, with a
  journal that a killed program has left or without one, and any sequence of operations that a client may ask for, of any
  length and with any size of the cache: getting pages, pointers to them, transactions, writing pages, commit, rollback.  No
  assertion of the pager fails, every call returns what the specification says, every page that the client holds has the
  contents of the specification, and outside of a transaction the database file is the committed database, without a journal.
\<close>
theorem pager_refines:
  assumes "reliable e" "safe D d" "allowed legal spec_step ops (start D)"
  shows "\<exists>t. run_ops (pager_step e) ops (opened z mx ext d) = Some (results spec_rc spec_step ops (start D), t) \<and>
    (\<forall>n \<in> set (refs (fold spec_step ops (start D))).
       \<exists>q. pager_lookup t n = Some q \<and> pgData q = current (fold spec_step ops (start D)) n) \<and>
    (phase (fold spec_step ops (start D)) \<in> {Reading, Rolled_back} \<longrightarrow>
       on_disk t = (committed (fold spec_step ops (start D)), None))"
proof -
  obtain t where "run_ops (pager_step e) ops (opened z mx ext d) = Some (results spec_rc spec_step ops (start D), t)"
    "pager_inv (fold spec_step ops (start D)) t"
    using pager.run [of e "start D" "opened z mx ext d" ops] opened_inv assms by blast
  moreover from this(2) have "phase (fold spec_step ops (start D)) \<in> {Reading, Rolled_back} \<longrightarrow>
      on_disk t = (committed (fold spec_step ops (start D)), None)"
    using reading_disk unfolding pager_inv_def by auto
  ultimately show ?thesis using held_current by blast
qed

definition good_env :: sysenv where
  "good_env = \<lparr>result = (\<lambda>_ _. SQLITE_OK), room = (\<lambda>_. 0), fresh = (\<lambda>_ _. 0), random32 = (\<lambda>_. 7), native32 = (\<lambda>_. 0)\<rparr>"

lemma good_env_reliable: "reliable good_env"
  by (simp add: reliable_def good_env_def)

lemma empty_safe: "safe [] ([], None)"
  by (rule safe_none [of _ 0]) (simp_all add: max_pages_def)

theorem pager_refines_witness:
  "\<exists>t. run_ops (pager_step good_env) [Get 1, Write 1, Store 1 (replicate N 65), Commit, Get 1] (opened [] 10 0 ([], None)) =
     Some ([SQLITE_OK, SQLITE_OK, SQLITE_OK, SQLITE_OK, SQLITE_OK], t) \<and>
   (\<exists>q. pager_lookup t 1 = Some q \<and> pgData q = replicate N 65) \<and> on_disk t = (replicate N 65, None)"
  using pager_refines [OF good_env_reliable empty_safe, of "[Get 1, Write 1, Store 1 (replicate N 65), Commit, Get 1]" "[]" 10 0]
  by (simp add: start_def max_pages_def bytes_def)

text \<open>
  C2. Transactions are atomic.  Kill the program after any system call that changes a file, in the middle of the operation
  \<open>op\<close>: the next program that opens the database and gets a page rolls back what is half done, deletes the journal, and reads
  every page as it was committed before \<open>op\<close>, or every page as it is committed after \<open>op\<close>; only a commit makes the two
  differ.
\<close>
theorem pager_crash_recovery:
  assumes "reliable e" "safe D d" "allowed legal spec_step (ops @ [op]) (start D)"
    and "run_ops (pager_step e) ops (opened z mx ext d) = Some (rs, s)" "pager_step e op s = Some (r, t)"
    and "disklog t = L @ disklog s" "x \<in> set L" "reliable e'"
  shows "\<exists>D' \<in> {committed (fold spec_step ops (start D)), committed (fold spec_step (ops @ [op]) (start D))}.
    \<forall>n. 0 < n \<and> n < max_pages \<longrightarrow> (\<exists>u q. sqlitepager_get e' n (opened z' mx' ext' x) = Some (SQLITE_OK, u) \<and>
      pager_lookup u n = Some q \<and> pgData q = dbpage D' n \<and> on_disk u = (D', None))"
proof -
  let ?a = "fold spec_step ops (start D)"
  have al: "allowed legal spec_step ops (start D)" "legal op ?a" using assms(3) by (simp_all add: allowed_snoc)
  have s: "pager_inv ?a s" using pager.run [of e "start D" "opened z mx ext d" ops] opened_inv [OF assms(2)] assms(1,4) al(1) by fastforce
  obtain t' where "pager_step e op s = Some (spec_rc op ?a, t')"
    "logs (\<lambda>d. safe (committed ?a) d \<or> safe (committed (spec_step op ?a)) d) s t'"
    using pager_step_ok [OF assms(1) s al(2)] by blast
  then have "logs (\<lambda>d. safe (committed ?a) d \<or> safe (committed (spec_step op ?a)) d) s t" using assms(5) by simp
  then obtain K where "disklog t = K @ disklog s" "\<forall>d \<in> set K. safe (committed ?a) d \<or> safe (committed (spec_step op ?a)) d"
    unfolding logs_def by blast
  then have "safe (committed ?a) x \<or> safe (committed (spec_step op ?a)) x" using assms(6,7) by simp
  then obtain D' where "D' \<in> {committed ?a, committed (fold spec_step (ops @ [op]) (start D))}" "safe D' x" by auto
  then show ?thesis using reopened [OF assms(8)] by blast
qed

lemma commit_example:
  "\<exists>s t L. run_ops (pager_step good_env) [Get 1, Write 1, Store 1 (replicate N 65)] (opened [] 10 0 ([], None)) =
     Some ([SQLITE_OK, SQLITE_OK, SQLITE_OK], s) \<and>
   pager_step good_env Commit s = Some (SQLITE_OK, t) \<and> disklog t = L @ disklog s \<and> (replicate N 65, None) \<in> set L"
proof -
  let ?ops = "[Get 1, Write 1, Store 1 (replicate N 65)]"
  obtain s where s: "run_ops (pager_step good_env) ?ops (opened [] 10 0 ([], None)) = Some (results spec_rc spec_step ?ops (start []), s)"
    "pager_inv (fold spec_step ?ops (start [])) s"
    using pager.run [of good_env "start []" "opened [] 10 0 ([], None)" ?ops] opened_inv [OF empty_safe] good_env_reliable
    by (auto simp: start_def max_pages_def)
  have "phase_inv Writing (fold spec_step ?ops (start [])) s" using s(2) by (simp add: pager_inv_def start_def)
  from commit_ok [OF good_env_reliable this] obtain t L where "sqlitepager_commit good_env s = Some (SQLITE_OK, t)"
    "disklog t = (replicate N 65, None) # L @ disklog s" by (auto simp: start_def bytes_def)
  then show ?thesis
    using s(1) by (intro exI [of _ s] exI [of _ t] exI [of _ "(replicate N 65, None) # L"]) simp
qed

theorem pager_crash_recovery_witness:
  "\<exists>s t L. run_ops (pager_step good_env) [Get 1, Write 1, Store 1 (replicate N 65)] (opened [] 10 0 ([], None)) =
     Some ([SQLITE_OK, SQLITE_OK, SQLITE_OK], s) \<and>
   pager_step good_env Commit s = Some (SQLITE_OK, t) \<and> disklog t = L @ disklog s \<and> (replicate N 65, None) \<in> set L \<and>
   (\<exists>D' \<in> {[], replicate N 65}. \<forall>n. 0 < n \<and> n < max_pages \<longrightarrow>
     (\<exists>u q. sqlitepager_get good_env n (opened [] 10 0 (replicate N 65, None)) = Some (SQLITE_OK, u) \<and>
       pager_lookup u n = Some q \<and> pgData q = dbpage D' n \<and> on_disk u = (D', None)))"
proof -
  let ?ops = "[Get 1, Write 1, Store 1 (replicate N 65)]"
  obtain s t L where r: "run_ops (pager_step good_env) ?ops (opened [] 10 0 ([], None)) = Some ([SQLITE_OK, SQLITE_OK, SQLITE_OK], s)"
    "pager_step good_env Commit s = Some (SQLITE_OK, t)" "disklog t = L @ disklog s" "(replicate N 65, None) \<in> set L"
    using commit_example by blast
  have "allowed legal spec_step (?ops @ [Commit]) (start [])" by (simp add: start_def max_pages_def)
  from pager_crash_recovery [OF good_env_reliable empty_safe this r good_env_reliable] r show ?thesis
    by (simp add: start_def bytes_def)
qed

text \<open>Closing the pager.\<close>

lemma close_ok:
  assumes rel: "reliable e" and p: "pager_inv a s" and l: "legal Rollback a"
  shows "\<exists>f. sqlitepager_close e s = Some (SQLITE_OK, f) \<and> safe (committed a) (on_disk f)"
proof -
  have I: "phase_inv (phase a) a s" using p by (simp add: pager_inv_def)
  have D: "size_ok (committed a) k \<Longrightarrow> safe (committed a) (committed a, None)" for k using safe_none by (simp add: size_ok_def)
  have tr: "on_disk (fs.truncate t) = on_disk t" for t :: pager by (simp add: on_disk_def fs.truncate_def)
  have cl: "on_disk (t\<lparr>clock := k\<rparr>) = on_disk t" for t :: pager and k by (simp add: on_disk_def)
  show ?thesis
  proof (cases "phase a = Writing")
    case True
    then have w: "phase_inv Writing a s" using I by simp
    obtain t where t: "sqlitepager_rollback e s = Some (SQLITE_OK, t)" "phase_inv Rolled_back (revert Rolled_back a) t"
      using rollback_ok [OF rel w] l True by auto
    have r: "reading_inv (revert Rolled_back a) t" using t(2) by simp
    obtain m h J where i: "in_trans a (refs a) (committed a) m h J (pages a) s" using writing_trans [OF w] .
    have "on_disk t = (committed a, None)" using reading_disk(2) [OF t(2)] by (simp add: revert_def)
    moreover have "sqlitepager_close e s = Some (SQLITE_OK, fs.truncate (t\<lparr>clock := Suc (clock t)\<rparr>))"
      using t(1) reading_invD(2) [OF r] journal_invD(1) [OF in_transD(5) [OF i]] rel by (simp add: sqlitepager_close_def os_call_ok)
    ultimately show ?thesis using D reading_invD(6) [OF r] by (simp add: tr cl revert_def)
  next
    case False
    show ?thesis
    proof (cases "phase a = Resting")
      case True
      then have "sqlitepager_close e s = Some (SQLITE_OK, fs.truncate s)" "safe (committed a) (on_disk s)"
        using I by (simp_all add: sqlitepager_close_def at_rest_def lock_defs)
      then show ?thesis by (simp add: tr)
    next
      case no: False
      then have r: "reading_inv a s" using I False by (cases "phase a") simp_all
      have "sqlitepager_close e s = Some (SQLITE_OK, fs.truncate (s\<lparr>clock := Suc (clock s)\<rparr>))"
        using reading_invD(1,2) [OF r] rel by (simp add: sqlitepager_close_def os_call_ok)
      moreover have "on_disk s = (committed a, None)" using r by (simp add: reading_inv_def on_disk_def)
      ultimately show ?thesis using D reading_invD(6) [OF r] by (simp add: tr cl)
    qed
  qed
qed



subsection \<open>A playback that fails\<close>

text \<open>
  When the database cannot be written while a journal is played back, the journal is deleted all the same, and what the
  transaction has left in the database stays there.
\<close>

lemma read_ok:
  assumes "result e (clock s) (Call_read f) = SQLITE_OK" "offs (files s f) + amt \<le> length (content (files s f))"
  shows "sqliteOsRead e f amt s =
    (SQLITE_OK, take amt (drop (offs (files s f)) (content (files s f))),
     s\<lparr>files := (files s)(f := (files s f)\<lparr>offs := offs (files s f) + amt\<rparr>), clock := Suc (clock s)\<rparr>)"
proof -
  have "length (take amt (drop (offs (files s f)) (content (files s f)))) = amt" using assms(2) by simp
  then show ?thesis using assms(1) by (simp add: sqliteOsRead_def Let_def tick_def set_file_def del: length_take)
qed

text \<open>
  C27. When the database file cannot be truncated during the playback of a journal, \<open>pager_playback\<close> returns
  \<open>SQLITE_CORRUPT\<close>, but it has also deleted the journal: the database file keeps what the transaction has left in it, and
  nothing leads back any more.
\<close>
theorem failed_playback_loses_journal:
  assumes res: "\<And>k c. result e k c = SQLITE_OK \<longleftrightarrow> c \<noteq> Call_truncate DB"
    and s: "journalOpen s" "state s = SQLITE_WRITELOCK" "\<not> ckptInUse s" "origDbSize s = 0 \<or> origDbSize s = int m"
    and j: "content (files s JRN) = jcontent h c m D J" "m < max_pages"
  shows "\<exists>t. pager_playback e u s = Some (SQLITE_CORRUPT, t) \<and> on_disk t = (content (files s DB), None)"
proof -
  define F where "F = (files s)(JRN := (files s JRN)\<lparr>offs := 20\<rparr>)"
  define k where "k = Suc (Suc (Suc (Suc (Suc (Suc (clock s))))))"
  have ne: "SQLITE_IOERR \<noteq> SQLITE_OK" by (simp add: rc_defs)
  have b: "playback_body e u s = Some (SQLITE_IOERR, s\<lparr>files := F, clock := k, cksumInit := c\<rparr>)" "F DB = files s DB"
    using s(1,4) of_nat_page(2) [OF j(2)] ne
    by (simp_all add: playback_body_def os_seek sqliteOsFileSize_def res read_ok j(1) jcontent_parts journal_header_def read32bits_def Let_def
        sqliteOsTruncate_def tick_def F_def k_def)
  show ?thesis
    using b s(1-3)
    by (simp add: pager_playback_def pager_unwritelock_def sqlitepager_ckpt_commit_def delete_journal_def logged_def on_disk_def syscall_def
        res tick_def Let_def rc_defs)
qed

definition bad_env :: sysenv where
  "bad_env = good_env\<lparr>result := (\<lambda>_ c. if c = Call_truncate DB then 5 else SQLITE_OK)\<rparr>"

lemma bad_env_result: "result bad_env k c = SQLITE_OK \<longleftrightarrow> c \<noteq> Call_truncate DB"
  by (simp add: bad_env_def SQLITE_OK_def)

theorem failed_playback_loses_journal_witness:
  "\<exists>t. pager_playback bad_env False ((opened [] 10 0 (replicate N 65, Some (jcontent 0 7 0 [] [])))\<lparr>state := SQLITE_WRITELOCK, journalOpen := True\<rparr>) =
     Some (SQLITE_CORRUPT, t) \<and> on_disk t = (replicate N 65, None)"
  using failed_playback_loses_journal [OF bad_env_result, where m = 0 and h = 0 and c = 7 and D = "[]" and J = "[]" and u = False and
    s = "(opened [] 10 0 (replicate N 65, Some (jcontent 0 7 0 [] [])))\<lparr>state := SQLITE_WRITELOCK, journalOpen := True\<rparr>"]
  by (simp add: opened_def sqlitepager_open_def found_def max_pages_def)

end
