(* ===== verification/Spec2Isabelle.thy ===== *)
theory Spec2Isabelle
  imports Encode Like Hash Posixlock Os_Lock Complete Rc4 Expr_Program Sorter Keylist Values Vdbe_Type Aggregate Pager_Crash
begin

text \<open>
  A verification development for the C code of \<^verbatim>\<open>rq\<close> (ruby queue): the file-locking
  extension \<^verbatim>\<open>ext/posixlock.c\<close> and the SQLite 2.8.17 database engine under
  \<^verbatim>\<open>ext/sqlite-2.8.17/src\<close> that the queue keeps its jobs in.  File names below are relative to that
  directory unless they start with \<^verbatim>\<open>ext/\<close>.

  \<^bold>\<open>How the program works.\<close>  The Ruby program locks the queue directory with \<open>File#posixlock\<close> or \<open>File#lockf\<close>
  (\<^verbatim>\<open>ext/posixlock.c\<close>) and sends SQL to the engine.  The engine splits the text into tokens
  (\<^verbatim>\<open>tokenize.c\<close>), a generated parser builds trees, \<^verbatim>\<open>expr.c\<close> and the statement generators compile
  them to a program (\<^verbatim>\<open>vdbeaux.c\<close>), and the virtual machine (\<^verbatim>\<open>vdbe.c\<close>) runs it on the B-trees,
  through the pager, on files that \<^verbatim>\<open>os.c\<close> locks.  Symbol tables are hash tables (\<^verbatim>\<open>hash.c\<close>) and
  strings are handled by \<^verbatim>\<open>util.c\<close>.

  \<^bold>\<open>Foundations.\<close>
  \<^item> \<open>Prelude\<close>: bytes and 32-bit integers as words, NUL-terminated strings as lists of bytes (\<open>zat\<close> reads
    the terminator), and facts on lists and words.
  \<^item> \<open>Comparator\<close>: the contract of three-way comparison functions as a locale, and lexicographic
    combinations of them.  \<open>Util\<close> interprets it on \<open>strcmp\<close>, the order of text columns.
  \<^item> \<open>Posix\<close>: \<open>errno\<close> and \<open>fcntl\<close> names; the system call itself is an argument.

  \<^bold>\<open>Strings, tokens and data.\<close>
  \<^item> \<open>Util\<close> (\<^verbatim>\<open>util.c\<close>): case folding, comparison, numeric syntax, dequoting, sort keys.
    \<open>sqliteSortCompare\<close> is the lexicographic order of the columns; the syntax tests decide their grammars.
  \<^item> \<open>Like\<close> (\<^verbatim>\<open>util.c\<close>): \<open>LIKE\<close> and \<open>GLOB\<close> decide the declarative meaning of patterns.
  \<^item> \<open>Encode\<close> (\<^verbatim>\<open>encode.c\<close>): the binary encoding round-trips, contains no forbidden byte and fits the
    documented buffer; the decoder also works in place.
  \<^item> \<open>Hash\<close> (\<^verbatim>\<open>hash.c\<close>): a heap of linked elements with buckets refines a finite map.
  \<^item> \<open>Rc4\<close> (\<^verbatim>\<open>random.c\<close>): the state stays a permutation and no step loses information.
  \<^item> \<open>Tokenize\<close>, \<open>Complete\<close> (\<^verbatim>\<open>tokenize.c\<close>): tokens partition the text, the keyword hash finds exactly the
    keywords, the driver feeds the parser (an argument) exactly the tokens of the text, and the state
    machine of \<open>sqlite_complete\<close> recognises complete statements.
  \<^item> \<open>Safety\<close> (\<^verbatim>\<open>util.c\<close>): the misuse detection as a state machine.

  \<^bold>\<open>Locks.\<close>
  \<^item> \<open>Posixlock\<close> (\<^verbatim>\<open>ext/posixlock.c\<close>): the two methods make exactly the request of their argument and retry
    it while a signal interrupts it.
  \<^item> \<open>Os_Lock\<close> (\<^verbatim>\<open>os.c\<close>): handles, lock counts per inode and deferred closes as explicit stores with
    pointers.  In every run the lock of the process on a file is the one its handles rely on.

  \<^bold>\<open>Compilation and execution.\<close>
  \<^item> \<open>Vdbeaux\<close> (\<^verbatim>\<open>vdbeaux.c\<close>): the program builder refines a two-pass assembler.
  \<^item> \<open>Mem\<close>, \<open>Values\<close> (\<^verbatim>\<open>vdbe.c\<close>, \<^verbatim>\<open>vdbeInt.h\<close>): values with several representations and the operators of the
    opcodes.
  \<^item> \<open>Vdbe\<close>, \<open>Vdbe_Type\<close> (\<^verbatim>\<open>vdbe.c\<close>): the interpreter and a type invariant of all its runs.
  \<^item> \<open>Expr\<close>, \<open>Expr_Code\<close> (\<^verbatim>\<open>expr.c\<close>): trees, the routines that inspect them, and the code generator.
  \<^item> \<open>Expr_Correct\<close>, \<open>Expr_Jump\<close>, \<open>Expr_Program\<close>: the generated code, run by the interpreter, computes the value
    of the expression, a function by recursion on the tree, and the conditional jumps follow its truth value in
    the logic of three values.
  \<^item> \<open>Aggregate\<close> (\<^verbatim>\<open>expr.c\<close>): the analysis of aggregate queries.
  \<^item> \<open>Row_Record\<close>, \<open>Sorter\<close>, \<open>Keylist\<close> (\<^verbatim>\<open>vdbe.c\<close>): the record format, the merge sort and the lists of row
    numbers.  The locales \<open>sort_client\<close> and \<open>spool\<close> state what the programs rely on, and are interpreted on
    these definitions.

  \<^bold>\<open>Storage.\<close>
  \<^item> \<open>Os_File\<close> (\<^verbatim>\<open>os.c\<close>): files and the calls on them.  The result of each system call is given by the
    environment \<open>sysenv\<close>; \<open>disklog\<close> records what is on the disk after every call that changes a file.
  \<^item> \<open>Pager\<close> (\<^verbatim>\<open>pager.c\<close>): the page cache, the rollback journal and the checkpoint journal, every
    operation with its error paths and assertions.
  \<^item> \<open>Pager_Journal\<close>, \<open>Pager_Recover\<close>: the format of the journal, playing it back, and \<open>safe D\<close>, the states of the
    disk from which the next program restores the database \<open>D\<close>.
  \<^item> \<open>Pager_Trans\<close>: the specification, a store of pages with one transaction at a time (\<open>spec_step\<close>), and what a
    client may ask for (\<open>legal\<close>).  \<open>Pager_Inv\<close>: the relation between the store and the pager in each phase of a
    transaction.
  \<^item> \<open>Pager_Get\<close>, \<open>Pager_Sync\<close>, \<open>Pager_Write\<close>, \<open>Pager_Commit\<close>, \<open>Pager_Rollback\<close>, \<open>Pager_Begin\<close>, \<open>Pager_Dirty\<close>, \<open>Pager_Fetch\<close>: each
    operation keeps the relation, and each state of the disk on the way is \<open>safe\<close>.
  \<^item> \<open>Pager_Refine\<close>, \<open>Pager_Crash\<close>: the pager refines the store, and transactions are atomic when the program is
    killed.  The locale \<open>service\<close> carries the step to sequences of operations.
  These theorems are about system calls that succeed (\<open>reliable\<close>) and databases below \<open>max_pages\<close>, 2 to the power of
  22 pages, where the product of a page number and the page size fits in 32 bits.  A kill happens between two system
  calls; what a loss of power does to writes that are not yet on the disk is not modelled.  Checkpoints are modelled
  but are not part of the specification.

  \<^bold>\<open>Loops.\<close>  A loop over a string or a list is a terminating function.  A loop that the code does not bound is a
  \<open>partial_function\<close> into \<open>option\<close> (the retries of \<open>Posixlock\<close>, the walks through the linked lists of \<open>Hash\<close>), and
  the theorems show when it returns.  \<open>sqliteVdbeExec\<close> takes the number of instructions it may execute; the theorems
  on generated code state that some number is enough and give the final state.

  \<^bold>\<open>Parameters.\<close>  Code that is not part of the repository is an argument: \<open>fcntl\<close> and the other system calls (with
  what POSIX says of them as the predicate \<open>posix_kernel\<close>), the Ruby interpreter, the generated parser, floating point
  arithmetic, the functions that SQL expressions call, the seed of the random numbers, and whether an allocation
  succeeds.

  \<^bold>\<open>Not modelled.\<close>  The statement generators (\<^verbatim>\<open>select.c\<close>, \<^verbatim>\<open>where.c\<close>, \<^verbatim>\<open>build.c\<close>, \<^verbatim>\<open>insert.c\<close>,
  \<^verbatim>\<open>update.c\<close>, \<^verbatim>\<open>delete.c\<close>, \<^verbatim>\<open>trigger.c\<close> and others), the B-tree, the opcodes on cursors, the SQL functions, the shells and language bindings, and the test and build tools.  Floating point
  conversion and printing rest on the host's arithmetic.  The Ruby code of the queue is not C.
\<close>

end
